(* ===== verification/Hatchet_Prelude.thy ===== *)
theory Hatchet_Prelude
  imports Main "HOL-Library.Multiset" "HOL-Library.AList"
begin

text \<open>
  Shared vocabulary of the development: Go's fixed-width signed conversion, three-way
  comparison, the contract a three-way comparator has to satisfy (a locale), swapping two
  positions of a slice, association lists for the maps that are iterated, and the list and multiset
  lemmas the component theories share.
  Collections of rewrite rules: \<open>go_int\<close> (fixed-width conversions inside their range) and
  \<open>heap_frame\<close> (what an operation of the undo heap leaves alone).
\<close>

named_theorems go_int
named_theorems heap_frame

section \<open>Go integers\<close>

text \<open>
  Go's conversion to \<open>int32\<close> keeps the low 32 bits and reads them in two's complement.
  Values of Go's \<open>int\<close> and \<open>int64\<close> that only count slots or hold timestamps are plain \<open>int\<close>.
\<close>

definition int32 :: "int \<Rightarrow> int" where
  "int32 x = (x + 2 ^ 31) mod 2 ^ 32 - 2 ^ 31"

lemma int32_id [go_int]: "- (2 ^ 31) \<le> x \<Longrightarrow> x < 2 ^ 31 \<Longrightarrow> int32 x = x"
  by (simp add: int32_def)

lemma int32_range: "- (2 ^ 31) \<le> int32 x \<and> int32 x < 2 ^ 31"
proof -
  have "0 \<le> (x + 2 ^ 31) mod 2 ^ 32" "(x + 2 ^ 31) mod 2 ^ 32 < (2 ^ 32 :: int)"
    by (rule pos_mod_sign, simp, rule pos_mod_bound, simp)
  then show ?thesis by (simp add: int32_def)
qed

text \<open>Go's \<open>cmp.Compare\<close> on integers.\<close>

definition cmp_Compare :: "int \<Rightarrow> int \<Rightarrow> int" where
  "cmp_Compare a b = (if a < b then - 1 else if a > b then 1 else 0)"

lemma cmp_Compare_simps [simp]:
  "cmp_Compare a b < 0 \<longleftrightarrow> a < b"
  "0 < cmp_Compare a b \<longleftrightarrow> b < a"
  "cmp_Compare a b \<le> 0 \<longleftrightarrow> a \<le> b"
  "0 \<le> cmp_Compare a b \<longleftrightarrow> b \<le> a"
  "cmp_Compare a b = 0 \<longleftrightarrow> a = b"
  by (auto simp: cmp_Compare_def)

section \<open>Comparators\<close>

text \<open>
  What a heap asks of its three-way comparator: a total preorder, read off the sign.
\<close>

locale comparator =
  fixes compare :: "'a \<Rightarrow> 'a \<Rightarrow> int"
  assumes compare_flip: "compare a b < 0 \<longleftrightarrow> 0 < compare b a"
    and compare_trans: "compare a b \<le> 0 \<Longrightarrow> compare b c \<le> 0 \<Longrightarrow> compare a c \<le> 0"
begin

lemma compare_refl: "compare a a = 0"
proof -
  have "\<not> compare a a < 0" "\<not> 0 < compare a a"
    using compare_flip [of a a] by linarith+
  then show ?thesis by linarith
qed

lemma compare_ge_iff: "0 \<le> compare a b \<longleftrightarrow> compare b a \<le> 0"
  using compare_flip [of a b] compare_flip [of b a] by linarith

lemma compare_less_imp_le: "compare a b < 0 \<Longrightarrow> compare a b \<le> 0"
  by simp

lemma compare_not_less: "\<not> compare a b < 0 \<longleftrightarrow> compare b a \<le> 0"
  using compare_flip [of a b] compare_flip [of b a] by linarith

lemma compare_le_less_trans: "compare a b \<le> 0 \<Longrightarrow> compare b c < 0 \<Longrightarrow> compare a c < 0"
  using compare_trans [of c a b] compare_not_less by (metis not_le)

lemma compare_less_le_trans: "compare a b < 0 \<Longrightarrow> compare b c \<le> 0 \<Longrightarrow> compare a c < 0"
  using compare_trans [of b c a] compare_not_less by (metis not_le)

end

section \<open>Swapping two positions\<close>

definition list_swap :: "'a list \<Rightarrow> nat \<Rightarrow> nat \<Rightarrow> 'a list" where
  "list_swap xs i j = xs[i := xs ! j, j := xs ! i]"

lemma length_list_swap [simp]: "length (list_swap xs i j) = length xs"
  by (simp add: list_swap_def)

lemma nth_list_swap:
  "i < length xs \<Longrightarrow> j < length xs \<Longrightarrow> k < length xs \<Longrightarrow>
   list_swap xs i j ! k = (if k = i then xs ! j else if k = j then xs ! i else xs ! k)"
  by (auto simp: list_swap_def nth_list_update)

lemma mset_list_swap [simp]:
  "i < length xs \<Longrightarrow> j < length xs \<Longrightarrow> mset (list_swap xs i j) = mset xs"
  by (simp add: list_swap_def mset_swap)

lemma set_list_swap [simp]:
  "i < length xs \<Longrightarrow> j < length xs \<Longrightarrow> set (list_swap xs i j) = set xs"
  using mset_list_swap [of i xs j] by (metis mset_eq_setD)

lemma mset_take_last:
  "xs \<noteq> [] \<Longrightarrow> mset (take (length xs - 1) xs) = mset xs - {# xs ! (length xs - 1) #}"
  by (cases xs rule: rev_cases) (auto simp: nth_append)

lemma distinct_map_mset: "mset xs = mset ys \<Longrightarrow> distinct (map f xs) = distinct (map f ys)"
  by (metis mset_eq_imp_distinct_iff mset_map)

lemma filter_mset_all: "(\<And>x. x \<in># M \<Longrightarrow> P x) \<Longrightarrow> filter_mset P M = M"
  by (simp add: filter_mset_eq_conv)

lemma mset_remove_key:
  assumes "distinct (map f vs)" "k < length vs"
  shows "mset vs - {# vs ! k #} = filter_mset (\<lambda>x. f x \<noteq> f (vs ! k)) (mset vs)"
proof -
  have "filter_mset (\<lambda>x. f x \<noteq> f (vs ! k)) (mset (take k vs)) = mset (take k vs)"
    and "filter_mset (\<lambda>x. f x \<noteq> f (vs ! k)) (mset (drop (Suc k) vs)) = mset (drop (Suc k) vs)"
    using assms by (auto simp: filter_mset_eq_conv in_set_conv_nth distinct_conv_nth)
  moreover have "mset vs = add_mset (vs ! k) (mset (take k vs) + mset (drop (Suc k) vs))"
    using assms(2) by (metis append.assoc append_Cons id_take_nth_drop mset.simps(2) mset_append union_mset_add_mset_right)
  ultimately show ?thesis by simp
qed

lemma option_eq_iff: "(\<And>x. a = Some x \<longleftrightarrow> b = Some x) \<Longrightarrow> a = b"
  by (cases a; cases b) auto

section \<open>Association lists\<close>

text \<open>
  A Go map that the code iterates over is an association list with distinct keys; its order is the
  order of the iteration.
\<close>

definition distinct_keys :: "('k \<times> 'v) list \<Rightarrow> bool" where
  "distinct_keys xs \<longleftrightarrow> distinct (map fst xs)"

lemma distinct_keys_simps [simp]:
  "distinct_keys []"
  "distinct_keys ((k, v) # xs) \<longleftrightarrow> k \<notin> fst ` set xs \<and> distinct_keys xs"
  by (auto simp: distinct_keys_def)

lemma distinct_keys_update [simp]: "distinct_keys xs \<Longrightarrow> distinct_keys (AList.update k v xs)"
  by (simp add: distinct_keys_def distinct_update)

lemma distinct_keys_delete [simp]: "distinct_keys xs \<Longrightarrow> distinct_keys (AList.delete k xs)"
  by (simp add: distinct_keys_def distinct_delete)

lemma set_AList_update: "p \<in> set (AList.update k v xs) \<Longrightarrow> p = (k, v) \<or> p \<in> set xs"
  by (induction xs) (auto split: if_splits)

lemma set_AList_delete: "p \<in> set (AList.delete k xs) \<Longrightarrow> p \<in> set xs"
  by (induction xs) (auto split: if_splits)

lemma map_of_update [simp]: "map_of (AList.update k v xs) = (map_of xs)(k \<mapsto> v)"
  by (rule update_conv')

lemma map_of_AList_delete [simp]: "map_of (AList.delete k xs) = (map_of xs)(k := None)"
  by (rule delete_conv')

lemma sum_AList_update:
  fixes f :: "'v \<Rightarrow> int"
  assumes "distinct_keys xs"
  shows "(\<Sum>(_, v)\<leftarrow>AList.update k v xs. f v) =
     (\<Sum>(_, v)\<leftarrow>xs. f v) - (case map_of xs k of None \<Rightarrow> 0 | Some u \<Rightarrow> f u) + f v"
  using assms
  by (induction xs) (auto simp: map_of_eq_None_iff[THEN iffD2] split: option.splits)

lemma sum_AList_delete:
  fixes f :: "'v \<Rightarrow> int"
  assumes "distinct_keys xs"
  shows "(\<Sum>(_, v)\<leftarrow>AList.delete k xs. f v) =
     (\<Sum>(_, v)\<leftarrow>xs. f v) - (case map_of xs k of None \<Rightarrow> 0 | Some u \<Rightarrow> f u)"
  using assms
proof (induction xs)
  case (Cons p xs)
  obtain k' u where p: "p = (k', u)" by (cases p)
  show ?case
  proof (cases "k' = k")
    case True
    then have "AList.delete k xs = xs"
      using Cons.prems p by (simp add: delete_id)
    then show ?thesis using True p by simp
  next
    case False
    then show ?thesis using Cons p by simp
  qed
qed simp

end
