(* ===== verification/Undo_Heap.thy ===== *)
theory Undo_Heap
  imports Hatchet_Prelude
begin

text \<open>
  The indexed binary min-heap with an undo journal
  (\<open>src/pkg/scheduling/v1/concurrency/heap.go\<close>).

  A Go heap holds its element slice, three callbacks and the journal. The callbacks are the
  record \<open>heapFuns\<close> here; \<open>setIndex\<close> writes a position into storage owned by the heap's user,
  so every operation threads that storage \<open>'m\<close> next to the heap, in the order the code makes
  the calls. The nil checks of \<open>newHeap\<close> have no counterpart: a HOL function is never nil.
  An element slice is a list; reads such as \<open>h.values[i]\<close> stay in range on every path, which
  the invariant shows.

  The contract of the callbacks is the locale \<open>indexed_heap\<close>; it is interpreted for the two
  heaps of the slot index in the theory \<open>Slot_Index\<close>.
\<close>

section \<open>Model\<close>

record ('a, 'm) heapFuns =
  compare :: "'a \<Rightarrow> 'a \<Rightarrow> int"
  setIndex :: "'a \<Rightarrow> int \<Rightarrow> 'm \<Rightarrow> 'm"
  getIndex :: "'a \<Rightarrow> 'm \<Rightarrow> int option"

record 'a undoEntry =
  undo_value :: 'a
  added :: bool

record 'a heap =
  heap_values :: "'a list"
  journal :: "'a undoEntry list"
  recording :: bool

type_synonym ('a, 'm) heap_state = "'a heap \<times> 'm"

definition newHeap :: "'a heap" where
  "newHeap = \<lparr>heap_values = [], journal = [], recording = False\<rparr>"

definition heap_begin :: "'a heap \<Rightarrow> 'a heap" where
  "heap_begin h = h\<lparr>journal := [], recording := True\<rparr>"

definition heap_commit :: "'a heap \<Rightarrow> 'a heap" where
  "heap_commit h = h\<lparr>journal := [], recording := False\<rparr>"

definition heap_len :: "'a heap \<Rightarrow> int" where
  "heap_len h = int (length (heap_values h))"

fun heap_swap :: "('a, 'm) heapFuns \<Rightarrow> nat \<Rightarrow> nat \<Rightarrow> ('a, 'm) heap_state \<Rightarrow> ('a, 'm) heap_state" where
  "heap_swap fs i j (h, m) =
     (let vs = list_swap (heap_values h) i j
      in (h\<lparr>heap_values := vs\<rparr>, setIndex fs (vs ! j) (int j) (setIndex fs (vs ! i) (int i) m)))"

text \<open>\<open>record_undo\<close> is the journal append that the write operations end with.\<close>

fun record_undo :: "'a \<Rightarrow> bool \<Rightarrow> ('a, 'm) heap_state \<Rightarrow> ('a, 'm) heap_state" where
  "record_undo x a (h, m) =
     (if recording h
      then (h\<lparr>journal := journal h @ [\<lparr>undo_value = x, added = a\<rparr>]\<rparr>, m)
      else (h, m))"

function heap_up :: "('a, 'm) heapFuns \<Rightarrow> nat \<Rightarrow> ('a, 'm) heap_state \<Rightarrow> ('a, 'm) heap_state" where
  "heap_up fs i (h, m) =
     (if 0 < i
      then let p = (i - 1) div 2
           in if 0 \<le> compare fs (heap_values h ! i) (heap_values h ! p) then (h, m)
              else heap_up fs p (heap_swap fs p i (h, m))
      else (h, m))"
  by pat_completeness auto
termination
  by (relation "measure (\<lambda>(fs, i, st). i)") auto

text \<open>The loop of \<open>down\<close>: it returns the position the element ends at.\<close>

function heap_down_loop :: "('a, 'm) heapFuns \<Rightarrow> nat \<Rightarrow> ('a, 'm) heap_state \<Rightarrow> nat \<times> ('a, 'm) heap_state" where
  "heap_down_loop fs i (h, m) =
     (let n = length (heap_values h); lc = 2 * i + 1
      in if n \<le> lc then (i, h, m)
         else let rc = lc + 1;
                  child = (if rc < n \<and> compare fs (heap_values h ! rc) (heap_values h ! lc) < 0
                           then rc else lc)
              in if 0 \<le> compare fs (heap_values h ! child) (heap_values h ! i) then (i, h, m)
                 else heap_down_loop fs child (heap_swap fs i child (h, m)))"
  by pat_completeness auto
termination
  by (relation "measure (\<lambda>(fs, i, h, m). length (heap_values h) - i)") (auto simp: Let_def)

definition heap_down :: "('a, 'm) heapFuns \<Rightarrow> nat \<Rightarrow> ('a, 'm) heap_state \<Rightarrow> bool \<times> ('a, 'm) heap_state" where
  "heap_down fs i st = (case heap_down_loop fs i st of (j, st') \<Rightarrow> (i < j, st'))"

declare heap_up.simps [simp del] heap_down_loop.simps [simp del]

fun heap_insert :: "('a, 'm) heapFuns \<Rightarrow> 'a \<Rightarrow> ('a, 'm) heap_state \<Rightarrow> ('a, 'm) heap_state" where
  "heap_insert fs x (h, m) =
     (let vs = heap_values h @ [x];
          st = (h\<lparr>heap_values := vs\<rparr>, setIndex fs x (int (length vs - 1)) m)
      in record_undo x True (heap_up fs (length vs - 1) st))"

fun heap_delete :: "('a, 'm) heapFuns \<Rightarrow> int \<Rightarrow> ('a, 'm) heap_state \<Rightarrow> ('a, 'm) heap_state" where
  "heap_delete fs i (h, m) =
     (if i < 0 \<or> int (length (heap_values h)) \<le> i then (h, m)
      else let k = nat i;
               removed = heap_values h ! k;
               n = length (heap_values h) - 1;
               (h1, m1) = (if n \<noteq> k then heap_swap fs k n (h, m) else (h, m));
               m2 = setIndex fs (heap_values h1 ! n) (- 1) m1;
               h2 = h1\<lparr>heap_values := take n (heap_values h1)\<rparr>;
               st3 = (if n \<noteq> k
                      then (case heap_down fs k (h2, m2) of
                              (moved, st) \<Rightarrow> if moved then st else heap_up fs k st)
                      else (h2, m2))
           in record_undo removed False st3)"

text \<open>The element loop of \<open>insertMany\<close>: positions and journal entries of the appended tail.\<close>

fun index_tail :: "('a, 'm) heapFuns \<Rightarrow> nat \<Rightarrow> 'a list \<Rightarrow> ('a, 'm) heap_state \<Rightarrow> ('a, 'm) heap_state" where
  "index_tail fs k [] st = st"
| "index_tail fs k (e # es) (h, m) =
     index_tail fs (Suc k) es (record_undo e True (h, setIndex fs e (int k) m))"

fun heapify_from :: "('a, 'm) heapFuns \<Rightarrow> nat \<Rightarrow> ('a, 'm) heap_state \<Rightarrow> ('a, 'm) heap_state" where
  "heapify_from fs 0 st = st"
| "heapify_from fs (Suc i) st = heapify_from fs i (snd (heap_down fs i st))"

definition heap_heapify :: "('a, 'm) heapFuns \<Rightarrow> ('a, 'm) heap_state \<Rightarrow> ('a, 'm) heap_state" where
  "heap_heapify fs st = heapify_from fs (length (heap_values (fst st)) div 2) st"

fun heap_insertMany :: "('a, 'm) heapFuns \<Rightarrow> 'a list \<Rightarrow> ('a, 'm) heap_state \<Rightarrow> ('a, 'm) heap_state" where
  "heap_insertMany fs es (h, m) =
     (let start = length (heap_values h)
      in heap_heapify fs (index_tail fs start es (h\<lparr>heap_values := heap_values h @ es\<rparr>, m)))"

definition heap_peek :: "'a heap \<Rightarrow> 'a option" where
  "heap_peek h = (case heap_values h of [] \<Rightarrow> None | v # _ \<Rightarrow> Some v)"

text \<open>\<open>takeMin\<close> panics on an empty heap: \<open>None\<close>.\<close>

fun heap_takeMin :: "('a, 'm) heapFuns \<Rightarrow> ('a, 'm) heap_state \<Rightarrow> ('a \<times> ('a, 'm) heap_state) option" where
  "heap_takeMin fs (h, m) =
     (case heap_values h of [] \<Rightarrow> None | v # _ \<Rightarrow> Some (v, heap_delete fs 0 (h, m)))"

fun heap_pop_loop :: "('a, 'm) heapFuns \<Rightarrow> nat \<Rightarrow> ('a, 'm) heap_state \<Rightarrow> 'a list \<times> ('a, 'm) heap_state" where
  "heap_pop_loop fs 0 st = ([], st)"
| "heap_pop_loop fs (Suc n) st =
     (case heap_takeMin fs st of
        None \<Rightarrow> ([], st)
      | Some (v, st') \<Rightarrow> (case heap_pop_loop fs n st' of (vs, st'') \<Rightarrow> (v # vs, st'')))"

definition heap_pop :: "('a, 'm) heapFuns \<Rightarrow> int \<Rightarrow> ('a, 'm) heap_state \<Rightarrow> 'a list \<times> ('a, 'm) heap_state" where
  "heap_pop fs n st = (if n \<le> 0 then ([], st) else heap_pop_loop fs (nat n) st)"

text \<open>The loop of \<open>rollback\<close> walks the journal from its end.\<close>

fun rollback_entries :: "('a, 'm) heapFuns \<Rightarrow> 'a undoEntry list \<Rightarrow> ('a, 'm) heap_state \<Rightarrow> ('a, 'm) heap_state" where
  "rollback_entries fs [] st = st"
| "rollback_entries fs (e # es) (h, m) =
     rollback_entries fs es
       (if added e
        then (case getIndex fs (undo_value e) m of
                Some idx \<Rightarrow> heap_delete fs idx (h, m)
              | None \<Rightarrow> (h, m))
        else heap_insert fs (undo_value e) (h, m))"

fun heap_rollback :: "('a, 'm) heapFuns \<Rightarrow> ('a, 'm) heap_state \<Rightarrow> ('a, 'm) heap_state" where
  "heap_rollback fs (h, m) =
     (case rollback_entries fs (rev (journal h)) (h\<lparr>recording := False\<rparr>, m) of
        (h', m') \<Rightarrow> (h'\<lparr>journal := []\<rparr>, m'))"

definition swap_stable :: "('a, 'm) heapFuns \<Rightarrow> (('a, 'm) heap_state \<Rightarrow> bool) \<Rightarrow> bool" where
  "swap_stable fs Q \<longleftrightarrow>
     (\<forall>h m i j. i < length (heap_values h) \<longrightarrow> j < length (heap_values h) \<longrightarrow>
        Q (h, m) \<longrightarrow> Q (heap_swap fs i j (h, m)))"

lemma swap_stableI:
  "(\<And>h m i j. i < length (heap_values h) \<Longrightarrow> j < length (heap_values h) \<Longrightarrow>
     Q (h, m) \<Longrightarrow> Q (heap_swap fs i j (h, m))) \<Longrightarrow> swap_stable fs Q"
  by (simp add: swap_stable_def)

lemma swap_stableD:
  "swap_stable fs Q \<Longrightarrow> i < length (heap_values h) \<Longrightarrow> j < length (heap_values h) \<Longrightarrow>
   Q (h, m) \<Longrightarrow> Q (heap_swap fs i j (h, m))"
  by (simp add: swap_stable_def)

lemma heap_swap_frame [simp]:
  "length (heap_values (fst (heap_swap fs i j st))) = length (heap_values (fst st))"
  "journal (fst (heap_swap fs i j st)) = journal (fst st)"
  "recording (fst (heap_swap fs i j st)) = recording (fst st)"
  "heap_values (fst (heap_swap fs i j st)) = list_swap (heap_values (fst st)) i j"
  by (cases st, simp add: Let_def)+

definition parent :: "nat \<Rightarrow> nat" where
  "parent j = (j - 1) div 2"

lemma parent_less [simp]: "0 < j \<Longrightarrow> parent j < j"
  by (auto simp: parent_def)

lemma parent_bound [simp]: "j < n \<Longrightarrow> parent j < n"
  by (auto simp: parent_def)

lemma parent_children [simp]: "parent (2 * i + 1) = i" "parent (2 * i + 2) = i"
  "parent (Suc (2 * i)) = i" "parent (Suc (Suc (2 * i))) = i"
  by (simp_all add: parent_def)

lemma child_cases: "0 < j \<Longrightarrow> parent j = i \<Longrightarrow> j = 2 * i + 1 \<or> j = 2 * i + 2"
  by (auto simp: parent_def)

declare heap_swap.simps [simp del]

lemma heap_up_go:
  assumes "0 < i" "compare fs (heap_values (fst st) ! i) (heap_values (fst st) ! parent i) < 0"
  shows "heap_up fs i st = heap_up fs (parent i) (heap_swap fs (parent i) i st)"
proof (cases st)
  case (Pair h m)
  with assms show ?thesis by (simp add: heap_up.simps [of fs i h m] Let_def parent_def)
qed

lemma heap_up_stop:
  assumes "\<not> (0 < i \<and> compare fs (heap_values (fst st) ! i) (heap_values (fst st) ! parent i) < 0)"
  shows "heap_up fs i st = st"
proof (cases st)
  case (Pair h m)
  with assms show ?thesis by (auto simp: heap_up.simps [of fs i h m] Let_def parent_def)
qed

lemma heap_up_stable:
  assumes "swap_stable fs Q" "Q st" "i < length (heap_values (fst st))"
  shows "Q (heap_up fs i st)"
  using assms
proof (induction i arbitrary: st rule: less_induct)
  case (less i)
  obtain h m where st: "st = (h, m)" by (cases st)
  show ?case
  proof (cases "0 < i \<and> compare fs (heap_values (fst st) ! i) (heap_values (fst st) ! parent i) < 0")
    case True
    have "Q (heap_swap fs (parent i) i st)"
      unfolding st by (rule swap_stableD [OF less.prems(1)]) (use less.prems st True in auto)
    then have "Q (heap_up fs (parent i) (heap_swap fs (parent i) i st))"
      by (intro less.IH less.prems(1)) (use less.prems(3) True in auto)
    with True show ?thesis by (simp add: heap_up_go)
  next
    case False
    with less.prems(2) show ?thesis by (simp add: heap_up_stop [OF False])
  qed
qed

text \<open>The child \<open>down\<close> compares with.\<close>

definition small_child :: "('a \<Rightarrow> 'a \<Rightarrow> int) \<Rightarrow> 'a list \<Rightarrow> nat \<Rightarrow> nat" where
  "small_child cmp vs i =
     (if 2 * i + 2 < length vs \<and> cmp (vs ! (2 * i + 2)) (vs ! (2 * i + 1)) < 0
      then 2 * i + 2 else 2 * i + 1)"

lemma small_child_bounds:
  "2 * i + 1 < length vs \<Longrightarrow> i < small_child cmp vs i \<and> small_child cmp vs i < length vs"
  by (simp add: small_child_def)

lemma heap_down_loop_go:
  assumes "c = small_child (compare fs) (heap_values (fst st)) i"
    "2 * i + 1 < length (heap_values (fst st))"
    "compare fs (heap_values (fst st) ! c) (heap_values (fst st) ! i) < 0"
  shows "heap_down_loop fs i st = heap_down_loop fs c (heap_swap fs i c st)"
proof (cases st)
  case (Pair h m)
  with assms show ?thesis
    by (auto simp: heap_down_loop.simps [of fs i h m] Let_def small_child_def split: if_splits)
qed

lemma heap_down_loop_stop:
  assumes "\<not> (2 * i + 1 < length (heap_values (fst st)) \<and>
    compare fs (heap_values (fst st) ! small_child (compare fs) (heap_values (fst st)) i)
      (heap_values (fst st) ! i) < 0)"
  shows "heap_down_loop fs i st = (i, st)"
proof (cases st)
  case (Pair h m)
  with assms show ?thesis
    by (auto simp: heap_down_loop.simps [of fs i h m] Let_def small_child_def)
qed

lemma heap_down_loop_stable:
  assumes "swap_stable fs Q" "Q st"
  shows "Q (snd (heap_down_loop fs i st)) \<and> i \<le> fst (heap_down_loop fs i st)"
  using assms
proof (induction "length (heap_values (fst st)) - i" arbitrary: i st rule: less_induct)
  case less
  obtain h m where st: "st = (h, m)" by (cases st)
  let ?vs = "heap_values (fst st)" and ?c = "small_child (compare fs) (heap_values (fst st)) i"
  show ?case
  proof (cases "2 * i + 1 < length ?vs \<and> compare fs (?vs ! ?c) (?vs ! i) < 0")
    case True
    with small_child_bounds [of i ?vs "compare fs"] have c: "i < ?c" "?c < length ?vs" by auto
    have "Q (heap_swap fs i ?c st)"
      unfolding st by (rule swap_stableD [OF less.prems(1)]) (use less.prems st c in auto)
    then have "Q (snd (heap_down_loop fs ?c (heap_swap fs i ?c st))) \<and>
        ?c \<le> fst (heap_down_loop fs ?c (heap_swap fs i ?c st))"
      by (intro less.hyps less.prems(1)) (use c in auto)
    with True c show ?thesis by (simp add: heap_down_loop_go [OF refl])
  next
    case False
    with less.prems(2) show ?thesis by (simp add: heap_down_loop_stop [OF False])
  qed
qed

lemma heap_down_stable: "swap_stable fs Q \<Longrightarrow> Q st \<Longrightarrow> Q (snd (heap_down fs i st))"
  using heap_down_loop_stable [of fs Q st i]
  by (auto simp: heap_down_def split: prod.splits)

lemma swap_stable_length: "swap_stable fs (\<lambda>st. length (heap_values (fst st)) = n)"
  by (rule swap_stableI) simp

lemma swap_stable_mset: "swap_stable fs (\<lambda>st. mset (heap_values (fst st)) = M)"
  by (rule swap_stableI) simp

lemma swap_stable_undo: "swap_stable fs (\<lambda>st. journal (fst st) = j \<and> recording (fst st) = r)"
  by (rule swap_stableI) simp

definition storage_stable :: "('a, 'm) heapFuns \<Rightarrow> ('m \<Rightarrow> bool) \<Rightarrow> bool" where
  "storage_stable fs P \<longleftrightarrow> (\<forall>a i m. P m \<longrightarrow> P (setIndex fs a i m))"

lemma storage_stableD: "storage_stable fs P \<Longrightarrow> P m \<Longrightarrow> P (setIndex fs a i m)"
  by (simp add: storage_stable_def)

lemma swap_stable_storage: "storage_stable fs P \<Longrightarrow> swap_stable fs (\<lambda>st. P (snd st))"
  by (rule swap_stableI) (simp add: heap_swap.simps Let_def storage_stable_def)

section \<open>Heap order\<close>

definition heap_ordered_from :: "('a \<Rightarrow> 'a \<Rightarrow> int) \<Rightarrow> nat \<Rightarrow> 'a list \<Rightarrow> bool" where
  "heap_ordered_from cmp k vs \<longleftrightarrow>
     (\<forall>j. 0 < j \<longrightarrow> j < length vs \<longrightarrow> k \<le> parent j \<longrightarrow> cmp (vs ! parent j) (vs ! j) \<le> 0)"

abbreviation heap_ordered :: "('a \<Rightarrow> 'a \<Rightarrow> int) \<Rightarrow> 'a list \<Rightarrow> bool" where
  "heap_ordered cmp \<equiv> heap_ordered_from cmp 0"

definition up_defect :: "('a \<Rightarrow> 'a \<Rightarrow> int) \<Rightarrow> nat \<Rightarrow> 'a list \<Rightarrow> bool" where
  "up_defect cmp i vs \<longleftrightarrow>
     (\<forall>j. 0 < j \<longrightarrow> j < length vs \<longrightarrow> j \<noteq> i \<longrightarrow> cmp (vs ! parent j) (vs ! j) \<le> 0) \<and>
     (\<forall>j. 0 < j \<longrightarrow> j < length vs \<longrightarrow> parent j = i \<longrightarrow> 0 < i \<longrightarrow> cmp (vs ! parent i) (vs ! j) \<le> 0)"

definition down_defect :: "('a \<Rightarrow> 'a \<Rightarrow> int) \<Rightarrow> nat \<Rightarrow> nat \<Rightarrow> 'a list \<Rightarrow> bool" where
  "down_defect cmp k i vs \<longleftrightarrow>
     (\<forall>j. 0 < j \<longrightarrow> j < length vs \<longrightarrow> k \<le> parent j \<longrightarrow> parent j \<noteq> i \<longrightarrow> j \<noteq> i \<longrightarrow>
        cmp (vs ! parent j) (vs ! j) \<le> 0) \<and>
     (\<forall>j. 0 < j \<longrightarrow> j < length vs \<longrightarrow> parent j = i \<longrightarrow> 0 < i \<longrightarrow> k \<le> parent i \<longrightarrow>
        cmp (vs ! parent i) (vs ! j) \<le> 0)"

definition parent_ok :: "('a \<Rightarrow> 'a \<Rightarrow> int) \<Rightarrow> nat \<Rightarrow> nat \<Rightarrow> 'a list \<Rightarrow> bool" where
  "parent_ok cmp k i vs \<longleftrightarrow> (0 < i \<longrightarrow> k \<le> parent i \<longrightarrow> cmp (vs ! parent i) (vs ! i) \<le> 0)"

context comparator
begin

lemma heap_ordered_least:
  assumes "heap_ordered compare vs" "j < length vs"
  shows "compare (vs ! 0) (vs ! j) \<le> 0"
  using assms(2)
proof (induction j rule: less_induct)
  case (less j)
  show ?case
  proof (cases "j = 0")
    case True
    then show ?thesis by (simp add: compare_refl)
  next
    case False
    then have "compare (vs ! 0) (vs ! parent j) \<le> 0"
      using less parent_less [of j] by (meson less_trans neq0_conv)
    moreover have "compare (vs ! parent j) (vs ! j) \<le> 0"
      using assms(1) False less.prems by (auto simp: heap_ordered_from_def)
    ultimately show ?thesis by (rule compare_trans)
  qed
qed

lemma up_defect_step:
  assumes d: "up_defect compare i vs" and i: "0 < i" "i < length vs"
    and less: "compare (vs ! i) (vs ! parent i) < 0"
  shows "up_defect compare (parent i) (list_swap vs (parent i) i)"
proof -
  let ?p = "parent i" and ?ws = "list_swap vs (parent i) i"
  have p: "?p < i" "?p < length vs" using i by auto
  have ws: "?ws ! k = (if k = ?p then vs ! i else if k = i then vs ! ?p else vs ! k)"
    if "k < length vs" for k
    using that p i by (simp add: nth_list_swap)
  have d1: "compare (vs ! parent j) (vs ! j) \<le> 0" if "0 < j" "j < length vs" "j \<noteq> i" for j
    using d that by (auto simp: up_defect_def)
  have d2: "compare (vs ! ?p) (vs ! j) \<le> 0" if "0 < j" "j < length vs" "parent j = i" for j
    using d that i by (auto simp: up_defect_def)
  have "compare (?ws ! parent j) (?ws ! j) \<le> 0" if j: "0 < j" "j < length vs" "j \<noteq> ?p" for j
  proof -
    have pj: "parent j < length vs" "parent j < j" using j by auto
    consider "j = i" | "j \<noteq> i" "parent j = i" | "j \<noteq> i" "parent j = ?p" | "j \<noteq> i" "parent j \<noteq> i" "parent j \<noteq> ?p"
      by blast
    then show ?thesis
    proof cases
      case 1 then show ?thesis using less p i by (auto simp: ws)
    next
      case 2 then show ?thesis using d2 [of j] j pj p by (simp add: ws)
    next
      case 3 then show ?thesis using d1 [of j] j pj p less
        by (simp add: ws) (meson compare_less_le_trans compare_less_imp_le)
    next
      case 4 then show ?thesis using d1 [of j] j pj by (simp add: ws)
    qed
  qed
  moreover have "compare (?ws ! parent ?p) (?ws ! j) \<le> 0"
    if j: "0 < j" "j < length vs" "parent j = ?p" "0 < ?p" for j
  proof -
    have pp: "parent ?p < ?p" "parent ?p < length vs" using j p by auto
    have a: "compare (vs ! parent ?p) (vs ! ?p) \<le> 0" using d1 [of ?p] j p by simp
    have b: "compare (vs ! ?p) (vs ! j) \<le> 0" if "j \<noteq> i" using d1 [of j] j that by simp
    have nej: "j \<noteq> ?p" using j parent_less [of j] by auto
    show ?thesis using a b compare_trans [OF a] j pp p nej by (cases "j = i") (auto simp: ws)
  qed
  ultimately show ?thesis by (simp add: up_defect_def)
qed

lemma up_defect_done:
  assumes "up_defect compare i vs" "\<not> (0 < i \<and> compare (vs ! i) (vs ! parent i) < 0)"
  shows "heap_ordered compare vs"
  using assms by (auto simp: up_defect_def heap_ordered_from_def compare_not_less)

lemma small_child_least:
  assumes "2 * i + 1 < length vs" "0 < j" "j < length vs" "parent j = i"
  shows "compare (vs ! small_child compare vs i) (vs ! j) \<le> 0"
  using child_cases [OF assms(2,4)] assms
  by (auto simp: small_child_def compare_refl compare_not_less)

lemma parent_small_child [simp]: "parent (small_child compare vs i) = i"
  by (simp add: small_child_def)

lemma down_defect_step:
  assumes d: "down_defect compare k i vs" and n: "2 * i + 1 < length vs"
    and c: "c = small_child compare vs i" and less: "compare (vs ! c) (vs ! i) < 0"
    and ki: "k \<le> i"
  shows "down_defect compare k c (list_swap vs i c) \<and> parent_ok compare k c (list_swap vs i c)"
proof -
  let ?ws = "list_swap vs i c"
  have cb: "i < c" "c < length vs" "parent c = i" "0 < c"
    using small_child_bounds [OF n, of compare] by (auto simp: c)
  have ws: "?ws ! j = (if j = i then vs ! c else if j = c then vs ! i else vs ! j)"
    if "j < length vs" for j
    using that cb by (simp add: nth_list_swap)
  have d1: "compare (vs ! parent j) (vs ! j) \<le> 0"
    if "0 < j" "j < length vs" "k \<le> parent j" "parent j \<noteq> i" "j \<noteq> i" for j
    using d that by (auto simp: down_defect_def)
  have d2: "compare (vs ! parent i) (vs ! j) \<le> 0"
    if "0 < j" "j < length vs" "parent j = i" "0 < i" "k \<le> parent i" for j
    using d that by (auto simp: down_defect_def)
  have "compare (?ws ! parent j) (?ws ! j) \<le> 0"
    if j: "0 < j" "j < length vs" "k \<le> parent j" "parent j \<noteq> c" "j \<noteq> c" for j
  proof -
    have pj: "parent j < length vs" "parent j < j" using j by auto
    consider "j = i" | "j \<noteq> i" "parent j = i" | "j \<noteq> i" "parent j \<noteq> i" by blast
    then show ?thesis
    proof cases
      case 1 then show ?thesis using d2 [of c] cb j pj by (auto simp: ws)
    next
      case 2
      from small_child_least [OF n j(1,2) 2(2)] have "compare (vs ! c) (vs ! j) \<le> 0"
        by (simp add: c)
      then show ?thesis using 2 j pj by (simp add: ws)
    next
      case 3 then show ?thesis using d1 [of j] j pj by (simp add: ws)
    qed
  qed
  moreover have "compare (?ws ! i) (?ws ! j) \<le> 0"
    if j: "0 < j" "j < length vs" "parent j = c" for j
    using d1 [of j] j cb ki parent_less [of j] by (auto simp: ws)
  moreover have "compare (?ws ! i) (?ws ! c) \<le> 0"
    using less cb by (simp add: ws)
  ultimately show ?thesis using cb by (auto simp: down_defect_def parent_ok_def)
qed

lemma down_defect_children:
  assumes d: "down_defect compare k i vs"
    and stop: "\<not> (2 * i + 1 < length vs \<and> compare (vs ! small_child compare vs i) (vs ! i) < 0)"
    and j: "0 < j" "j < length vs" "k \<le> parent j" "j \<noteq> i"
  shows "compare (vs ! parent j) (vs ! j) \<le> 0"
proof (cases "parent j = i")
  case True
  with child_cases [OF j(1) True] j have n: "2 * i + 1 < length vs" by auto
  with stop have "compare (vs ! i) (vs ! small_child compare vs i) \<le> 0"
    by (simp add: compare_not_less)
  with small_child_least [OF n j(1,2) True] True show ?thesis
    using compare_trans by blast
next
  case False
  with d j show ?thesis by (auto simp: down_defect_def)
qed

end

definition indexed :: "('a, 'm) heapFuns \<Rightarrow> ('a \<Rightarrow> 'k) \<Rightarrow> 'a list \<Rightarrow> 'm \<Rightarrow> bool" where
  "indexed fs ident vs m \<longleftrightarrow>
     (\<forall>k < length vs. getIndex fs (vs ! k) m = Some (int k)) \<and>
     (\<forall>a. ident a \<notin> ident ` set vs \<longrightarrow> getIndex fs a m = None)"

definition heap_inv :: "('a, 'm) heapFuns \<Rightarrow> ('a \<Rightarrow> 'k) \<Rightarrow> nat \<Rightarrow> ('a, 'm) heap_state \<Rightarrow> bool" where
  "heap_inv fs ident cap st \<longleftrightarrow>
     heap_ordered (compare fs) (heap_values (fst st)) \<and>
     indexed fs ident (heap_values (fst st)) (snd st) \<and> length (heap_values (fst st)) \<le> cap"

text \<open>Multisets of elements a heap can hold: one element per identity, at most \<open>cap\<close> of them.\<close>

definition keyed :: "('a \<Rightarrow> 'k) \<Rightarrow> nat \<Rightarrow> 'a multiset \<Rightarrow> bool" where
  "keyed ident cap M \<longleftrightarrow> (\<forall>k. count (image_mset ident M) k \<le> 1) \<and> size M \<le> cap"

text \<open>
  \<open>journaled ident cap M j N\<close>: the journal \<open>j\<close> records, in order, single insertions and removals
  that lead from the contents \<open>M\<close> to the contents \<open>N\<close>.
\<close>

inductive journaled :: "('a \<Rightarrow> 'k) \<Rightarrow> nat \<Rightarrow> 'a multiset \<Rightarrow> 'a undoEntry list \<Rightarrow> 'a multiset \<Rightarrow> bool"
  for ident cap M where
  start: "keyed ident cap M \<Longrightarrow> journaled ident cap M [] M"
| insert: "journaled ident cap M j N \<Longrightarrow> keyed ident cap (add_mset x N) \<Longrightarrow>
    journaled ident cap M (j @ [\<lparr>undo_value = x, added = True\<rparr>]) (add_mset x N)"
| remove: "journaled ident cap M j (add_mset x N) \<Longrightarrow>
    journaled ident cap M (j @ [\<lparr>undo_value = x, added = False\<rparr>]) N"

definition heap_tracks ::
  "('a, 'm) heapFuns \<Rightarrow> ('a \<Rightarrow> 'k) \<Rightarrow> nat \<Rightarrow> 'a multiset \<Rightarrow> ('a, 'm) heap_state \<Rightarrow> bool" where
  "heap_tracks fs ident cap M st \<longleftrightarrow>
     heap_inv fs ident cap st \<and> recording (fst st) \<and>
     journaled ident cap M (journal (fst st)) (mset (heap_values (fst st)))"

text \<open>
  The invariant inside an undo scope opened on contents \<open>M\<close> (\<open>Some M\<close>) and outside one (\<open>None\<close>).
\<close>

definition heap_ok ::
  "('a, 'm) heapFuns \<Rightarrow> ('a \<Rightarrow> 'k) \<Rightarrow> nat \<Rightarrow> 'a multiset option \<Rightarrow> ('a, 'm) heap_state \<Rightarrow> bool" where
  "heap_ok fs ident cap U st \<longleftrightarrow>
     heap_inv fs ident cap st \<and>
     (case U of None \<Rightarrow> True | Some M \<Rightarrow> heap_tracks fs ident cap M st)"

lemma keyed_mset: "keyed ident cap (mset vs) \<longleftrightarrow> distinct (map ident vs) \<and> length vs \<le> cap"
  unfolding keyed_def distinct_count_atmost_1 mset_map [symmetric]
  by (metis (no_types, lifting) count_eq_zero_iff count_greater_eq_one_iff le_antisym le_zero_eq
      linorder_le_cases set_mset_mset size_mset zero_le)

lemma keyed_add_mset:
  "keyed ident cap (add_mset x N) \<longleftrightarrow> keyed ident cap N \<and> ident x \<notin> ident ` set_mset N \<and> size N < cap"
proof -
  obtain vs where N: "N = mset vs" by (metis ex_mset)
  have "add_mset x N = mset (x # vs)" by (simp add: N)
  then show ?thesis unfolding N by (simp only: keyed_mset) auto
qed

lemma journaled_keyed: "journaled ident cap M j N \<Longrightarrow> keyed ident cap N"
  by (induction rule: journaled.induct) (auto simp: keyed_add_mset)

locale indexed_heap = comparator "compare fs"
  for fs :: "('a, 'm) heapFuns" +
  fixes ident :: "'a \<Rightarrow> 'k" and cap :: nat
  assumes getIndex_set: "0 \<le> i \<Longrightarrow> i < int cap \<Longrightarrow>
      getIndex fs a (setIndex fs b i m) = (if ident a = ident b then Some i else getIndex fs a m)"
    and getIndex_clear: "getIndex fs a (setIndex fs b (- 1) m) =
      (if ident a = ident b then None else getIndex fs a m)"
    and getIndex_ident: "ident a = ident b \<Longrightarrow> getIndex fs a m = getIndex fs b m"
begin

subsection \<open>Order after sifting\<close>

lemma heap_up_ordered:
  assumes "up_defect (compare fs) i (heap_values (fst st))" "i < length (heap_values (fst st))"
  shows "heap_ordered (compare fs) (heap_values (fst (heap_up fs i st)))"
  using assms
proof (induction i arbitrary: st rule: less_induct)
  case (less i)
  let ?vs = "heap_values (fst st)"
  show ?case
  proof (cases "0 < i \<and> compare fs (?vs ! i) (?vs ! parent i) < 0")
    case True
    have "heap_ordered (compare fs)
        (heap_values (fst (heap_up fs (parent i) (heap_swap fs (parent i) i st))))"
      by (rule less.IH) (use True less.prems up_defect_step in auto)
    with True show ?thesis by (simp add: heap_up_go)
  next
    case False
    with up_defect_done [OF less.prems(1)] show ?thesis by (simp add: heap_up_stop [OF False])
  qed
qed

lemma heap_down_loop_ordered:
  assumes "down_defect (compare fs) k i (heap_values (fst st))"
    "parent_ok (compare fs) k i (heap_values (fst st))" "k \<le> i"
  shows "heap_ordered_from (compare fs) k (heap_values (fst (snd (heap_down_loop fs i st))))"
  using assms
proof (induction "length (heap_values (fst st)) - i" arbitrary: i st rule: less_induct)
  case less
  let ?vs = "heap_values (fst st)" and ?c = "small_child (compare fs) (heap_values (fst st)) i"
  show ?case
  proof (cases "2 * i + 1 < length ?vs \<and> compare fs (?vs ! ?c) (?vs ! i) < 0")
    case True
    with small_child_bounds [of i ?vs "compare fs"] have c: "i < ?c" "?c < length ?vs" by auto
    have "heap_ordered_from (compare fs) k
        (heap_values (fst (snd (heap_down_loop fs ?c (heap_swap fs i ?c st)))))"
      by (rule less.hyps) (use c True down_defect_step [OF less.prems(1)] less.prems(3) in auto)
    with True show ?thesis by (simp add: heap_down_loop_go [OF refl])
  next
    case False
    have "heap_ordered_from (compare fs) k ?vs"
      using down_defect_children [OF less.prems(1) False] less.prems(2)
      unfolding heap_ordered_from_def parent_ok_def by metis
    then show ?thesis by (simp add: heap_down_loop_stop [OF False])
  qed
qed

lemma heap_down_step:
  assumes d: "down_defect (compare fs) k i (heap_values (fst st))" and ki: "k \<le> i"
  shows "case heap_down fs i st of (moved, st') \<Rightarrow>
    if moved then heap_ordered_from (compare fs) k (heap_values (fst st'))
    else st' = st \<and> (\<forall>j. 0 < j \<longrightarrow> j < length (heap_values (fst st)) \<longrightarrow> k \<le> parent j \<longrightarrow> j \<noteq> i \<longrightarrow>
      compare fs (heap_values (fst st) ! parent j) (heap_values (fst st) ! j) \<le> 0)"
proof -
  let ?vs = "heap_values (fst st)" and ?c = "small_child (compare fs) (heap_values (fst st)) i"
  show ?thesis
  proof (cases "2 * i + 1 < length ?vs \<and> compare fs (?vs ! ?c) (?vs ! i) < 0")
    case True
    with small_child_bounds [of i ?vs "compare fs"] have c: "i < ?c" "?c < length ?vs" by auto
    let ?r = "heap_down_loop fs ?c (heap_swap fs i ?c st)"
    have "heap_ordered_from (compare fs) k (heap_values (fst (snd ?r)))"
      by (rule heap_down_loop_ordered) (use c True down_defect_step [OF d] ki in auto)
    moreover have "?c \<le> fst ?r"
      using heap_down_loop_stable [of fs "\<lambda>_. True" "heap_swap fs i ?c st" ?c]
      by (auto simp: swap_stable_def)
    moreover have "heap_down_loop fs i st = ?r"
      using True by (simp add: heap_down_loop_go [OF refl])
    ultimately show ?thesis using c by (auto simp: heap_down_def split: prod.splits)
  next
    case False
    note heap_down_loop_stop [OF False]
    with down_defect_children [OF d False] show ?thesis by (auto simp: heap_down_def)
  qed
qed

subsection \<open>Positions\<close>

lemma indexed_distinct: "indexed fs ident vs m \<Longrightarrow> distinct (map ident vs)"
  unfolding indexed_def distinct_conv_nth
  by (metis getIndex_ident length_map nth_map of_nat_eq_iff option.inject)

lemma indexed_unique:
  "indexed fs ident vs m \<Longrightarrow> i < length vs \<Longrightarrow> j < length vs \<Longrightarrow>
   ident (vs ! i) = ident (vs ! j) \<longleftrightarrow> i = j"
  using indexed_distinct [of vs m] by (auto simp: distinct_conv_nth)

lemma indexed_lookup:
  assumes "indexed fs ident vs m"
  shows "getIndex fs a m = Some i \<longleftrightarrow> (\<exists>k < length vs. i = int k \<and> ident (vs ! k) = ident a)"
proof
  assume g: "getIndex fs a m = Some i"
  with assms have "ident a \<in> ident ` set vs" by (auto simp: indexed_def)
  then obtain k where "k < length vs" "ident (vs ! k) = ident a" by (auto simp: in_set_conv_nth)
  with assms g show "\<exists>k < length vs. i = int k \<and> ident (vs ! k) = ident a"
    unfolding indexed_def by (metis getIndex_ident option.inject)
next
  assume "\<exists>k < length vs. i = int k \<and> ident (vs ! k) = ident a"
  with assms show "getIndex fs a m = Some i"
    unfolding indexed_def by (metis getIndex_ident)
qed

lemma indexed_lookup_None:
  "indexed fs ident vs m \<Longrightarrow> getIndex fs a m = None \<longleftrightarrow> ident a \<notin> ident ` set vs"
  using indexed_lookup [of vs m a]
  by (metis (no_types, lifting) image_iff in_set_conv_nth indexed_def option.distinct(1))

lemma swap_stable_indexed:
  "swap_stable fs (\<lambda>st. indexed fs ident (heap_values (fst st)) (snd st) \<and>
     length (heap_values (fst st)) \<le> cap)"
proof (rule swap_stableI, clarsimp)
  fix h :: "'a heap" and m i j
  assume ij: "i < length (heap_values h)" "j < length (heap_values h)"
    and ix: "indexed fs ident (heap_values h) m" and cap: "length (heap_values h) \<le> cap"
  let ?vs = "heap_values h" and ?ws = "list_swap (heap_values h) i j"
  let ?m = "setIndex fs (?ws ! j) (int j) (setIndex fs (?ws ! i) (int i) m)"
  have m: "snd (heap_swap fs i j (h, m)) = ?m" by (simp add: heap_swap.simps Let_def)
  have "getIndex fs (?ws ! k) ?m = Some (int k)" if k: "k < length ?vs" for k
    using ij cap ix k indexed_unique [OF ix]
    by (auto simp: getIndex_set nth_list_swap indexed_def)
  moreover have "getIndex fs a ?m = None" if "ident a \<notin> ident ` set ?vs" for a
  proof -
    have "?ws ! i \<in> set ?vs" "?ws ! j \<in> set ?vs"
      using ij by (metis length_list_swap nth_mem set_list_swap)+
    with that have "ident a \<noteq> ident (?ws ! i)" "ident a \<noteq> ident (?ws ! j)" by auto
    with ij cap ix that show ?thesis by (simp add: getIndex_set indexed_def)
  qed
  ultimately show "indexed fs ident ?ws (snd (heap_swap fs i j (h, m)))"
    using ij by (auto simp: m indexed_def)
qed

end

lemma record_undo_frame [simp]:
  "heap_values (fst (record_undo x a st)) = heap_values (fst st)"
  "snd (record_undo x a st) = snd st"
  "recording (fst (record_undo x a st)) = recording (fst st)"
  "journal (fst (record_undo x a st)) =
     journal (fst st) @ (if recording (fst st) then [\<lparr>undo_value = x, added = a\<rparr>] else [])"
  by (cases st, simp)+

declare record_undo.simps [simp del]

lemma heap_up_frame:
  assumes "i < length (heap_values (fst st))"
  shows "mset (heap_values (fst (heap_up fs i st))) = mset (heap_values (fst st))"
    "length (heap_values (fst (heap_up fs i st))) = length (heap_values (fst st))"
    "journal (fst (heap_up fs i st)) = journal (fst st)"
    "recording (fst (heap_up fs i st)) = recording (fst st)"
  using heap_up_stable [OF swap_stable_mset refl assms] heap_up_stable [OF swap_stable_length refl assms]
    heap_up_stable [OF swap_stable_undo [of fs "journal (fst st)" "recording (fst st)"] _ assms]
  by simp_all

lemma heap_down_frame:
  "mset (heap_values (fst (snd (heap_down fs i st)))) = mset (heap_values (fst st))"
  "length (heap_values (fst (snd (heap_down fs i st)))) = length (heap_values (fst st))"
  "journal (fst (snd (heap_down fs i st))) = journal (fst st)"
  "recording (fst (snd (heap_down fs i st))) = recording (fst st)"
  using heap_down_stable [OF swap_stable_mset, of st "mset (heap_values (fst st))"]
    heap_down_stable [OF swap_stable_length, of st "length (heap_values (fst st))"]
    heap_down_stable [OF swap_stable_undo, of st "journal (fst st)" "recording (fst st)"] by simp_all

text \<open>What \<open>delete\<close> does after the tail was cut off: sift the moved element.\<close>

definition resift :: "('a, 'm) heapFuns \<Rightarrow> nat \<Rightarrow> ('a, 'm) heap_state \<Rightarrow> ('a, 'm) heap_state" where
  "resift fs k st = (case heap_down fs k st of (moved, st') \<Rightarrow> if moved then st' else heap_up fs k st')"

lemma resift_stable:
  assumes "swap_stable fs Q" "Q st" "k < length (heap_values (fst st))"
  shows "Q (resift fs k st)"
proof -
  have "k < length (heap_values (fst (snd (heap_down fs k st))))"
    by (simp add: heap_down_frame assms(3))
  with heap_up_stable [OF assms(1)] heap_down_stable [OF assms(1,2), of k] show ?thesis
    by (auto simp: resift_def split: prod.splits)
qed

lemma resift_frame:
  assumes "k < length (heap_values (fst st))"
  shows "mset (heap_values (fst (resift fs k st))) = mset (heap_values (fst st))"
    "length (heap_values (fst (resift fs k st))) = length (heap_values (fst st))"
    "journal (fst (resift fs k st)) = journal (fst st)"
    "recording (fst (resift fs k st)) = recording (fst st)"
  using resift_stable [OF swap_stable_mset refl assms] resift_stable [OF swap_stable_length refl assms]
    resift_stable [OF swap_stable_undo [of fs "journal (fst st)" "recording (fst st)"] _ assms]
  by simp_all

text \<open>The state between cutting the tail and sifting, and \<open>delete\<close> in terms of it.\<close>

definition cut_tail :: "('a, 'm) heapFuns \<Rightarrow> nat \<Rightarrow> ('a, 'm) heap_state \<Rightarrow> ('a, 'm) heap_state" where
  "cut_tail fs k st =
     (let n = length (heap_values (fst st)) - 1;
          st1 = (if n \<noteq> k then heap_swap fs k n st else st)
      in ((fst st1)\<lparr>heap_values := take n (heap_values (fst st1))\<rparr>,
          setIndex fs (heap_values (fst st1) ! n) (- 1) (snd st1)))"

lemma heap_delete_eq:
  assumes "k < length (heap_values (fst st))"
  shows "heap_delete fs (int k) st =
    record_undo (heap_values (fst st) ! k) False
      (if Suc k = length (heap_values (fst st)) then cut_tail fs k st else resift fs k (cut_tail fs k st))"
proof -
  have "\<not> (int k < 0 \<or> int (length (heap_values (fst st))) \<le> int k)"
    "Suc k = length (heap_values (fst st)) \<longleftrightarrow> length (heap_values (fst st)) - 1 = k"
    using assms by auto
  then show ?thesis
    by (cases st) (simp add: Let_def cut_tail_def resift_def case_prod_beta)
qed

lemma heap_delete_out_of_range:
  "i < 0 \<or> int (length (heap_values (fst st))) \<le> i \<Longrightarrow> heap_delete fs i st = st"
  by (cases st) auto

declare heap_delete.simps [simp del]

lemma cut_tail_values:
  assumes "k < length (heap_values (fst st))"
  shows "length (heap_values (fst (cut_tail fs k st))) = length (heap_values (fst st)) - 1"
    "j < length (heap_values (fst st)) - 1 \<Longrightarrow> heap_values (fst (cut_tail fs k st)) ! j =
       (if j = k then heap_values (fst st) ! (length (heap_values (fst st)) - 1) else heap_values (fst st) ! j)"
    "mset (heap_values (fst (cut_tail fs k st))) = mset (heap_values (fst st)) - {# heap_values (fst st) ! k #}"
    "journal (fst (cut_tail fs k st)) = journal (fst st)"
    "recording (fst (cut_tail fs k st)) = recording (fst st)"
proof -
  let ?vs = "heap_values (fst st)" and ?n = "length (heap_values (fst st)) - 1"
  let ?ws = "if ?n \<noteq> k then list_swap ?vs k ?n else ?vs"
  have ws: "heap_values (fst (cut_tail fs k st)) = take ?n ?ws"
    by (simp add: cut_tail_def Let_def)
  have n: "?n < length ?vs" using assms by auto
  show "length (heap_values (fst (cut_tail fs k st))) = ?n" by (simp add: ws)
  show "j < ?n \<Longrightarrow> heap_values (fst (cut_tail fs k st)) ! j = (if j = k then ?vs ! ?n else ?vs ! j)"
    using assms n by (auto simp: ws nth_list_swap)
  have "mset (take (length ?ws - 1) ?ws) = mset ?ws - {# ?ws ! (length ?ws - 1) #}"
    by (rule mset_take_last) (metis assms length_list_swap list.size(3) not_less_zero)
  moreover have "length ?ws = length ?vs" "mset ?ws = mset ?vs" "?ws ! ?n = ?vs ! k"
    using assms n by (auto simp: nth_list_swap)
  ultimately show "mset (heap_values (fst (cut_tail fs k st))) = mset ?vs - {# ?vs ! k #}"
    by (simp add: ws)
  show "journal (fst (cut_tail fs k st)) = journal (fst st)"
    "recording (fst (cut_tail fs k st)) = recording (fst st)"
    by (simp_all add: cut_tail_def Let_def)
qed

lemma heap_delete_frame:
  assumes "k < length (heap_values (fst st))"
  shows "mset (heap_values (fst (heap_delete fs (int k) st))) = mset (heap_values (fst st)) - {# heap_values (fst st) ! k #}"
    "length (heap_values (fst (heap_delete fs (int k) st))) = length (heap_values (fst st)) - 1"
    "recording (fst (heap_delete fs (int k) st)) = recording (fst st)"
    "journal (fst (heap_delete fs (int k) st)) = journal (fst st) @
       (if recording (fst st) then [\<lparr>undo_value = heap_values (fst st) ! k, added = False\<rparr>] else [])"
proof -
  note cut = cut_tail_values(1,3,4,5) [OF assms, where fs = fs]
  note sift = resift_frame [of k "cut_tail fs k st" fs, simplified cut]
  show "mset (heap_values (fst (heap_delete fs (int k) st))) = mset (heap_values (fst st)) - {# heap_values (fst st) ! k #}"
    "length (heap_values (fst (heap_delete fs (int k) st))) = length (heap_values (fst st)) - 1"
    "recording (fst (heap_delete fs (int k) st)) = recording (fst st)"
    "journal (fst (heap_delete fs (int k) st)) = journal (fst st) @
       (if recording (fst st) then [\<lparr>undo_value = heap_values (fst st) ! k, added = False\<rparr>] else [])"
    using assms by (simp_all add: heap_delete_eq [OF assms] cut sift)
qed

text \<open>\<open>insert\<close> up to its journal entry.\<close>

definition push_tail :: "('a, 'm) heapFuns \<Rightarrow> 'a \<Rightarrow> ('a, 'm) heap_state \<Rightarrow> ('a, 'm) heap_state" where
  "push_tail fs x st = ((fst st)\<lparr>heap_values := heap_values (fst st) @ [x]\<rparr>,
     setIndex fs x (int (length (heap_values (fst st)))) (snd st))"

lemma heap_insert_eq:
  "heap_insert fs x st = record_undo x True (heap_up fs (length (heap_values (fst st))) (push_tail fs x st))"
  by (cases st) (simp add: Let_def push_tail_def)

declare heap_insert.simps [simp del]

lemma push_tail_frame [simp]:
  "heap_values (fst (push_tail fs x st)) = heap_values (fst st) @ [x]"
  "journal (fst (push_tail fs x st)) = journal (fst st)"
  "recording (fst (push_tail fs x st)) = recording (fst st)"
  by (simp_all add: push_tail_def)

lemma heap_insert_frame:
  "mset (heap_values (fst (heap_insert fs x st))) = add_mset x (mset (heap_values (fst st)))"
  "length (heap_values (fst (heap_insert fs x st))) = Suc (length (heap_values (fst st)))"
  "recording (fst (heap_insert fs x st)) = recording (fst st)"
  "journal (fst (heap_insert fs x st)) = journal (fst st) @
     (if recording (fst st) then [\<lparr>undo_value = x, added = True\<rparr>] else [])"
  by (simp_all add: heap_insert_eq heap_up_frame)

context indexed_heap
begin

lemma heap_up_indexed:
  "indexed fs ident (heap_values (fst st)) (snd st) \<Longrightarrow> length (heap_values (fst st)) \<le> cap \<Longrightarrow>
   i < length (heap_values (fst st)) \<Longrightarrow>
   indexed fs ident (heap_values (fst (heap_up fs i st))) (snd (heap_up fs i st))"
  using heap_up_stable [OF swap_stable_indexed, of st i] by simp

lemma resift_indexed:
  "indexed fs ident (heap_values (fst st)) (snd st) \<Longrightarrow> length (heap_values (fst st)) \<le> cap \<Longrightarrow>
   i < length (heap_values (fst st)) \<Longrightarrow>
   indexed fs ident (heap_values (fst (resift fs i st))) (snd (resift fs i st))"
  using resift_stable [OF swap_stable_indexed, of st i] by simp

lemma push_tail_indexed:
  assumes "indexed fs ident (heap_values (fst st)) (snd st)" "length (heap_values (fst st)) < cap"
    "ident x \<notin> ident ` set (heap_values (fst st))"
  shows "indexed fs ident (heap_values (fst (push_tail fs x st))) (snd (push_tail fs x st))"
proof -
  have "ident (heap_values (fst st) ! k) \<noteq> ident x" if "k < length (heap_values (fst st))" for k
    using assms(3) that by (metis image_eqI nth_mem)
  with assms show ?thesis
    by (auto simp: push_tail_def indexed_def nth_append getIndex_set less_Suc_eq)
qed

lemma cut_tail_indexed:
  assumes ix: "indexed fs ident (heap_values (fst st)) (snd st)" and cap: "length (heap_values (fst st)) \<le> cap"
    and k: "k < length (heap_values (fst st))"
  shows "indexed fs ident (heap_values (fst (cut_tail fs k st))) (snd (cut_tail fs k st))"
proof -
  let ?n = "length (heap_values (fst st)) - 1"
  let ?st1 = "if ?n \<noteq> k then heap_swap fs k ?n st else st"
  have n: "?n < length (heap_values (fst st))" using k by auto
  obtain h m where st: "st = (h, m)" by (cases st)
  have "indexed fs ident (heap_values (fst (heap_swap fs k ?n st))) (snd (heap_swap fs k ?n st)) \<and>
      length (heap_values (fst (heap_swap fs k ?n st))) \<le> cap"
    unfolding st by (rule swap_stableD [OF swap_stable_indexed]) (use assms st n in auto)
  with ix cap have ix1: "indexed fs ident (heap_values (fst ?st1)) (snd ?st1)" by auto
  have len: "length (heap_values (fst ?st1)) = Suc ?n" using k by auto
  let ?ws = "heap_values (fst ?st1)"
  have split: "?ws = take ?n ?ws @ [?ws ! ?n]"
    using len by (metis lessI take_Suc_conv_app_nth take_all_iff order_refl)
  have dis: "distinct (map ident ?ws)" using ix1 by (rule indexed_distinct)
  have last: "ident (?ws ! ?n) \<notin> ident ` set (take ?n ?ws)"
    using dis by (subst (asm) split) auto
  have sets: "set ?ws = insert (?ws ! ?n) (set (take ?n ?ws))"
    by (subst split) auto
  have "getIndex fs (take ?n ?ws ! j) (setIndex fs (?ws ! ?n) (- 1) (snd ?st1)) = Some (int j)" if "j < ?n" for j
  proof -
    have "ident (?ws ! j) \<noteq> ident (?ws ! ?n)" using indexed_unique [OF ix1, of j ?n] that len by auto
    with that len ix1 show ?thesis by (auto simp: getIndex_clear indexed_def)
  qed
  moreover have "getIndex fs a (setIndex fs (?ws ! ?n) (- 1) (snd ?st1)) = None"
    if "ident a \<notin> ident ` set (take ?n ?ws)" for a
    using that ix1 sets by (auto simp: getIndex_clear indexed_def)
  ultimately show ?thesis
    using len by (auto simp: cut_tail_def Let_def indexed_def)
qed

lemma heap_insert_inv:
  assumes inv: "heap_inv fs ident cap st" and fresh: "ident x \<notin> ident ` set (heap_values (fst st))"
    and cap: "length (heap_values (fst st)) < cap"
  shows "heap_inv fs ident cap (heap_insert fs x st)"
proof -
  let ?n = "length (heap_values (fst st))"
  have "parent j \<noteq> ?n" if "j < Suc ?n" "0 < j" for j
    using parent_less [OF that(2)] that(1) by linarith
  then have "up_defect (compare fs) ?n (heap_values (fst st) @ [x])"
    using inv by (auto simp: heap_inv_def heap_ordered_from_def up_defect_def nth_append less_Suc_eq)
  then have "heap_ordered (compare fs) (heap_values (fst (heap_up fs ?n (push_tail fs x st))))"
    by (intro heap_up_ordered) auto
  moreover have "indexed fs ident (heap_values (fst (heap_up fs ?n (push_tail fs x st))))
      (snd (heap_up fs ?n (push_tail fs x st)))"
    using inv cap fresh by (intro heap_up_indexed push_tail_indexed) (auto simp: heap_inv_def)
  ultimately show ?thesis
    using cap by (simp add: heap_inv_def heap_insert_eq heap_up_frame)
qed

lemma cut_tail_defect:
  assumes "heap_ordered (compare fs) (heap_values (fst st))" "k < length (heap_values (fst st)) - 1"
  shows "down_defect (compare fs) 0 k (heap_values (fst (cut_tail fs k st)))"
proof -
  let ?vs = "heap_values (fst st)"
  have k: "k < length ?vs" using assms(2) by auto
  have le: "compare fs (?vs ! parent j) (?vs ! j) \<le> 0" if "0 < j" "j < length ?vs" for j
    using assms(1) that by (auto simp: heap_ordered_from_def)
  have gp: "compare fs (?vs ! parent k) (?vs ! j) \<le> 0" if "0 < j" "j < length ?vs" "parent j = k" "0 < k" for j
    using le [of j] le [of k] that k by (auto intro: compare_trans)
  have n: "length (heap_values (fst (cut_tail fs k st))) = length ?vs - 1"
    and nth: "\<And>j. j < length ?vs - 1 \<Longrightarrow> j \<noteq> k \<Longrightarrow> heap_values (fst (cut_tail fs k st)) ! j = ?vs ! j"
    using cut_tail_values(1,2) [OF k] by auto
  have pk: "parent k \<noteq> k" if "0 < k" using parent_less [OF that] by simp
  show ?thesis
    unfolding down_defect_def n
  proof (intro conjI allI impI)
    fix j assume "0 < j" "j < length ?vs - 1" "parent j \<noteq> k" "j \<noteq> k"
    then show "compare fs (heap_values (fst (cut_tail fs k st)) ! parent j) (heap_values (fst (cut_tail fs k st)) ! j) \<le> 0"
      using le [of j] by (simp add: nth)
  next
    fix j assume j: "0 < j" "j < length ?vs - 1" "parent j = k" "0 < k"
    then have "j \<noteq> k" using parent_less [of j] by linarith
    with j show "compare fs (heap_values (fst (cut_tail fs k st)) ! parent k) (heap_values (fst (cut_tail fs k st)) ! j) \<le> 0"
      using gp [of j] pk assms(2) by (simp add: nth)
  qed
qed

lemma resift_ordered:
  assumes "down_defect (compare fs) 0 k (heap_values (fst st))" "k < length (heap_values (fst st))"
  shows "heap_ordered (compare fs) (heap_values (fst (resift fs k st)))"
proof -
  obtain moved st' where r: "heap_down fs k st = (moved, st')" by (cases "heap_down fs k st")
  note step = heap_down_step [OF assms(1), simplified r, simplified]
  show ?thesis
  proof (cases moved)
    case True
    with step r show ?thesis by (simp add: resift_def)
  next
    case False
    with step have st': "st' = st" and up: "up_defect (compare fs) k (heap_values (fst st))"
      using assms(1) by (auto simp: up_defect_def down_defect_def)
    with False r assms(2) show ?thesis by (simp add: resift_def heap_up_ordered)
  qed
qed

lemma heap_delete_inv:
  assumes inv: "heap_inv fs ident cap st" and k: "k < length (heap_values (fst st))"
  shows "heap_inv fs ident cap (heap_delete fs (int k) st)"
proof -
  let ?c = "cut_tail fs k st"
  have ix: "indexed fs ident (heap_values (fst ?c)) (snd ?c)" and len: "length (heap_values (fst ?c)) \<le> cap"
    using inv k cut_tail_values(1) [OF k, where fs = fs] by (auto simp: heap_inv_def intro: cut_tail_indexed)
  show ?thesis
  proof (cases "Suc k = length (heap_values (fst st))")
    case True
    have "heap_values (fst ?c) ! j = heap_values (fst st) ! j" if "j < length (heap_values (fst ?c))" for j
      using cut_tail_values(1,2) [OF k, where fs = fs] that True by auto
    then have "heap_ordered (compare fs) (heap_values (fst ?c))"
      using inv cut_tail_values(1) [OF k, where fs = fs] by (simp add: heap_inv_def heap_ordered_from_def)
    with True ix len k show ?thesis by (simp add: heap_inv_def heap_delete_eq)
  next
    case False
    with k have k': "k < length (heap_values (fst ?c))" using cut_tail_values(1) [OF k, where fs = fs] by simp
    have "heap_ordered (compare fs) (heap_values (fst (resift fs k ?c)))"
      by (rule resift_ordered [OF cut_tail_defect k']) (use inv False k in \<open>auto simp: heap_inv_def\<close>)
    with False ix len k k' show ?thesis
      by (simp add: heap_inv_def heap_delete_eq resift_frame resift_indexed)
  qed
qed

end

text \<open>A property of the storage that \<open>setIndex\<close> keeps is kept by every operation.\<close>

lemma heap_ops_storage:
  assumes P: "storage_stable fs P" and st: "P (snd st)"
  shows "P (snd (heap_insert fs x st))" and "P (snd (heap_delete fs i st))"
proof -
  note up = heap_up_stable [OF swap_stable_storage [OF P]]
  note sift = resift_stable [OF swap_stable_storage [OF P]]
  have "P (snd (push_tail fs x st))" by (simp add: push_tail_def storage_stableD [OF P] st)
  from up [OF this] show "P (snd (heap_insert fs x st))" by (simp add: heap_insert_eq)
  show "P (snd (heap_delete fs i st))"
  proof (cases "i < 0 \<or> int (length (heap_values (fst st))) \<le> i")
    case True
    then show ?thesis by (simp add: heap_delete_out_of_range st)
  next
    case False
    then obtain k where k: "i = int k" "k < length (heap_values (fst st))"
      by (metis linorder_not_less nonneg_int_cases of_nat_less_iff)
    have cut: "P (snd (cut_tail fs k st))"
      using st by (cases st) (simp add: cut_tail_def Let_def heap_swap.simps storage_stableD [OF P])
    have "P (snd (resift fs k (cut_tail fs k st)))" if "Suc k \<noteq> length (heap_values (fst st))"
      by (rule sift [OF cut]) (use that k cut_tail_values(1) [OF k(2), where fs = fs] in simp)
    with cut k show ?thesis by (simp add: heap_delete_eq)
  qed
qed

lemma heap_takeMin_eq:
  "heap_takeMin fs st =
     (if heap_values (fst st) = [] then None
      else Some (heap_values (fst st) ! 0, heap_delete fs 0 st))"
  by (cases st) (simp split: list.splits)

declare heap_takeMin.simps [simp del]

lemma heap_pop_storage:
  assumes P: "storage_stable fs P" and st: "P (snd st)"
  shows "P (snd (snd (heap_pop fs n st)))"
proof -
  have "P (snd (snd (heap_pop_loop fs k st)))" for k
    using st
  proof (induction k arbitrary: st)
    case (Suc k)
    then show ?case using heap_ops_storage(2) [OF P]
      by (auto simp: heap_takeMin_eq case_prod_beta)
  qed simp
  then show ?thesis using st by (simp add: heap_pop_def)
qed

lemma heap_rollback_storage:
  assumes P: "storage_stable fs P" and st: "P (snd st)"
  shows "P (snd (heap_rollback fs st))"
proof -
  have "P (snd (rollback_entries fs es st))" if "P (snd st)" for es st
    using that
  proof (induction es arbitrary: st)
    case (Cons e es)
    then show ?case using heap_ops_storage [OF P]
      by (cases st) (auto split: option.splits)
  qed simp
  with st show ?thesis by (cases st) (simp add: case_prod_beta)
qed

context indexed_heap
begin

lemma heap_inv_distinct: "heap_inv fs ident cap st \<Longrightarrow> distinct (map ident (heap_values (fst st)))"
  unfolding heap_inv_def using indexed_distinct by blast

lemma heap_inv_keyed: "heap_inv fs ident cap st \<Longrightarrow> keyed ident cap (mset (heap_values (fst st)))"
  using heap_inv_distinct [of st] by (simp add: keyed_mset heap_inv_def)

lemma heap_insert_tracks:
  assumes "heap_tracks fs ident cap M st" "ident x \<notin> ident ` set (heap_values (fst st))"
    "length (heap_values (fst st)) < cap"
  shows "heap_tracks fs ident cap M (heap_insert fs x st)"
  using assms heap_insert_inv [of st x]
  by (auto simp: heap_tracks_def heap_insert_frame keyed_add_mset
      intro!: journaled.insert dest: heap_inv_keyed)

lemma heap_delete_tracks:
  assumes "heap_tracks fs ident cap M st" "k < length (heap_values (fst st))"
  shows "heap_tracks fs ident cap M (heap_delete fs (int k) st)"
proof -
  have "add_mset (heap_values (fst st) ! k) (mset (heap_values (fst st)) - {# heap_values (fst st) ! k #})
      = mset (heap_values (fst st))"
    using assms(2) by simp
  then show ?thesis
    using assms heap_delete_inv [of st k] journaled.remove [of ident cap M "journal (fst st)" "heap_values (fst st) ! k"
        "mset (heap_values (fst st)) - {# heap_values (fst st) ! k #}"]
    by (simp add: heap_tracks_def heap_delete_frame)
qed

lemma heap_begin_tracks:
  "heap_inv fs ident cap (h, m) \<Longrightarrow> heap_tracks fs ident cap (mset (heap_values h)) (heap_begin h, m)"
  using heap_inv_keyed [of "(h, m)"]
  by (auto simp: heap_tracks_def heap_begin_def heap_inv_def intro: journaled.start)

lemma heap_commit_inv:
  "heap_inv fs ident cap (h, m) \<Longrightarrow> heap_inv fs ident cap (heap_commit h, m)"
  by (simp add: heap_inv_def heap_commit_def)

text \<open>Popping: any property that removals in range keep is kept, and the popped elements come
  out in ascending order, before everything that stays.\<close>

lemma heap_pop_loop_stable:
  assumes "\<And>st k. Q st \<Longrightarrow> k < length (heap_values (fst st)) \<Longrightarrow> Q (heap_delete fs (int k) st)" "Q st"
  shows "Q (snd (heap_pop_loop fs n st))"
  using assms(2)
proof (induction n arbitrary: st)
  case (Suc n)
  then show ?case using assms(1) [of _ 0]
    by (auto simp: heap_takeMin_eq case_prod_beta)
qed simp

lemma heap_pop_loop_result:
  assumes "heap_inv fs ident cap st" "heap_pop_loop fs n st = (xs, st')"
  shows "mset xs + mset (heap_values (fst st')) = mset (heap_values (fst st)) \<and>
    length xs = min n (length (heap_values (fst st))) \<and>
    sorted_wrt (\<lambda>a b. compare fs a b \<le> 0) xs \<and>
    (\<forall>x \<in> set xs. \<forall>y \<in> set (heap_values (fst st')). compare fs x y \<le> 0)"
  using assms
proof (induction n arbitrary: st xs)
  case (Suc n)
  show ?case
  proof (cases "heap_values (fst st) = []")
    case True
    with Suc.prems show ?thesis by (simp add: heap_takeMin_eq)
  next
    case False
    let ?v = "heap_values (fst st) ! 0" and ?st = "heap_delete fs 0 st"
    have 0: "0 < length (heap_values (fst st))" using False by simp
    obtain ys where ys: "heap_pop_loop fs n ?st = (ys, st')" "xs = ?v # ys"
      using Suc.prems(2) False by (auto simp: heap_takeMin_eq split: prod.splits)
    note IH = Suc.IH [OF heap_delete_inv [OF Suc.prems(1) 0, simplified] ys(1)]
    note del = heap_delete_frame [OF 0, where fs = fs, simplified]
    have least: "compare fs ?v y \<le> 0" if "y \<in> set (heap_values (fst st))" for y
      using heap_ordered_least [of "heap_values (fst st)"] Suc.prems(1) that
      by (auto simp: heap_inv_def in_set_conv_nth)
    have sub: "set ys \<union> set (heap_values (fst st')) \<subseteq> set (heap_values (fst st))"
    proof -
      have "set_mset (mset ys + mset (heap_values (fst st'))) \<subseteq> set_mset (mset (heap_values (fst st)))"
        using IH del(1) by (metis in_diffD subsetI)
      then show ?thesis by simp
    qed
    have "add_mset ?v (mset (heap_values (fst st)) - {#?v#}) = mset (heap_values (fst st))"
      using 0 by simp
    moreover have "length xs = min (Suc n) (length (heap_values (fst st)))"
    proof -
      have "length ys = min n (length (heap_values (fst st)) - 1)" using IH del(2) by simp
      then have "Suc (length ys) = min (Suc n) (length (heap_values (fst st)))" using 0 by linarith
      then show ?thesis by (simp add: ys(2))
    qed
    ultimately show ?thesis using IH del(1) ys(2) least sub by auto
  qed
qed simp

lemma rollback_entries_restores:
  assumes "journaled ident cap M j N" "heap_inv fs ident cap st" "\<not> recording (fst st)"
    "mset (heap_values (fst st)) = N"
  shows "heap_inv fs ident cap (rollback_entries fs (rev j) st) \<and>
    mset (heap_values (fst (rollback_entries fs (rev j) st))) = M \<and>
    \<not> recording (fst (rollback_entries fs (rev j) st))"
  using assms
proof (induction arbitrary: st rule: journaled.induct)
  case start
  then show ?case by simp
next
  case (insert j N x)
  obtain h m where st: "st = (h, m)" by (cases st)
  have "x \<in> set (heap_values h)" using insert.prems(3) st by (metis fst_conv set_mset_mset union_single_eq_member)
  then obtain k where k: "k < length (heap_values h)" "heap_values h ! k = x" by (auto simp: in_set_conv_nth)
  have g: "getIndex fs x m = Some (int k)"
    using insert.prems(1) k st by (auto simp: heap_inv_def indexed_def)
  have "heap_inv fs ident cap (heap_delete fs (int k) st)"
    by (rule heap_delete_inv) (use insert.prems k st in auto)
  moreover have "\<not> recording (fst (heap_delete fs (int k) st))"
    "mset (heap_values (fst (heap_delete fs (int k) st))) = N"
    using heap_delete_frame [of k st fs] insert.prems k st by auto
  ultimately have "heap_inv fs ident cap (rollback_entries fs (rev j) (heap_delete fs (int k) st)) \<and>
      mset (heap_values (fst (rollback_entries fs (rev j) (heap_delete fs (int k) st)))) = M \<and>
      \<not> recording (fst (rollback_entries fs (rev j) (heap_delete fs (int k) st)))"
    by (rule insert.IH)
  with g st show ?case by simp
next
  case (remove j x N)
  obtain h m where st: "st = (h, m)" by (cases st)
  have "keyed ident cap (add_mset x N)" using remove.hyps by (rule journaled_keyed)
  then have fresh: "ident x \<notin> ident ` set (heap_values h)" "length (heap_values h) < cap"
    using remove.prems(3) st by (auto simp: keyed_add_mset)
  have "heap_inv fs ident cap (heap_insert fs x st)"
    by (rule heap_insert_inv) (use remove.prems fresh st in auto)
  moreover have "\<not> recording (fst (heap_insert fs x st))"
    "mset (heap_values (fst (heap_insert fs x st))) = add_mset x N"
    using heap_insert_frame [of fs x st] remove.prems by auto
  ultimately have "heap_inv fs ident cap (rollback_entries fs (rev j) (heap_insert fs x st)) \<and>
      mset (heap_values (fst (rollback_entries fs (rev j) (heap_insert fs x st)))) = M \<and>
      \<not> recording (fst (rollback_entries fs (rev j) (heap_insert fs x st)))"
    by (rule remove.IH)
  with st show ?case by simp
qed

lemma heap_rollback_restores:
  assumes "heap_tracks fs ident cap M st"
  shows "heap_inv fs ident cap (heap_rollback fs st) \<and>
    mset (heap_values (fst (heap_rollback fs st))) = M \<and>
    \<not> recording (fst (heap_rollback fs st)) \<and> journal (fst (heap_rollback fs st)) = []"
proof -
  obtain h m where st: "st = (h, m)" by (cases st)
  have "heap_inv fs ident cap (h\<lparr>recording := False\<rparr>, m)"
    using assms st by (simp add: heap_tracks_def heap_inv_def)
  moreover have "journaled ident cap M (journal h) (mset (heap_values h))"
    using assms st by (simp add: heap_tracks_def)
  ultimately show ?thesis
    using rollback_entries_restores [of M "journal h" "mset (heap_values h)" "(h\<lparr>recording := False\<rparr>, m)"] st
    by (auto simp: heap_inv_def split: prod.splits)
qed

end

lemma index_tail_frame:
  "heap_values (fst (index_tail fs k es st)) = heap_values (fst st) \<and>
   recording (fst (index_tail fs k es st)) = recording (fst st) \<and>
   journal (fst (index_tail fs k es st)) = journal (fst st) @
     (if recording (fst st) then map (\<lambda>e. \<lparr>undo_value = e, added = True\<rparr>) es else [])"
proof (induction es arbitrary: k st)
  case (Cons e es)
  then show ?case by (cases st) (simp add: Cons)
qed simp

lemma keyed_mono: "A \<subseteq># B \<Longrightarrow> keyed ident cap B \<Longrightarrow> keyed ident cap A"
  unfolding keyed_def
  by (meson image_mset_subseteq_mono le_trans mset_subset_eq_count size_mset_mono)

lemma journaled_insert_all:
  "journaled ident cap M j N \<Longrightarrow> keyed ident cap (N + mset es) \<Longrightarrow>
   journaled ident cap M (j @ map (\<lambda>e. \<lparr>undo_value = e, added = True\<rparr>) es) (N + mset es)"
proof (induction es arbitrary: j N)
  case (Cons e es)
  have "keyed ident cap (add_mset e N + mset es)" using Cons.prems(2) by simp
  moreover from this have "keyed ident cap (add_mset e N)"
    by (rule keyed_mono [rotated]) simp
  ultimately show ?case
    using Cons.IH [OF journaled.insert [OF Cons.prems(1)]] by simp
qed simp

context indexed_heap
begin

lemma index_tail_indexed:
  assumes "indexed fs ident us (snd st)" "distinct (map ident (us @ es))" "length (us @ es) \<le> cap"
  shows "indexed fs ident (us @ es) (snd (index_tail fs (length us) es st))"
  using assms
proof (induction es arbitrary: us st)
  case (Cons e es)
  obtain h m where st: "st = (h, m)" by (cases st)
  have "indexed fs ident (us @ [e]) (setIndex fs e (int (length us)) m)"
    using push_tail_indexed [of "(\<lparr>heap_values = us, journal = [], recording = False\<rparr>, m)" e] Cons.prems st
    by (simp add: push_tail_def image_iff)
  then have "indexed fs ident ((us @ [e]) @ es)
      (snd (index_tail fs (length (us @ [e])) es (record_undo e True (h, setIndex fs e (int (length us)) m))))"
    using Cons.prems by (intro Cons.IH) auto
  with st show ?case by simp
qed simp

lemma heapify_from_ordered:
  assumes "heap_ordered_from (compare fs) i (heap_values (fst st))"
  shows "heap_ordered (compare fs) (heap_values (fst (heapify_from fs i st)))"
  using assms
proof (induction i arbitrary: st)
  case (Suc i)
  let ?vs = "heap_values (fst st)"
  have "down_defect (compare fs) i i ?vs"
    using Suc.prems by (auto simp: down_defect_def heap_ordered_from_def) (metis leD parent_less)
  moreover have "parent_ok (compare fs) i i ?vs"
    by (auto simp: parent_ok_def) (metis leD parent_less)
  ultimately have "heap_ordered_from (compare fs) i (heap_values (fst (snd (heap_down fs i st))))"
    using heap_down_loop_ordered [of i i st] by (auto simp: heap_down_def split: prod.splits)
  then show ?case using Suc.IH by simp
qed simp

lemma heapify_from_stable:
  "swap_stable fs Q \<Longrightarrow> Q st \<Longrightarrow> Q (heapify_from fs i st)"
  by (induction i arbitrary: st) (simp_all add: heap_down_stable)

lemma heap_heapify_ordered: "heap_ordered (compare fs) (heap_values (fst (heap_heapify fs st)))"
  unfolding heap_heapify_def
  by (rule heapify_from_ordered) (auto simp: heap_ordered_from_def parent_def)

lemma heap_insertMany_inv:
  assumes inv: "heap_inv fs ident cap st"
    and keys: "keyed ident cap (mset (heap_values (fst st)) + mset es)"
  shows "heap_inv fs ident cap (heap_insertMany fs es st) \<and>
    mset (heap_values (fst (heap_insertMany fs es st))) = mset (heap_values (fst st)) + mset es \<and>
    (\<forall>M. heap_tracks fs ident cap M st \<longrightarrow> heap_tracks fs ident cap M (heap_insertMany fs es st))"
proof -
  obtain h m where st: "st = (h, m)" by (cases st)
  let ?vs = "heap_values h @ es"
  let ?t = "index_tail fs (length (heap_values h)) es (h\<lparr>heap_values := ?vs\<rparr>, m)"
  have r: "heap_insertMany fs es st = heap_heapify fs ?t" by (simp add: st Let_def)
  have "keyed ident cap (mset ?vs)" using keys st by simp
  then have dis: "distinct (map ident ?vs)" "length ?vs \<le> cap" unfolding keyed_mset by auto
  have t: "heap_values (fst ?t) = ?vs" "recording (fst ?t) = recording h"
    "journal (fst ?t) = journal h @ (if recording h then map (\<lambda>e. \<lparr>undo_value = e, added = True\<rparr>) es else [])"
    using index_tail_frame [of fs _ es "(h\<lparr>heap_values := ?vs\<rparr>, m)"] by simp_all
  have "indexed fs ident ?vs (snd ?t)"
    by (rule index_tail_indexed) (use inv dis st in \<open>auto simp: heap_inv_def\<close>)
  then have ix: "indexed fs ident (heap_values (fst (heap_heapify fs ?t))) (snd (heap_heapify fs ?t)) \<and>
      length (heap_values (fst (heap_heapify fs ?t))) \<le> cap"
    unfolding heap_heapify_def using heapify_from_stable [OF swap_stable_indexed, of ?t] t(1) dis(2) by simp
  have ms: "mset (heap_values (fst (heap_heapify fs ?t))) = mset ?vs"
    "recording (fst (heap_heapify fs ?t)) = recording h"
    "journal (fst (heap_heapify fs ?t)) = journal (fst ?t)"
    unfolding heap_heapify_def
    using heapify_from_stable [OF swap_stable_mset, of ?t] t
      heapify_from_stable [OF swap_stable_undo, of ?t "journal (fst ?t)" "recording h"] by simp_all
  have inv': "heap_inv fs ident cap (heap_heapify fs ?t)"
    using ix heap_heapify_ordered by (simp add: heap_inv_def)
  moreover have "heap_tracks fs ident cap M (heap_heapify fs ?t)" if "heap_tracks fs ident cap M st" for M
    using that inv' ms t(3) keys journaled_insert_all [of ident cap M "journal h" "mset (heap_values h)" es] st
    by (simp add: heap_tracks_def)
  ultimately show ?thesis using r ms st by simp
qed

subsection \<open>Both modes in one predicate\<close>

lemma heap_ok_inv: "heap_ok fs ident cap U st \<Longrightarrow> heap_inv fs ident cap st"
  by (simp add: heap_ok_def)

lemma heap_ok_insert:
  "heap_ok fs ident cap U st \<Longrightarrow> ident x \<notin> ident ` set (heap_values (fst st)) \<Longrightarrow>
   length (heap_values (fst st)) < cap \<Longrightarrow> heap_ok fs ident cap U (heap_insert fs x st)"
  using heap_insert_inv [of st x] heap_insert_tracks [of _ st x]
  by (auto simp: heap_ok_def split: option.splits)

lemma heap_ok_delete:
  "heap_ok fs ident cap U st \<Longrightarrow> k < length (heap_values (fst st)) \<Longrightarrow>
   heap_ok fs ident cap U (heap_delete fs (int k) st)"
  using heap_delete_inv [of st k] heap_delete_tracks [of _ st k]
  by (auto simp: heap_ok_def split: option.splits)

lemma heap_ok_pop:
  "heap_ok fs ident cap U st \<Longrightarrow> heap_ok fs ident cap U (snd (heap_pop fs n st))"
  by (simp add: heap_pop_def heap_pop_loop_stable heap_ok_delete)

lemma heap_pop_result:
  assumes "heap_inv fs ident cap st" "heap_pop fs n st = (xs, st')"
  shows "mset xs + mset (heap_values (fst st')) = mset (heap_values (fst st))"
    "length xs = min (nat n) (length (heap_values (fst st)))"
    "sorted_wrt (\<lambda>a b. compare fs a b \<le> 0) xs"
    "x \<in> set xs \<Longrightarrow> y \<in> set (heap_values (fst st')) \<Longrightarrow> compare fs x y \<le> 0"
  using assms heap_pop_loop_result [of st "nat n" xs st']
  by (auto simp: heap_pop_def split: if_splits)

text \<open>Removing by identity, the way the users of a heap call \<open>delete\<close>.\<close>

lemma heap_ok_remove:
  assumes ok: "heap_ok fs ident cap U st" and i: "getIndex fs a (snd st) = Some i"
  shows "heap_ok fs ident cap U (heap_delete fs i st)"
    "mset (heap_values (fst (heap_delete fs i st))) =
       filter_mset (\<lambda>x. ident x \<noteq> ident a) (mset (heap_values (fst st)))"
    "heap_values (fst st) ! nat i \<in> set (heap_values (fst st)) \<and> ident (heap_values (fst st) ! nat i) = ident a"
proof -
  have inv: "heap_inv fs ident cap st" using ok by (rule heap_ok_inv)
  then have ix: "indexed fs ident (heap_values (fst st)) (snd st)" by (simp add: heap_inv_def)
  then obtain k where k: "k < length (heap_values (fst st))" "i = int k"
    "ident (heap_values (fst st) ! k) = ident a"
    using i by (auto simp: indexed_lookup [OF ix])
  show "heap_ok fs ident cap U (heap_delete fs i st)"
    using heap_ok_delete [OF ok k(1)] k(2) by simp
  show "mset (heap_values (fst (heap_delete fs i st))) =
       filter_mset (\<lambda>x. ident x \<noteq> ident a) (mset (heap_values (fst st)))"
    using heap_delete_frame(1) [OF k(1), where fs = fs] k(2,3)
      mset_remove_key [OF heap_inv_distinct [OF inv] k(1)] by simp
  show "heap_values (fst st) ! nat i \<in> set (heap_values (fst st)) \<and> ident (heap_values (fst st) ! nat i) = ident a"
    using k by simp
qed

lemma heap_ok_absent:
  assumes "heap_ok fs ident cap U st" "getIndex fs a (snd st) = None"
  shows "filter_mset (\<lambda>x. ident x \<noteq> ident a) (mset (heap_values (fst st))) = mset (heap_values (fst st))"
  using assms indexed_lookup_None [of "heap_values (fst st)" "snd st" a]
  by (auto simp: heap_ok_def heap_inv_def filter_mset_eq_conv image_iff)

end

declare heap_rollback.simps [simp del] heap_insertMany.simps [simp del]

end
