(* ===== verification/Slot_Index.thy ===== *)
theory Slot_Index
  imports Undo_Heap
begin

text \<open>
  The in-memory slot index of the concurrency package
  (\<open>src/pkg/scheduling/v1/concurrency/slot.go\<close> and \<open>index.go\<close>): a priority heap of slots, an
  optional heap of schedule timeouts, and one map with the position of every task in both.

  The closures that \<open>newInMemorySlotIndexWithCompare\<close> hands to the two heaps are
  \<open>priorityFuns\<close> and \<open>timeoutFuns\<close>; the map they write is the storage the heaps thread.
  Positions are stored as \<open>int32\<close>, so the heaps are bounded by \<open>index_cap\<close> slots.
  A nil index pointer is \<open>None\<close>; the operations with a nil check take an option.
  Timestamps are integers, \<open>now.UnixMilli()\<close> is the argument \<open>nowMs\<close>.
\<close>

section \<open>Model\<close>

record slot =
  taskId :: int
  taskInsertedAtNs :: int
  scheduleTimeoutAtMs :: int
  priority :: int
  taskRetryCount :: int

record timeoutEntry =
  entryTaskId :: int
  timeoutAtMs :: int

record slotLocation =
  priIdx :: int
  toIdx :: int

type_synonym locations = "int \<Rightarrow> slotLocation option"

definition priorityCompare :: "slot \<Rightarrow> slot \<Rightarrow> int" where
  "priorityCompare a b =
     (if priority a \<noteq> priority b then cmp_Compare (priority b) (priority a)
      else if taskInsertedAtNs a \<noteq> taskInsertedAtNs b
      then cmp_Compare (taskInsertedAtNs a) (taskInsertedAtNs b)
      else cmp_Compare (taskId a) (taskId b))"

definition cancelQueuedExceptCompare :: "slot \<Rightarrow> slot \<Rightarrow> int" where
  "cancelQueuedExceptCompare a b =
     (if taskInsertedAtNs a \<noteq> taskInsertedAtNs b
      then cmp_Compare (taskInsertedAtNs a) (taskInsertedAtNs b)
      else cmp_Compare (taskId a) (taskId b))"

definition cancelInProgressCompare :: "slot \<Rightarrow> slot \<Rightarrow> int" where
  "cancelInProgressCompare a b =
     (if priority a \<noteq> priority b then cmp_Compare (priority b) (priority a)
      else if taskInsertedAtNs a \<noteq> taskInsertedAtNs b
      then cmp_Compare (taskInsertedAtNs b) (taskInsertedAtNs a)
      else cmp_Compare (taskId b) (taskId a))"

definition reverseCompare :: "(slot \<Rightarrow> slot \<Rightarrow> int) \<Rightarrow> slot \<Rightarrow> slot \<Rightarrow> int" where
  "reverseCompare c a b = c b a"

definition timedOutCompare :: "timeoutEntry \<Rightarrow> timeoutEntry \<Rightarrow> int" where
  "timedOutCompare a b =
     (if timeoutAtMs a \<noteq> timeoutAtMs b then cmp_Compare (timeoutAtMs a) (timeoutAtMs b)
      else cmp_Compare (entryTaskId a) (entryTaskId b))"

text \<open>Reading an absent key of a Go map gives the zero value.\<close>

definition location_of :: "locations \<Rightarrow> int \<Rightarrow> slotLocation" where
  "location_of m t = (case m t of None \<Rightarrow> \<lparr>priIdx = 0, toIdx = 0\<rparr> | Some loc \<Rightarrow> loc)"

definition priorityIndex :: "int \<Rightarrow> locations \<Rightarrow> int option" where
  "priorityIndex t m =
     (case m t of
        None \<Rightarrow> None
      | Some loc \<Rightarrow> if priIdx loc = 0 then None else Some (priIdx loc - 1))"

definition timeoutIndex :: "int \<Rightarrow> locations \<Rightarrow> int option" where
  "timeoutIndex t m =
     (case m t of
        None \<Rightarrow> None
      | Some loc \<Rightarrow> if toIdx loc = 0 then None else Some (toIdx loc - 1))"

definition setPriorityIndex :: "int \<Rightarrow> int \<Rightarrow> locations \<Rightarrow> locations" where
  "setPriorityIndex t i m =
     (let loc = (location_of m t)\<lparr>priIdx := int32 (i + 1)\<rparr>
      in if priIdx loc = 0 \<and> toIdx loc = 0 then m(t := None) else m(t := Some loc))"

definition setTimeoutIndex :: "int \<Rightarrow> int \<Rightarrow> locations \<Rightarrow> locations" where
  "setTimeoutIndex t i m =
     (let loc = (location_of m t)\<lparr>toIdx := int32 (i + 1)\<rparr>
      in if priIdx loc = 0 \<and> toIdx loc = 0 then m(t := None) else m(t := Some loc))"

definition priorityFuns :: "(slot \<Rightarrow> slot \<Rightarrow> int) \<Rightarrow> (slot, locations) heapFuns" where
  "priorityFuns cmp =
     \<lparr>compare = cmp, setIndex = (\<lambda>s. setPriorityIndex (taskId s)),
      getIndex = (\<lambda>s. priorityIndex (taskId s))\<rparr>"

definition timeoutFuns :: "(timeoutEntry, locations) heapFuns" where
  "timeoutFuns =
     \<lparr>compare = timedOutCompare, setIndex = (\<lambda>e. setTimeoutIndex (entryTaskId e)),
      getIndex = (\<lambda>e. timeoutIndex (entryTaskId e))\<rparr>"

record inMemorySlotIndex =
  indexCompare :: "slot \<Rightarrow> slot \<Rightarrow> int"
  priorityQueue :: "slot heap"
  timedOutQueue :: "timeoutEntry heap option"
  byTaskID :: locations

definition newInMemorySlotIndexWithCompare ::
  "bool \<Rightarrow> (slot \<Rightarrow> slot \<Rightarrow> int) \<Rightarrow> inMemorySlotIndex" where
  "newInMemorySlotIndexWithCompare trackTimeouts cmp =
     \<lparr>indexCompare = cmp, priorityQueue = newHeap,
      timedOutQueue = (if trackTimeouts then Some newHeap else None), byTaskID = Map.empty\<rparr>"

definition newInMemorySlotIndex :: "bool \<Rightarrow> inMemorySlotIndex" where
  "newInMemorySlotIndex trackTimeouts = newInMemorySlotIndexWithCompare trackTimeouts priorityCompare"

text \<open>A heap operation writes its heap and the shared map of the index.\<close>

definition set_priority :: "inMemorySlotIndex \<Rightarrow> (slot, locations) heap_state \<Rightarrow> inMemorySlotIndex" where
  "set_priority q st = q\<lparr>priorityQueue := fst st, byTaskID := snd st\<rparr>"

definition set_timedOut :: "inMemorySlotIndex \<Rightarrow> (timeoutEntry, locations) heap_state \<Rightarrow> inMemorySlotIndex" where
  "set_timedOut q st = q\<lparr>timedOutQueue := Some (fst st), byTaskID := snd st\<rparr>"

definition removeFromPriority :: "int \<Rightarrow> inMemorySlotIndex \<Rightarrow> inMemorySlotIndex" where
  "removeFromPriority t q =
     (case priorityIndex t (byTaskID q) of
        None \<Rightarrow> q
      | Some i \<Rightarrow> set_priority q (heap_delete (priorityFuns (indexCompare q)) i (priorityQueue q, byTaskID q)))"

definition removeFromTimedOut :: "int \<Rightarrow> inMemorySlotIndex \<Rightarrow> inMemorySlotIndex" where
  "removeFromTimedOut t q =
     (case timedOutQueue q of
        None \<Rightarrow> q
      | Some h \<Rightarrow>
          (case timeoutIndex t (byTaskID q) of
             None \<Rightarrow> q
           | Some i \<Rightarrow> set_timedOut q (heap_delete timeoutFuns i (h, byTaskID q))))"

definition timeout_entry :: "slot \<Rightarrow> timeoutEntry" where
  "timeout_entry s = \<lparr>entryTaskId = taskId s, timeoutAtMs = scheduleTimeoutAtMs s\<rparr>"

definition insertTimedOut :: "slot \<Rightarrow> inMemorySlotIndex \<Rightarrow> inMemorySlotIndex" where
  "insertTimedOut s q =
     (case timedOutQueue q of
        None \<Rightarrow> q
      | Some h \<Rightarrow> set_timedOut q (heap_insert timeoutFuns (timeout_entry s) (h, byTaskID q)))"

definition index_insert :: "slot \<Rightarrow> inMemorySlotIndex \<Rightarrow> inMemorySlotIndex" where
  "index_insert s q =
     (let q1 = removeFromPriority (taskId s) q;
          q2 = removeFromTimedOut (taskId s) q1;
          q3 = set_priority q2 (heap_insert (priorityFuns (indexCompare q2)) s (priorityQueue q2, byTaskID q2))
      in insertTimedOut s q3)"

fun index_delete :: "int \<Rightarrow> inMemorySlotIndex option \<Rightarrow> slot option \<times> inMemorySlotIndex option" where
  "index_delete t None = (None, None)"
| "index_delete t (Some q) =
     (case priorityIndex t (byTaskID q) of
        None \<Rightarrow> (None, Some q)
      | Some i \<Rightarrow>
          (let s = heap_values (priorityQueue q) ! nat i;
               q1 = set_priority q (heap_delete (priorityFuns (indexCompare q)) i (priorityQueue q, byTaskID q))
           in (Some s, Some (removeFromTimedOut t q1))))"

fun index_get :: "int \<Rightarrow> inMemorySlotIndex option \<Rightarrow> slot option" where
  "index_get t None = None"
| "index_get t (Some q) =
     (case priorityIndex t (byTaskID q) of
        None \<Rightarrow> None
      | Some i \<Rightarrow> Some (heap_values (priorityQueue q) ! nat i))"

lemma length_heap_delete_0:
  "heap_delete fs 0 (h, m) = (h', m') \<Longrightarrow> heap_values h \<noteq> [] \<Longrightarrow>
   length (heap_values h') < length (heap_values h)"
  using heap_delete_frame(2) [of 0 "(h, m)" fs] by simp

function popTimedOut_loop :: "int \<Rightarrow> inMemorySlotIndex \<Rightarrow> slot list \<times> inMemorySlotIndex" where
  "popTimedOut_loop nowMs q =
     (case timedOutQueue q of
        None \<Rightarrow> ([], q)
      | Some h \<Rightarrow>
          (case heap_peek h of
             None \<Rightarrow> ([], q)
           | Some e \<Rightarrow>
               if nowMs < timeoutAtMs e then ([], q)
               else
                 (case heap_takeMin timeoutFuns (h, byTaskID q) of
                    None \<Rightarrow> ([], q)
                  | Some (_, st) \<Rightarrow>
                      (let q1 = set_timedOut q st
                       in case priorityIndex (entryTaskId e) (byTaskID q1) of
                            None \<Rightarrow> popTimedOut_loop nowMs q1
                          | Some i \<Rightarrow>
                              (let s = heap_values (priorityQueue q1) ! nat i;
                                   q2 = set_priority q1
                                     (heap_delete (priorityFuns (indexCompare q1)) i
                                        (priorityQueue q1, byTaskID q1));
                                   (ss, q3) = popTimedOut_loop nowMs q2
                               in (s # ss, q3))))))"
  by pat_completeness auto
termination
  by (relation "measure (\<lambda>(nowMs, q). case timedOutQueue q of None \<Rightarrow> 0 | Some h \<Rightarrow> length (heap_values h))")
    (auto simp: heap_takeMin_eq set_timedOut_def set_priority_def dest: length_heap_delete_0 split: if_splits)

declare popTimedOut_loop.simps [simp del]

fun index_popTimedOut :: "int \<Rightarrow> inMemorySlotIndex option \<Rightarrow> slot list \<times> inMemorySlotIndex option" where
  "index_popTimedOut nowMs None = ([], None)"
| "index_popTimedOut nowMs (Some q) =
     (case popTimedOut_loop nowMs q of (ss, q') \<Rightarrow> (ss, Some q'))"

fun index_pop :: "int \<Rightarrow> inMemorySlotIndex option \<Rightarrow> slot list \<times> inMemorySlotIndex option" where
  "index_pop n None = ([], None)"
| "index_pop n (Some q) =
     (case heap_pop (priorityFuns (indexCompare q)) n (priorityQueue q, byTaskID q) of
        (popped, st) \<Rightarrow> (popped, Some (fold (\<lambda>s. removeFromTimedOut (taskId s)) popped (set_priority q st))))"

fun index_peek :: "inMemorySlotIndex option \<Rightarrow> slot option" where
  "index_peek None = None"
| "index_peek (Some q) = heap_peek (priorityQueue q)"

fun index_len :: "inMemorySlotIndex option \<Rightarrow> int" where
  "index_len None = 0"
| "index_len (Some q) = heap_len (priorityQueue q)"

definition index_begin :: "inMemorySlotIndex \<Rightarrow> inMemorySlotIndex" where
  "index_begin q = q\<lparr>priorityQueue := heap_begin (priorityQueue q),
                     timedOutQueue := map_option heap_begin (timedOutQueue q)\<rparr>"

definition index_commit :: "inMemorySlotIndex \<Rightarrow> inMemorySlotIndex" where
  "index_commit q = q\<lparr>priorityQueue := heap_commit (priorityQueue q),
                      timedOutQueue := map_option heap_commit (timedOutQueue q)\<rparr>"

definition index_rollback :: "inMemorySlotIndex \<Rightarrow> inMemorySlotIndex" where
  "index_rollback q =
     (let q1 = set_priority q (heap_rollback (priorityFuns (indexCompare q)) (priorityQueue q, byTaskID q))
      in case timedOutQueue q1 of
           None \<Rightarrow> q1
         | Some h \<Rightarrow> set_timedOut q1 (heap_rollback timeoutFuns (h, byTaskID q1)))"

section \<open>Comparators of the strategies\<close>

text \<open>
  The order a slot index runs on: a comparator whose ties have the same task. Every strategy's
  comparator and its reverse is one.
\<close>

locale slot_order = comparator cmp
  for cmp :: "slot \<Rightarrow> slot \<Rightarrow> int" +
  assumes tie_free: "cmp a b = 0 \<Longrightarrow> taskId a = taskId b"

interpretation priority_order: slot_order priorityCompare
  by unfold_locales (auto simp: priorityCompare_def split: if_splits)

interpretation queued_order: slot_order cancelQueuedExceptCompare
  by unfold_locales (auto simp: cancelQueuedExceptCompare_def split: if_splits)

interpretation in_progress_order: slot_order cancelInProgressCompare
  by unfold_locales (auto simp: cancelInProgressCompare_def split: if_splits)

lemma slot_order_reverse: "slot_order cmp \<Longrightarrow> slot_order (reverseCompare cmp)"
  unfolding slot_order_def comparator_def slot_order_axioms_def reverseCompare_def by metis

interpretation timedOut_order: comparator timedOutCompare
  by unfold_locales (auto simp: timedOutCompare_def split: if_splits)

section \<open>Positions in the shared map\<close>

text \<open>Positions up to \<open>index_cap - 1\<close> survive the conversion to \<open>int32\<close> of the 1-based index.\<close>

definition index_cap :: nat where
  "index_cap = 2 ^ 31 - 1"

lemma int32_position [go_int]: "0 \<le> i \<Longrightarrow> i < int index_cap \<Longrightarrow> int32 (i + 1) = i + 1"
  by (rule int32_id) (auto simp: index_cap_def of_nat_diff)

lemma int32_0 [go_int]: "int32 0 = 0"
  by (simp add: int32_def)

lemma priorityIndex_set:
  "0 \<le> i \<Longrightarrow> i < int index_cap \<Longrightarrow>
   priorityIndex a (setPriorityIndex b i m) = (if a = b then Some i else priorityIndex a m)"
  by (simp add: priorityIndex_def setPriorityIndex_def Let_def go_int)

lemma priorityIndex_clear:
  "priorityIndex a (setPriorityIndex b (- 1) m) = (if a = b then None else priorityIndex a m)"
  by (simp add: priorityIndex_def setPriorityIndex_def Let_def go_int)

lemma timeoutIndex_set:
  "0 \<le> i \<Longrightarrow> i < int index_cap \<Longrightarrow>
   timeoutIndex a (setTimeoutIndex b i m) = (if a = b then Some i else timeoutIndex a m)"
  by (simp add: timeoutIndex_def setTimeoutIndex_def Let_def go_int)

lemma timeoutIndex_clear:
  "timeoutIndex a (setTimeoutIndex b (- 1) m) = (if a = b then None else timeoutIndex a m)"
  by (simp add: timeoutIndex_def setTimeoutIndex_def Let_def go_int)

lemma priorityIndex_frame: "priorityIndex a (setTimeoutIndex b i m) = priorityIndex a m"
  by (auto simp: priorityIndex_def setTimeoutIndex_def location_of_def Let_def split: option.splits)

lemma timeoutIndex_frame: "timeoutIndex a (setPriorityIndex b i m) = timeoutIndex a m"
  by (auto simp: timeoutIndex_def setPriorityIndex_def location_of_def Let_def split: option.splits)

text \<open>No entry of the map is a leftover of a task in neither heap.\<close>

definition no_stale_entry :: "locations \<Rightarrow> bool" where
  "no_stale_entry m \<longleftrightarrow> (\<forall>t loc. m t = Some loc \<longrightarrow> priIdx loc \<noteq> 0 \<or> toIdx loc \<noteq> 0)"

lemma no_stale_entry_set:
  "no_stale_entry m \<Longrightarrow> no_stale_entry (setPriorityIndex t i m)"
  "no_stale_entry m \<Longrightarrow> no_stale_entry (setTimeoutIndex t i m)"
  by (auto simp: no_stale_entry_def setPriorityIndex_def setTimeoutIndex_def Let_def)

lemma no_stale_entry_dom:
  "no_stale_entry m \<Longrightarrow> t \<in> dom m \<longleftrightarrow> priorityIndex t m \<noteq> None \<or> timeoutIndex t m \<noteq> None"
  by (auto simp: no_stale_entry_def priorityIndex_def timeoutIndex_def split: option.splits)

lemma priorityFuns_sel [simp]:
  "compare (priorityFuns cmp) = cmp"
  "setIndex (priorityFuns cmp) s = setPriorityIndex (taskId s)"
  "getIndex (priorityFuns cmp) s = priorityIndex (taskId s)"
  by (simp_all add: priorityFuns_def)

lemma timeoutFuns_sel [simp]:
  "compare timeoutFuns = timedOutCompare"
  "setIndex timeoutFuns e = setTimeoutIndex (entryTaskId e)"
  "getIndex timeoutFuns e = timeoutIndex (entryTaskId e)"
  by (simp_all add: timeoutFuns_def)

interpretation timeout_heap: indexed_heap timeoutFuns entryTaskId index_cap
  by unfold_locales
    (auto simp: timeoutIndex_set timeoutIndex_clear timedOut_order.compare_flip
      intro: timedOut_order.compare_trans)

sublocale slot_order \<subseteq> priority_heap: indexed_heap "priorityFuns cmp" taskId index_cap
  by unfold_locales
    (auto simp: priorityIndex_set priorityIndex_clear compare_flip intro: compare_trans)

section \<open>Invariant\<close>

definition contents :: "inMemorySlotIndex \<Rightarrow> slot multiset" where
  "contents q = mset (heap_values (priorityQueue q))"

definition timeouts :: "inMemorySlotIndex \<Rightarrow> timeoutEntry multiset" where
  "timeouts q = (case timedOutQueue q of None \<Rightarrow> {#} | Some h \<Rightarrow> mset (heap_values h))"

definition index_heaps :: "(slot \<Rightarrow> slot \<Rightarrow> int) \<Rightarrow> slot multiset option \<Rightarrow> inMemorySlotIndex \<Rightarrow> bool" where
  "index_heaps cmp U q \<longleftrightarrow>
     indexCompare q = cmp \<and>
     heap_ok (priorityFuns cmp) taskId index_cap U (priorityQueue q, byTaskID q) \<and>
     (case timedOutQueue q of
        None \<Rightarrow> (\<forall>t. timeoutIndex t (byTaskID q) = None)
      | Some h \<Rightarrow> heap_ok timeoutFuns entryTaskId index_cap (map_option (image_mset timeout_entry) U)
                   (h, byTaskID q)) \<and>
     no_stale_entry (byTaskID q)"

definition index_synced :: "inMemorySlotIndex \<Rightarrow> bool" where
  "index_synced q \<longleftrightarrow> (timedOutQueue q \<noteq> None \<longrightarrow> timeouts q = image_mset timeout_entry (contents q))"

definition index_ok :: "(slot \<Rightarrow> slot \<Rightarrow> int) \<Rightarrow> slot multiset option \<Rightarrow> inMemorySlotIndex \<Rightarrow> bool" where
  "index_ok cmp U q \<longleftrightarrow> index_heaps cmp U q \<and> index_synced q"

lemma heap_ok_swap_storage:
  assumes "heap_ok fs ident cap U (h, m)" "\<And>a. getIndex fs a m' = getIndex fs a m"
  shows "heap_ok fs ident cap U (h, m')"
  using assms by (auto simp: heap_ok_def heap_inv_def heap_tracks_def indexed_def split: option.splits)

text \<open>An operation on one heap leaves the other heap's positions and the shared map's hygiene alone.\<close>

lemma set_priority_heaps:
  assumes q: "index_heaps cmp U q"
    and ok: "heap_ok (priorityFuns cmp) taskId index_cap U st"
    and fr: "\<And>P. storage_stable (priorityFuns cmp) P \<Longrightarrow> P (byTaskID q) \<Longrightarrow> P (snd st)"
  shows "index_heaps cmp U (set_priority q st)"
proof -
  have "timeoutIndex t (snd st) = timeoutIndex t (byTaskID q)" for t
    using fr [of "\<lambda>m. timeoutIndex t m = timeoutIndex t (byTaskID q)"]
    by (simp add: storage_stable_def timeoutIndex_frame)
  moreover have "no_stale_entry (snd st)"
    using fr [of no_stale_entry] q
    by (auto simp: storage_stable_def index_heaps_def intro: no_stale_entry_set)
  ultimately show ?thesis
    using q ok unfolding index_heaps_def set_priority_def
    by (auto split: option.splits intro: heap_ok_swap_storage)
qed

lemma set_timedOut_heaps:
  assumes q: "index_heaps cmp U q"
    and ok: "heap_ok timeoutFuns entryTaskId index_cap (map_option (image_mset timeout_entry) U) st"
    and fr: "\<And>P. storage_stable timeoutFuns P \<Longrightarrow> P (byTaskID q) \<Longrightarrow> P (snd st)"
  shows "index_heaps cmp U (set_timedOut q st)"
proof -
  have "priorityIndex t (snd st) = priorityIndex t (byTaskID q)" for t
    using fr [of "\<lambda>m. priorityIndex t m = priorityIndex t (byTaskID q)"]
    by (simp add: storage_stable_def priorityIndex_frame)
  moreover have "no_stale_entry (snd st)"
    using fr [of no_stale_entry] q
    by (auto simp: storage_stable_def index_heaps_def intro: no_stale_entry_set)
  ultimately show ?thesis
    using q ok unfolding index_heaps_def set_timedOut_def
    by (auto intro: heap_ok_swap_storage)
qed

lemma contents_set [simp]:
  "contents (set_priority q st) = mset (heap_values (fst st))"
  "contents (set_timedOut q tt) = contents q"
  "timeouts (set_timedOut q tt) = mset (heap_values (fst tt))"
  "timeouts (set_priority q st) = timeouts q"
  "timedOutQueue (set_priority q st) = timedOutQueue q"
  "timedOutQueue (set_timedOut q tt) = Some (fst tt)"
  "priorityQueue (set_timedOut q tt) = priorityQueue q"
  "priorityQueue (set_priority q st) = fst st"
  "byTaskID (set_timedOut q tt) = snd tt"
  "byTaskID (set_priority q st) = snd st"
  "indexCompare (set_priority q st) = indexCompare q"
  "indexCompare (set_timedOut q tt) = indexCompare q"
  by (simp_all add: contents_def timeouts_def set_priority_def set_timedOut_def)

context slot_order
begin

lemma index_heaps_cmp: "index_heaps cmp U q \<Longrightarrow> indexCompare q = cmp"
  by (simp add: index_heaps_def)

lemma index_heaps_priority:
  "index_heaps cmp U q \<Longrightarrow> heap_ok (priorityFuns cmp) taskId index_cap U (priorityQueue q, byTaskID q)"
  by (simp add: index_heaps_def)

lemma index_heaps_timedOut:
  "index_heaps cmp U q \<Longrightarrow> timedOutQueue q = Some h \<Longrightarrow>
   heap_ok timeoutFuns entryTaskId index_cap (map_option (image_mset timeout_entry) U) (h, byTaskID q)"
  by (simp add: index_heaps_def)

lemma index_heaps_keyed: "index_heaps cmp U q \<Longrightarrow> keyed taskId index_cap (contents q)"
  using priority_heap.heap_inv_keyed [OF priority_heap.heap_ok_inv [OF index_heaps_priority]]
  by (fastforce simp: contents_def)

subsection \<open>Single steps\<close>

lemma removeFromPriority_heaps:
  assumes "index_heaps cmp U q"
  shows "index_heaps cmp U (removeFromPriority t q)"
    "contents (removeFromPriority t q) = filter_mset (\<lambda>s. taskId s \<noteq> t) (contents q)"
    "timeouts (removeFromPriority t q) = timeouts q"
    "timedOutQueue (removeFromPriority t q) = timedOutQueue q"
proof -
  note pq = index_heaps_priority [OF assms] and cmp = index_heaps_cmp [OF assms]
  let ?a = "\<lparr>taskId = t, taskInsertedAtNs = 0, scheduleTimeoutAtMs = 0, priority = 0, taskRetryCount = 0\<rparr> :: slot"
  have "index_heaps cmp U (removeFromPriority t q) \<and>
    contents (removeFromPriority t q) = filter_mset (\<lambda>s. taskId s \<noteq> t) (contents q) \<and>
    timeouts (removeFromPriority t q) = timeouts q \<and> timedOutQueue (removeFromPriority t q) = timedOutQueue q"
  proof (cases "priorityIndex t (byTaskID q)")
    case None
    with priority_heap.heap_ok_absent [OF pq, of ?a] assms show ?thesis
      by (simp add: removeFromPriority_def contents_def)
  next
    case (Some i)
    note rm = priority_heap.heap_ok_remove [OF pq, of ?a i, simplified, OF Some]
    have "index_heaps cmp U (set_priority q (heap_delete (priorityFuns cmp) i (priorityQueue q, byTaskID q)))"
      by (rule set_priority_heaps [OF assms rm(1)]) (simp add: heap_ops_storage)
    with Some rm(2) cmp show ?thesis by (simp add: removeFromPriority_def contents_def)
  qed
  then show "index_heaps cmp U (removeFromPriority t q)"
    "contents (removeFromPriority t q) = filter_mset (\<lambda>s. taskId s \<noteq> t) (contents q)"
    "timeouts (removeFromPriority t q) = timeouts q"
    "timedOutQueue (removeFromPriority t q) = timedOutQueue q" by auto
qed

lemma removeFromTimedOut_heaps:
  assumes "index_heaps cmp U q"
  shows "index_heaps cmp U (removeFromTimedOut t q)"
    "contents (removeFromTimedOut t q) = contents q"
    "timeouts (removeFromTimedOut t q) = filter_mset (\<lambda>e. entryTaskId e \<noteq> t) (timeouts q)"
    "priorityQueue (removeFromTimedOut t q) = priorityQueue q"
    "timedOutQueue (removeFromTimedOut t q) = None \<longleftrightarrow> timedOutQueue q = None"
proof -
  have "index_heaps cmp U (removeFromTimedOut t q) \<and> contents (removeFromTimedOut t q) = contents q \<and>
    timeouts (removeFromTimedOut t q) = filter_mset (\<lambda>e. entryTaskId e \<noteq> t) (timeouts q) \<and>
    priorityQueue (removeFromTimedOut t q) = priorityQueue q \<and>
    (timedOutQueue (removeFromTimedOut t q) = None \<longleftrightarrow> timedOutQueue q = None)"
  proof (cases "timedOutQueue q")
    case None
    with assms show ?thesis by (simp add: removeFromTimedOut_def timeouts_def)
  next
    case (Some h)
    note tq = index_heaps_timedOut [OF assms Some]
    let ?a = "\<lparr>entryTaskId = t, timeoutAtMs = 0\<rparr> :: timeoutEntry"
    show ?thesis
    proof (cases "timeoutIndex t (byTaskID q)")
      case None
      with timeout_heap.heap_ok_absent [OF tq, of ?a] assms Some show ?thesis
        by (simp add: removeFromTimedOut_def timeouts_def)
    next
      case (Some i)
      note rm = timeout_heap.heap_ok_remove [OF tq, of ?a i, simplified, OF Some]
      have "index_heaps cmp U (set_timedOut q (heap_delete timeoutFuns i (h, byTaskID q)))"
        by (rule set_timedOut_heaps [OF assms rm(1)]) (simp add: heap_ops_storage)
      with Some \<open>timedOutQueue q = Some h\<close> rm(2) show ?thesis
        by (simp add: removeFromTimedOut_def timeouts_def)
    qed
  qed
  then show "index_heaps cmp U (removeFromTimedOut t q)"
    "contents (removeFromTimedOut t q) = contents q"
    "timeouts (removeFromTimedOut t q) = filter_mset (\<lambda>e. entryTaskId e \<noteq> t) (timeouts q)"
    "priorityQueue (removeFromTimedOut t q) = priorityQueue q"
    "timedOutQueue (removeFromTimedOut t q) = None \<longleftrightarrow> timedOutQueue q = None" by auto
qed

lemma insertPriority_heaps:
  assumes "index_heaps cmp U q" "taskId s \<notin> taskId ` set_mset (contents q)" "size (contents q) < index_cap"
  shows "index_heaps cmp U (set_priority q (heap_insert (priorityFuns cmp) s (priorityQueue q, byTaskID q)))"
    "contents (set_priority q (heap_insert (priorityFuns cmp) s (priorityQueue q, byTaskID q))) = add_mset s (contents q)"
proof -
  have "heap_ok (priorityFuns cmp) taskId index_cap U (heap_insert (priorityFuns cmp) s (priorityQueue q, byTaskID q))"
    by (rule priority_heap.heap_ok_insert [OF index_heaps_priority]) (use assms in \<open>auto simp: contents_def\<close>)
  then show "index_heaps cmp U (set_priority q (heap_insert (priorityFuns cmp) s (priorityQueue q, byTaskID q)))"
    by (rule set_priority_heaps [OF assms(1)]) (simp add: heap_ops_storage)
qed (simp add: heap_insert_frame contents_def)

lemma insertTimedOut_heaps:
  assumes "index_heaps cmp U q" "taskId s \<notin> entryTaskId ` set_mset (timeouts q)" "size (timeouts q) < index_cap"
  shows "index_heaps cmp U (insertTimedOut s q)" "contents (insertTimedOut s q) = contents q"
    "timeouts (insertTimedOut s q) = (if timedOutQueue q = None then {#} else add_mset (timeout_entry s) (timeouts q))"
    "timedOutQueue (insertTimedOut s q) = None \<longleftrightarrow> timedOutQueue q = None"
proof -
  have "index_heaps cmp U (insertTimedOut s q) \<and> contents (insertTimedOut s q) = contents q \<and>
    timeouts (insertTimedOut s q) = (if timedOutQueue q = None then {#} else add_mset (timeout_entry s) (timeouts q)) \<and>
    (timedOutQueue (insertTimedOut s q) = None \<longleftrightarrow> timedOutQueue q = None)"
  proof (cases "timedOutQueue q")
    case None
    with assms(1) show ?thesis by (simp add: insertTimedOut_def timeouts_def)
  next
    case (Some h)
    have "heap_ok timeoutFuns entryTaskId index_cap (map_option (image_mset timeout_entry) U)
        (heap_insert timeoutFuns (timeout_entry s) (h, byTaskID q))"
      by (rule timeout_heap.heap_ok_insert [OF index_heaps_timedOut [OF assms(1) Some]])
        (use assms Some in \<open>auto simp: timeouts_def timeout_entry_def\<close>)
    then have "index_heaps cmp U (set_timedOut q (heap_insert timeoutFuns (timeout_entry s) (h, byTaskID q)))"
      by (rule set_timedOut_heaps [OF assms(1)]) (simp add: heap_ops_storage)
    with Some show ?thesis by (simp add: insertTimedOut_def heap_insert_frame timeouts_def)
  qed
  then show "index_heaps cmp U (insertTimedOut s q)" "contents (insertTimedOut s q) = contents q"
    "timeouts (insertTimedOut s q) = (if timedOutQueue q = None then {#} else add_mset (timeout_entry s) (timeouts q))"
    "timedOutQueue (insertTimedOut s q) = None \<longleftrightarrow> timedOutQueue q = None" by auto
qed

lemma synced_filter:
  assumes "index_synced q" "timedOutQueue q \<noteq> None"
  shows "filter_mset (\<lambda>e. entryTaskId e \<noteq> t) (timeouts q) =
    image_mset timeout_entry (filter_mset (\<lambda>s. taskId s \<noteq> t) (contents q))"
  using assms by (simp add: index_synced_def filter_mset_image_mset timeout_entry_def)

subsection \<open>Operations of the index\<close>

lemma index_insert_ok:
  assumes ok: "index_ok cmp U q" and cap: "size (filter_mset (\<lambda>x. taskId x \<noteq> taskId s) (contents q)) < index_cap"
  shows "index_ok cmp U (index_insert s q)"
    "contents (index_insert s q) = add_mset s (filter_mset (\<lambda>x. taskId x \<noteq> taskId s) (contents q))"
    "timedOutQueue (index_insert s q) = None \<longleftrightarrow> timedOutQueue q = None"
proof -
  have q: "index_heaps cmp U q" "index_synced q" using ok by (auto simp: index_ok_def)
  let ?C = "filter_mset (\<lambda>x. taskId x \<noteq> taskId s) (contents q)"
  define q2 where "q2 = removeFromTimedOut (taskId s) (removeFromPriority (taskId s) q)"
  note p = removeFromPriority_heaps [OF q(1), of "taskId s"]
  note t = removeFromTimedOut_heaps [OF p(1), of "taskId s", folded q2_def]
  define q3 where "q3 = set_priority q2 (heap_insert (priorityFuns cmp) s (priorityQueue q2, byTaskID q2))"
  have C2: "contents q2 = ?C" using t(2) p(2) by simp
  have "taskId s \<notin> taskId ` set_mset (contents q2)" "size (contents q2) < index_cap"
    using cap by (auto simp: C2)
  note i = insertPriority_heaps [OF t(1) this, folded q3_def, unfolded C2]
  have T3: "timeouts q3 = filter_mset (\<lambda>e. entryTaskId e \<noteq> taskId s) (timeouts q)"
    "timedOutQueue q3 = None \<longleftrightarrow> timedOutQueue q = None"
    using t(3,5) p(3,4) by (simp_all add: q3_def)
  have "timedOutQueue q \<noteq> None \<Longrightarrow> timeouts q3 = image_mset timeout_entry ?C"
    using T3(1) synced_filter [OF q(2)] by simp
  moreover have "timedOutQueue q = None \<Longrightarrow> timeouts q3 = {#}"
    using T3(2) by (simp add: timeouts_def)
  ultimately have fresh: "taskId s \<notin> entryTaskId ` set_mset (timeouts q3)" "size (timeouts q3) < index_cap"
    using cap by (cases "timedOutQueue q"; auto simp: timeout_entry_def)+
  note f = insertTimedOut_heaps [OF i(1) fresh]
  have r: "index_insert s q = insertTimedOut s q3"
    using index_heaps_cmp [OF t(1)] by (simp add: index_insert_def Let_def q2_def q3_def)
  show "contents (index_insert s q) = add_mset s ?C" by (simp add: r f(2) i(2))
  show "timedOutQueue (index_insert s q) = None \<longleftrightarrow> timedOutQueue q = None" using f(4) T3(2) r by simp
  show "index_ok cmp U (index_insert s q)"
    using f T3 i(2) \<open>timedOutQueue q \<noteq> None \<Longrightarrow> timeouts q3 = image_mset timeout_entry ?C\<close>
    by (auto simp: index_ok_def index_synced_def r)
qed

end

fun opt_contents :: "inMemorySlotIndex option \<Rightarrow> slot multiset" where
  "opt_contents None = {#}"
| "opt_contents (Some q) = contents q"

fun opt_ok :: "(slot \<Rightarrow> slot \<Rightarrow> int) \<Rightarrow> bool \<Rightarrow> slot multiset option \<Rightarrow> inMemorySlotIndex option \<Rightarrow> bool" where
  "opt_ok cmp track U None \<longleftrightarrow> True"
| "opt_ok cmp track U (Some q) \<longleftrightarrow> index_ok cmp U q \<and> (timedOutQueue q \<noteq> None \<longleftrightarrow> track)"

lemma index_len_contents: "index_len qo = int (size (opt_contents qo))"
  by (cases qo) (simp_all add: heap_len_def contents_def)

lemma keyed_empty [simp]: "keyed f cap {#}"
  by (simp add: keyed_def)

lemma keyed_unique: "keyed f cap M \<Longrightarrow> a \<in># M \<Longrightarrow> b \<in># M \<Longrightarrow> f a = f b \<Longrightarrow> a = b"
  by (metis image_eqI insert_DiffM insert_noteq_member keyed_add_mset)

lemma keyed_union_disjoint:
  assumes "keyed f cap (A + B)" "a \<in># A" "b \<in># B"
  shows "f a \<noteq> f b"
proof -
  have "add_mset a (add_mset b (A - {#a#} + (B - {#b#}))) = A + B"
    using assms(2,3) by (metis add_mset_add_single insert_DiffM mset_subset_eq_single
        union_mset_add_mset_left union_mset_add_mset_right)
  with assms(1) show ?thesis by (metis image_eqI keyed_add_mset union_single_eq_member)
qed

context slot_order
begin

lemma index_ok_heaps: "index_ok cmp U q \<Longrightarrow> index_heaps cmp U q"
  by (simp add: index_ok_def)

lemma index_ok_keyed: "index_ok cmp U q \<Longrightarrow> keyed taskId index_cap (contents q)"
  by (rule index_heaps_keyed [OF index_ok_heaps])

lemma opt_ok_keyed: "opt_ok cmp track U qo \<Longrightarrow> keyed taskId index_cap (opt_contents qo)"
  by (cases qo) (auto simp: index_ok_keyed)

lemma priorityIndex_contents:
  assumes "index_heaps cmp U q"
  shows "priorityIndex t (byTaskID q) = None \<longleftrightarrow> t \<notin> taskId ` set_mset (contents q)"
proof -
  let ?a = "\<lparr>taskId = t, taskInsertedAtNs = 0, scheduleTimeoutAtMs = 0, priority = 0, taskRetryCount = 0\<rparr> :: slot"
  have "indexed (priorityFuns cmp) taskId (heap_values (priorityQueue q)) (byTaskID q)"
    using index_heaps_priority [OF assms] by (auto simp: heap_ok_def heap_inv_def)
  from priority_heap.indexed_lookup_None [OF this, of ?a] show ?thesis by (simp add: contents_def)
qed

lemma priorityIndex_Some:
  assumes "index_heaps cmp U q" "priorityIndex t (byTaskID q) = Some i"
  shows "heap_values (priorityQueue q) ! nat i \<in># contents q"
    "taskId (heap_values (priorityQueue q) ! nat i) = t"
    "0 \<le> i" "nat i < length (heap_values (priorityQueue q))"
proof -
  let ?a = "\<lparr>taskId = t, taskInsertedAtNs = 0, scheduleTimeoutAtMs = 0, priority = 0, taskRetryCount = 0\<rparr> :: slot"
  have "indexed (priorityFuns cmp) taskId (heap_values (priorityQueue q)) (byTaskID q)"
    using index_heaps_priority [OF assms(1)] by (auto simp: heap_ok_def heap_inv_def)
  from priority_heap.indexed_lookup [OF this, of ?a i] assms(2)
  show "heap_values (priorityQueue q) ! nat i \<in># contents q"
    "taskId (heap_values (priorityQueue q) ! nat i) = t"
    "0 \<le> i" "nat i < length (heap_values (priorityQueue q))"
    by (auto simp: contents_def)
qed

lemma index_get_iff:
  assumes "opt_ok cmp track U qo"
  shows "index_get t qo = Some s \<longleftrightarrow> s \<in># opt_contents qo \<and> taskId s = t"
proof (cases qo)
  case (Some q)
  with assms have q: "index_heaps cmp U q" by (simp add: index_ok_def)
  show ?thesis
  proof (cases "priorityIndex t (byTaskID q)")
    case None
    with Some priorityIndex_contents [OF q, of t] show ?thesis by auto
  next
    case (Some i)
    note hit = priorityIndex_Some [OF q Some]
    with \<open>qo = Some q\<close> Some keyed_unique [OF index_heaps_keyed [OF q]] show ?thesis by auto
  qed
qed simp

lemma index_get_None:
  "opt_ok cmp track U qo \<Longrightarrow> index_get t qo = None \<longleftrightarrow> t \<notin> taskId ` set_mset (opt_contents qo)"
  using index_get_iff [of track U qo t] by (metis (no_types, lifting) image_iff option.exhaust option.simps(3))

lemma index_delete_ok:
  assumes "opt_ok cmp track U qo"
  shows "opt_ok cmp track U (snd (index_delete t qo))"
    "opt_contents (snd (index_delete t qo)) = filter_mset (\<lambda>s. taskId s \<noteq> t) (opt_contents qo)"
    "fst (index_delete t qo) = index_get t qo"
    "snd (index_delete t qo) = None \<longleftrightarrow> qo = None"
proof -
  have "opt_ok cmp track U (snd (index_delete t qo)) \<and>
    opt_contents (snd (index_delete t qo)) = filter_mset (\<lambda>s. taskId s \<noteq> t) (opt_contents qo) \<and>
    fst (index_delete t qo) = index_get t qo \<and> (snd (index_delete t qo) = None \<longleftrightarrow> qo = None)"
  proof (cases qo)
    case (Some q)
    with assms have q: "index_heaps cmp U q" "index_synced q" "timedOutQueue q \<noteq> None \<longleftrightarrow> track"
      by (auto simp: index_ok_def)
    note p = removeFromPriority_heaps [OF q(1), of t]
    note r = removeFromTimedOut_heaps [OF p(1), of t]
    show ?thesis
    proof (cases "priorityIndex t (byTaskID q)")
      case None
      with p(2) Some assms show ?thesis by (simp add: removeFromPriority_def)
    next
      case (Some i)
      then have d: "index_delete t qo =
          (Some (heap_values (priorityQueue q) ! nat i), Some (removeFromTimedOut t (removeFromPriority t q)))"
        by (simp add: \<open>qo = Some q\<close> removeFromPriority_def Let_def)
      have "index_synced (removeFromTimedOut t (removeFromPriority t q))"
        using r(2,3,5) p(2,3,4) synced_filter [OF q(2), of t] by (auto simp: index_synced_def)
      with d r p(2,4) q(3) Some \<open>qo = Some q\<close> show ?thesis by (auto simp: index_ok_def)
    qed
  qed simp
  then show "opt_ok cmp track U (snd (index_delete t qo))"
    "opt_contents (snd (index_delete t qo)) = filter_mset (\<lambda>s. taskId s \<noteq> t) (opt_contents qo)"
    "fst (index_delete t qo) = index_get t qo"
    "snd (index_delete t qo) = None \<longleftrightarrow> qo = None" by auto
qed

lemma fold_removeFromTimedOut:
  assumes "index_heaps cmp U q"
  shows "index_heaps cmp U (fold (\<lambda>s. removeFromTimedOut (taskId s)) xs q) \<and>
    contents (fold (\<lambda>s. removeFromTimedOut (taskId s)) xs q) = contents q \<and>
    timeouts (fold (\<lambda>s. removeFromTimedOut (taskId s)) xs q) =
      filter_mset (\<lambda>e. entryTaskId e \<notin> taskId ` set xs) (timeouts q) \<and>
    (timedOutQueue (fold (\<lambda>s. removeFromTimedOut (taskId s)) xs q) = None \<longleftrightarrow> timedOutQueue q = None)"
  using assms
proof (induction xs arbitrary: q)
  case (Cons x xs)
  note r = removeFromTimedOut_heaps [OF Cons.prems, of "taskId x"]
  show ?case using Cons.IH [OF r(1)] r(2,3,5)
    by (auto simp: filter_filter_mset intro!: filter_mset_cong)
qed simp

lemma index_pop_ok:
  assumes ok: "opt_ok cmp track U qo" and pop: "index_pop n qo = (xs, qo')"
  shows "opt_ok cmp track U qo'" "mset xs + opt_contents qo' = opt_contents qo"
    "length xs = min (nat n) (size (opt_contents qo))"
    "sorted_wrt (\<lambda>a b. cmp a b \<le> 0) xs"
    "\<forall>x \<in> set xs. \<forall>y \<in># opt_contents qo'. cmp x y \<le> 0"
    "qo' = None \<longleftrightarrow> qo = None"
proof -
  have "opt_ok cmp track U qo' \<and> mset xs + opt_contents qo' = opt_contents qo \<and>
    length xs = min (nat n) (size (opt_contents qo)) \<and> sorted_wrt (\<lambda>a b. cmp a b \<le> 0) xs \<and>
    (\<forall>x \<in> set xs. \<forall>y \<in># opt_contents qo'. cmp x y \<le> 0) \<and> (qo' = None \<longleftrightarrow> qo = None)"
  proof (cases qo)
    case None
    with pop show ?thesis by simp
  next
    case (Some q)
    with ok have q: "index_heaps cmp U q" "index_synced q" "timedOutQueue q \<noteq> None \<longleftrightarrow> track"
      by (auto simp: index_ok_def)
    note pq = index_heaps_priority [OF q(1)]
    obtain st where st: "heap_pop (priorityFuns cmp) n (priorityQueue q, byTaskID q) = (xs, st)"
      and qo': "qo' = Some (fold (\<lambda>s. removeFromTimedOut (taskId s)) xs (set_priority q st))"
      using pop Some index_heaps_cmp [OF q(1)] by (auto split: prod.splits)
    have "heap_ok (priorityFuns cmp) taskId index_cap U st"
      using priority_heap.heap_ok_pop [OF pq, of n] st by simp
    then have heaps: "index_heaps cmp U (set_priority q st)"
      by (rule set_priority_heaps [OF q(1)])
        (use heap_pop_storage [of "priorityFuns cmp" _ "(priorityQueue q, byTaskID q)" n] st in simp)
    note res = priority_heap.heap_pop_result [OF priority_heap.heap_ok_inv [OF pq] st, simplified, folded contents_def]
    have M: "mset xs + contents (set_priority q st) = contents q"
      using res(1) by (simp add: contents_def)
    have part: "filter_mset (\<lambda>s. taskId s \<notin> taskId ` set xs) (contents q) = contents (set_priority q st)"
    proof -
      have "keyed taskId index_cap (mset xs + contents (set_priority q st))"
        using index_heaps_keyed [OF q(1)] M by simp
      then have "taskId s \<notin> taskId ` set xs" if "s \<in># contents (set_priority q st)" for s
        using that keyed_union_disjoint by fastforce
      then have "filter_mset (\<lambda>s. taskId s \<notin> taskId ` set xs) (contents (set_priority q st)) = contents (set_priority q st)"
        by (simp add: filter_mset_eq_conv)
      moreover have "filter_mset (\<lambda>s. taskId s \<notin> taskId ` set xs) (mset xs) = {#}"
        by auto
      ultimately show ?thesis by (metis M add_0 filter_union_mset)
    qed
    note f = fold_removeFromTimedOut [OF heaps, of xs]
    have "index_synced (fold (\<lambda>s. removeFromTimedOut (taskId s)) xs (set_priority q st))"
      using f q(2) part by (auto simp: index_synced_def filter_mset_image_mset timeout_entry_def)
    with f q(3) M res Some qo' show ?thesis
      by (auto simp: index_ok_def contents_def)
  qed
  then show "opt_ok cmp track U qo'" "mset xs + opt_contents qo' = opt_contents qo"
    "length xs = min (nat n) (size (opt_contents qo))"
    "sorted_wrt (\<lambda>a b. cmp a b \<le> 0) xs"
    "\<forall>x \<in> set xs. \<forall>y \<in># opt_contents qo'. cmp x y \<le> 0"
    "qo' = None \<longleftrightarrow> qo = None" by auto
qed

end

context slot_order
begin

lemma heap_peek_least:
  assumes "index_heaps cmp U q" "heap_peek (priorityQueue q) = Some s"
  shows "s \<in># contents q" "y \<in># contents q \<Longrightarrow> cmp s y \<le> 0"
proof -
  obtain vs where vs: "heap_values (priorityQueue q) = s # vs"
    using assms(2) by (auto simp: heap_peek_def split: list.splits)
  then show "s \<in># contents q" by (simp add: contents_def)
  have "heap_ordered cmp (heap_values (priorityQueue q))"
    using index_heaps_priority [OF assms(1)] by (simp add: heap_ok_def heap_inv_def)
  from heap_ordered_least [OF this] vs show "y \<in># contents q \<Longrightarrow> cmp s y \<le> 0"
    unfolding contents_def by (metis in_set_conv_nth nth_Cons_0 set_mset_mset)
qed

lemma index_peek_ok:
  assumes "opt_ok cmp track U qo" "index_peek qo = Some s"
  shows "s \<in># opt_contents qo" "y \<in># opt_contents qo \<Longrightarrow> cmp s y \<le> 0"
proof -
  obtain q where q: "qo = Some q" using assms(2) by (cases qo) auto
  with assms have "index_heaps cmp U q" "heap_peek (priorityQueue q) = Some s"
    by (auto simp: index_ok_def)
  note least = heap_peek_least [OF this]
  show "s \<in># opt_contents qo" "y \<in># opt_contents qo \<Longrightarrow> cmp s y \<le> 0"
    using least q by auto
qed

lemma index_peek_None: "index_peek qo = None \<longleftrightarrow> opt_contents qo = {#}"
  by (cases qo) (auto simp: heap_peek_def contents_def split: list.splits)

text \<open>Popping one slot gives the peeked one.\<close>

lemma index_pop_1:
  assumes "opt_ok cmp track U qo" "index_peek qo = Some s"
  shows "opt_contents (snd (index_pop 1 qo)) = opt_contents qo - {#s#}" "fst (index_pop 1 qo) = [s]"
proof -
  obtain q where q: "qo = Some q" using assms(2) by (cases qo) auto
  obtain xs qo' where p: "index_pop 1 qo = (xs, qo')" by (cases "index_pop 1 qo")
  have "xs = [s]"
    using p assms(2) q
    by (auto simp: heap_pop_def heap_takeMin_eq heap_peek_def split: list.splits prod.splits)
  then show "opt_contents (snd (index_pop 1 qo)) = opt_contents qo - {#s#}" "fst (index_pop 1 qo) = [s]"
    using index_pop_ok(2) [OF assms(1) p, symmetric] p by simp_all
qed

subsection \<open>Timeouts\<close>

lemma popTimedOut_step:
  assumes ok: "index_ok cmp U q" and h: "timedOutQueue q = Some h" and e: "heap_peek h = Some e"
    and due: "timeoutAtMs e \<le> nowMs"
  obtains s q2 where "s \<in># contents q" "timeout_entry s = e" "index_ok cmp U q2"
    "contents q2 = filter_mset (\<lambda>x. taskId x \<noteq> taskId s) (contents q)" "timedOutQueue q2 \<noteq> None"
    "popTimedOut_loop nowMs q = (let (ss, q3) = popTimedOut_loop nowMs q2 in (s # ss, q3))"
proof -
  have q: "index_heaps cmp U q" "index_synced q" using ok by (auto simp: index_ok_def)
  obtain vs where vs: "heap_values h = e # vs" using e by (auto simp: heap_peek_def split: list.splits)
  note tq = index_heaps_timedOut [OF q(1) h]
  have g: "getIndex timeoutFuns e (snd (h, byTaskID q)) = Some 0"
    using timeout_heap.heap_ok_inv [OF tq] vs by (force simp: heap_inv_def indexed_def)
  note rm = timeout_heap.heap_ok_remove [OF tq g, simplified]
  let ?st = "heap_delete timeoutFuns 0 (h, byTaskID q)"
  define q1 where "q1 = set_timedOut q ?st"
  have q1: "index_heaps cmp U q1"
    unfolding q1_def by (rule set_timedOut_heaps [OF q(1) rm(1)]) (simp add: heap_ops_storage)
  have T1: "timeouts q1 = filter_mset (\<lambda>x. entryTaskId x \<noteq> entryTaskId e) (timeouts q)"
    using rm(2) h by (simp add: q1_def timeouts_def)
  have "e \<in># timeouts q" using vs h by (simp add: timeouts_def)
  then obtain s where s: "s \<in># contents q" "timeout_entry s = e"
    using q(2) h by (auto simp: index_synced_def)
  have st: "taskId s = entryTaskId e" using s(2) by (auto simp: timeout_entry_def)
  have "priorityIndex (taskId s) (byTaskID q1) \<noteq> None"
    using priorityIndex_contents [OF q1, of "taskId s"] s(1) by (simp add: q1_def)
  then obtain i where i: "priorityIndex (taskId s) (byTaskID q1) = Some i" by auto
  have sl: "heap_values (priorityQueue q1) ! nat i = s"
    using priorityIndex_Some [OF q1 i] s(1) keyed_unique [OF index_heaps_keyed [OF q1]]
    by (auto simp: q1_def)
  define q2 where "q2 = removeFromPriority (taskId s) q1"
  note p = removeFromPriority_heaps [OF q1, of "taskId s", folded q2_def]
  have C2: "contents q2 = filter_mset (\<lambda>x. taskId x \<noteq> taskId s) (contents q)" using p(2) by (simp add: q1_def)
  have "timeouts q2 = image_mset timeout_entry (contents q2)"
    using p(3) T1 C2 synced_filter [OF q(2)] h st by simp
  then have "index_ok cmp U q2" using p(1) by (simp add: index_ok_def index_synced_def)
  moreover have "timedOutQueue q2 \<noteq> None" using p(4) by (simp add: q1_def)
  moreover have "popTimedOut_loop nowMs q = (let (ss, q3) = popTimedOut_loop nowMs q2 in (s # ss, q3))"
    using h e due vs i sl st index_heaps_cmp [OF q1] unfolding q2_def q1_def
    by (subst popTimedOut_loop.simps)
      (simp add: heap_takeMin_eq Let_def removeFromPriority_def)
  ultimately show thesis using that s C2 by blast
qed

lemma popTimedOut_loop_ok:
  assumes "index_ok cmp U q" "timedOutQueue q \<noteq> None" "popTimedOut_loop nowMs q = (ss, q')"
  shows "index_ok cmp U q' \<and> timedOutQueue q' \<noteq> None \<and>
    mset ss = filter_mset (\<lambda>s. scheduleTimeoutAtMs s \<le> nowMs) (contents q) \<and>
    contents q' = filter_mset (\<lambda>s. \<not> scheduleTimeoutAtMs s \<le> nowMs) (contents q) \<and>
    sorted_wrt (\<lambda>a b. scheduleTimeoutAtMs a \<le> scheduleTimeoutAtMs b) ss"
  using assms
proof (induction "size (contents q)" arbitrary: q ss rule: less_induct)
  case less
  obtain h where h: "timedOutQueue q = Some h" using less.prems(2) by auto
  have q: "index_heaps cmp U q" "timeouts q = image_mset timeout_entry (contents q)"
    using less.prems(1,2) by (auto simp: index_ok_def index_synced_def)
  have ord: "heap_ordered timedOutCompare (heap_values h)"
    using index_heaps_timedOut [OF q(1) h] by (simp add: heap_ok_def heap_inv_def)
  have least: "timeoutAtMs e \<le> scheduleTimeoutAtMs s" if e: "heap_peek h = Some e" and s: "s \<in># contents q" for e s
  proof -
    have "timeout_entry s \<in> set (heap_values h)" using q(2) h s by (simp add: timeouts_def set_mset_mset [symmetric] del: set_mset_mset)
    moreover have "heap_values h ! 0 = e" using e by (auto simp: heap_peek_def split: list.splits)
    ultimately have "timedOutCompare e (timeout_entry s) \<le> 0"
      using timedOut_order.heap_ordered_least [OF ord] by (metis in_set_conv_nth)
    then show ?thesis by (auto simp: timedOutCompare_def timeout_entry_def split: if_splits)
  qed
  show ?case
  proof (cases "\<exists>e. heap_peek h = Some e \<and> timeoutAtMs e \<le> nowMs")
    case False
    have none: "\<not> scheduleTimeoutAtMs s \<le> nowMs" if "s \<in># contents q" for s
    proof (cases "heap_peek h")
      case None
      then have "timeouts q = {#}" using h by (simp add: heap_peek_def timeouts_def split: list.splits)
      with q(2) that show ?thesis by simp
    next
      case (Some e)
      with False least [OF Some that] show ?thesis by auto
    qed
    have "popTimedOut_loop nowMs q = ([], q)"
      using False h by (subst popTimedOut_loop.simps) (auto split: option.splits)
    moreover have "filter_mset (\<lambda>s. \<not> scheduleTimeoutAtMs s \<le> nowMs) (contents q) = contents q"
      using none by (simp add: filter_mset_eq_conv)
    ultimately show ?thesis using less.prems none by auto
  next
    case True
    then obtain e where e: "heap_peek h = Some e" "timeoutAtMs e \<le> nowMs" by blast
    from popTimedOut_step [OF less.prems(1) h e]
    obtain s q2 where s: "s \<in># contents q" "timeout_entry s = e" and q2: "index_ok cmp U q2" "timedOutQueue q2 \<noteq> None"
      and C2: "contents q2 = filter_mset (\<lambda>x. taskId x \<noteq> taskId s) (contents q)"
      and loop: "popTimedOut_loop nowMs q = (let (ss, q3) = popTimedOut_loop nowMs q2 in (s # ss, q3))" by metis
    obtain ss2 where ss2: "popTimedOut_loop nowMs q2 = (ss2, q')" "ss = s # ss2"
      using loop less.prems(3) by (auto split: prod.splits)
    have C: "contents q = add_mset s (contents q2)"
    proof -
      obtain N where N: "contents q = add_mset s N" using s(1) by (metis insert_DiffM)
      with index_heaps_keyed [OF q(1)] have "taskId s \<notin> taskId ` set_mset N" by (simp add: keyed_add_mset)
      then have "filter_mset (\<lambda>x. taskId x \<noteq> taskId s) N = N"
        by (intro filter_mset_all) (metis image_eqI)
      with N C2 show ?thesis by simp
    qed
    have due: "scheduleTimeoutAtMs s \<le> nowMs" "timeoutAtMs e = scheduleTimeoutAtMs s"
      using e(2) s(2) by (auto simp: timeout_entry_def)
    note IH = less.hyps [OF _ q2 ss2(1)]
    have IH': "index_ok cmp U q' \<and> timedOutQueue q' \<noteq> None \<and>
      mset ss2 = filter_mset (\<lambda>s. scheduleTimeoutAtMs s \<le> nowMs) (contents q2) \<and>
      contents q' = filter_mset (\<lambda>s. \<not> scheduleTimeoutAtMs s \<le> nowMs) (contents q2) \<and>
      sorted_wrt (\<lambda>a b. scheduleTimeoutAtMs a \<le> scheduleTimeoutAtMs b) ss2"
      by (rule IH) (simp add: C)
    have "scheduleTimeoutAtMs s \<le> scheduleTimeoutAtMs x" if "x \<in> set ss2" for x
    proof -
      have "x \<in># contents q2" using that IH' by (metis (no_types, lifting) mem_Collect_eq set_mset_filter set_mset_mset)
      then show ?thesis using least [OF e(1), of x] due(2) C by simp
    qed
    with IH' due(1) show ?thesis by (auto simp: ss2(2) C)
  qed
qed

lemma index_popTimedOut_ok:
  assumes "opt_ok cmp True U qo" "index_popTimedOut nowMs qo = (ss, qo')"
  shows "opt_ok cmp True U qo'"
    "mset ss = filter_mset (\<lambda>s. scheduleTimeoutAtMs s \<le> nowMs) (opt_contents qo)"
    "opt_contents qo' = filter_mset (\<lambda>s. \<not> scheduleTimeoutAtMs s \<le> nowMs) (opt_contents qo)"
    "sorted_wrt (\<lambda>a b. scheduleTimeoutAtMs a \<le> scheduleTimeoutAtMs b) ss"
    "qo' = None \<longleftrightarrow> qo = None"
proof -
  have "opt_ok cmp True U qo' \<and>
    mset ss = filter_mset (\<lambda>s. scheduleTimeoutAtMs s \<le> nowMs) (opt_contents qo) \<and>
    opt_contents qo' = filter_mset (\<lambda>s. \<not> scheduleTimeoutAtMs s \<le> nowMs) (opt_contents qo) \<and>
    sorted_wrt (\<lambda>a b. scheduleTimeoutAtMs a \<le> scheduleTimeoutAtMs b) ss \<and> (qo' = None \<longleftrightarrow> qo = None)"
  proof (cases qo)
    case None
    with assms show ?thesis by simp
  next
    case (Some q)
    with assms obtain q' where q': "popTimedOut_loop nowMs q = (ss, q')" "qo' = Some q'"
      by (auto split: prod.splits)
    from Some assms have "index_ok cmp U q" "timedOutQueue q \<noteq> None" by simp_all
    from popTimedOut_loop_ok [OF this q'(1)] show ?thesis by (simp add: Some q'(2))
  qed
  then show "opt_ok cmp True U qo'"
    "mset ss = filter_mset (\<lambda>s. scheduleTimeoutAtMs s \<le> nowMs) (opt_contents qo)"
    "opt_contents qo' = filter_mset (\<lambda>s. \<not> scheduleTimeoutAtMs s \<le> nowMs) (opt_contents qo)"
    "sorted_wrt (\<lambda>a b. scheduleTimeoutAtMs a \<le> scheduleTimeoutAtMs b) ss"
    "qo' = None \<longleftrightarrow> qo = None" by auto
qed

subsection \<open>Undo scopes\<close>

lemma index_new_ok: "index_ok cmp None (newInMemorySlotIndexWithCompare track cmp)"
  "contents (newInMemorySlotIndexWithCompare track cmp) = {#}"
  "timedOutQueue (newInMemorySlotIndexWithCompare track cmp) \<noteq> None \<longleftrightarrow> track"
  by (auto simp: newInMemorySlotIndexWithCompare_def newHeap_def index_ok_def index_heaps_def heap_ok_def
      heap_inv_def indexed_def heap_ordered_from_def priorityIndex_def timeoutIndex_def no_stale_entry_def
      index_synced_def contents_def timeouts_def)

lemma index_ok_forget: "index_ok cmp U q \<Longrightarrow> index_ok cmp None q"
  by (auto simp: index_ok_def index_heaps_def heap_ok_def split: option.splits)

lemma index_begin_ok:
  assumes "index_ok cmp None q"
  shows "index_ok cmp (Some (contents q)) (index_begin q)" "contents (index_begin q) = contents q"
    "timedOutQueue (index_begin q) = None \<longleftrightarrow> timedOutQueue q = None"
proof -
  have q: "index_heaps cmp None q" "index_synced q" using assms by (auto simp: index_ok_def)
  have p: "heap_tracks (priorityFuns cmp) taskId index_cap (contents q) (heap_begin (priorityQueue q), byTaskID q)"
    using priority_heap.heap_begin_tracks [OF priority_heap.heap_ok_inv [OF index_heaps_priority [OF q(1)]]]
    by (simp add: contents_def)
  have t: "heap_tracks timeoutFuns entryTaskId index_cap (image_mset timeout_entry (contents q)) (heap_begin h, byTaskID q)"
    if "timedOutQueue q = Some h" for h
    using timeout_heap.heap_begin_tracks [OF timeout_heap.heap_ok_inv [OF index_heaps_timedOut [OF q(1) that]]] q(2) that
    by (simp add: index_synced_def timeouts_def)
  have "timeouts (index_begin q) = timeouts q" "contents (index_begin q) = contents q"
    by (auto simp: timeouts_def contents_def index_begin_def heap_begin_def split: option.splits)
  with p t q show "index_ok cmp (Some (contents q)) (index_begin q)" "contents (index_begin q) = contents q"
    "timedOutQueue (index_begin q) = None \<longleftrightarrow> timedOutQueue q = None"
    by (auto simp: index_ok_def index_heaps_def index_begin_def heap_ok_def index_synced_def heap_tracks_def
        split: option.splits)
qed

lemma index_commit_ok:
  assumes "index_ok cmp U q"
  shows "index_ok cmp None (index_commit q)" "contents (index_commit q) = contents q"
    "timedOutQueue (index_commit q) = None \<longleftrightarrow> timedOutQueue q = None"
  using assms
  by (auto simp: index_ok_def index_heaps_def index_commit_def heap_ok_def heap_inv_def heap_commit_def
      index_synced_def contents_def timeouts_def split: option.splits)

lemma index_rollback_ok:
  assumes "index_ok cmp (Some M) q"
  shows "index_ok cmp None (index_rollback q)" "contents (index_rollback q) = M"
    "timedOutQueue (index_rollback q) = None \<longleftrightarrow> timedOutQueue q = None"
proof -
  have q: "index_heaps cmp (Some M) q" using assms by (simp add: index_ok_def)
  note cmp = index_heaps_cmp [OF q]
  let ?st = "heap_rollback (priorityFuns cmp) (priorityQueue q, byTaskID q)"
  have "heap_tracks (priorityFuns cmp) taskId index_cap M (priorityQueue q, byTaskID q)"
    using index_heaps_priority [OF q] by (simp add: heap_ok_def)
  note r = priority_heap.heap_rollback_restores [OF this]
  define q1 where "q1 = set_priority q ?st"
  note stable = heap_rollback_storage [of "priorityFuns cmp" _ "(priorityQueue q, byTaskID q)", simplified]
  have fr: "timeoutIndex t (snd ?st) = timeoutIndex t (byTaskID q)" for t
    using stable [of "\<lambda>m. timeoutIndex t m = timeoutIndex t (byTaskID q)"]
    by (simp add: storage_stable_def timeoutIndex_frame)
  have clean: "no_stale_entry (snd ?st)"
    using stable [of no_stale_entry] q by (simp add: storage_stable_def no_stale_entry_set index_heaps_def)
  have "index_ok cmp None (index_rollback q) \<and> contents (index_rollback q) = M \<and>
    (timedOutQueue (index_rollback q) = None \<longleftrightarrow> timedOutQueue q = None)"
  proof (cases "timedOutQueue q")
    case None
    then have "index_rollback q = q1" by (simp add: index_rollback_def q1_def cmp Let_def)
    with None r fr clean q show ?thesis
      by (auto simp: q1_def index_ok_def index_heaps_def index_synced_def heap_ok_def)
  next
    case (Some h)
    let ?tt = "heap_rollback timeoutFuns (h, snd ?st)"
    have R: "index_rollback q = set_timedOut q1 ?tt"
      using Some by (simp add: index_rollback_def q1_def cmp Let_def)
    have "heap_ok timeoutFuns entryTaskId index_cap (Some (image_mset timeout_entry M)) (h, snd ?st)"
      by (rule heap_ok_swap_storage [OF index_heaps_timedOut [OF q Some, simplified]]) (simp add: fr)
    then have "heap_tracks timeoutFuns entryTaskId index_cap (image_mset timeout_entry M) (h, snd ?st)"
      by (simp add: heap_ok_def)
    note t = timeout_heap.heap_rollback_restores [OF this]
    note stable2 = heap_rollback_storage [of timeoutFuns _ "(h, snd ?st)", simplified]
    have fr2: "priorityIndex k (snd ?tt) = priorityIndex k (snd ?st)" for k
      using stable2 [of "\<lambda>m. priorityIndex k m = priorityIndex k (snd ?st)"]
      by (simp add: storage_stable_def priorityIndex_frame)
    have clean2: "no_stale_entry (snd ?tt)"
      using stable2 [of no_stale_entry] clean by (simp add: storage_stable_def no_stale_entry_set)
    have "heap_ok (priorityFuns cmp) taskId index_cap None (fst ?st, snd ?tt)"
      by (rule heap_ok_swap_storage [of _ _ _ _ _ "snd ?st"]) (use r fr2 in \<open>simp_all add: heap_ok_def\<close>)
    with R t clean2 cmp r Some show ?thesis
      by (simp add: q1_def index_ok_def index_heaps_def index_synced_def heap_ok_def contents_def timeouts_def)
  qed
  then show "index_ok cmp None (index_rollback q)" "contents (index_rollback q) = M"
    "timedOutQueue (index_rollback q) = None \<longleftrightarrow> timedOutQueue q = None" by auto
qed

end

declare index_delete.simps(2) [simp del] index_get.simps(2) [simp del] index_pop.simps(2) [simp del]
  index_popTimedOut.simps(2) [simp del]

section \<open>Properties\<close>

text \<open>Any sequence of writes to a heap inside one undo scope.\<close>

datatype heap_op = HInsert slot | HInsertMany "slot list" | HDelete nat | HPop int

fun heap_write :: "(slot, 'm) heapFuns \<Rightarrow> heap_op \<Rightarrow> (slot, 'm) heap_state \<Rightarrow> (slot, 'm) heap_state" where
  "heap_write fs (HInsert s) st = heap_insert fs s st"
| "heap_write fs (HInsertMany ss) st = heap_insertMany fs ss st"
| "heap_write fs (HDelete k) st = heap_delete fs (int k) st"
| "heap_write fs (HPop n) st = snd (heap_pop fs n st)"

text \<open>The caller inserts only slots of tasks that the heap does not hold, up to its capacity.\<close>

fun heap_write_fits :: "heap_op \<Rightarrow> (slot, 'm) heap_state \<Rightarrow> bool" where
  "heap_write_fits (HInsert s) st \<longleftrightarrow>
     taskId s \<notin> taskId ` set (heap_values (fst st)) \<and> length (heap_values (fst st)) < index_cap"
| "heap_write_fits (HInsertMany ss) st \<longleftrightarrow>
     distinct (map taskId (heap_values (fst st) @ ss)) \<and> length (heap_values (fst st)) + length ss \<le> index_cap"
| "heap_write_fits (HDelete k) st \<longleftrightarrow> k < length (heap_values (fst st))"
| "heap_write_fits (HPop n) st \<longleftrightarrow> True"

fun heap_writes_fit :: "(slot, 'm) heapFuns \<Rightarrow> heap_op list \<Rightarrow> (slot, 'm) heap_state \<Rightarrow> bool" where
  "heap_writes_fit fs [] st \<longleftrightarrow> True"
| "heap_writes_fit fs (w # ws) st \<longleftrightarrow> heap_write_fits w st \<and> heap_writes_fit fs ws (heap_write fs w st)"

context slot_order
begin

lemma heap_write_tracks:
  assumes t: "heap_tracks (priorityFuns cmp) taskId index_cap M st" and fit: "heap_write_fits w st"
  shows "heap_tracks (priorityFuns cmp) taskId index_cap M (heap_write (priorityFuns cmp) w st)"
proof -
  have ok: "heap_ok (priorityFuns cmp) taskId index_cap (Some M) st" using t by (simp add: heap_ok_def heap_tracks_def)
  show ?thesis
  proof (cases w)
    case (HInsert s)
    with priority_heap.heap_ok_insert [OF ok, of s] fit show ?thesis by (simp add: heap_ok_def)
  next
    case (HInsertMany ss)
    have "keyed taskId index_cap (mset (heap_values (fst st)) + mset ss)"
      using fit HInsertMany keyed_mset [of taskId index_cap "heap_values (fst st) @ ss"] by simp
    with priority_heap.heap_insertMany_inv [of st ss] ok t HInsertMany show ?thesis by (simp add: heap_ok_def)
  next
    case (HDelete k)
    with priority_heap.heap_ok_delete [OF ok, of k] fit show ?thesis by (simp add: heap_ok_def)
  next
    case (HPop n)
    with priority_heap.heap_ok_pop [OF ok, of n] show ?thesis by (simp add: heap_ok_def)
  qed
qed

lemma heap_writes_track:
  "heap_tracks (priorityFuns cmp) taskId index_cap M st \<Longrightarrow> heap_writes_fit (priorityFuns cmp) ws st \<Longrightarrow>
    heap_tracks (priorityFuns cmp) taskId index_cap M (fold (heap_write (priorityFuns cmp)) ws st)"
proof (induction ws arbitrary: st)
  case (Cons w ws)
  then show ?case using heap_write_tracks [of M st w] by (metis fold_simps(2) heap_writes_fit.simps(2))
qed simp

end

text \<open>
  Popping \<open>n\<close> elements of a heap of slots returns the \<open>n\<close> smallest ones (all of them if there are
  fewer) in ascending order, and leaves a well-formed heap with exactly the others.
\<close>

theorem heap_pop_smallest:
  assumes "heap_inv (priorityFuns priorityCompare) taskId index_cap st"
    "heap_pop (priorityFuns priorityCompare) n st = (xs, st')"
  shows "heap_inv (priorityFuns priorityCompare) taskId index_cap st' \<and>
    mset xs + mset (heap_values (fst st')) = mset (heap_values (fst st)) \<and>
    length xs = min (nat n) (length (heap_values (fst st))) \<and>
    sorted_wrt (\<lambda>a b. priorityCompare a b \<le> 0) xs \<and>
    (\<forall>x \<in> set xs. \<forall>y \<in> set (heap_values (fst st')). priorityCompare x y \<le> 0)"
proof -
  have "heap_ok (priorityFuns priorityCompare) taskId index_cap None st" using assms(1) by (simp add: heap_ok_def)
  from priority_order.priority_heap.heap_ok_pop [OF this, of n] assms(2)
  have "heap_inv (priorityFuns priorityCompare) taskId index_cap st'" by (simp add: heap_ok_def)
  with priority_order.priority_heap.heap_pop_result [OF assms] show ?thesis by simp
qed

text \<open>Slots for the examples: three tasks, one of them with a higher priority.\<close>

definition example_slot :: "int \<Rightarrow> int \<Rightarrow> int \<Rightarrow> slot" where
  "example_slot t p timeout =
     \<lparr>taskId = t, taskInsertedAtNs = 1000 + t, scheduleTimeoutAtMs = timeout, priority = p, taskRetryCount = 0\<rparr>"

lemma example_slot_sel [simp]:
  "taskId (example_slot t p timeout) = t" "taskInsertedAtNs (example_slot t p timeout) = 1000 + t"
  "scheduleTimeoutAtMs (example_slot t p timeout) = timeout" "priority (example_slot t p timeout) = p"
  "taskRetryCount (example_slot t p timeout) = 0"
  by (simp_all add: example_slot_def)

definition example_heap :: "(slot, locations) heap_state" where
  "example_heap = heap_insertMany (priorityFuns priorityCompare)
     [example_slot 1 1 50, example_slot 2 1 60, example_slot 3 3 70] (newHeap, Map.empty)"

lemma example_heap_inv:
  "heap_inv (priorityFuns priorityCompare) taskId index_cap example_heap"
  "mset (heap_values (fst example_heap)) = {#example_slot 1 1 50, example_slot 2 1 60, example_slot 3 3 70#}"
proof -
  have new: "heap_inv (priorityFuns priorityCompare) taskId index_cap (newHeap, Map.empty)"
    by (simp add: heap_inv_def newHeap_def heap_ordered_from_def indexed_def priorityIndex_def)
  have "keyed taskId index_cap (mset (heap_values (fst (newHeap, Map.empty :: locations))) +
      mset [example_slot 1 1 50, example_slot 2 1 60, example_slot 3 3 70])"
    by (simp add: newHeap_def keyed_add_mset index_cap_def)
  from priority_order.priority_heap.heap_insertMany_inv [OF new this]
  show "heap_inv (priorityFuns priorityCompare) taskId index_cap example_heap"
    "mset (heap_values (fst example_heap)) = {#example_slot 1 1 50, example_slot 2 1 60, example_slot 3 3 70#}"
    by (simp_all add: example_heap_def newHeap_def)
qed

theorem heap_pop_smallest_witness:
  "length (fst (heap_pop (priorityFuns priorityCompare) 2 example_heap)) = 2 \<and>
   sorted_wrt (\<lambda>a b. priorityCompare a b \<le> 0) (fst (heap_pop (priorityFuns priorityCompare) 2 example_heap))"
proof -
  obtain xs st' where p: "heap_pop (priorityFuns priorityCompare) 2 example_heap = (xs, st')" by (metis prod.exhaust)
  have "length (heap_values (fst example_heap)) = 3" using arg_cong [OF example_heap_inv(2), of size] by simp
  with heap_pop_smallest [OF example_heap_inv(1) p] p show ?thesis by simp
qed

text \<open>
  C24. After any sequence of inserts, bulk inserts, deletes and pops inside an undo scope, a rollback
  restores the contents the heap had when the scope was opened, and the heap is well-formed again.
\<close>

theorem heap_rollback_undoes_scope:
  assumes "heap_inv (priorityFuns priorityCompare) taskId index_cap (h, m)"
    "heap_writes_fit (priorityFuns priorityCompare) ws (heap_begin h, m)"
  shows "heap_inv (priorityFuns priorityCompare) taskId index_cap
      (heap_rollback (priorityFuns priorityCompare) (fold (heap_write (priorityFuns priorityCompare)) ws (heap_begin h, m))) \<and>
    mset (heap_values (fst (heap_rollback (priorityFuns priorityCompare)
      (fold (heap_write (priorityFuns priorityCompare)) ws (heap_begin h, m))))) = mset (heap_values h)"
  using priority_order.priority_heap.heap_rollback_restores
    [OF priority_order.heap_writes_track [OF priority_order.priority_heap.heap_begin_tracks [OF assms(1)] assms(2)]]
  by blast

theorem heap_rollback_undoes_scope_witness:
  "mset (heap_values (fst (heap_rollback (priorityFuns priorityCompare)
     (fold (heap_write (priorityFuns priorityCompare)) [HPop 2, HInsert (example_slot 9 5 80)]
       (heap_begin (fst example_heap), snd example_heap))))) =
   {#example_slot 1 1 50, example_slot 2 1 60, example_slot 3 3 70#}"
proof -
  let ?f = "priorityFuns priorityCompare" and ?st = "(heap_begin (fst example_heap), snd example_heap)"
  have inv: "heap_inv ?f taskId index_cap ?st"
    using example_heap_inv(1) by (simp add: heap_inv_def heap_begin_def)
  obtain xs st' where p: "heap_pop ?f 2 ?st = (xs, st')" by (metis prod.exhaust)
  note r = priority_order.priority_heap.heap_pop_result [OF inv p]
  have sub: "mset (heap_values (fst st')) \<subseteq># {#example_slot 1 1 50, example_slot 2 1 60, example_slot 3 3 70#}"
    using r(1) example_heap_inv(2) by (simp add: heap_begin_def) (metis mset_subset_eq_add_right)
  have "9 \<notin> taskId ` set (heap_values (fst st'))"
    using mset_subset_eqD [OF sub] by force
  moreover have "length (heap_values (fst st')) \<le> 3" using size_mset_mono [OF sub] by simp
  ultimately have "heap_writes_fit ?f [HPop 2, HInsert (example_slot 9 5 80)] ?st"
    using p by (simp add: index_cap_def)
  from heap_rollback_undoes_scope [OF _ this] example_heap_inv show ?thesis by simp
qed

context slot_order
begin

lemma index_domain:
  assumes "index_ok cmp U q"
  shows "dom (byTaskID q) = taskId ` set_mset (contents q)"
proof -
  have h: "index_heaps cmp U q" using assms by (simp add: index_ok_def)
  have stale: "no_stale_entry (byTaskID q)" using h by (simp add: index_heaps_def)
  have timed: "t \<in> taskId ` set_mset (contents q)" if t: "timeoutIndex t (byTaskID q) \<noteq> None" for t
  proof (cases "timedOutQueue q")
    case None
    with h t show ?thesis by (simp add: index_heaps_def)
  next
    case (Some q')
    have "indexed timeoutFuns entryTaskId (heap_values q') (byTaskID q)"
      using index_heaps_timedOut [OF h Some] by (auto simp: heap_ok_def heap_inv_def)
    from timeout_heap.indexed_lookup_None [OF this, of "\<lparr>entryTaskId = t, timeoutAtMs = 0\<rparr>"] t
    have "t \<in> entryTaskId ` set_mset (timeouts q)" using Some by (simp add: timeouts_def)
    moreover have "timeouts q = image_mset timeout_entry (contents q)"
      using assms Some by (simp add: index_ok_def index_synced_def)
    ultimately show ?thesis by (auto simp: timeout_entry_def)
  qed
  show ?thesis
  proof (rule set_eqI)
    fix t
    show "t \<in> dom (byTaskID q) \<longleftrightarrow> t \<in> taskId ` set_mset (contents q)"
      using no_stale_entry_dom [OF stale, of t] priorityIndex_contents [OF h, of t] timed [of t] by metis
  qed
qed

end

text \<open>
  The slot index is a map from task ids to slots: after an insert a lookup of that task gives the
  new slot, after a delete it gives nothing, every other lookup is unchanged, delete returns the old
  entry, and the position map holds entries for exactly the tasks in the index.
\<close>

theorem index_is_map:
  assumes "index_ok priorityCompare U q"
    "size (filter_mset (\<lambda>x. taskId x \<noteq> taskId s) (contents q)) < index_cap"
  shows "index_get t (Some (index_insert s q)) = (if t = taskId s then Some s else index_get t (Some q)) \<and>
    index_get t (snd (index_delete t' (Some q))) = (if t = t' then None else index_get t (Some q)) \<and>
    fst (index_delete t' (Some q)) = index_get t' (Some q) \<and>
    dom (byTaskID (index_insert s q)) = taskId ` set_mset (contents (index_insert s q))"
proof -
  have ok: "opt_ok priorityCompare (timedOutQueue q \<noteq> None) U (Some q)" using assms(1) by simp
  note ins = priority_order.index_insert_ok [OF assms]
  have ok': "opt_ok priorityCompare (timedOutQueue q \<noteq> None) U (Some (index_insert s q))" using ins by simp
  note del = priority_order.index_delete_ok [OF ok, of t']
  note get = priority_order.index_get_iff [OF ok] and get' = priority_order.index_get_iff [OF ok']
    and getd = priority_order.index_get_iff [OF del(1)]
  have i: "index_get t (Some (index_insert s q)) = (if t = taskId s then Some s else index_get t (Some q))"
  proof (rule option_eq_iff)
    fix x
    show "index_get t (Some (index_insert s q)) = Some x \<longleftrightarrow> (if t = taskId s then Some s else index_get t (Some q)) = Some x"
      using get [of t x] get' [of t x] ins(2) by (auto simp del: index_get.simps)
  qed
  moreover have "index_get t (snd (index_delete t' (Some q))) = (if t = t' then None else index_get t (Some q))"
  proof (rule option_eq_iff)
    fix x
    show "index_get t (snd (index_delete t' (Some q))) = Some x \<longleftrightarrow> (if t = t' then None else index_get t (Some q)) = Some x"
      using get [of t x] getd [of t x] del(2) by (auto simp del: index_get.simps)
  qed
  moreover have "dom (byTaskID (index_insert s q)) = taskId ` set_mset (contents (index_insert s q))"
    by (rule priority_order.index_domain [OF ins(1)])
  ultimately show ?thesis using del(3) by blast
qed

definition example_index :: inMemorySlotIndex where
  "example_index = fold index_insert [example_slot 1 1 50, example_slot 2 1 60, example_slot 3 3 70]
     (newInMemorySlotIndex True)"

lemma example_index_ok:
  "index_ok priorityCompare None example_index"
  "contents example_index = {#example_slot 1 1 50, example_slot 2 1 60, example_slot 3 3 70#}"
  "timedOutQueue example_index \<noteq> None"
proof -
  define q0 where "q0 = newInMemorySlotIndex True"
  have 0: "index_ok priorityCompare None q0" "contents q0 = {#}" "timedOutQueue q0 \<noteq> None"
    using priority_order.index_new_ok [of True] by (simp_all add: q0_def newInMemorySlotIndex_def)
  define q1 where "q1 = index_insert (example_slot 1 1 50) q0"
  have 1: "index_ok priorityCompare None q1" "contents q1 = {#example_slot 1 1 50#}" "timedOutQueue q1 \<noteq> None"
    using priority_order.index_insert_ok [OF 0(1), of "example_slot 1 1 50"] 0
    by (simp_all add: q1_def index_cap_def)
  define q2 where "q2 = index_insert (example_slot 2 1 60) q1"
  have 2: "index_ok priorityCompare None q2" "contents q2 = {#example_slot 1 1 50, example_slot 2 1 60#}"
    "timedOutQueue q2 \<noteq> None"
    using priority_order.index_insert_ok [OF 1(1), of "example_slot 2 1 60"] 1
    by (simp_all add: q2_def index_cap_def)
  have e: "example_index = index_insert (example_slot 3 3 70) q2" by (simp add: example_index_def q0_def q1_def q2_def)
  show "index_ok priorityCompare None example_index"
    "contents example_index = {#example_slot 1 1 50, example_slot 2 1 60, example_slot 3 3 70#}"
    "timedOutQueue example_index \<noteq> None"
    using priority_order.index_insert_ok [OF 2(1), of "example_slot 3 3 70"] 2
    by (simp_all add: e index_cap_def)
qed

theorem index_is_map_witness:
  "index_get 7 (Some (index_insert (example_slot 7 2 90) example_index)) = Some (example_slot 7 2 90) \<and>
   dom (byTaskID (index_insert (example_slot 7 2 90) example_index)) = {1, 2, 3, 7}"
proof -
  have "size (filter_mset (\<lambda>x. taskId x \<noteq> taskId (example_slot 7 2 90)) (contents example_index)) < index_cap"
    by (simp add: example_index_ok(2) index_cap_def)
  note map = index_is_map [OF example_index_ok(1) this]
  note ins = priority_order.index_insert_ok(2) [OF example_index_ok(1) \<open>size _ < _\<close>]
  from map [of 7] ins show ?thesis by (auto simp: example_index_ok(2))
qed

text \<open>
  \<open>popTimedOut\<close> returns exactly the slots whose schedule timeout has passed, earliest first, and
  the others stay in the index.
\<close>

theorem popTimedOut_exact:
  assumes "index_ok priorityCompare U q" "timedOutQueue q \<noteq> None"
    "index_popTimedOut nowMs (Some q) = (ss, Some q')"
  shows "index_ok priorityCompare U q' \<and>
    mset ss = filter_mset (\<lambda>s. scheduleTimeoutAtMs s \<le> nowMs) (contents q) \<and>
    contents q' = filter_mset (\<lambda>s. nowMs < scheduleTimeoutAtMs s) (contents q) \<and>
    sorted_wrt (\<lambda>a b. scheduleTimeoutAtMs a \<le> scheduleTimeoutAtMs b) ss"
  using priority_order.index_popTimedOut_ok [of U "Some q" nowMs ss "Some q'"] assms by (simp add: not_le)

theorem popTimedOut_exact_witness:
  "mset (fst (index_popTimedOut 60 (Some example_index))) = {#example_slot 1 1 50, example_slot 2 1 60#}"
proof -
  have ok: "opt_ok priorityCompare True None (Some example_index)" using example_index_ok by simp
  obtain ss qo where p: "index_popTimedOut 60 (Some example_index) = (ss, qo)" by (metis prod.exhaust)
  obtain q' where "qo = Some q'" using priority_order.index_popTimedOut_ok(5) [OF ok p] by auto
  with popTimedOut_exact [OF example_index_ok(1,3)] p show ?thesis by (simp add: example_index_ok(2))
qed

end
