(* ===== verification/Running_Slots.thy ===== *)
theory Running_Slots
  imports Slot_Index
begin

text \<open>
  The running slots of one concurrency key
  (\<open>src/pkg/scheduling/v1/concurrency/running_slots.go\<close>): a slice sorted by task id while a key
  runs few slots, a worst-first slot index once it runs more than \<open>maxSmallRunning\<close>.

  The functions of Go's \<open>slices\<close> package that the code calls are modelled from their
  documented algorithms: the bisection of \<open>BinarySearchFunc\<close>, \<open>Insert\<close>, \<open>Delete\<close>, and
  \<open>MaxFunc\<close>, which keeps the first maximal element.
\<close>

section \<open>Model\<close>

definition maxSmallRunning :: nat where
  "maxSmallRunning = 64"

record runningSlots =
  small :: "slot list"
  large :: "inMemorySlotIndex option"

definition emptyRunning :: runningSlots where
  "emptyRunning = \<lparr>small = [], large = None\<rparr>"

function bisect :: "('a \<Rightarrow> int) \<Rightarrow> 'a list \<Rightarrow> nat \<Rightarrow> nat \<Rightarrow> nat" where
  "bisect c xs i j =
     (if i < j
      then let h = (i + j) div 2
           in if c (xs ! h) < 0 then bisect c xs (h + 1) j else bisect c xs i h
      else i)"
  by pat_completeness auto
termination
  by (relation "measure (\<lambda>(c, xs, i, j). j - i)") auto

declare bisect.simps [simp del]

definition slices_BinarySearchFunc :: "'a list \<Rightarrow> ('a \<Rightarrow> int) \<Rightarrow> nat \<times> bool" where
  "slices_BinarySearchFunc xs c =
     (let i = bisect c xs 0 (length xs) in (i, i < length xs \<and> c (xs ! i) = 0))"

definition slices_Insert :: "'a list \<Rightarrow> nat \<Rightarrow> 'a \<Rightarrow> 'a list" where
  "slices_Insert xs i v = take i xs @ v # drop i xs"

definition slices_Delete :: "'a list \<Rightarrow> nat \<Rightarrow> nat \<Rightarrow> 'a list" where
  "slices_Delete xs i j = take i xs @ drop j xs"

fun slices_MaxFunc :: "('a \<Rightarrow> 'a \<Rightarrow> int) \<Rightarrow> 'a \<Rightarrow> 'a list \<Rightarrow> 'a" where
  "slices_MaxFunc cmp m [] = m"
| "slices_MaxFunc cmp m (x # xs) = slices_MaxFunc cmp (if 0 < cmp x m then x else m) xs"

definition running_find :: "int \<Rightarrow> slot list \<Rightarrow> nat \<times> bool" where
  "running_find t xs = slices_BinarySearchFunc xs (\<lambda>s. cmp_Compare (taskId s) t)"

definition running_insert :: "(slot \<Rightarrow> slot \<Rightarrow> int) \<Rightarrow> slot \<Rightarrow> runningSlots \<Rightarrow> runningSlots" where
  "running_insert cmp s r =
     (case large r of
        Some q \<Rightarrow> r\<lparr>large := Some (index_insert s q)\<rparr>
      | None \<Rightarrow>
          (case running_find (taskId s) (small r) of
             (i, found) \<Rightarrow>
               if found then r\<lparr>small := (small r)[i := s]\<rparr>
               else if length (small r) < maxSmallRunning then r\<lparr>small := slices_Insert (small r) i s\<rparr>
               else r\<lparr>large := Some (index_insert s
                          (fold index_insert (small r)
                             (newInMemorySlotIndexWithCompare False (reverseCompare cmp)))),
                      small := []\<rparr>))"

definition running_delete :: "int \<Rightarrow> runningSlots \<Rightarrow> slot option \<times> runningSlots" where
  "running_delete t r =
     (case large r of
        Some q \<Rightarrow> (case index_delete t (Some q) of (s, q') \<Rightarrow> (s, r\<lparr>large := q'\<rparr>))
      | None \<Rightarrow>
          (case running_find t (small r) of
             (i, found) \<Rightarrow>
               if found then (Some (small r ! i), r\<lparr>small := slices_Delete (small r) i (i + 1)\<rparr>)
               else (None, r)))"

definition running_get :: "int \<Rightarrow> runningSlots \<Rightarrow> slot option" where
  "running_get t r =
     (case large r of
        Some q \<Rightarrow> index_get t (Some q)
      | None \<Rightarrow>
          (case running_find t (small r) of
             (i, found) \<Rightarrow> if found then Some (small r ! i) else None))"

definition running_len :: "runningSlots \<Rightarrow> int" where
  "running_len r = (case large r of Some q \<Rightarrow> index_len (Some q) | None \<Rightarrow> int (length (small r)))"

definition running_worst :: "(slot \<Rightarrow> slot \<Rightarrow> int) \<Rightarrow> runningSlots \<Rightarrow> slot option" where
  "running_worst cmp r =
     (case large r of
        Some q \<Rightarrow> index_peek (Some q)
      | None \<Rightarrow> (case small r of [] \<Rightarrow> None | x # xs \<Rightarrow> Some (slices_MaxFunc cmp x xs)))"

section \<open>The standard library functions\<close>

lemma bisect_correct:
  assumes mono: "\<And>k l. k \<le> l \<Longrightarrow> l < length xs \<Longrightarrow> c (xs ! l) < 0 \<Longrightarrow> c (xs ! k) < 0"
    and "i \<le> j" "j \<le> length xs" "\<And>k. k < i \<Longrightarrow> c (xs ! k) < 0"
    "\<And>k. j \<le> k \<Longrightarrow> k < length xs \<Longrightarrow> \<not> c (xs ! k) < 0"
  shows "bisect c xs i j \<le> length xs \<and> (\<forall>k < bisect c xs i j. c (xs ! k) < 0) \<and>
    (\<forall>k. bisect c xs i j \<le> k \<longrightarrow> k < length xs \<longrightarrow> \<not> c (xs ! k) < 0)"
  using assms
proof (induction c xs i j rule: bisect.induct)
  case (1 c xs i j)
  show ?case
  proof (cases "i < j")
    case False
    with "1.prems" show ?thesis by (subst (1 2 3) bisect.simps) auto
  next
    case True
    let ?h = "(i + j) div 2"
    have h: "i \<le> ?h" "?h < j" "?h < length xs" using True "1.prems"(3) by auto
    show ?thesis
    proof (cases "c (xs ! ?h) < 0")
      case less: True
      have "c (xs ! k) < 0" if "k < ?h + 1" for k
        using "1.prems"(1) [of k ?h] less h that by simp
      with "1.IH"(1) [OF True refl less] "1.prems" h True less show ?thesis
        by (simp add: bisect.simps [of c xs i j] Let_def)
    next
      case ge: False
      have "\<not> c (xs ! k) < 0" if "?h \<le> k" "k < length xs" for k
        using "1.prems"(1) [of ?h k] ge that by blast
      with "1.IH"(2) [OF True refl ge] "1.prems" h True ge show ?thesis
        by (simp add: bisect.simps [of c xs i j] Let_def)
    qed
  qed
qed

lemma running_find_correct:
  assumes "sorted_wrt (\<lambda>a b. taskId a < taskId b) xs" "running_find t xs = (i, found)"
  shows "i \<le> length xs" "\<forall>s \<in> set (take i xs). taskId s < t" "\<forall>s \<in> set (drop i xs). t \<le> taskId s"
    "found \<longleftrightarrow> i < length xs \<and> taskId (xs ! i) = t"
proof -
  have i: "i = bisect (\<lambda>s. cmp_Compare (taskId s) t) xs 0 (length xs)"
    "found \<longleftrightarrow> i < length xs \<and> taskId (xs ! i) = t"
    using assms(2) by (auto simp: running_find_def slices_BinarySearchFunc_def Let_def)
  have "taskId (xs ! k) \<le> taskId (xs ! l)" if "k \<le> l" "l < length xs" for k l
    using sorted_wrt_nth_less [OF assms(1), of k l] that by (cases "k = l") auto
  then have b: "i \<le> length xs \<and> (\<forall>k < i. taskId (xs ! k) < t) \<and> (\<forall>k. i \<le> k \<longrightarrow> k < length xs \<longrightarrow> \<not> taskId (xs ! k) < t)"
    using bisect_correct [of xs "\<lambda>s. cmp_Compare (taskId s) t" 0 "length xs"] i
    by (fastforce intro: order.strict_trans1)
  then show "i \<le> length xs" "found \<longleftrightarrow> i < length xs \<and> taskId (xs ! i) = t" using i(2) by blast+
  show "\<forall>s \<in> set (take i xs). taskId s < t"
    using b by (metis in_set_conv_nth length_take min_less_iff_conj nth_take)
  show "\<forall>s \<in> set (drop i xs). t \<le> taskId s"
    using b by (auto simp: in_set_conv_nth not_less)
qed

lemma slices_MaxFunc_in: "slices_MaxFunc cmp m xs \<in> insert m (set xs)"
  by (induction xs arbitrary: m) auto

context comparator
begin

lemma slices_MaxFunc_max:
  "y \<in> insert m (set xs) \<Longrightarrow> compare y (slices_MaxFunc compare m xs) \<le> 0"
proof (induction xs arbitrary: m y)
  case (Cons x xs)
  let ?m = "if 0 < compare x m then x else m"
  have "compare m ?m \<le> 0" "compare x ?m \<le> 0"
    using compare_ge_iff [of x m] compare_refl by (auto simp: not_less)
  moreover have "compare ?m (slices_MaxFunc compare ?m xs) \<le> 0" using Cons.IH by blast
  ultimately have "compare m (slices_MaxFunc compare ?m xs) \<le> 0"
    "compare x (slices_MaxFunc compare ?m xs) \<le> 0" by (metis compare_trans)+
  with Cons.prems Cons.IH [of y ?m] show ?case unfolding slices_MaxFunc.simps by auto
qed (use compare_refl in simp)

end

section \<open>Invariant and contents\<close>

definition running_contents :: "runningSlots \<Rightarrow> slot multiset" where
  "running_contents r = (case large r of None \<Rightarrow> mset (small r) | Some q \<Rightarrow> contents q)"

definition running_ok :: "(slot \<Rightarrow> slot \<Rightarrow> int) \<Rightarrow> runningSlots \<Rightarrow> bool" where
  "running_ok cmp r \<longleftrightarrow>
     (case large r of
        None \<Rightarrow> sorted_wrt (\<lambda>a b. taskId a < taskId b) (small r) \<and> length (small r) \<le> maxSmallRunning
      | Some q \<Rightarrow> small r = [] \<and> opt_ok (reverseCompare cmp) False None (Some q))"

lemma running_len_contents: "running_len r = int (size (running_contents r))"
  by (auto simp: running_len_def running_contents_def index_len_contents split: option.splits)

lemma sorted_taskId_distinct:
  "sorted_wrt (\<lambda>a b. taskId a < taskId b) xs \<Longrightarrow> distinct (map taskId xs)"
  by (induction xs) auto

lemma sorted_insert_slot:
  assumes "sorted_wrt (\<lambda>a b. taskId a < taskId b) xs" "i \<le> length xs"
    "\<forall>s \<in> set (take i xs). taskId s < taskId x" "\<forall>s \<in> set (drop i xs). taskId x < taskId s"
  shows "sorted_wrt (\<lambda>a b. taskId a < taskId b) (slices_Insert xs i x)"
proof -
  have "sorted_wrt (\<lambda>a b. taskId a < taskId b) (take i xs @ drop i xs)" using assms(1) by simp
  then show ?thesis using assms(3,4)
    unfolding slices_Insert_def sorted_wrt_append by (auto simp: sorted_wrt_take sorted_wrt_drop)
qed

lemma sorted_slot_update:
  assumes "sorted_wrt (\<lambda>a b. taskId a < taskId b) xs" "i < length xs" "taskId (xs ! i) = taskId s"
  shows "sorted_wrt (\<lambda>a b. taskId a < taskId b) (xs[i := s])"
proof -
  have "map taskId (xs[i := s]) = map taskId xs"
    using assms(2,3) by (simp add: map_update) (metis list_update_id nth_map)
  then show ?thesis using assms(1) sorted_wrt_map [of "(<)" taskId] by metis
qed

lemma mset_slices_Insert: "mset (slices_Insert xs i x) = add_mset x (mset xs)"
  by (metis append_take_drop_id mset.simps(2) mset_append slices_Insert_def union_mset_add_mset_right)

lemma mset_slices_Delete:
  "i < length xs \<Longrightarrow> mset (slices_Delete xs i (i + 1)) = mset xs - {# xs ! i #}"
  by (metis Suc_eq_plus1 add_mset_remove_trivial id_take_nth_drop mset.simps(2) mset_append
      slices_Delete_def union_mset_add_mset_right)

text \<open>The order of a sub-queue and its reverse, which the large representation uses.\<close>

locale running_order = fwd: slot_order cmp + rev: slot_order "reverseCompare cmp"
  for cmp :: "slot \<Rightarrow> slot \<Rightarrow> int"

lemma running_order_slot_order: "slot_order cmp \<Longrightarrow> running_order cmp"
  by (simp add: running_order_def slot_order_reverse)

context running_order
begin

lemma running_keyed: "running_ok cmp r \<Longrightarrow> keyed taskId index_cap (running_contents r)"
  by (auto simp: running_ok_def running_contents_def keyed_mset maxSmallRunning_def index_cap_def
      dest: rev.index_ok_keyed sorted_taskId_distinct split: option.splits)

lemma running_find_absent:
  assumes "running_ok cmp r" "large r = None" "running_find t (small r) = (i, False)"
  shows "\<forall>s \<in> set (small r). taskId s \<noteq> t" "i \<le> length (small r)"
    "\<forall>s \<in> set (take i (small r)). taskId s < t" "\<forall>s \<in> set (drop i (small r)). t < taskId s"
proof -
  have s: "sorted_wrt (\<lambda>a b. taskId a < taskId b) (small r)" using assms by (simp add: running_ok_def)
  note f = running_find_correct [OF s assms(3), simplified]
  show "i \<le> length (small r)" "\<forall>s \<in> set (take i (small r)). taskId s < t" using f by auto
  show above: "\<forall>s \<in> set (drop i (small r)). t < taskId s"
  proof
    fix s assume s': "s \<in> set (drop i (small r))"
    then obtain k where k: "k < length (drop i (small r))" "drop i (small r) ! k = s"
      by (auto simp: in_set_conv_nth)
    have "taskId (small r ! i) \<le> taskId (small r ! (i + k))"
      using sorted_wrt_nth_less [OF s, of i "i + k"] k by (cases "k = 0") force+
    moreover have "small r ! i \<in> set (drop i (small r))"
      using k(1) by (metis (no_types, lifting) add_0_right gr_implies_not0 in_set_conv_nth length_drop neq0_conv
          nat_less_le le_less_linear not_less_zero nth_drop zero_less_diff less_imp_le)
    then have "t \<le> taskId (small r ! i)" using f(3) by blast
    moreover have "taskId (small r ! i) \<noteq> t" using f(4) k(1) by simp
    ultimately show "t < taskId s" using k by auto
  qed
  show "\<forall>s \<in> set (small r). taskId s \<noteq> t"
    using f(2) above by (metis append_take_drop_id less_irrefl set_append Un_iff)
qed

lemma running_find_present:
  assumes "running_ok cmp r" "large r = None" "running_find t (small r) = (i, True)"
  shows "i < length (small r)" "taskId (small r ! i) = t"
  using assms running_find_correct(4) [of "small r" t i True] by (auto simp: running_ok_def)

lemma running_get_iff:
  assumes ok: "running_ok cmp r"
  shows "running_get t r = Some s \<longleftrightarrow> s \<in># running_contents r \<and> taskId s = t"
proof (cases "large r")
  case None
  obtain i found where f: "running_find t (small r) = (i, found)" by (cases "running_find t (small r)")
  have C: "running_contents r = mset (small r)" using None by (simp add: running_contents_def)
  show ?thesis
  proof (cases found)
    case True
    with running_find_present [OF ok None] f have "i < length (small r)" "taskId (small r ! i) = t" by auto
    then have "small r ! i \<in># running_contents r" "taskId (small r ! i) = t" by (auto simp: C)
    with True f None keyed_unique [OF running_keyed [OF ok]] show ?thesis by (auto simp: running_get_def)
  next
    case False
    with running_find_absent(1) [OF ok None] f None show ?thesis by (auto simp: running_get_def C)
  qed
next
  case (Some q)
  with ok rev.index_get_iff [of False None "Some q" t s] show ?thesis
    by (simp add: running_get_def running_contents_def running_ok_def)
qed

lemma running_delete_ok:
  assumes ok: "running_ok cmp r"
  shows "running_ok cmp (snd (running_delete t r))"
    "running_contents (snd (running_delete t r)) = filter_mset (\<lambda>s. taskId s \<noteq> t) (running_contents r)"
    "fst (running_delete t r) = running_get t r"
proof -
  have "running_ok cmp (snd (running_delete t r)) \<and>
    running_contents (snd (running_delete t r)) = filter_mset (\<lambda>s. taskId s \<noteq> t) (running_contents r) \<and>
    fst (running_delete t r) = running_get t r"
  proof (cases "large r")
    case None
    obtain i found where f: "running_find t (small r) = (i, found)" by (cases "running_find t (small r)")
    have s: "sorted_wrt (\<lambda>a b. taskId a < taskId b) (small r)" "length (small r) \<le> maxSmallRunning"
      using ok None by (auto simp: running_ok_def)
    show ?thesis
    proof (cases found)
      case True
      with running_find_present [OF ok None] f have i: "i < length (small r)" "taskId (small r ! i) = t" by auto
      have "mset (slices_Delete (small r) i (i + 1)) = filter_mset (\<lambda>s. taskId s \<noteq> t) (mset (small r))"
        using mset_slices_Delete [OF i(1)] mset_remove_key [OF sorted_taskId_distinct [OF s(1)] i(1)] i(2) by simp
      moreover have "sorted_wrt (\<lambda>a b. taskId a < taskId b) (slices_Delete (small r) i (i + 1))"
      proof -
        have "sorted_wrt (\<lambda>a b. taskId a < taskId b) (take i (small r) @ drop i (small r))" using s(1) by simp
        then show ?thesis unfolding slices_Delete_def sorted_wrt_append
          by (metis in_set_dropD sorted_wrt_drop s(1) Suc_eq_plus1 drop_drop plus_1_eq_Suc add.commute)
      qed
      moreover have "length (slices_Delete (small r) i (i + 1)) \<le> maxSmallRunning"
        using s(2) by (simp add: slices_Delete_def)
      ultimately show ?thesis using True f None
        by (simp add: running_delete_def running_get_def running_ok_def running_contents_def)
    next
      case False
      have "filter_mset (\<lambda>s. taskId s \<noteq> t) (mset (small r)) = mset (small r)"
        by (rule filter_mset_all) (use running_find_absent(1) [OF ok None] False f in auto)
      with False f None ok show ?thesis
        by (simp add: running_delete_def running_get_def running_contents_def)
    qed
  next
    case (Some q)
    then have q: "opt_ok (reverseCompare cmp) False None (Some q)" using ok by (simp add: running_ok_def)
    obtain s qo where d: "index_delete t (Some q) = (s, qo)" by (cases "index_delete t (Some q)")
    note del = rev.index_delete_ok [OF q, of t, unfolded d, simplified]
    obtain q' where "qo = Some q'" using del by auto
    with Some d del ok show ?thesis
      by (auto simp: running_delete_def running_get_def running_ok_def running_contents_def)
  qed
  then show "running_ok cmp (snd (running_delete t r))"
    "running_contents (snd (running_delete t r)) = filter_mset (\<lambda>s. taskId s \<noteq> t) (running_contents r)"
    "fst (running_delete t r) = running_get t r" by auto
qed

lemma fold_index_insert_ok:
  assumes "index_ok (reverseCompare cmp) None q" "timedOutQueue q = None"
    "keyed taskId index_cap (contents q + mset xs)"
  shows "index_ok (reverseCompare cmp) None (fold index_insert xs q) \<and>
    timedOutQueue (fold index_insert xs q) = None \<and> contents (fold index_insert xs q) = contents q + mset xs"
  using assms
proof (induction xs arbitrary: q)
  case (Cons x xs)
  have k: "keyed taskId index_cap (add_mset x (contents q) + mset xs)" using Cons.prems(3) by simp
  then have "keyed taskId index_cap (add_mset x (contents q))" by (rule keyed_mono [rotated]) simp
  then have fresh: "\<forall>y \<in># contents q. taskId y \<noteq> taskId x" "size (contents q) < index_cap"
    unfolding keyed_add_mset by (metis image_eqI, blast)
  have "filter_mset (\<lambda>y. taskId y \<noteq> taskId x) (contents q) = contents q"
    by (rule filter_mset_all) (use fresh(1) in blast)
  with rev.index_insert_ok [OF Cons.prems(1), of x] fresh(2) Cons.prems(2)
  have "index_ok (reverseCompare cmp) None (index_insert x q)" "timedOutQueue (index_insert x q) = None"
    "contents (index_insert x q) = add_mset x (contents q)" by auto
  with Cons.IH [of "index_insert x q"] k show ?case by simp
qed simp

lemma running_insert_ok:
  assumes ok: "running_ok cmp r"
    and cap: "size (filter_mset (\<lambda>x. taskId x \<noteq> taskId s) (running_contents r)) < index_cap"
  shows "running_ok cmp (running_insert cmp s r)"
    "running_contents (running_insert cmp s r) =
       add_mset s (filter_mset (\<lambda>x. taskId x \<noteq> taskId s) (running_contents r))"
proof -
  have "running_ok cmp (running_insert cmp s r) \<and> running_contents (running_insert cmp s r) =
       add_mset s (filter_mset (\<lambda>x. taskId x \<noteq> taskId s) (running_contents r))"
  proof (cases "large r")
    case None
    obtain i found where f: "running_find (taskId s) (small r) = (i, found)"
      by (cases "running_find (taskId s) (small r)")
    have srt: "sorted_wrt (\<lambda>a b. taskId a < taskId b) (small r)" "length (small r) \<le> maxSmallRunning"
      using ok None by (auto simp: running_ok_def)
    show ?thesis
    proof (cases found)
      case True
      with running_find_present [OF ok None] f have i: "i < length (small r)" "taskId (small r ! i) = taskId s" by auto
      have "sorted_wrt (\<lambda>a b. taskId a < taskId b) ((small r)[i := s])"
        by (rule sorted_slot_update [OF srt(1) i])
      moreover have "mset ((small r)[i := s]) = add_mset s (filter_mset (\<lambda>x. taskId x \<noteq> taskId s) (mset (small r)))"
        using mset_remove_key [OF sorted_taskId_distinct [OF srt(1)] i(1)] i by (simp add: mset_update)
      ultimately show ?thesis using True f None srt(2)
        by (simp add: running_insert_def running_ok_def running_contents_def)
    next
      case False
      note a = running_find_absent [OF ok None, of "taskId s" i]
      have keep: "filter_mset (\<lambda>x. taskId x \<noteq> taskId s) (mset (small r)) = mset (small r)"
        by (rule filter_mset_all) (use a(1) False f in auto)
      show ?thesis
      proof (cases "length (small r) < maxSmallRunning")
        case True
        have "sorted_wrt (\<lambda>a b. taskId a < taskId b) (slices_Insert (small r) i s)"
          by (rule sorted_insert_slot [OF srt(1)]) (use a False f in auto)
        moreover have "length (slices_Insert (small r) i s) \<le> maxSmallRunning"
          using True a(2) False f by (simp add: slices_Insert_def)
        ultimately show ?thesis using True False f None
          by (simp add: running_insert_def running_ok_def running_contents_def mset_slices_Insert keep)
      next
        case large: False
        let ?q0 = "newInMemorySlotIndexWithCompare False (reverseCompare cmp)"
        let ?q1 = "fold index_insert (small r) ?q0"
        have "keyed taskId index_cap (contents ?q0 + mset (small r))"
          using running_keyed [OF ok] None by (simp add: rev.index_new_ok running_contents_def)
        with fold_index_insert_ok [of ?q0 "small r"] rev.index_new_ok [of False]
        have q1: "index_ok (reverseCompare cmp) None ?q1" "timedOutQueue ?q1 = None" "contents ?q1 = mset (small r)"
          by auto
        have "size (filter_mset (\<lambda>x. taskId x \<noteq> taskId s) (contents ?q1)) < index_cap"
          using cap None by (simp add: q1(3) running_contents_def)
        with rev.index_insert_ok [OF q1(1)] q1 large False f None show ?thesis
          by (simp add: running_insert_def running_ok_def running_contents_def)
      qed
    qed
  next
    case (Some q)
    then have q: "index_ok (reverseCompare cmp) None q" "timedOutQueue q = None" "small r = []"
      using ok by (auto simp: running_ok_def)
    from rev.index_insert_ok [OF q(1), of s] cap Some q show ?thesis
      by (simp add: running_insert_def running_ok_def running_contents_def)
  qed
  then show "running_ok cmp (running_insert cmp s r)"
    "running_contents (running_insert cmp s r) =
       add_mset s (filter_mset (\<lambda>x. taskId x \<noteq> taskId s) (running_contents r))" by auto
qed

lemma running_worst_ok:
  assumes ok: "running_ok cmp r" and w: "running_worst cmp r = Some s"
  shows "s \<in># running_contents r" "y \<in># running_contents r \<Longrightarrow> cmp y s \<le> 0"
proof -
  have "s \<in># running_contents r \<and> (\<forall>y \<in># running_contents r. cmp y s \<le> 0)"
  proof (cases "large r")
    case None
    with w obtain x xs where xs: "small r = x # xs" "s = slices_MaxFunc cmp x xs"
      by (auto simp: running_worst_def split: list.splits)
    with None fwd.slices_MaxFunc_max [of _ x xs] slices_MaxFunc_in [of cmp x xs] show ?thesis
      by (auto simp: running_contents_def)
  next
    case (Some q)
    then have q: "opt_ok (reverseCompare cmp) False None (Some q)" "index_peek (Some q) = Some s"
      using ok w by (auto simp: running_ok_def running_worst_def)
    from rev.index_peek_ok [OF q] Some show ?thesis
      by (auto simp: running_contents_def reverseCompare_def)
  qed
  then show "s \<in># running_contents r" "y \<in># running_contents r \<Longrightarrow> cmp y s \<le> 0" by auto
qed

lemma running_worst_None: "running_worst cmp r = None \<longleftrightarrow> running_contents r = {#}"
  using rev.index_peek_None [of "large r"]
  by (auto simp: running_worst_def running_contents_def simp del: index_peek.simps split: option.splits list.splits)

end

section \<open>Properties\<close>

text \<open>The abstract running set: at most one slot per task.\<close>

datatype running_op = RInsert slot | RDelete int

fun running_write :: "(slot \<Rightarrow> slot \<Rightarrow> int) \<Rightarrow> running_op \<Rightarrow> runningSlots \<Rightarrow> runningSlots" where
  "running_write cmp (RInsert s) r = running_insert cmp s r"
| "running_write cmp (RDelete t) r = snd (running_delete t r)"

fun running_spec :: "running_op \<Rightarrow> slot multiset \<Rightarrow> slot multiset" where
  "running_spec (RInsert s) M = add_mset s (filter_mset (\<lambda>x. taskId x \<noteq> taskId s) M)"
| "running_spec (RDelete t) M = filter_mset (\<lambda>x. taskId x \<noteq> t) M"

lemma size_running_spec: "size (running_spec op M) \<le> Suc (size M)"
  by (cases op) (simp_all add: size_filter_mset_lesseq le_SucI)

context running_order
begin

lemma running_writes_ok:
  assumes "running_ok cmp r" "size (running_contents r) + length ops \<le> index_cap"
  shows "running_ok cmp (fold (running_write cmp) ops r) \<and>
    running_contents (fold (running_write cmp) ops r) = fold running_spec ops (running_contents r)"
  using assms
proof (induction ops arbitrary: r)
  case (Cons op ops)
  have step: "running_ok cmp (running_write cmp op r) \<and>
    running_contents (running_write cmp op r) = running_spec op (running_contents r)"
  proof (cases op)
    case (RInsert s)
    have "size (filter_mset (\<lambda>x. taskId x \<noteq> taskId s) (running_contents r)) < index_cap"
      using Cons.prems(2) size_filter_mset_lesseq [of "\<lambda>x. taskId x \<noteq> taskId s" "running_contents r"]
      by (simp only: length_Cons)
    with running_insert_ok [OF Cons.prems(1)] RInsert show ?thesis by simp
  next
    case (RDelete t)
    with running_delete_ok [OF Cons.prems(1), of t] show ?thesis by simp
  qed
  have "size (running_contents (running_write cmp op r)) + length ops \<le> index_cap"
    using Cons.prems(2) size_running_spec [of op "running_contents r"] step by simp
  with Cons.IH [of "running_write cmp op r"] step show ?case by simp
qed simp

lemma running_empty: "running_ok cmp emptyRunning" "running_contents emptyRunning = {#}"
  by (simp_all add: emptyRunning_def running_ok_def running_contents_def)

end

interpretation in_progress_running: running_order cancelInProgressCompare
  by (rule running_order_slot_order) (rule in_progress_order.slot_order_axioms)

text \<open>
  C25. The running slots of a key behave as one abstract set with at most one slot per task, whichever
  of the two representations the key uses: after any inserts and deletes, the count, every lookup
  and the worst slot answer as the set does.
\<close>

theorem running_slots_refine_set:
  assumes "length ops \<le> index_cap"
    "r = fold (running_write cancelInProgressCompare) ops emptyRunning" "M = fold running_spec ops {#}"
  shows "running_len r = int (size M) \<and>
    (\<forall>t s. running_get t r = Some s \<longleftrightarrow> s \<in># M \<and> taskId s = t) \<and>
    (case running_worst cancelInProgressCompare r of
       None \<Rightarrow> M = {#}
     | Some w \<Rightarrow> w \<in># M \<and> (\<forall>y \<in># M. cancelInProgressCompare y w \<le> 0))"
proof -
  have r: "running_ok cancelInProgressCompare r" "running_contents r = M"
    using in_progress_running.running_writes_ok [OF in_progress_running.running_empty(1), of ops] assms
    by (simp_all add: in_progress_running.running_empty(2))
  show ?thesis
    using in_progress_running.running_get_iff [OF r(1)] in_progress_running.running_worst_ok [OF r(1)]
      in_progress_running.running_worst_None [of r]
    by (auto simp: r(2) running_len_contents split: option.splits)
qed

theorem running_slots_refine_set_witness:
  "running_len (fold (running_write cancelInProgressCompare)
     [RInsert (example_slot 1 1 50), RInsert (example_slot 2 1 60), RDelete 1] emptyRunning) = 1"
proof -
  have "length [RInsert (example_slot 1 1 50), RInsert (example_slot 2 1 60), RDelete 1] \<le> index_cap"
    by (simp add: index_cap_def)
  from running_slots_refine_set [OF this refl refl] show ?thesis by simp
qed

end
