(* ===== verification/Sub_Queue.thy ===== *)
theory Sub_Queue
  imports Running_Slots
begin

text \<open>
  The queue of one concurrency key (\<open>src/pkg/scheduling/v1/concurrency/sub_queue.go\<close>) and the
  slot counts of \<open>metrics.go\<close>: the running slots, the queued slots, the limit, and the undo scope
  that a batch opens with \<open>begin\<close> and ends with \<open>commit\<close> or \<open>rollback\<close>.

  The undo state of the source holds a pointer to the queued index. Inside a scope the field
  \<open>queued\<close> is assigned only by \<open>enqueue\<close>, and only when it is nil, so whenever the saved pointer is
  not nil it is the object \<open>queued\<close> still points to. The model therefore keeps in \<open>undoQueued\<close>
  whether the saved pointer is not nil.
\<close>

section \<open>Model\<close>

record residentSize =
  rsRunning :: int
  rsLargeRunning :: int
  rsQueued :: int
  rsQueuedKeys :: int

definition emptySize :: residentSize where
  "emptySize = \<lparr>rsRunning = 0, rsLargeRunning = 0, rsQueued = 0, rsQueuedKeys = 0\<rparr>"

definition size_plus :: "residentSize \<Rightarrow> residentSize \<Rightarrow> residentSize" where
  "size_plus r s =
     \<lparr>rsRunning = rsRunning r + rsRunning s, rsLargeRunning = rsLargeRunning r + rsLargeRunning s,
      rsQueued = rsQueued r + rsQueued s, rsQueuedKeys = rsQueuedKeys r + rsQueuedKeys s\<rparr>"

definition size_minus :: "residentSize \<Rightarrow> residentSize \<Rightarrow> residentSize" where
  "size_minus r s =
     \<lparr>rsRunning = rsRunning r - rsRunning s, rsLargeRunning = rsLargeRunning r - rsLargeRunning s,
      rsQueued = rsQueued r - rsQueued s, rsQueuedKeys = rsQueuedKeys r - rsQueuedKeys s\<rparr>"

definition estimatedBytes :: "int \<Rightarrow> residentSize \<Rightarrow> int" where
  "estimatedBytes keys sz =
     keys * 145 + (rsRunning sz - rsLargeRunning sz) * 32 + rsLargeRunning sz * 70 +
     rsQueuedKeys sz * 400 + rsQueued sz * 88"

record subQueueUndo =
  undoRunning :: "slot undoEntry list"
  undoQueued :: bool
  undoSize :: residentSize
  undoMaxRunsFrom :: int
  undoMaxRuns :: int

record subQueue =
  key :: string
  running :: runningSlots
  queued :: "inMemorySlotIndex option"
  subCompare :: "slot \<Rightarrow> slot \<Rightarrow> int"
  undo :: "subQueueUndo option"
  maxRunsFrom :: int
  maxRuns :: int

definition newSubQueue :: "string \<Rightarrow> int \<Rightarrow> (slot \<Rightarrow> slot \<Rightarrow> int) \<Rightarrow> subQueue" where
  "newSubQueue k n cmp =
     \<lparr>key = k, running = emptyRunning, queued = None, subCompare = cmp, undo = None,
      maxRunsFrom = 0, maxRuns = n\<rparr>"

definition slotsToRun :: "subQueue \<Rightarrow> int" where
  "slotsToRun sq = int32 (maxRuns sq - int32 (running_len (running sq)))"

definition recordRunning :: "slot \<Rightarrow> bool \<Rightarrow> subQueue \<Rightarrow> subQueue" where
  "recordRunning s a sq =
     (case undo sq of
        None \<Rightarrow> sq
      | Some u \<Rightarrow> sq\<lparr>undo := Some (u\<lparr>undoRunning := undoRunning u @ [\<lparr>undo_value = s, added = a\<rparr>]\<rparr>)\<rparr>)"

definition removeRunning :: "int \<Rightarrow> subQueue \<Rightarrow> slot option \<times> subQueue" where
  "removeRunning t sq =
     (case running_delete t (running sq) of
        (None, r) \<Rightarrow> (None, sq\<lparr>running := r\<rparr>)
      | (Some s, r) \<Rightarrow> (Some s, recordRunning s False (sq\<lparr>running := r\<rparr>)))"

definition addRunning :: "slot \<Rightarrow> subQueue \<Rightarrow> subQueue" where
  "addRunning s sq =
     (let sq1 = snd (removeRunning (taskId s) sq)
      in recordRunning s True (sq1\<lparr>running := running_insert (subCompare sq1) s (running sq1)\<rparr>))"

definition enqueue :: "slot \<Rightarrow> subQueue \<Rightarrow> subQueue" where
  "enqueue s sq =
     (let q = (case queued sq of
                 None \<Rightarrow> newInMemorySlotIndexWithCompare True (subCompare sq)
               | Some q \<Rightarrow> q)
      in sq\<lparr>queued := Some (index_insert s q)\<rparr>)"

definition observeMaxRuns :: "int \<Rightarrow> int \<Rightarrow> subQueue \<Rightarrow> subQueue" where
  "observeMaxRuns n ns sq =
     (if ns < maxRunsFrom sq then sq else sq\<lparr>maxRuns := n, maxRunsFrom := ns\<rparr>)"

definition sub_size :: "subQueue \<Rightarrow> residentSize" where
  "sub_size sq =
     \<lparr>rsRunning = running_len (running sq),
      rsLargeRunning = (if large (running sq) \<noteq> None then running_len (running sq) else 0),
      rsQueued = index_len (queued sq),
      rsQueuedKeys = (if queued sq \<noteq> None then 1 else 0)\<rparr>"

definition sub_begin :: "subQueue \<Rightarrow> subQueue" where
  "sub_begin sq =
     sq\<lparr>undo := Some \<lparr>undoRunning = [], undoQueued = (queued sq \<noteq> None), undoSize = sub_size sq,
                      undoMaxRunsFrom = maxRunsFrom sq, undoMaxRuns = maxRuns sq\<rparr>,
        queued := map_option index_begin (queued sq)\<rparr>"

definition sub_commit :: "subQueue \<Rightarrow> residentSize \<times> subQueue" where
  "sub_commit sq =
     (case undo sq of
        None \<Rightarrow> (emptySize, sq)
      | Some u \<Rightarrow>
          (let q = map_option index_commit (queued sq);
               sq' = sq\<lparr>undo := None, queued := (if index_len q = 0 then None else q)\<rparr>
           in (size_minus (sub_size sq') (undoSize u), sq')))"

fun rollback_running :: "(slot \<Rightarrow> slot \<Rightarrow> int) \<Rightarrow> slot undoEntry list \<Rightarrow> runningSlots \<Rightarrow> runningSlots" where
  "rollback_running cmp [] r = r"
| "rollback_running cmp (e # es) r =
     rollback_running cmp es
       (if added e then snd (running_delete (taskId (undo_value e)) r)
        else running_insert cmp (undo_value e) r)"

definition sub_rollback :: "subQueue \<Rightarrow> residentSize \<times> subQueue" where
  "sub_rollback sq =
     (case undo sq of
        None \<Rightarrow> (emptySize, sq)
      | Some u \<Rightarrow>
          (let sq' = sq\<lparr>undo := None,
                        running := rollback_running (subCompare sq) (rev (undoRunning u)) (running sq),
                        queued := (if undoQueued u then map_option index_rollback (queued sq) else None),
                        maxRuns := undoMaxRuns u, maxRunsFrom := undoMaxRunsFrom u\<rparr>
           in (size_minus (sub_size sq') (undoSize u), sq')))"

section \<open>Abstraction and invariant\<close>

abbreviation sq_running :: "subQueue \<Rightarrow> slot multiset" where
  "sq_running sq \<equiv> running_contents (running sq)"

abbreviation sq_queued :: "subQueue \<Rightarrow> slot multiset" where
  "sq_queued sq \<equiv> opt_contents (queued sq)"

text \<open>
  \<open>sub_inv cmp S sq\<close>: the invariant outside an undo scope (\<open>S = None\<close>) and inside the scope that was
  opened on the sub-queue \<open>s\<^sub>0\<close> (\<open>S = Some s\<^sub>0\<close>). No task is both running and queued, the index of
  each task is consistent, and inside a scope the undo state leads back to \<open>s\<^sub>0\<close>.
\<close>

definition scope_mode :: "subQueue option \<Rightarrow> slot multiset option" where
  "scope_mode S = (case S of None \<Rightarrow> None | Some s0 \<Rightarrow> map_option contents (queued s0))"

fun undo_matches :: "subQueue option \<Rightarrow> subQueue \<Rightarrow> bool" where
  "undo_matches None sq \<longleftrightarrow> undo sq = None"
| "undo_matches (Some s0) sq \<longleftrightarrow>
     (\<exists>j. undo sq = Some \<lparr>undoRunning = j, undoQueued = (queued s0 \<noteq> None), undoSize = sub_size s0,
                          undoMaxRunsFrom = maxRunsFrom s0, undoMaxRuns = maxRuns s0\<rparr> \<and>
          journaled taskId index_cap (sq_running s0) j (sq_running sq)) \<and>
     key sq = key s0 \<and> keyed taskId index_cap (sq_running s0 + sq_queued s0)"

definition sub_inv :: "(slot \<Rightarrow> slot \<Rightarrow> int) \<Rightarrow> subQueue option \<Rightarrow> subQueue \<Rightarrow> bool" where
  "sub_inv cmp S sq \<longleftrightarrow>
     subCompare sq = cmp \<and> running_ok cmp (running sq) \<and>
     opt_ok cmp True (scope_mode S) (queued sq) \<and> (scope_mode S \<noteq> None \<longrightarrow> queued sq \<noteq> None) \<and>
     keyed taskId index_cap (sq_running sq + sq_queued sq) \<and> undo_matches S sq"

lemma recordRunning_frame [simp]:
  "running (recordRunning s a sq) = running sq" "queued (recordRunning s a sq) = queued sq"
  "subCompare (recordRunning s a sq) = subCompare sq" "key (recordRunning s a sq) = key sq"
  "maxRuns (recordRunning s a sq) = maxRuns sq" "maxRunsFrom (recordRunning s a sq) = maxRunsFrom sq"
  by (auto simp: recordRunning_def split: option.splits)

lemma removeRunning_frame [simp]:
  "running (snd (removeRunning t sq)) = snd (running_delete t (running sq))"
  "fst (removeRunning t sq) = fst (running_delete t (running sq))"
  "queued (snd (removeRunning t sq)) = queued sq"
  "subCompare (snd (removeRunning t sq)) = subCompare sq" "key (snd (removeRunning t sq)) = key sq"
  "maxRuns (snd (removeRunning t sq)) = maxRuns sq" "maxRunsFrom (snd (removeRunning t sq)) = maxRunsFrom sq"
  by (auto simp: removeRunning_def split: prod.splits option.splits)

lemma addRunning_frame [simp]:
  "running (addRunning s sq) = running_insert (subCompare sq) s (snd (running_delete (taskId s) (running sq)))"
  "queued (addRunning s sq) = queued sq"
  "subCompare (addRunning s sq) = subCompare sq" "key (addRunning s sq) = key sq"
  "maxRuns (addRunning s sq) = maxRuns sq" "maxRunsFrom (addRunning s sq) = maxRunsFrom sq"
  by (auto simp: addRunning_def Let_def)

lemma enqueue_frame [simp]:
  "running (enqueue s sq) = running sq" "subCompare (enqueue s sq) = subCompare sq"
  "key (enqueue s sq) = key sq" "maxRuns (enqueue s sq) = maxRuns sq"
  "maxRunsFrom (enqueue s sq) = maxRunsFrom sq" "undo (enqueue s sq) = undo sq"
  by (auto simp: enqueue_def Let_def)

lemma observeMaxRuns_frame [simp]:
  "running (observeMaxRuns n ns sq) = running sq" "queued (observeMaxRuns n ns sq) = queued sq"
  "subCompare (observeMaxRuns n ns sq) = subCompare sq" "key (observeMaxRuns n ns sq) = key sq"
  "undo (observeMaxRuns n ns sq) = undo sq"
  by (auto simp: observeMaxRuns_def)

lemma undo_matches_update:
  "undo_matches S sq \<Longrightarrow> undo sq' = undo sq \<Longrightarrow> key sq' = key sq \<Longrightarrow> sq_running sq' = sq_running sq \<Longrightarrow>
    undo_matches S sq'"
  by (cases S) auto

lemma recordRunning_matches:
  assumes "undo_matches S sq" "undo sq1 = undo sq" "key sq1 = key sq"
    "\<And>M j. journaled taskId index_cap M j (sq_running sq) \<Longrightarrow>
       journaled taskId index_cap M (j @ [\<lparr>undo_value = s, added = a\<rparr>]) (sq_running sq1)"
  shows "undo_matches S (recordRunning s a sq1)"
  using assms by (cases S) (auto simp: recordRunning_def)

lemma observeMaxRuns_inv: "sub_inv cmp S sq \<Longrightarrow> sub_inv cmp S (observeMaxRuns n ns sq)"
  by (auto simp: sub_inv_def intro: undo_matches_update)

lemma newSubQueue_inv:
  "sub_inv cmp None (newSubQueue k n cmp)"
  by (simp add: sub_inv_def newSubQueue_def emptyRunning_def running_ok_def running_contents_def scope_mode_def)

text \<open>An operation on the queued index that only removes slots keeps the invariant.\<close>

lemma set_queued_inv:
  assumes "sub_inv cmp S sq" "opt_ok cmp True (scope_mode S) qo" "qo = None \<longleftrightarrow> queued sq = None"
    "opt_contents qo \<subseteq># sq_queued sq"
  shows "sub_inv cmp S (sq\<lparr>queued := qo\<rparr>)"
proof -
  have "keyed taskId index_cap (sq_running sq + opt_contents qo)"
    by (rule keyed_mono [OF subset_mset.add_left_mono [OF assms(4)]]) (use assms(1) in \<open>simp add: sub_inv_def\<close>)
  moreover have "undo_matches S (sq\<lparr>queued := qo\<rparr>)"
    by (rule undo_matches_update) (use assms(1) in \<open>auto simp: sub_inv_def\<close>)
  ultimately show ?thesis using assms by (auto simp: sub_inv_def)
qed

lemma keyed_filter_fresh:
  assumes "keyed f cap (add_mset x N)"
  shows "filter_mset (\<lambda>s. f s \<noteq> f x) N = N"
  by (rule filter_mset_all) (use assms in \<open>metis image_eqI keyed_add_mset\<close>)

lemma keyed_split:
  assumes "keyed taskId cap M" "s \<in># M" "taskId s = t"
  shows "M = add_mset s (filter_mset (\<lambda>x. taskId x \<noteq> t) M)"
proof -
  obtain N where N: "M = add_mset s N" using assms(2) by (metis insert_DiffM)
  with keyed_filter_fresh [of taskId cap s N] assms show ?thesis by simp
qed

context running_order
begin

lemma sub_inv_running: "sub_inv cmp S sq \<Longrightarrow> running_ok cmp (running sq)"
  by (simp add: sub_inv_def)

lemma sub_inv_queued: "sub_inv cmp S sq \<Longrightarrow> opt_ok cmp True (scope_mode S) (queued sq)"
  by (simp add: sub_inv_def)

lemma sub_inv_keyed: "sub_inv cmp S sq \<Longrightarrow> keyed taskId index_cap (sq_running sq + sq_queued sq)"
  by (simp add: sub_inv_def)

lemma removeRunning_inv:
  assumes inv: "sub_inv cmp S sq"
  shows "sub_inv cmp S (snd (removeRunning t sq))"
    "sq_running (snd (removeRunning t sq)) = filter_mset (\<lambda>s. taskId s \<noteq> t) (sq_running sq)"
    "fst (removeRunning t sq) = running_get t (running sq)"
proof -
  note del = running_delete_ok [OF sub_inv_running [OF inv], of t]
  show r: "sq_running (snd (removeRunning t sq)) = filter_mset (\<lambda>s. taskId s \<noteq> t) (sq_running sq)"
    "fst (removeRunning t sq) = running_get t (running sq)" using del by simp_all
  have u: "undo_matches S (snd (removeRunning t sq))"
  proof (cases "running_get t (running sq)")
    case None
    then have same: "filter_mset (\<lambda>s. taskId s \<noteq> t) (sq_running sq) = sq_running sq"
      using running_get_iff [OF sub_inv_running [OF inv]] by (intro filter_mset_all) force
    obtain r where d: "running_delete t (running sq) = (None, r)" using del None by (metis prod.collapse)
    show ?thesis unfolding removeRunning_def d
      by (rule undo_matches_update [of S sq]) (use inv r same d in \<open>auto simp: sub_inv_def removeRunning_def\<close>)
  next
    case (Some s)
    then have s: "s \<in># sq_running sq" "taskId s = t" using running_get_iff [OF sub_inv_running [OF inv]] by auto
    have "keyed taskId index_cap (sq_running sq)" by (rule running_keyed [OF sub_inv_running [OF inv]])
    then have C: "sq_running sq = add_mset s (filter_mset (\<lambda>s. taskId s \<noteq> t) (sq_running sq))"
      using s keyed_split by blast
    obtain r where d: "running_delete t (running sq) = (Some s, r)" using del Some by (metis prod.collapse)
    show ?thesis unfolding removeRunning_def d prod.case option.case snd_conv
    proof (rule recordRunning_matches [of S sq])
      fix M j assume "journaled taskId index_cap M j (sq_running sq)"
      then show "journaled taskId index_cap M (j @ [\<lparr>undo_value = s, added = False\<rparr>]) (sq_running (sq\<lparr>running := r\<rparr>))"
        using del(2) d C by (auto intro: journaled.remove)
    qed (use inv in \<open>auto simp: sub_inv_def\<close>)
  qed
  have "keyed taskId index_cap (filter_mset (\<lambda>s. taskId s \<noteq> t) (sq_running sq) + sq_queued sq)"
    by (rule keyed_mono [OF subset_mset.add_right_mono [OF multiset_filter_subset] sub_inv_keyed [OF inv]])
  with u del inv show "sub_inv cmp S (snd (removeRunning t sq))" by (simp add: sub_inv_def)
qed

lemma addRunning_inv:
  assumes inv: "sub_inv cmp S sq" and fresh: "\<forall>x \<in># sq_queued sq. taskId x \<noteq> taskId s"
    and cap: "size (filter_mset (\<lambda>x. taskId x \<noteq> taskId s) (sq_running sq)) + size (sq_queued sq) < index_cap"
  shows "sub_inv cmp S (addRunning s sq)"
    "sq_running (addRunning s sq) = add_mset s (filter_mset (\<lambda>x. taskId x \<noteq> taskId s) (sq_running sq))"
proof -
  let ?F = "filter_mset (\<lambda>x. taskId x \<noteq> taskId s) (sq_running sq)"
  define sq1 where "sq1 = snd (removeRunning (taskId s) sq)"
  have 1: "sub_inv cmp S sq1" "sq_running sq1 = ?F" "subCompare sq1 = cmp" "queued sq1 = queued sq"
    using removeRunning_inv [OF inv, of "taskId s"] inv by (auto simp: sq1_def sub_inv_def)
  have same: "filter_mset (\<lambda>x. taskId x \<noteq> taskId s) (sq_running sq1) = ?F" using 1 by (simp add: filter_filter_mset)
  have ins: "running_ok cmp (running_insert cmp s (running sq1))"
    "running_contents (running_insert cmp s (running sq1)) = add_mset s ?F"
    using running_insert_ok [OF sub_inv_running [OF 1(1)], of s] cap by (auto simp: same)
  have add: "addRunning s sq = recordRunning s True (sq1\<lparr>running := running_insert cmp s (running sq1)\<rparr>)"
    using 1(3) by (simp add: addRunning_def sq1_def Let_def)
  show "sq_running (addRunning s sq) = add_mset s ?F" using ins by (simp add: add)
  have "keyed taskId index_cap (?F + sq_queued sq)" using sub_inv_keyed [OF 1(1)] 1 by simp
  then have k: "keyed taskId index_cap (add_mset s ?F + sq_queued sq)"
    using cap fresh by (auto simp: keyed_add_mset)
  have "undo_matches S (addRunning s sq)" unfolding add
  proof (rule recordRunning_matches [of S sq1])
    fix M j assume "journaled taskId index_cap M j (sq_running sq1)"
    then show "journaled taskId index_cap M (j @ [\<lparr>undo_value = s, added = True\<rparr>])
        (sq_running (sq1\<lparr>running := running_insert cmp s (running sq1)\<rparr>))"
      using ins 1 journaled.insert [of taskId index_cap M j ?F s] keyed_mono [OF _ k, of "add_mset s ?F"] by simp
  qed (use 1 in \<open>auto simp: sub_inv_def\<close>)
  with ins k 1 show "sub_inv cmp S (addRunning s sq)"
    by (simp add: sub_inv_def add)
qed

lemma enqueue_inv:
  assumes inv: "sub_inv cmp S sq" and fresh: "\<forall>x \<in># sq_running sq. taskId x \<noteq> taskId s"
    and cap: "size (sq_running sq) + size (filter_mset (\<lambda>x. taskId x \<noteq> taskId s) (sq_queued sq)) < index_cap"
  shows "sub_inv cmp S (enqueue s sq)"
    "sq_queued (enqueue s sq) = add_mset s (filter_mset (\<lambda>x. taskId x \<noteq> taskId s) (sq_queued sq))"
proof -
  let ?F = "filter_mset (\<lambda>x. taskId x \<noteq> taskId s) (sq_queued sq)"
  define q where "q = (case queued sq of None \<Rightarrow> newInMemorySlotIndexWithCompare True cmp | Some q \<Rightarrow> q)"
  have cmp: "subCompare sq = cmp" using inv by (simp add: sub_inv_def)
  have q: "index_ok cmp (scope_mode S) q" "timedOutQueue q \<noteq> None" "contents q = sq_queued sq"
    using inv fwd.index_new_ok [of True] by (auto simp: q_def sub_inv_def split: option.splits)
  note ins = fwd.index_insert_ok [OF q(1), of s, unfolded q(3)]
  have eq: "enqueue s sq = sq\<lparr>queued := Some (index_insert s q)\<rparr>"
    using cmp by (cases "queued sq") (simp_all add: enqueue_def q_def Let_def)
  show c: "sq_queued (enqueue s sq) = add_mset s ?F" using ins cap by (simp add: eq)
  have "keyed taskId index_cap (sq_running sq + ?F)"
    by (rule keyed_mono [OF subset_mset.add_left_mono [OF multiset_filter_subset] sub_inv_keyed [OF inv]])
  then have "keyed taskId index_cap (sq_running sq + add_mset s ?F)"
    using cap fresh by (auto simp: keyed_add_mset)
  moreover have "undo_matches S (enqueue s sq)"
    by (rule undo_matches_update [of S sq]) (use inv in \<open>auto simp: sub_inv_def\<close>)
  ultimately show "sub_inv cmp S (enqueue s sq)"
    using inv ins q cap c by (auto simp: sub_inv_def eq)
qed

lemma sub_begin_inv:
  assumes inv: "sub_inv cmp None sq"
  shows "sub_inv cmp (Some sq) (sub_begin sq)" "sq_running (sub_begin sq) = sq_running sq"
    "sq_queued (sub_begin sq) = sq_queued sq"
proof -
  show c: "sq_running (sub_begin sq) = sq_running sq" "sq_queued (sub_begin sq) = sq_queued sq"
    using inv fwd.index_begin_ok
    by (auto simp: sub_begin_def sub_inv_def scope_mode_def split: option.splits) (cases "queued sq"; simp)+
  have "journaled taskId index_cap (sq_running sq) [] (sq_running sq)"
    by (rule journaled.start [OF running_keyed [OF sub_inv_running [OF inv]]])
  then have "undo_matches (Some sq) (sub_begin sq)"
    using sub_inv_keyed [OF inv] by (simp add: sub_begin_def)
  moreover have "opt_ok cmp True (scope_mode (Some sq)) (queued (sub_begin sq))"
    using inv fwd.index_begin_ok
    by (cases "queued sq") (auto simp: sub_begin_def sub_inv_def scope_mode_def)
  ultimately show "sub_inv cmp (Some sq) (sub_begin sq)"
    using inv c by (auto simp: sub_inv_def sub_begin_def scope_mode_def)
qed

lemma sub_commit_inv:
  assumes inv: "sub_inv cmp (Some s0) sq"
  shows "sub_inv cmp None (snd (sub_commit sq))" "sq_running (snd (sub_commit sq)) = sq_running sq"
    "sq_queued (snd (sub_commit sq)) = sq_queued sq"
    "fst (sub_commit sq) = size_minus (sub_size (snd (sub_commit sq))) (sub_size s0)"
    "queued (snd (sub_commit sq)) = None \<longleftrightarrow> sq_queued sq = {#}"
    "key (snd (sub_commit sq)) = key sq" "maxRuns (snd (sub_commit sq)) = maxRuns sq"
    "maxRunsFrom (snd (sub_commit sq)) = maxRunsFrom sq"
proof -
  define q where "q = map_option index_commit (queued sq)"
  define q' where "q' = (if index_len q = 0 then None else q)"
  obtain u where u: "undo sq = Some u" "undoSize u = sub_size s0" using inv by (auto simp: sub_inv_def)
  have q: "opt_ok cmp True None q" "opt_contents q = sq_queued sq"
    using sub_inv_queued [OF inv] fwd.index_commit_ok [of "scope_mode (Some s0)" "the (queued sq)"]
    by (cases "queued sq"; simp add: q_def)+
  have q': "opt_ok cmp True None q'" "opt_contents q' = sq_queued sq" "q' = None \<longleftrightarrow> sq_queued sq = {#}"
    using q by (cases q; auto simp: q'_def index_len_contents simp del: index_len.simps)+
  have eq: "snd (sub_commit sq) = sq\<lparr>undo := None, queued := q'\<rparr>"
    using u by (simp add: sub_commit_def Let_def q_def q'_def)
  show "fst (sub_commit sq) = size_minus (sub_size (snd (sub_commit sq))) (sub_size s0)"
    using u unfolding eq by (simp add: sub_commit_def Let_def q_def q'_def)
  show "sub_inv cmp None (snd (sub_commit sq))" "sq_running (snd (sub_commit sq)) = sq_running sq"
    "sq_queued (snd (sub_commit sq)) = sq_queued sq" "queued (snd (sub_commit sq)) = None \<longleftrightarrow> sq_queued sq = {#}"
    "key (snd (sub_commit sq)) = key sq" "maxRuns (snd (sub_commit sq)) = maxRuns sq"
    "maxRunsFrom (snd (sub_commit sq)) = maxRunsFrom sq"
    using inv q' unfolding eq by (simp_all add: sub_inv_def scope_mode_def)
qed

lemma rollback_running_restores:
  assumes "journaled taskId index_cap M j N" "running_ok cmp r" "running_contents r = N"
  shows "running_ok cmp (rollback_running cmp (rev j) r) \<and>
    running_contents (rollback_running cmp (rev j) r) = M"
  using assms
proof (induction arbitrary: r rule: journaled.induct)
  case (insert j N x)
  have "filter_mset (\<lambda>s. taskId s \<noteq> taskId x) (add_mset x N) = N"
    using keyed_filter_fresh [OF insert.hyps(2)] by simp
  with running_delete_ok [OF insert.prems(1), of "taskId x"] insert.prems(2) insert.IH show ?case by simp
next
  case (remove j x N)
  have k: "keyed taskId index_cap (add_mset x N)" using remove.hyps by (rule journaled_keyed)
  note keyed_filter_fresh [OF k]
  with running_insert_ok [OF remove.prems(1), of x] remove.prems(2) remove.IH k show ?case
    by (simp add: keyed_add_mset)
qed simp

lemma sub_rollback_inv:
  assumes inv: "sub_inv cmp (Some s0) sq"
  shows "sub_inv cmp None (snd (sub_rollback sq))"
    "sq_running (snd (sub_rollback sq)) = sq_running s0" "sq_queued (snd (sub_rollback sq)) = sq_queued s0"
    "queued (snd (sub_rollback sq)) = None \<longleftrightarrow> queued s0 = None"
    "maxRuns (snd (sub_rollback sq)) = maxRuns s0" "maxRunsFrom (snd (sub_rollback sq)) = maxRunsFrom s0"
    "key (snd (sub_rollback sq)) = key s0"
    "fst (sub_rollback sq) = size_minus (sub_size (snd (sub_rollback sq))) (sub_size s0)"
proof -
  obtain j where u: "undo sq = Some \<lparr>undoRunning = j, undoQueued = (queued s0 \<noteq> None), undoSize = sub_size s0,
      undoMaxRunsFrom = maxRunsFrom s0, undoMaxRuns = maxRuns s0\<rparr>"
    and j: "journaled taskId index_cap (sq_running s0) j (sq_running sq)"
    and k: "key sq = key s0" "keyed taskId index_cap (sq_running s0 + sq_queued s0)"
    using inv by (auto simp: sub_inv_def)
  note r = rollback_running_restores [OF j sub_inv_running [OF inv] refl]
  have cmp: "subCompare sq = cmp" using inv by (simp add: sub_inv_def)
  define qo where "qo = (if queued s0 \<noteq> None then map_option index_rollback (queued sq) else None)"
  have q: "opt_ok cmp True None qo" "opt_contents qo = sq_queued s0" "qo = None \<longleftrightarrow> queued s0 = None"
    using inv fwd.index_rollback_ok [of "sq_queued s0" "the (queued sq)"]
    by (cases "queued s0"; cases "queued sq"; simp add: qo_def sub_inv_def scope_mode_def)+
  have eq: "sub_rollback sq = (size_minus (sub_size sq') (sub_size s0), sq')"
    if "sq' = sq\<lparr>undo := None, running := rollback_running cmp (rev j) (running sq), queued := qo,
      maxRuns := maxRuns s0, maxRunsFrom := maxRunsFrom s0\<rparr>" for sq'
    using that by (simp add: sub_rollback_def u Let_def cmp qo_def)
  show "sub_inv cmp None (snd (sub_rollback sq))"
    "sq_running (snd (sub_rollback sq)) = sq_running s0" "sq_queued (snd (sub_rollback sq)) = sq_queued s0"
    "queued (snd (sub_rollback sq)) = None \<longleftrightarrow> queued s0 = None"
    "maxRuns (snd (sub_rollback sq)) = maxRuns s0" "maxRunsFrom (snd (sub_rollback sq)) = maxRunsFrom s0"
    "key (snd (sub_rollback sq)) = key s0"
    "fst (sub_rollback sq) = size_minus (sub_size (snd (sub_rollback sq))) (sub_size s0)"
    using r q k cmp unfolding eq [OF refl] by (simp_all add: sub_inv_def scope_mode_def)
qed

end

end
