(* ===== verification/Decide.thy ===== *)
theory Decide
  imports Sub_Queue
begin

text \<open>
  What happens to one sub-queue in a batch (\<open>src/pkg/scheduling/v1/concurrency/strategy.go\<close>):
  \<open>applyWAL\<close> replays the write-ahead messages of the key, then the decision function of the
  strategy kind promotes queued slots and cancels the ones that lose their place.

  A decision function returns the slots to fill, the slots to cancel and the new sub-queue.
  \<open>None\<close> is a decision that does not return: \<open>decide\<close> panics on an unknown kind, and the two
  unbounded loops of \<open>decideCancelInProgress\<close> are partial functions.
\<close>

section \<open>Model\<close>

datatype V1ConcurrencyStrategy =
    NONE
  | GROUP_ROUND_ROBIN
  | CANCEL_IN_PROGRESS
  | CANCEL_NEWEST
  | CANCEL_QUEUED_EXCEPT_NEWEST
  | CANCEL_QUEUED_EXCEPT_OLDEST
  | OTHER_STRATEGY string

record walMessage =
  msgTaskInsertedAt :: int
  msgOperation :: string
  msgKey :: string
  msgTaskId :: int
  msgScheduleTimeoutAtMs :: int
  msgPriority :: int
  msgTaskRetryCount :: int
  msgIsFilled :: bool
  msgMaxRuns :: "int option"

type_synonym decideFn = "subQueue \<Rightarrow> (slot list \<times> slot list \<times> subQueue) option"

definition comparatorForStrategy :: "V1ConcurrencyStrategy \<Rightarrow> slot \<Rightarrow> slot \<Rightarrow> int" where
  "comparatorForStrategy kind =
     (if kind = CANCEL_IN_PROGRESS then cancelInProgressCompare
      else if kind = CANCEL_QUEUED_EXCEPT_OLDEST \<or> kind = CANCEL_QUEUED_EXCEPT_NEWEST
      then cancelQueuedExceptCompare
      else priorityCompare)"

definition zeroSlot :: slot where
  "zeroSlot = \<lparr>taskId = 0, taskInsertedAtNs = 0, scheduleTimeoutAtMs = 0, priority = 0, taskRetryCount = 0\<rparr>"

definition popQueued :: "int \<Rightarrow> subQueue \<Rightarrow> slot list \<times> subQueue" where
  "popQueued n sq = (case index_pop n (queued sq) of (xs, q) \<Rightarrow> (xs, sq\<lparr>queued := q\<rparr>))"

definition deleteQueued :: "int \<Rightarrow> subQueue \<Rightarrow> subQueue" where
  "deleteQueued t sq = sq\<lparr>queued := snd (index_delete t (queued sq))\<rparr>"

definition popTimedOutQueued :: "int \<Rightarrow> subQueue \<Rightarrow> slot list \<times> subQueue" where
  "popTimedOutQueued nowMs sq = (case index_popTimedOut nowMs (queued sq) of (xs, q) \<Rightarrow> (xs, sq\<lparr>queued := q\<rparr>))"

definition fillCapacity :: "subQueue \<Rightarrow> slot list \<times> subQueue" where
  "fillCapacity sq = (case popQueued (slotsToRun sq) sq of (xs, sq1) \<Rightarrow> (xs, fold addRunning xs sq1))"

definition decideGroupRoundRobin :: decideFn where
  "decideGroupRoundRobin sq = (case fillCapacity sq of (toFill, sq1) \<Rightarrow> Some (toFill, [], sq1))"

definition decideCancelNewest :: decideFn where
  "decideCancelNewest sq =
     (case fillCapacity sq of (toFill, sq1) \<Rightarrow>
      case popQueued (index_len (queued sq1)) sq1 of (toCancel, sq2) \<Rightarrow> Some (toFill, toCancel, sq2))"

definition decideCancelQueuedExceptNewest :: decideFn where
  "decideCancelQueuedExceptNewest sq =
     (case fillCapacity sq of (toFill, sq1) \<Rightarrow>
      case popQueued (index_len (queued sq1) - maxRuns sq1) sq1 of (toCancel, sq2) \<Rightarrow>
        Some (toFill, toCancel, sq2))"

definition decideCancelQueuedExceptOldest :: decideFn where
  "decideCancelQueuedExceptOldest sq =
     (case fillCapacity sq of (toFill, sq1) \<Rightarrow>
      let n = max 0 (maxRuns sq1) in
      if n < index_len (queued sq1)
      then case popQueued (index_len (queued sq1)) sq1 of (popped, sq2) \<Rightarrow>
             Some (toFill, drop (nat n) popped, fold enqueue (take (nat n) popped) sq2)
      else Some (toFill, [], sq1))"

partial_function (option) trim_loop ::
  "int \<Rightarrow> slot list \<Rightarrow> subQueue \<Rightarrow> (slot list \<times> subQueue) option" where
  "trim_loop n toCancel sq =
     (if n < running_len (running sq)
      then let worst = (case running_worst (subCompare sq) (running sq) of None \<Rightarrow> zeroSlot | Some w \<Rightarrow> w)
           in trim_loop n (toCancel @ [worst]) (snd (removeRunning (taskId worst) sq))
      else Some (toCancel, sq))"

partial_function (option) merge_loop ::
  "int \<Rightarrow> slot list \<Rightarrow> slot list \<Rightarrow> subQueue \<Rightarrow> (slot list \<times> slot list \<times> subQueue) option" where
  "merge_loop n toFill toCancel sq =
     (if 0 < index_len (queued sq)
      then let cand = (case index_peek (queued sq) of None \<Rightarrow> zeroSlot | Some c \<Rightarrow> c);
               worst = running_worst (subCompare sq) (running sq)
           in if running_len (running sq) < n
              then merge_loop n (toFill @ [cand]) toCancel (addRunning cand (snd (popQueued 1 sq)))
              else if worst \<noteq> None \<and> subCompare sq cand (the worst) < 0
              then merge_loop n (toFill @ [cand]) (toCancel @ [the worst])
                     (addRunning cand (snd (popQueued 1 (snd (removeRunning (taskId (the worst)) sq)))))
              else let popped = popQueued (index_len (queued sq)) sq
                   in Some (toFill, toCancel @ fst popped, snd popped)
      else Some (toFill, toCancel, sq))"

definition decideCancelInProgress :: decideFn where
  "decideCancelInProgress sq =
     (let n = max 0 (maxRuns sq)
      in case trim_loop n [] sq of
           None \<Rightarrow> None
         | Some (toCancel, sq1) \<Rightarrow> merge_loop n [] toCancel sq1)"

fun decide :: "V1ConcurrencyStrategy \<Rightarrow> decideFn option" where
  "decide GROUP_ROUND_ROBIN = Some decideGroupRoundRobin"
| "decide CANCEL_IN_PROGRESS = Some decideCancelInProgress"
| "decide CANCEL_NEWEST = Some decideCancelNewest"
| "decide CANCEL_QUEUED_EXCEPT_NEWEST = Some decideCancelQueuedExceptNewest"
| "decide CANCEL_QUEUED_EXCEPT_OLDEST = Some decideCancelQueuedExceptOldest"
| "decide NONE = None"
| "decide (OTHER_STRATEGY k) = None"

definition walMessageToSlot :: "walMessage \<Rightarrow> slot" where
  "walMessageToSlot msg =
     \<lparr>taskId = msgTaskId msg, taskInsertedAtNs = msgTaskInsertedAt msg,
      scheduleTimeoutAtMs = msgScheduleTimeoutAtMs msg, priority = msgPriority msg,
      taskRetryCount = msgTaskRetryCount msg\<rparr>"

definition applyInsert :: "walMessage \<Rightarrow> subQueue \<Rightarrow> slot list \<times> subQueue" where
  "applyInsert msg sq0 =
     (let sq = (case msgMaxRuns msg of None \<Rightarrow> sq0 | Some n \<Rightarrow> observeMaxRuns n (msgTaskInsertedAt msg) sq0);
          new = walMessageToSlot msg
      in case running_get (msgTaskId msg) (running sq) of
           Some cur \<Rightarrow>
             if taskRetryCount cur < msgTaskRetryCount msg
             then ([cur], enqueue new (snd (removeRunning (msgTaskId msg) sq)))
             else if taskRetryCount cur \<noteq> msgTaskRetryCount msg then ([new], sq)
             else ([], sq)
         | None \<Rightarrow>
             (case index_get (msgTaskId msg) (queued sq) of
                Some cur \<Rightarrow>
                  if taskRetryCount cur < msgTaskRetryCount msg
                  then ([cur], enqueue new (deleteQueued (msgTaskId msg) sq))
                  else if taskRetryCount cur \<noteq> msgTaskRetryCount msg then ([new], sq)
                  else ([], sq)
              | None \<Rightarrow> ([], enqueue new sq)))"

definition applyUpdate :: "walMessage \<Rightarrow> subQueue \<Rightarrow> subQueue" where
  "applyUpdate msg sq =
     (if msgIsFilled msg then addRunning (walMessageToSlot msg) (deleteQueued (msgTaskId msg) sq)
      else enqueue (walMessageToSlot msg) (snd (removeRunning (msgTaskId msg) sq)))"

definition applyDelete :: "walMessage \<Rightarrow> subQueue \<Rightarrow> subQueue" where
  "applyDelete msg sq =
     (if running_get (msgTaskId msg) (running sq) \<noteq> None then snd (removeRunning (msgTaskId msg) sq)
      else if index_get (msgTaskId msg) (queued sq) \<noteq> None then deleteQueued (msgTaskId msg) sq
      else sq)"

definition applyMessage :: "walMessage \<Rightarrow> subQueue \<Rightarrow> slot list \<times> subQueue" where
  "applyMessage msg sq =
     (if msgOperation msg = ''INSERT'' then applyInsert msg sq
      else if msgOperation msg = ''UPDATE'' then ([], applyUpdate msg sq)
      else if msgOperation msg = ''DELETE'' then ([], applyDelete msg sq)
      else ([], sq))"

fun applyWAL :: "walMessage list \<Rightarrow> subQueue \<Rightarrow> slot list \<times> subQueue" where
  "applyWAL [] sq = ([], sq)"
| "applyWAL (msg # msgs) sq =
     (case applyMessage msg sq of (xs, sq1) \<Rightarrow>
      case applyWAL msgs sq1 of (ys, sq2) \<Rightarrow> (xs @ ys, sq2))"

section \<open>Orders of the strategies\<close>

lemma running_order_strategy: "running_order (comparatorForStrategy kind)"
  using in_progress_order.slot_order_axioms queued_order.slot_order_axioms priority_order.slot_order_axioms
  by (simp add: comparatorForStrategy_def running_order_slot_order)

section \<open>Moving slots\<close>

lemma pop_frame [simp]:
  "running (snd (popQueued n sq)) = running sq" "subCompare (snd (popQueued n sq)) = subCompare sq"
  "key (snd (popQueued n sq)) = key sq" "maxRuns (snd (popQueued n sq)) = maxRuns sq"
  "maxRunsFrom (snd (popQueued n sq)) = maxRunsFrom sq" "undo (snd (popQueued n sq)) = undo sq"
  by (auto simp: popQueued_def split: prod.splits)

lemma fold_addRunning_frame [simp]:
  "queued (fold addRunning xs sq) = queued sq" "subCompare (fold addRunning xs sq) = subCompare sq"
  "key (fold addRunning xs sq) = key sq" "maxRuns (fold addRunning xs sq) = maxRuns sq"
  "maxRunsFrom (fold addRunning xs sq) = maxRunsFrom sq"
  by (induction xs arbitrary: sq) (simp_all del: addRunning_frame(1))

lemma fold_enqueue_frame [simp]:
  "running (fold enqueue xs sq) = running sq" "subCompare (fold enqueue xs sq) = subCompare sq"
  "key (fold enqueue xs sq) = key sq" "maxRuns (fold enqueue xs sq) = maxRuns sq"
  "maxRunsFrom (fold enqueue xs sq) = maxRunsFrom sq"
  by (induction xs arbitrary: sq) simp_all

definition limit_ok :: "subQueue \<Rightarrow> bool" where
  "limit_ok sq \<longleftrightarrow> - (2 ^ 31) \<le> maxRuns sq - running_len (running sq) \<and> maxRuns sq < 2 ^ 31"

context running_order
begin

lemma popQueued_inv:
  assumes inv: "sub_inv cmp S sq" and pop: "popQueued n sq = (xs, sq')"
  shows "sub_inv cmp S sq'" "mset xs + sq_queued sq' = sq_queued sq" "running sq' = running sq"
    "length xs = min (nat n) (size (sq_queued sq))" "sorted_wrt (\<lambda>a b. cmp a b \<le> 0) xs"
    "\<forall>x \<in> set xs. \<forall>y \<in># sq_queued sq'. cmp x y \<le> 0"
proof -
  obtain q where q: "index_pop n (queued sq) = (xs, q)" "sq' = sq\<lparr>queued := q\<rparr>"
    using pop by (auto simp: popQueued_def split: prod.splits)
  note p = fwd.index_pop_ok [OF sub_inv_queued [OF inv] q(1)]
  show "sub_inv cmp S sq'" unfolding q(2)
    by (rule set_queued_inv [OF inv p(1,6)]) (metis p(2) mset_subset_eq_add_right)
  show "mset xs + sq_queued sq' = sq_queued sq" "running sq' = running sq"
    "length xs = min (nat n) (size (sq_queued sq))" "sorted_wrt (\<lambda>a b. cmp a b \<le> 0) xs"
    "\<forall>x \<in> set xs. \<forall>y \<in># sq_queued sq'. cmp x y \<le> 0"
    using p by (simp_all add: q(2))
qed

lemma popTimedOutQueued_inv:
  assumes inv: "sub_inv cmp S sq" and pop: "popTimedOutQueued nowMs sq = (xs, sq')"
  shows "sub_inv cmp S sq'" "mset xs = filter_mset (\<lambda>s. scheduleTimeoutAtMs s \<le> nowMs) (sq_queued sq)"
    "sq_queued sq' = filter_mset (\<lambda>s. \<not> scheduleTimeoutAtMs s \<le> nowMs) (sq_queued sq)"
    "running sq' = running sq" "maxRuns sq' = maxRuns sq" "maxRunsFrom sq' = maxRunsFrom sq"
proof -
  obtain q where q: "index_popTimedOut nowMs (queued sq) = (xs, q)" "sq' = sq\<lparr>queued := q\<rparr>"
    using pop by (auto simp: popTimedOutQueued_def split: prod.splits)
  note p = fwd.index_popTimedOut_ok [OF sub_inv_queued [OF inv] q(1)]
  show "sub_inv cmp S sq'" unfolding q(2)
    by (rule set_queued_inv [OF inv p(1,5)]) (simp add: p(3))
  show "mset xs = filter_mset (\<lambda>s. scheduleTimeoutAtMs s \<le> nowMs) (sq_queued sq)"
    "sq_queued sq' = filter_mset (\<lambda>s. \<not> scheduleTimeoutAtMs s \<le> nowMs) (sq_queued sq)"
    "running sq' = running sq" "maxRuns sq' = maxRuns sq" "maxRunsFrom sq' = maxRunsFrom sq"
    using p by (simp_all add: q(2))
qed

lemma deleteQueued_inv:
  assumes inv: "sub_inv cmp S sq"
  shows "sub_inv cmp S (deleteQueued t sq)" "running (deleteQueued t sq) = running sq"
    "sq_queued (deleteQueued t sq) = filter_mset (\<lambda>s. taskId s \<noteq> t) (sq_queued sq)"
    "maxRuns (deleteQueued t sq) = maxRuns sq" "maxRunsFrom (deleteQueued t sq) = maxRunsFrom sq"
proof -
  note d = fwd.index_delete_ok [OF sub_inv_queued [OF inv], of t]
  show "sub_inv cmp S (deleteQueued t sq)" unfolding deleteQueued_def
    by (rule set_queued_inv [OF inv d(1,4)]) (simp add: d(2))
qed (simp_all add: deleteQueued_def fwd.index_delete_ok [OF sub_inv_queued [OF inv]])

lemma addRunning_new:
  assumes inv: "sub_inv cmp S sq" and keyed: "keyed taskId index_cap (add_mset s (sq_running sq + sq_queued sq))"
  shows "sub_inv cmp S (addRunning s sq)" "sq_running (addRunning s sq) = add_mset s (sq_running sq)"
proof -
  have k: "size (sq_running sq + sq_queued sq) < index_cap" "\<forall>x \<in># sq_queued sq. taskId x \<noteq> taskId s"
    using keyed unfolding keyed_add_mset by (auto, metis UnI2 image_eqI)
  have f: "filter_mset (\<lambda>x. taskId x \<noteq> taskId s) (sq_running sq) = sq_running sq"
    by (rule keyed_filter_fresh [OF keyed_mono [OF _ keyed]]) simp
  note add = addRunning_inv [OF inv k(2), unfolded f]
  show "sub_inv cmp S (addRunning s sq)" "sq_running (addRunning s sq) = add_mset s (sq_running sq)"
    using add k(1) by auto
qed

lemma enqueue_new:
  assumes inv: "sub_inv cmp S sq" and keyed: "keyed taskId index_cap (add_mset s (sq_running sq + sq_queued sq))"
  shows "sub_inv cmp S (enqueue s sq)" "sq_queued (enqueue s sq) = add_mset s (sq_queued sq)"
proof -
  have k: "size (sq_running sq + sq_queued sq) < index_cap" "\<forall>x \<in># sq_running sq. taskId x \<noteq> taskId s"
    using keyed unfolding keyed_add_mset by (auto, metis UnI1 image_eqI)
  have f: "filter_mset (\<lambda>x. taskId x \<noteq> taskId s) (sq_queued sq) = sq_queued sq"
    by (rule keyed_filter_fresh [OF keyed_mono [OF _ keyed]]) simp
  note add = enqueue_inv [OF inv k(2), unfolded f]
  show "sub_inv cmp S (enqueue s sq)" "sq_queued (enqueue s sq) = add_mset s (sq_queued sq)"
    using add k(1) by auto
qed

lemma fold_addRunning_inv:
  assumes "sub_inv cmp S sq" "keyed taskId index_cap (mset xs + (sq_running sq + sq_queued sq))"
  shows "sub_inv cmp S (fold addRunning xs sq) \<and> sq_running (fold addRunning xs sq) = mset xs + sq_running sq"
  using assms
proof (induction xs arbitrary: sq)
  case (Cons x xs)
  have k: "keyed taskId index_cap (add_mset x (sq_running sq + sq_queued sq))"
    by (rule keyed_mono [OF _ Cons.prems(2)]) simp
  note add = addRunning_new [OF Cons.prems(1) k]
  have "sub_inv cmp S (fold addRunning xs (addRunning x sq)) \<and>
    sq_running (fold addRunning xs (addRunning x sq)) = mset xs + sq_running (addRunning x sq)"
    by (rule Cons.IH [OF add(1)]) (use Cons.prems(2) add(2) in \<open>simp del: addRunning_frame(1)\<close>)
  then show ?case using add(2) by (simp del: addRunning_frame(1))
qed simp

lemma fold_enqueue_inv:
  assumes "sub_inv cmp S sq" "keyed taskId index_cap (mset xs + (sq_running sq + sq_queued sq))"
  shows "sub_inv cmp S (fold enqueue xs sq) \<and> sq_queued (fold enqueue xs sq) = mset xs + sq_queued sq"
  using assms
proof (induction xs arbitrary: sq)
  case (Cons x xs)
  have k: "keyed taskId index_cap (add_mset x (sq_running sq + sq_queued sq))"
    by (rule keyed_mono [OF _ Cons.prems(2)]) simp
  note add = enqueue_new [OF Cons.prems(1) k]
  have "sub_inv cmp S (fold enqueue xs (enqueue x sq)) \<and>
    sq_queued (fold enqueue xs (enqueue x sq)) = mset xs + sq_queued (enqueue x sq)"
    by (rule Cons.IH [OF add(1)]) (use Cons.prems(2) add(2) in simp)
  then show ?case using add(2) by simp
qed simp

lemma slotsToRun_exact:
  assumes inv: "sub_inv cmp S sq" and lim: "limit_ok sq"
  shows "slotsToRun sq = maxRuns sq - int (size (sq_running sq))"
proof -
  have "size (sq_running sq) \<le> index_cap" using running_keyed [OF sub_inv_running [OF inv]] by (simp add: keyed_def)
  with lim show ?thesis
    by (simp add: slotsToRun_def limit_ok_def running_len_contents int32_id index_cap_def)
qed

lemma fillCapacity_ok:
  assumes inv: "sub_inv cmp S sq" and lim: "limit_ok sq" and fill: "fillCapacity sq = (toFill, sq')"
  shows "sub_inv cmp S sq'" "sq_running sq' = mset toFill + sq_running sq"
    "mset toFill + sq_queued sq' = sq_queued sq"
    "length toFill = min (nat (maxRuns sq - int (size (sq_running sq)))) (size (sq_queued sq))"
    "sorted_wrt (\<lambda>a b. cmp a b \<le> 0) toFill" "\<forall>x \<in> set toFill. \<forall>y \<in># sq_queued sq'. cmp x y \<le> 0"
    "maxRuns sq' = maxRuns sq" "maxRunsFrom sq' = maxRunsFrom sq" "key sq' = key sq"
proof -
  obtain sq1 where p: "popQueued (slotsToRun sq) sq = (toFill, sq1)" "sq' = fold addRunning toFill sq1"
    using fill by (auto simp: fillCapacity_def split: prod.splits)
  note pop = popQueued_inv [OF inv p(1)]
  have "keyed taskId index_cap (mset toFill + (sq_running sq1 + sq_queued sq1))"
    using sub_inv_keyed [OF inv] pop(2,3) by (metis union_assoc union_commute)
  note add = fold_addRunning_inv [OF pop(1) this]
  have fr: "maxRuns sq1 = maxRuns sq" "maxRunsFrom sq1 = maxRunsFrom sq" "key sq1 = key sq"
    using pop_frame [of "slotsToRun sq" sq] p(1) by simp_all
  show "sub_inv cmp S sq'" "sq_running sq' = mset toFill + sq_running sq"
    "mset toFill + sq_queued sq' = sq_queued sq"
    "length toFill = min (nat (maxRuns sq - int (size (sq_running sq)))) (size (sq_queued sq))"
    "sorted_wrt (\<lambda>a b. cmp a b \<le> 0) toFill" "\<forall>x \<in> set toFill. \<forall>y \<in># sq_queued sq'. cmp x y \<le> 0"
    "maxRuns sq' = maxRuns sq" "maxRunsFrom sq' = maxRunsFrom sq" "key sq' = key sq"
    using add pop fr slotsToRun_exact [OF inv lim] by (simp_all add: p(2))
qed

end

lemma popped_all:
  assumes "mset xs + Q = P" "length xs = size P"
  shows "Q = {#}" "mset xs = P"
proof -
  have "length xs + size Q = length xs" using assms by (metis size_mset size_union)
  then show "Q = {#}" by simp
  with assms(1) show "mset xs = P" by simp
qed

context running_order
begin

lemma decideGroupRoundRobin_ok:
  assumes inv: "sub_inv cmp S sq" and lim: "limit_ok sq" and d: "decideGroupRoundRobin sq = Some (toFill, toCancel, sq')"
  shows "sub_inv cmp S sq'" "toCancel = []" "sq_running sq' = mset toFill + sq_running sq"
    "mset toFill + sq_queued sq' = sq_queued sq"
    "length toFill = min (nat (maxRuns sq - int (size (sq_running sq)))) (size (sq_queued sq))"
    "\<forall>x \<in> set toFill. \<forall>y \<in># sq_queued sq'. cmp x y \<le> 0"
    "maxRuns sq' = maxRuns sq" "maxRunsFrom sq' = maxRunsFrom sq"
proof -
  have f: "fillCapacity sq = (toFill, sq')" "toCancel = []"
    using d by (auto simp: decideGroupRoundRobin_def split: prod.splits)
  note fill = fillCapacity_ok [OF inv lim f(1)]
  show "sub_inv cmp S sq'" "toCancel = []" "sq_running sq' = mset toFill + sq_running sq"
    "mset toFill + sq_queued sq' = sq_queued sq"
    "length toFill = min (nat (maxRuns sq - int (size (sq_running sq)))) (size (sq_queued sq))"
    "\<forall>x \<in> set toFill. \<forall>y \<in># sq_queued sq'. cmp x y \<le> 0"
    "maxRuns sq' = maxRuns sq" "maxRunsFrom sq' = maxRunsFrom sq"
    by (rule fill f(2))+
qed

lemma decideCancelNewest_ok:
  assumes inv: "sub_inv cmp S sq" and lim: "limit_ok sq" and d: "decideCancelNewest sq = Some (toFill, toCancel, sq')"
  shows "sub_inv cmp S sq'" "sq_running sq' = mset toFill + sq_running sq"
    "mset toFill + mset toCancel = sq_queued sq" "sq_queued sq' = {#}"
    "length toFill = min (nat (maxRuns sq - int (size (sq_running sq)))) (size (sq_queued sq))"
    "\<forall>x \<in> set toFill. \<forall>y \<in> set toCancel. cmp x y \<le> 0"
    "maxRuns sq' = maxRuns sq" "maxRunsFrom sq' = maxRunsFrom sq"
proof -
  obtain sq1 where f: "fillCapacity sq = (toFill, sq1)" and p: "popQueued (index_len (queued sq1)) sq1 = (toCancel, sq')"
    using d by (auto simp: decideCancelNewest_def split: prod.splits)
  note fill = fillCapacity_ok [OF inv lim f]
  note pop = popQueued_inv [OF fill(1) p]
  have "length toCancel = size (sq_queued sq1)" using pop(4) by (simp add: index_len_contents)
  note c = popped_all [OF pop(2) this]
  have "maxRuns sq' = maxRuns sq1" "maxRunsFrom sq' = maxRunsFrom sq1"
    using pop_frame [of "index_len (queued sq1)" sq1] p by simp_all
  then show "maxRuns sq' = maxRuns sq" "maxRunsFrom sq' = maxRunsFrom sq" using fill by simp_all
  show "\<forall>x \<in> set toFill. \<forall>y \<in> set toCancel. cmp x y \<le> 0" using fill(6) c(2) by (metis set_mset_mset)
  show "sub_inv cmp S sq'" "sq_running sq' = mset toFill + sq_running sq"
    "mset toFill + mset toCancel = sq_queued sq" "sq_queued sq' = {#}"
    "length toFill = min (nat (maxRuns sq - int (size (sq_running sq)))) (size (sq_queued sq))"
    using fill pop c by simp_all
qed

lemma decideCancelQueuedExceptNewest_ok:
  assumes inv: "sub_inv cmp S sq" and lim: "limit_ok sq"
    and d: "decideCancelQueuedExceptNewest sq = Some (toFill, toCancel, sq')"
  shows "sub_inv cmp S sq'" "sq_running sq' = mset toFill + sq_running sq"
    "mset toFill + mset toCancel + sq_queued sq' = sq_queued sq"
    "length toFill = min (nat (maxRuns sq - int (size (sq_running sq)))) (size (sq_queued sq))"
    "\<forall>x \<in> set toFill. \<forall>y \<in># mset toCancel + sq_queued sq'. cmp x y \<le> 0"
    "size (sq_queued sq') = min (nat (maxRuns sq)) (size (sq_queued sq) - length toFill)"
    "\<forall>x \<in> set toCancel. \<forall>y \<in># sq_queued sq'. cmp x y \<le> 0"
    "maxRuns sq' = maxRuns sq" "maxRunsFrom sq' = maxRunsFrom sq"
proof -
  obtain sq1 where f: "fillCapacity sq = (toFill, sq1)"
    and p: "popQueued (index_len (queued sq1) - maxRuns sq1) sq1 = (toCancel, sq')"
    using d by (auto simp: decideCancelQueuedExceptNewest_def split: prod.splits)
  note fill = fillCapacity_ok [OF inv lim f]
  note pop = popQueued_inv [OF fill(1) p]
  have "maxRuns sq' = maxRuns sq1" "maxRunsFrom sq' = maxRunsFrom sq1"
    using pop_frame [of "index_len (queued sq1) - maxRuns sq1" sq1] p by simp_all
  then show "maxRuns sq' = maxRuns sq" "maxRunsFrom sq' = maxRunsFrom sq" using fill by simp_all
  have "size (sq_queued sq1) = size (sq_queued sq) - length toFill"
    using arg_cong [OF fill(3), of size] by simp
  moreover have "length toCancel + size (sq_queued sq') = size (sq_queued sq1)"
    using arg_cong [OF pop(2), of size] by simp
  ultimately show "size (sq_queued sq') = min (nat (maxRuns sq)) (size (sq_queued sq) - length toFill)"
    using pop(4) fill(7) by (simp add: index_len_contents) linarith
  show "\<forall>x \<in> set toFill. \<forall>y \<in># mset toCancel + sq_queued sq'. cmp x y \<le> 0"
    using fill(6) unfolding pop(2) .
  show "sub_inv cmp S sq'" "sq_running sq' = mset toFill + sq_running sq"
    "mset toFill + mset toCancel + sq_queued sq' = sq_queued sq"
    "length toFill = min (nat (maxRuns sq - int (size (sq_running sq)))) (size (sq_queued sq))"
    "\<forall>x \<in> set toCancel. \<forall>y \<in># sq_queued sq'. cmp x y \<le> 0"
    using fill pop by (simp_all add: union_assoc)
qed

lemma decideCancelQueuedExceptOldest_ok:
  assumes inv: "sub_inv cmp S sq" and lim: "limit_ok sq"
    and d: "decideCancelQueuedExceptOldest sq = Some (toFill, toCancel, sq')"
  shows "sub_inv cmp S sq' \<and> sq_running sq' = mset toFill + sq_running sq \<and>
    mset toFill + mset toCancel + sq_queued sq' = sq_queued sq \<and>
    length toFill = min (nat (maxRuns sq - int (size (sq_running sq)))) (size (sq_queued sq)) \<and>
    (\<forall>x \<in> set toFill. \<forall>y \<in># mset toCancel + sq_queued sq'. cmp x y \<le> 0) \<and>
    size (sq_queued sq') = min (nat (maxRuns sq)) (size (sq_queued sq) - length toFill) \<and>
    (\<forall>x \<in> set toCancel. \<forall>y \<in># sq_queued sq'. cmp y x \<le> 0) \<and>
    maxRuns sq' = maxRuns sq \<and> maxRunsFrom sq' = maxRunsFrom sq"
proof -
  obtain sq1 where f: "fillCapacity sq = (toFill, sq1)"
    using d by (auto simp: decideCancelQueuedExceptOldest_def Let_def split: prod.splits if_splits)
  note fill = fillCapacity_ok [OF inv lim f]
  have sz: "size (sq_queued sq1) = size (sq_queued sq) - length toFill"
    using arg_cong [OF fill(3), of size] by simp
  show ?thesis
  proof (cases "max 0 (maxRuns sq1) < index_len (queued sq1)")
    case False
    with d f have "toCancel = []" "sq' = sq1" by (auto simp: decideCancelQueuedExceptOldest_def Let_def)
    moreover have "size (sq_queued sq1) \<le> nat (maxRuns sq)"
      using False fill(7) by (simp only: index_len_contents)
    ultimately show ?thesis using fill sz by auto
  next
    case True
    let ?n = "nat (max 0 (maxRuns sq1))"
    obtain popped sq2 where p: "popQueued (index_len (queued sq1)) sq1 = (popped, sq2)"
      by (cases "popQueued (index_len (queued sq1)) sq1") auto
    note pop = popQueued_inv [OF fill(1) p]
    have len: "length popped = size (sq_queued sq1)" using pop(4) by (simp add: index_len_contents)
    note e = popped_all [OF pop(2) len]
    have r: "toCancel = drop ?n popped" "sq' = fold enqueue (take ?n popped) sq2"
      using d f p True by (auto simp: decideCancelQueuedExceptOldest_def Let_def)
    have split: "mset (take ?n popped) + mset (drop ?n popped) = sq_queued sq1"
      using e(2) by (metis append_take_drop_id mset_append)
    have "keyed taskId index_cap (mset (take ?n popped) + (sq_running sq2 + sq_queued sq2))"
      by (rule keyed_mono [OF _ sub_inv_keyed [OF fill(1)]]) (simp add: e(1) pop(3) split [symmetric])
    note enq = fold_enqueue_inv [OF pop(1) this]
    have sorted: "\<forall>x \<in> set (drop ?n popped). \<forall>y \<in> set (take ?n popped). cmp y x \<le> 0"
      using pop(5) by (metis append_take_drop_id sorted_wrt_append)
    have "maxRuns sq2 = maxRuns sq" "maxRunsFrom sq2 = maxRunsFrom sq"
      using pop_frame [of "index_len (queued sq1)" sq1] p fill by simp_all
    moreover have "size (sq_queued sq') = min (nat (maxRuns sq)) (size (sq_queued sq) - length toFill)"
      using enq e True len sz fill(7) by (simp add: r index_len_contents) 
    moreover have "\<forall>x \<in> set toFill. \<forall>y \<in># mset toCancel + sq_queued sq'. cmp x y \<le> 0"
      using fill(6) split enq e r by (metis add.commute add.right_neutral)
    moreover have q': "sq_queued sq' = mset (take ?n popped)" using enq e by (simp add: r)
    then have "mset toFill + mset toCancel + sq_queued sq' = sq_queued sq"
      using split fill(3) r(1) by (metis add.assoc add.commute)
    moreover have "\<forall>x \<in> set toCancel. \<forall>y \<in># sq_queued sq'. cmp y x \<le> 0"
      using sorted unfolding q' r(1) by simp
    moreover have "sub_inv cmp S sq'" "sq_running sq' = mset toFill + sq_running sq"
      "maxRuns sq' = maxRuns sq2" "maxRunsFrom sq' = maxRunsFrom sq2"
      using enq fill(2) pop(3) by (simp_all add: r)
    ultimately show ?thesis using fill(4) by presburger
  qed
qed

end

subsection \<open>Preemption\<close>

text \<open>
  \<open>merge_inv\<close> is the invariant of the merge loop that started with the runners \<open>R\<^sub>0\<close>, the backlog \<open>Q\<^sub>0\<close>
  and \<open>D\<close> already trimmed: nothing is lost, the slots filled so far come from the backlog and are
  at least as good as all that is left of it, and the cancelled slots are no better than any runner.
\<close>

definition merge_inv ::
  "(slot \<Rightarrow> slot \<Rightarrow> int) \<Rightarrow> subQueue option \<Rightarrow> nat \<Rightarrow> slot multiset \<Rightarrow> slot multiset \<Rightarrow>
    slot list \<Rightarrow> slot list \<Rightarrow> subQueue \<Rightarrow> bool" where
  "merge_inv cmp S n R0 Q0 fs cs sq \<longleftrightarrow>
     sub_inv cmp S sq \<and> size (sq_running sq) \<le> n \<and> (cs \<noteq> [] \<longrightarrow> size (sq_running sq) = n) \<and>
     sq_running sq + sq_queued sq + mset cs = R0 + Q0 \<and> mset fs + sq_queued sq = Q0 \<and>
     (\<exists>K. sq_running sq = mset fs + K \<and> K \<subseteq># R0) \<and>
     (\<forall>f \<in> set fs. \<forall>q \<in># sq_queued sq. cmp f q \<le> 0) \<and>
     (\<forall>c \<in> set cs. \<forall>r \<in># sq_running sq. cmp r c \<le> 0)"

definition merge_post ::
  "(slot \<Rightarrow> slot \<Rightarrow> int) \<Rightarrow> subQueue option \<Rightarrow> nat \<Rightarrow> slot multiset \<Rightarrow> slot multiset \<Rightarrow>
    slot list \<Rightarrow> slot list \<Rightarrow> subQueue \<Rightarrow> bool" where
  "merge_post cmp S n R0 Q0 fs cs sq \<longleftrightarrow>
     sub_inv cmp S sq \<and> sq_queued sq = {#} \<and> sq_running sq + mset cs = R0 + Q0 \<and>
     size (sq_running sq) = min n (size (R0 + Q0)) \<and>
     (\<forall>c \<in> set cs. \<forall>r \<in># sq_running sq. cmp r c \<le> 0) \<and>
     mset fs \<subseteq># Q0 \<and> (\<exists>K. sq_running sq = mset fs + K \<and> K \<subseteq># R0)"

context running_order
begin

lemma removeRunning_member:
  assumes "sub_inv cmp S sq" "w \<in># sq_running sq"
  shows "sub_inv cmp S (snd (removeRunning (taskId w) sq))"
    "sq_running (snd (removeRunning (taskId w) sq)) = sq_running sq - {#w#}"
proof -
  note r = removeRunning_inv [OF assms(1), of "taskId w"]
  have "sq_running sq = add_mset w (filter_mset (\<lambda>x. taskId x \<noteq> taskId w) (sq_running sq))"
    by (rule keyed_split [OF running_keyed [OF sub_inv_running [OF assms(1)]] assms(2) refl])
  with r show "sub_inv cmp S (snd (removeRunning (taskId w) sq))"
    "sq_running (snd (removeRunning (taskId w) sq)) = sq_running sq - {#w#}"
    by (metis, metis add_mset_remove_trivial)
qed

lemma trim_loop_ok:
  assumes "sub_inv cmp S sq" "0 \<le> n"
  shows "\<exists>cs sq'. trim_loop n ds sq = Some (ds @ cs, sq') \<and> sub_inv cmp S sq' \<and>
    sq_running sq' + mset cs = sq_running sq \<and> queued sq' = queued sq \<and>
    size (sq_running sq') \<le> nat n \<and> (cs \<noteq> [] \<longrightarrow> size (sq_running sq') = nat n) \<and>
    (\<forall>c \<in> set cs. \<forall>r \<in># sq_running sq'. cmp r c \<le> 0) \<and>
    maxRuns sq' = maxRuns sq \<and> maxRunsFrom sq' = maxRunsFrom sq \<and> key sq' = key sq"
  using assms
proof (induction "size (sq_running sq)" arbitrary: sq ds rule: less_induct)
  case less
  show ?case
  proof (cases "n < running_len (running sq)")
    case False
    then have "size (sq_running sq) \<le> nat n" by (simp add: running_len_contents)
    with False less.prems show ?thesis by (subst trim_loop.simps) (auto intro!: exI [of _ "[]"])
  next
    case True
    then have "sq_running sq \<noteq> {#}" using less.prems(2) by (auto simp: running_len_contents)
    then obtain w where w: "running_worst cmp (running sq) = Some w"
      using running_worst_None by blast
    note worst = running_worst_ok [OF sub_inv_running [OF less.prems(1)] w]
    define sq1 where "sq1 = snd (removeRunning (taskId w) sq)"
    note rm = removeRunning_member [OF less.prems(1) worst(1), folded sq1_def]
    have sz: "size (sq_running sq1) < size (sq_running sq)" "nat n \<le> size (sq_running sq1)"
      using rm(2) worst(1) True less.prems(2)
      by (auto simp: running_len_contents size_Diff_singleton size_Diff1_less nat_le_iff)
    obtain cs sq' where IH: "trim_loop n (ds @ [w]) sq1 = Some ((ds @ [w]) @ cs, sq')" "sub_inv cmp S sq'"
      "sq_running sq' + mset cs = sq_running sq1" "queued sq' = queued sq1"
      "size (sq_running sq') \<le> nat n" "cs \<noteq> [] \<longrightarrow> size (sq_running sq') = nat n"
      "\<forall>c \<in> set cs. \<forall>r \<in># sq_running sq'. cmp r c \<le> 0"
      "maxRuns sq' = maxRuns sq1" "maxRunsFrom sq' = maxRunsFrom sq1" "key sq' = key sq1"
      using less.hyps [OF sz(1) rm(1) less.prems(2), of "ds @ [w]"] by auto
    have "trim_loop n ds sq = trim_loop n (ds @ [w]) sq1"
      using True w less.prems(1) by (subst trim_loop.simps) (simp add: sq1_def sub_inv_def)
    moreover have all: "sq_running sq' + mset (w # cs) = sq_running sq"
      using IH(3) rm(2) worst(1) by simp
    moreover have "\<forall>r \<in># sq_running sq'. cmp r w \<le> 0"
      using worst(2) all by (metis union_iff)
    moreover have "size (sq_running sq') = nat n"
      using IH(3,5,6) sz(2) by (cases cs) (auto dest: arg_cong [where f = size])
    ultimately show ?thesis using IH
      by (intro exI [of _ "w # cs"] exI [of _ sq']) (auto simp: sq1_def)
  qed
qed

lemma merge_stop:
  assumes "merge_inv cmp S n R0 Q0 fs cs sq" "sq_queued sq = {#}"
  shows "merge_post cmp S n R0 Q0 fs cs sq"
proof -
  have "size (R0 + Q0) = size (sq_running sq) + length cs"
    using assms unfolding merge_inv_def by (metis add.right_neutral size_mset size_union)
  then have "size (sq_running sq) = min n (size (R0 + Q0))"
    using assms(1) by (cases cs) (auto simp: merge_inv_def)
  then show ?thesis using assms by (auto simp: merge_inv_def merge_post_def)
qed

lemma merge_promote:
  assumes inv: "merge_inv cmp S n R0 Q0 fs cs sq" and peek: "index_peek (queued sq) = Some c"
    and room: "size (sq_running sq) < n"
  shows "merge_inv cmp S n R0 Q0 (fs @ [c]) cs (addRunning c (snd (popQueued 1 sq)))"
    "size (sq_queued (addRunning c (snd (popQueued 1 sq)))) < size (sq_queued sq)"
proof -
  have si: "sub_inv cmp S sq" using inv by (simp add: merge_inv_def)
  note best = fwd.index_peek_ok [OF sub_inv_queued [OF si] peek]
  note pk = fwd.index_pop_1 [OF sub_inv_queued [OF si] peek]
  define sq1 where "sq1 = snd (popQueued 1 sq)"
  have pop: "popQueued 1 sq = ([c], sq1)" using pk by (auto simp: popQueued_def sq1_def split: prod.splits)
  note p = popQueued_inv [OF si pop]
  have q1: "add_mset c (sq_queued sq1) = sq_queued sq" using p(2) by simp
  have "keyed taskId index_cap (add_mset c (sq_running sq1 + sq_queued sq1))"
    using sub_inv_keyed [OF si] by (simp add: p(3) q1 [symmetric])
  note add = addRunning_new [OF p(1) this]
  obtain K where K: "sq_running sq = mset fs + K" "K \<subseteq># R0" using inv by (auto simp: merge_inv_def)
  have cs: "cs = []" using inv room by (auto simp: merge_inv_def)
  show "merge_inv cmp S n R0 Q0 (fs @ [c]) cs (addRunning c (snd (popQueued 1 sq)))"
    unfolding merge_inv_def sq1_def [symmetric] addRunning_frame(2) add(2)
  proof (intro conjI)
    show "\<exists>K. add_mset c (sq_running sq1) = mset (fs @ [c]) + K \<and> K \<subseteq># R0"
      using K p(3) by (intro exI [of _ K]) simp
    show "add_mset c (sq_running sq1) + sq_queued sq1 + mset cs = R0 + Q0"
      using inv by (simp add: merge_inv_def p(3) flip: q1)
    show "mset (fs @ [c]) + sq_queued sq1 = Q0" using inv by (simp add: merge_inv_def flip: q1)
    show "\<forall>f \<in> set (fs @ [c]). \<forall>q \<in># sq_queued sq1. cmp f q \<le> 0"
      using inv p(6) by (auto simp: merge_inv_def simp flip: q1)
  qed (use add(1) room cs p(3) in \<open>auto simp: Suc_leI\<close>)
  show "size (sq_queued (addRunning c (snd (popQueued 1 sq)))) < size (sq_queued sq)"
    by (simp add: sq1_def [symmetric] q1 [symmetric])
qed

lemma merge_evict:
  assumes inv: "merge_inv cmp S n R0 Q0 fs cs sq" and peek: "index_peek (queued sq) = Some c"
    and full: "\<not> size (sq_running sq) < n" and w: "running_worst cmp (running sq) = Some w"
    and less: "cmp c w < 0"
  shows "merge_inv cmp S n R0 Q0 (fs @ [c]) (cs @ [w])
      (addRunning c (snd (popQueued 1 (snd (removeRunning (taskId w) sq)))))"
    "size (sq_queued (addRunning c (snd (popQueued 1 (snd (removeRunning (taskId w) sq)))))) < size (sq_queued sq)"
proof -
  have si: "sub_inv cmp S sq" and n: "size (sq_running sq) = n" using inv full by (auto simp: merge_inv_def)
  note worst = running_worst_ok [OF sub_inv_running [OF si] w]
  define sq0 where "sq0 = snd (removeRunning (taskId w) sq)"
  note rm = removeRunning_member [OF si worst(1), folded sq0_def]
  have q0: "queued sq0 = queued sq" by (simp add: sq0_def)
  note best = fwd.index_peek_ok [OF sub_inv_queued [OF si] peek]
  have "index_peek (queued sq0) = Some c" using peek q0 by simp
  note pk = fwd.index_pop_1 [OF sub_inv_queued [OF rm(1)] this]
  define sq1 where "sq1 = snd (popQueued 1 sq0)"
  have pop: "popQueued 1 sq0 = ([c], sq1)" using pk by (auto simp: popQueued_def sq1_def split: prod.splits)
  note p = popQueued_inv [OF rm(1) pop]
  have q1: "add_mset c (sq_queued sq1) = sq_queued sq" using p(2) q0 by simp
  have r1: "add_mset w (sq_running sq1) = sq_running sq" using rm(2) worst(1) p(3) by simp
  have "keyed taskId index_cap (add_mset c (sq_running sq1 + sq_queued sq1))"
    by (rule keyed_mono [OF _ sub_inv_keyed [OF si]]) (simp flip: q1 r1)
  note add = addRunning_new [OF p(1) this]
  obtain K where K: "sq_running sq = mset fs + K" "K \<subseteq># R0" using inv by (auto simp: merge_inv_def)
  have "w \<notin> set fs"
    using inv less best(1) fwd.compare_not_less by (auto simp: merge_inv_def)
  then have wK: "w \<in># K" using worst(1) K(1) by (metis set_mset_mset union_iff)
  show "merge_inv cmp S n R0 Q0 (fs @ [c]) (cs @ [w])
      (addRunning c (snd (popQueued 1 (snd (removeRunning (taskId w) sq)))))"
    unfolding merge_inv_def sq0_def [symmetric] sq1_def [symmetric] addRunning_frame(2) add(2)
  proof (intro conjI)
    have "add_mset w (sq_running sq1) = mset fs + add_mset w (K - {#w#})" using r1 K(1) wK by simp
    then show "\<exists>K. add_mset c (sq_running sq1) = mset (fs @ [c]) + K \<and> K \<subseteq># R0"
      using K(2) by (intro exI [of _ "K - {#w#}"]) (auto intro: subset_mset.trans diff_subset_eq_self)
    show "add_mset c (sq_running sq1) + sq_queued sq1 + mset (cs @ [w]) = R0 + Q0"
      using inv by (simp add: merge_inv_def add_mset_commute flip: q1 r1)
    show "mset (fs @ [c]) + sq_queued sq1 = Q0" using inv by (simp add: merge_inv_def flip: q1)
    show "\<forall>f \<in> set (fs @ [c]). \<forall>q \<in># sq_queued sq1. cmp f q \<le> 0"
      using inv p(6) by (auto simp: merge_inv_def simp flip: q1)
    have "cmp c d \<le> 0" if "d \<in> set cs" for d
      using that inv worst(1) less fwd.compare_less_le_trans [of c w d] by (auto simp: merge_inv_def)
    then show "\<forall>d \<in> set (cs @ [w]). \<forall>r \<in># add_mset c (sq_running sq1). cmp r d \<le> 0"
      using inv worst(2) less by (auto simp: merge_inv_def simp flip: r1)
  qed (use add(1) n in \<open>auto simp flip: r1\<close>)
  show "size (sq_queued (addRunning c (snd (popQueued 1 (snd (removeRunning (taskId w) sq)))))) < size (sq_queued sq)"
    by (simp add: sq0_def [symmetric] sq1_def [symmetric] q1 [symmetric])
qed

lemma merge_reject:
  assumes inv: "merge_inv cmp S n R0 Q0 fs cs sq" and peek: "index_peek (queued sq) = Some c"
    and full: "\<not> size (sq_running sq) < n"
    and keep: "\<And>w. running_worst cmp (running sq) = Some w \<Longrightarrow> \<not> cmp c w < 0"
    and pop: "popQueued (index_len (queued sq)) sq = (xs, sq')"
  shows "merge_post cmp S n R0 Q0 fs (cs @ xs) sq'"
proof -
  have si: "sub_inv cmp S sq" and n: "size (sq_running sq) = n" using inv full by (auto simp: merge_inv_def)
  note p = popQueued_inv [OF si pop]
  have "length xs = size (sq_queued sq)" using p(4) by (simp add: index_len_contents)
  note all = popped_all [OF p(2) this]
  note best = fwd.index_peek_ok [OF sub_inv_queued [OF si] peek]
  have out: "cmp r x \<le> 0" if rx: "r \<in># sq_running sq" "x \<in> set xs" for r x
  proof -
    obtain w where w: "running_worst cmp (running sq) = Some w"
      using rx(1) running_worst_None [of "running sq"] by (cases "running_worst cmp (running sq)") auto
    have "cmp r w \<le> 0" by (rule running_worst_ok(2) [OF sub_inv_running [OF si] w rx(1)])
    moreover have "cmp w c \<le> 0" using keep [OF w] fwd.compare_not_less by blast
    moreover have "cmp c x \<le> 0" using best(2) rx(2) all(2) by (metis set_mset_mset)
    ultimately show ?thesis by (metis fwd.compare_trans)
  qed
  have "size (R0 + Q0) = n + size (sq_queued sq) + length cs"
    using inv n unfolding merge_inv_def by (metis size_mset size_union)
  moreover have "sq_running sq' + mset (cs @ xs) = R0 + Q0"
    using inv by (simp add: merge_inv_def p(3) all(2) ac_simps)
  moreover have "mset fs \<subseteq># Q0" using inv unfolding merge_inv_def by (metis mset_subset_eq_add_left)
  ultimately show ?thesis using inv out p(1) all n unfolding merge_inv_def merge_post_def p(3) by auto
qed

lemma merge_loop_ok:
  assumes "merge_inv cmp S (nat n) R0 Q0 fs cs sq" "0 \<le> n"
  shows "\<exists>fs' cs' sq'. merge_loop n fs cs sq = Some (fs', cs', sq') \<and>
    merge_post cmp S (nat n) R0 Q0 fs' cs' sq' \<and>
    maxRuns sq' = maxRuns sq \<and> maxRunsFrom sq' = maxRunsFrom sq \<and> key sq' = key sq"
  using assms
proof (induction "size (sq_queued sq)" arbitrary: sq fs cs rule: less_induct)
  case less
  have c: "subCompare sq = cmp" using less.prems(1) by (simp add: merge_inv_def sub_inv_def)
  show ?case
  proof (cases "0 < index_len (queued sq)")
    case False
    with merge_stop [OF less.prems(1)] show ?thesis
      by (subst merge_loop.simps) (simp add: index_len_contents)
  next
    case True
    then obtain cand where peek: "index_peek (queued sq) = Some cand"
      using fwd.index_peek_None [of "queued sq"] by (auto simp: index_len_contents)
    let ?w = "running_worst cmp (running sq)"
    have room_iff: "running_len (running sq) < n \<longleftrightarrow> size (sq_running sq) < nat n"
      using less.prems(2) by (simp add: running_len_contents zless_nat_eq_int_zless)
    consider (room) "size (sq_running sq) < nat n"
      | (evict) w where "\<not> size (sq_running sq) < nat n" "?w = Some w" "cmp cand w < 0"
      | (reject) "\<not> size (sq_running sq) < nat n" "\<And>w. ?w = Some w \<Longrightarrow> \<not> cmp cand w < 0"
      by (cases ?w) auto
    then show ?thesis
    proof cases
      case room
      note step = merge_promote [OF less.prems(1) peek room]
      have "merge_loop n fs cs sq = merge_loop n (fs @ [cand]) cs (addRunning cand (snd (popQueued 1 sq)))"
        using True peek room c less.prems(2)
        by (subst merge_loop.simps) (simp add: room_iff Let_def)
      with less.hyps [OF step(2,1) less.prems(2)] show ?thesis by simp
    next
      case (evict w)
      note step = merge_evict [OF less.prems(1) peek evict]
      have "merge_loop n fs cs sq = merge_loop n (fs @ [cand]) (cs @ [w])
          (addRunning cand (snd (popQueued 1 (snd (removeRunning (taskId w) sq)))))"
        using True peek evict c less.prems(2)
        by (subst merge_loop.simps) (simp add: room_iff Let_def)
      with less.hyps [OF step(2,1) less.prems(2)] show ?thesis by simp
    next
      case reject
      obtain xs sq' where pop: "popQueued (index_len (queued sq)) sq = (xs, sq')" by force
      have "\<not> (?w \<noteq> None \<and> cmp cand (the ?w) < 0)" using reject(2) by auto
      then have "merge_loop n fs cs sq = Some (fs, cs @ xs, sq')"
        using True peek reject(1) c pop less.prems(2)
        by (subst merge_loop.simps) (auto simp: room_iff Let_def)
      moreover have "maxRuns sq' = maxRuns sq" "maxRunsFrom sq' = maxRunsFrom sq" "key sq' = key sq"
        using pop_frame [of "index_len (queued sq)" sq] pop by simp_all
      ultimately show ?thesis using merge_reject [OF less.prems(1) peek reject pop] by simp
    qed
  qed
qed

lemma decideCancelInProgress_ok:
  assumes inv: "sub_inv cmp S sq"
  shows "\<exists>toFill toCancel sq'. decideCancelInProgress sq = Some (toFill, toCancel, sq') \<and>
    merge_post cmp S (nat (maxRuns sq)) (sq_running sq) (sq_queued sq) toFill toCancel sq' \<and>
    maxRuns sq' = maxRuns sq \<and> maxRunsFrom sq' = maxRunsFrom sq \<and> key sq' = key sq"
proof -
  let ?n = "max 0 (maxRuns sq)"
  obtain cs sq1 where t: "trim_loop ?n [] sq = Some (cs, sq1)" "sub_inv cmp S sq1"
    "sq_running sq1 + mset cs = sq_running sq" "queued sq1 = queued sq"
    "size (sq_running sq1) \<le> nat ?n" "cs \<noteq> [] \<longrightarrow> size (sq_running sq1) = nat ?n"
    "\<forall>c \<in> set cs. \<forall>r \<in># sq_running sq1. cmp r c \<le> 0"
    "maxRuns sq1 = maxRuns sq" "maxRunsFrom sq1 = maxRunsFrom sq" "key sq1 = key sq"
    using trim_loop_ok [OF inv, of ?n "[]"] by auto
  have "sq_running sq1 \<subseteq># sq_running sq" using t(3) by (metis mset_subset_eq_add_left)
  moreover have "sq_running sq1 + sq_queued sq1 + mset cs = sq_running sq + sq_queued sq"
    using t(3,4) by (metis union_assoc union_commute)
  ultimately have start: "merge_inv cmp S (nat ?n) (sq_running sq) (sq_queued sq) [] cs sq1"
    using t(2,4,5,6,7) by (auto simp: merge_inv_def)
  have n: "nat ?n = nat (maxRuns sq)" by simp
  from merge_loop_ok [OF start, unfolded n] t(1,8-10) show ?thesis
    by (auto simp: decideCancelInProgress_def Let_def)
qed

end

section \<open>Replaying the write-ahead log\<close>

text \<open>
  The abstract state of a key is a table of slot rows: the slot of each task and whether it is
  filled. A message of the log changes one row.
\<close>

type_synonym slot_table = "int \<Rightarrow> (slot \<times> bool) option"

definition task_table :: "subQueue \<Rightarrow> slot_table" where
  "task_table sq t =
     (case running_get t (running sq) of
        Some s \<Rightarrow> Some (s, True)
      | None \<Rightarrow> map_option (\<lambda>s. (s, False)) (index_get t (queued sq)))"

definition wal_row :: "walMessage \<Rightarrow> slot_table \<Rightarrow> slot_table" where
  "wal_row msg T =
     (let t = msgTaskId msg; new = walMessageToSlot msg
      in if msgOperation msg = ''INSERT''
         then (case T t of
                 None \<Rightarrow> T(t \<mapsto> (new, False))
               | Some (cur, _) \<Rightarrow>
                   if taskRetryCount cur < msgTaskRetryCount msg then T(t \<mapsto> (new, False)) else T)
         else if msgOperation msg = ''UPDATE'' then T(t \<mapsto> (new, msgIsFilled msg))
         else if msgOperation msg = ''DELETE'' then T(t := None)
         else T)"

definition wal_superseded :: "walMessage \<Rightarrow> slot_table \<Rightarrow> slot list" where
  "wal_superseded msg T =
     (if msgOperation msg = ''INSERT''
      then (case T (msgTaskId msg) of
              None \<Rightarrow> []
            | Some (cur, _) \<Rightarrow>
                if taskRetryCount cur < msgTaskRetryCount msg then [cur]
                else if taskRetryCount cur \<noteq> msgTaskRetryCount msg then [walMessageToSlot msg] else [])
      else [])"

lemma taskId_walMessageToSlot [simp]:
  "taskId (walMessageToSlot msg) = msgTaskId msg"
  "taskRetryCount (walMessageToSlot msg) = msgTaskRetryCount msg"
  by (simp_all add: walMessageToSlot_def)

context running_order
begin

lemma task_table_Some:
  assumes inv: "sub_inv cmp S sq"
  shows "task_table sq t = Some (s, b) \<longleftrightarrow> s \<in># (if b then sq_running sq else sq_queued sq) \<and> taskId s = t"
proof -
  note r = running_get_iff [OF sub_inv_running [OF inv], of t]
  note q = fwd.index_get_iff [OF sub_inv_queued [OF inv], of t]
  have "taskId x \<noteq> taskId y" if "x \<in># sq_running sq" "y \<in># sq_queued sq" for x y
    by (rule keyed_union_disjoint [OF sub_inv_keyed [OF inv] that])
  then have none: "running_get t (running sq) = None" if "s \<in># sq_queued sq" "taskId s = t"
    using that r by (metis not_None_eq)
  have "task_table sq t = Some (s, b) \<longleftrightarrow>
    (if b then running_get t (running sq) = Some s
     else running_get t (running sq) = None \<and> index_get t (queued sq) = Some s)"
    by (auto simp: task_table_def split: option.splits)
  then show ?thesis using r [of s] q [of s] none by auto
qed

lemma task_table_None:
  assumes inv: "sub_inv cmp S sq"
  shows "task_table sq t = None \<longleftrightarrow> (\<forall>s \<in># sq_running sq + sq_queued sq. taskId s \<noteq> t)"
  using task_table_Some [OF inv, of t] by (auto simp: not_Some_eq [symmetric])

lemma task_table_set:
  assumes inv: "sub_inv cmp S sq" "sub_inv cmp S sq'" and t: "taskId new = t"
    and R: "sq_running sq' = (if b then {#new#} else {#}) + filter_mset (\<lambda>s. taskId s \<noteq> t) (sq_running sq)"
    and Q: "sq_queued sq' = (if b then {#} else {#new#}) + filter_mset (\<lambda>s. taskId s \<noteq> t) (sq_queued sq)"
  shows "task_table sq' = (task_table sq)(t \<mapsto> (new, b))"
proof (intro ext option_eq_iff)
  fix t' and x :: "slot \<times> bool"
  obtain s c where x: "x = (s, c)" by (cases x)
  show "task_table sq' t' = Some x \<longleftrightarrow> ((task_table sq)(t \<mapsto> (new, b))) t' = Some x"
    using t unfolding x task_table_Some [OF inv(2)] fun_upd_apply
    by (auto simp: R Q task_table_Some [OF inv(1)])
qed

lemma task_table_unset:
  assumes inv: "sub_inv cmp S sq" "sub_inv cmp S sq'"
    and R: "sq_running sq' = filter_mset (\<lambda>s. taskId s \<noteq> t) (sq_running sq)"
    and Q: "sq_queued sq' = filter_mset (\<lambda>s. taskId s \<noteq> t) (sq_queued sq)"
  shows "task_table sq' = (task_table sq)(t := None)"
proof (intro ext option_eq_iff)
  fix t' and x :: "slot \<times> bool"
  obtain s c where x: "x = (s, c)" by (cases x)
  show "task_table sq' t' = Some x \<longleftrightarrow> ((task_table sq)(t := None)) t' = Some x"
    unfolding x task_table_Some [OF inv(2)] fun_upd_apply
    by (auto simp: R Q task_table_Some [OF inv(1)])
qed

text \<open>Replacing the row of a task by an unfilled or a filled one.\<close>

lemma requeue_ok:
  assumes inv: "sub_inv cmp S sq" and cap: "size (sq_running sq + sq_queued sq) < index_cap" and t: "taskId new = t"
    and inv1: "sub_inv cmp S sq1" and R: "sq_running sq1 = filter_mset (\<lambda>s. taskId s \<noteq> t) (sq_running sq)"
    and Q: "filter_mset (\<lambda>s. taskId s \<noteq> t) (sq_queued sq1) = filter_mset (\<lambda>s. taskId s \<noteq> t) (sq_queued sq)"
  shows "sub_inv cmp S (enqueue new sq1)" "task_table (enqueue new sq1) = (task_table sq)(t \<mapsto> (new, False))"
    "size (sq_running (enqueue new sq1) + sq_queued (enqueue new sq1)) \<le> Suc (size (sq_running sq + sq_queued sq))"
proof -
  let ?R = "filter_mset (\<lambda>s. taskId s \<noteq> t) (sq_running sq)" and ?Q = "filter_mset (\<lambda>s. taskId s \<noteq> t) (sq_queued sq)"
  have sz: "size ?R \<le> size (sq_running sq)" "size ?Q \<le> size (sq_queued sq)"
    by (simp_all add: size_filter_mset_lesseq)
  have lt: "size ?R + size ?Q < index_cap" using sz cap unfolding size_union by linarith
  have "\<forall>x \<in># sq_running sq1. taskId x \<noteq> taskId new" by (simp add: R t)
  note enq = enqueue_inv [OF inv1 this]
  have e: "sub_inv cmp S (enqueue new sq1)" "sq_queued (enqueue new sq1) = add_mset new ?Q"
    using enq lt by (auto simp: R Q t)
  then show "sub_inv cmp S (enqueue new sq1)" by simp
  show "task_table (enqueue new sq1) = (task_table sq)(t \<mapsto> (new, False))"
    by (rule task_table_set [OF inv e(1) t]) (simp_all add: R e(2))
  show "size (sq_running (enqueue new sq1) + sq_queued (enqueue new sq1)) \<le> Suc (size (sq_running sq + sq_queued sq))"
    using sz unfolding size_union enqueue_frame(1) e(2) R size_add_mset by linarith
qed

lemma refill_ok:
  assumes inv: "sub_inv cmp S sq" and cap: "size (sq_running sq + sq_queued sq) < index_cap" and t: "taskId new = t"
  shows "sub_inv cmp S (addRunning new (deleteQueued t sq))"
    "task_table (addRunning new (deleteQueued t sq)) = (task_table sq)(t \<mapsto> (new, True))"
    "size (sq_running (addRunning new (deleteQueued t sq)) + sq_queued (addRunning new (deleteQueued t sq)))
      \<le> Suc (size (sq_running sq + sq_queued sq))"
proof -
  let ?R = "filter_mset (\<lambda>s. taskId s \<noteq> t) (sq_running sq)" and ?Q = "filter_mset (\<lambda>s. taskId s \<noteq> t) (sq_queued sq)"
  have sz: "size ?R \<le> size (sq_running sq)" "size ?Q \<le> size (sq_queued sq)"
    by (simp_all add: size_filter_mset_lesseq)
  have lt: "size ?R + size ?Q < index_cap" using sz cap unfolding size_union by linarith
  note d = deleteQueued_inv [OF inv, of t]
  have "\<forall>x \<in># sq_queued (deleteQueued t sq). taskId x \<noteq> taskId new" by (simp add: d(3) t)
  note add = addRunning_inv [OF d(1) this]
  have a: "sub_inv cmp S (addRunning new (deleteQueued t sq))"
    "sq_running (addRunning new (deleteQueued t sq)) = add_mset new ?R"
    using add lt by (auto simp: d(2,3) t simp del: addRunning_frame(1))
  then show "sub_inv cmp S (addRunning new (deleteQueued t sq))" by simp
  show "task_table (addRunning new (deleteQueued t sq)) = (task_table sq)(t \<mapsto> (new, True))"
    by (rule task_table_set [OF inv a(1) t]) (simp_all add: a(2) d(3) del: addRunning_frame(1))
  show "size (sq_running (addRunning new (deleteQueued t sq)) + sq_queued (addRunning new (deleteQueued t sq)))
      \<le> Suc (size (sq_running sq + sq_queued sq))"
    using sz unfolding size_union addRunning_frame(2) a(2) d(3) size_add_mset by linarith
qed

definition wal_step_ok :: "subQueue option \<Rightarrow> walMessage \<Rightarrow> subQueue \<Rightarrow> slot list \<Rightarrow> subQueue \<Rightarrow> bool" where
  "wal_step_ok S msg sq xs sq' \<longleftrightarrow>
     sub_inv cmp S sq' \<and> task_table sq' = wal_row msg (task_table sq) \<and> xs = wal_superseded msg (task_table sq) \<and>
     size (sq_running sq' + sq_queued sq') \<le> Suc (size (sq_running sq + sq_queued sq))"

lemma task_table_observe [simp]: "task_table (observeMaxRuns n ns sq) = task_table sq"
  unfolding task_table_def [abs_def] observeMaxRuns_frame ..

lemma filter_absent:
  assumes inv: "sub_inv cmp S sq"
  shows "running_get t (running sq) = None \<Longrightarrow> filter_mset (\<lambda>s. taskId s \<noteq> t) (sq_running sq) = sq_running sq"
    "index_get t (queued sq) = None \<Longrightarrow> filter_mset (\<lambda>s. taskId s \<noteq> t) (sq_queued sq) = sq_queued sq"
    "running_get t (running sq) \<noteq> None \<Longrightarrow> filter_mset (\<lambda>s. taskId s \<noteq> t) (sq_queued sq) = sq_queued sq"
  using running_get_iff [OF sub_inv_running [OF inv], of t] fwd.index_get_iff [OF sub_inv_queued [OF inv], of t]
    keyed_union_disjoint [OF sub_inv_keyed [OF inv]]
  by (force intro!: filter_mset_all)+

lemma applyInsert_ok:
  assumes inv: "sub_inv cmp S sq0" and cap: "size (sq_running sq0 + sq_queued sq0) < index_cap"
    and op: "msgOperation msg = ''INSERT''" and ap: "applyInsert msg sq0 = (xs, sq')"
  shows "wal_step_ok S msg sq0 xs sq'"
proof -
  define sq where "sq = (case msgMaxRuns msg of None \<Rightarrow> sq0 | Some n \<Rightarrow> observeMaxRuns n (msgTaskInsertedAt msg) sq0)"
  let ?t = "msgTaskId msg" and ?new = "walMessageToSlot msg"
  have s0: "task_table sq0 = task_table sq" "sq_running sq0 = sq_running sq" "sq_queued sq0 = sq_queued sq"
    and inv1: "sub_inv cmp S sq"
    using inv observeMaxRuns_inv by (auto simp: sq_def split: option.splits)
  have cap1: "size (sq_running sq + sq_queued sq) < index_cap" using cap s0 by simp
  note f = filter_absent [OF inv1, of ?t]
  note rm = removeRunning_inv [OF inv1, of ?t]
  note dq = deleteQueued_inv [OF inv1, of ?t]
  show ?thesis
  proof (cases "running_get ?t (running sq)")
    case (Some cur)
    then have T: "task_table sq ?t = Some (cur, True)" by (simp add: task_table_def)
    have "filter_mset (\<lambda>s. taskId s \<noteq> ?t) (sq_queued (snd (removeRunning ?t sq))) = filter_mset (\<lambda>s. taskId s \<noteq> ?t) (sq_queued sq)"
      by simp
    note rq = requeue_ok [OF inv1 cap1 taskId_walMessageToSlot(1) rm(1,2) this]
    from ap Some T rq inv1 show ?thesis
      by (auto simp: wal_step_ok_def applyInsert_def sq_def [symmetric] s0 op wal_row_def wal_superseded_def Let_def
          split: if_splits)
  next
    case None
    show ?thesis
    proof (cases "index_get ?t (queued sq)")
      case (Some cur)
      then have T: "task_table sq ?t = Some (cur, False)" using None by (simp add: task_table_def)
      have "sq_running (deleteQueued ?t sq) = filter_mset (\<lambda>s. taskId s \<noteq> ?t) (sq_running sq)"
        "filter_mset (\<lambda>s. taskId s \<noteq> ?t) (sq_queued (deleteQueued ?t sq)) = filter_mset (\<lambda>s. taskId s \<noteq> ?t) (sq_queued sq)"
        by (simp_all add: dq f None filter_filter_mset)
      note rq = requeue_ok [OF inv1 cap1 taskId_walMessageToSlot(1) dq(1) this]
      from ap None Some T rq inv1 show ?thesis
        by (auto simp: wal_step_ok_def applyInsert_def sq_def [symmetric] s0 op wal_row_def wal_superseded_def Let_def
            split: if_splits)
    next
      case absent: None
      then have T: "task_table sq ?t = None" using None by (simp add: task_table_def)
      note rq = requeue_ok [OF inv1 cap1 taskId_walMessageToSlot(1) inv1 f(1) [OF None, symmetric] refl]
      from ap None absent T rq show ?thesis
        by (auto simp: wal_step_ok_def applyInsert_def sq_def [symmetric] s0 op wal_row_def wal_superseded_def Let_def)
    qed
  qed
qed

lemma applyUpdate_ok:
  assumes inv: "sub_inv cmp S sq" and cap: "size (sq_running sq + sq_queued sq) < index_cap"
    and op: "msgOperation msg = ''UPDATE''"
  shows "wal_step_ok S msg sq [] (applyUpdate msg sq)"
proof -
  note rm = removeRunning_inv [OF inv, of "msgTaskId msg"]
  have "filter_mset (\<lambda>s. taskId s \<noteq> msgTaskId msg) (sq_queued (snd (removeRunning (msgTaskId msg) sq))) =
    filter_mset (\<lambda>s. taskId s \<noteq> msgTaskId msg) (sq_queued sq)" by simp
  note rq = requeue_ok [OF inv cap taskId_walMessageToSlot(1) rm(1,2) this]
  note rf = refill_ok [OF inv cap taskId_walMessageToSlot(1)]
  show ?thesis using rq rf by (simp add: wal_step_ok_def applyUpdate_def op wal_row_def wal_superseded_def Let_def)
qed

lemma applyDelete_ok:
  assumes inv: "sub_inv cmp S sq" and op: "msgOperation msg = ''DELETE''"
  shows "wal_step_ok S msg sq [] (applyDelete msg sq)"
proof -
  let ?t = "msgTaskId msg" and ?sq = "applyDelete msg sq"
  note f = filter_absent [OF inv, of ?t]
  note rm = removeRunning_inv [OF inv, of ?t]
  note dq = deleteQueued_inv [OF inv, of ?t]
  have r: "sub_inv cmp S ?sq" "sq_running ?sq = filter_mset (\<lambda>s. taskId s \<noteq> ?t) (sq_running sq)"
    "sq_queued ?sq = filter_mset (\<lambda>s. taskId s \<noteq> ?t) (sq_queued sq)"
    using inv rm dq f by (auto simp: applyDelete_def)
  have "size (sq_running ?sq + sq_queued ?sq) \<le> size (sq_running sq + sq_queued sq)"
    using size_filter_mset_lesseq by (auto simp: r intro: add_mono)
  with r task_table_unset [OF inv r] show ?thesis
    by (simp add: wal_step_ok_def op wal_row_def wal_superseded_def Let_def)
qed

lemma applyMessage_ok:
  assumes "sub_inv cmp S sq" "size (sq_running sq + sq_queued sq) < index_cap" "applyMessage msg sq = (xs, sq')"
  shows "wal_step_ok S msg sq xs sq'"
  using assms applyInsert_ok [OF assms(1,2)] applyUpdate_ok [OF assms(1,2)] applyDelete_ok [OF assms(1)]
  by (auto simp: applyMessage_def wal_step_ok_def wal_row_def wal_superseded_def Let_def split: if_splits)

end

fun wal_replay :: "walMessage list \<Rightarrow> slot_table \<Rightarrow> slot list \<times> slot_table" where
  "wal_replay [] T = ([], T)"
| "wal_replay (msg # msgs) T =
     (case wal_replay msgs (wal_row msg T) of (ys, T') \<Rightarrow> (wal_superseded msg T @ ys, T'))"

context running_order
begin

lemma applyWAL_ok:
  assumes "sub_inv cmp S sq" "size (sq_running sq + sq_queued sq) + length msgs \<le> index_cap"
  shows "sub_inv cmp S (snd (applyWAL msgs sq)) \<and>
    (fst (applyWAL msgs sq), task_table (snd (applyWAL msgs sq))) = wal_replay msgs (task_table sq) \<and>
    size (sq_running (snd (applyWAL msgs sq)) + sq_queued (snd (applyWAL msgs sq)))
      \<le> size (sq_running sq + sq_queued sq) + length msgs"
  using assms
proof (induction msgs arbitrary: sq)
  case (Cons msg msgs)
  obtain xs sq1 where m: "applyMessage msg sq = (xs, sq1)" by (cases "applyMessage msg sq")
  have s: "wal_step_ok S msg sq xs sq1"
    by (rule applyMessage_ok [OF Cons.prems(1) _ m]) (use Cons.prems(2) in simp)
  have "sub_inv cmp S sq1" "size (sq_running sq1 + sq_queued sq1) + length msgs \<le> index_cap"
    using s Cons.prems(2) unfolding wal_step_ok_def by auto
  note IH = Cons.IH [OF this]
  obtain ys sq2 where w: "applyWAL msgs sq1 = (ys, sq2)" by (cases "applyWAL msgs sq1")
  from IH s Cons.prems(2) show ?case
    unfolding wal_step_ok_def applyWAL.simps m w by (auto simp: wal_step_ok_def m w split: prod.splits)
qed simp

end

text \<open>The comparator of every strategy kind gives an order, so the lemmas above hold for it.\<close>

interpretation strategy_order: running_order "comparatorForStrategy kind" for kind
  by (rule running_order_strategy)

section \<open>Properties\<close>

text \<open>A key with two running and three queued slots, for the examples.\<close>

definition example_queue :: "V1ConcurrencyStrategy \<Rightarrow> int \<Rightarrow> subQueue" where
  "example_queue kind limit =
     fold enqueue [example_slot 3 1 100, example_slot 4 2 200, example_slot 5 1 300]
       (fold addRunning [example_slot 1 1 100, example_slot 2 1 100]
          (newSubQueue ''k'' limit (comparatorForStrategy kind)))"

lemma example_queue_inv:
  "sub_inv (comparatorForStrategy kind) None (example_queue kind limit)"
  "sq_running (example_queue kind limit) = {#example_slot 1 1 100, example_slot 2 1 100#}"
  "sq_queued (example_queue kind limit) = {#example_slot 3 1 100, example_slot 4 2 200, example_slot 5 1 300#}"
  "maxRuns (example_queue kind limit) = limit"
proof -
  let ?cmp = "comparatorForStrategy kind"
  let ?r = "[example_slot 1 1 100, example_slot 2 1 100]"
  let ?q = "[example_slot 3 1 100, example_slot 4 2 200, example_slot 5 1 300]"
  define sq0 where "sq0 = newSubQueue ''k'' limit ?cmp"
  define sq1 where "sq1 = fold addRunning ?r sq0"
  have 0: "sub_inv ?cmp None sq0" "sq_running sq0 = {#}" "sq_queued sq0 = {#}"
    by (simp_all add: sq0_def newSubQueue_inv, simp_all add: newSubQueue_def emptyRunning_def running_contents_def)
  have "keyed taskId index_cap (mset ?r + (sq_running sq0 + sq_queued sq0))"
    by (simp add: 0 keyed_add_mset index_cap_def)
  note 1 = strategy_order.fold_addRunning_inv [OF 0(1) this, folded sq1_def]
  have q1: "sq_queued sq1 = {#}" "maxRuns sq1 = limit"
    by (simp_all add: sq1_def 0 del: fold_simps) (simp add: sq0_def newSubQueue_def)
  have "keyed taskId index_cap (mset ?q + (sq_running sq1 + sq_queued sq1))"
    by (simp add: 1 0 q1 keyed_add_mset index_cap_def)
  note 2 = strategy_order.fold_enqueue_inv [OF conjunct1 [OF 1] this]
  have e: "example_queue kind limit = fold enqueue ?q sq1" by (simp add: example_queue_def sq0_def sq1_def)
  show "sub_inv ?cmp None (example_queue kind limit)"
    "sq_running (example_queue kind limit) = {#example_slot 1 1 100, example_slot 2 1 100#}"
    "sq_queued (example_queue kind limit) = {#example_slot 3 1 100, example_slot 4 2 200, example_slot 5 1 300#}"
    "maxRuns (example_queue kind limit) = limit"
    using 2 1 unfolding e by (simp_all add: 0 q1 add_mset_commute del: fold_simps)
qed

lemma example_limit_ok: "0 \<le> limit \<Longrightarrow> limit < 2 ^ 31 \<Longrightarrow> limit_ok (example_queue kind limit)"
  by (simp add: limit_ok_def running_len_contents example_queue_inv)

text \<open>
  C2. On a CANCEL_IN_PROGRESS key the decision always returns. It keeps running the best \<open>maxRuns\<close> of
  all running and queued slots (fewer if there are fewer), cancels exactly the others, fills only
  slots that were queued and keep running, and empties the queue.
\<close>

theorem cancelInProgress_keeps_best:
  assumes "sub_inv (comparatorForStrategy CANCEL_IN_PROGRESS) S sq"
  shows "\<exists>toFill toCancel sq'. decideCancelInProgress sq = Some (toFill, toCancel, sq') \<and>
    sub_inv (comparatorForStrategy CANCEL_IN_PROGRESS) S sq' \<and>
    sq_running sq' + mset toCancel = sq_running sq + sq_queued sq \<and>
    size (sq_running sq') = min (nat (maxRuns sq)) (size (sq_running sq + sq_queued sq)) \<and>
    (\<forall>r \<in># sq_running sq'. \<forall>c \<in> set toCancel. cancelInProgressCompare r c \<le> 0) \<and>
    mset toFill \<subseteq># sq_running sq' \<and> mset toFill \<subseteq># sq_queued sq \<and>
    sq_running sq' - mset toFill \<subseteq># sq_running sq \<and> sq_queued sq' = {#}"
proof -
  obtain toFill toCancel sq' where d: "decideCancelInProgress sq = Some (toFill, toCancel, sq')"
    "merge_post (comparatorForStrategy CANCEL_IN_PROGRESS) S (nat (maxRuns sq)) (sq_running sq) (sq_queued sq) toFill toCancel sq'"
    using strategy_order.decideCancelInProgress_ok [OF assms] by blast
  have cmp: "comparatorForStrategy CANCEL_IN_PROGRESS = cancelInProgressCompare" by (simp add: comparatorForStrategy_def)
  obtain K where "sq_running sq' = mset toFill + K" "K \<subseteq># sq_running sq" using d(2) unfolding merge_post_def by blast
  then have "mset toFill \<subseteq># sq_running sq'" "sq_running sq' - mset toFill \<subseteq># sq_running sq" by simp_all
  with d show ?thesis unfolding merge_post_def cmp
    by (intro exI [of _ toFill] exI [of _ toCancel] exI [of _ sq']) auto
qed

theorem cancelInProgress_keeps_best_witness:
  "\<exists>toFill toCancel sq'. decideCancelInProgress (example_queue CANCEL_IN_PROGRESS 2) = Some (toFill, toCancel, sq') \<and>
     size (sq_running sq') = 2 \<and> length toCancel = 3"
proof -
  obtain toFill toCancel sq' where d: "decideCancelInProgress (example_queue CANCEL_IN_PROGRESS 2) = Some (toFill, toCancel, sq')"
    "sq_running sq' + mset toCancel = sq_running (example_queue CANCEL_IN_PROGRESS 2) + sq_queued (example_queue CANCEL_IN_PROGRESS 2)"
    "size (sq_running sq') = min (nat (maxRuns (example_queue CANCEL_IN_PROGRESS 2)))
       (size (sq_running (example_queue CANCEL_IN_PROGRESS 2) + sq_queued (example_queue CANCEL_IN_PROGRESS 2)))"
    using cancelInProgress_keeps_best [OF example_queue_inv(1)] by blast
  have "size (sq_running sq') = 2" using d(3) by (simp add: example_queue_inv)
  moreover have "size (sq_running sq') + length toCancel = 5"
    using arg_cong [OF d(2), of size] by (simp add: example_queue_inv)
  ultimately show ?thesis using d(1) by auto
qed

text \<open>
  C14. GROUP_ROUND_ROBIN fills exactly the free capacity with the best queued slots, best first, leaves
  the others queued and cancels nothing.
\<close>

theorem groupRoundRobin_fills_capacity:
  assumes "sub_inv (comparatorForStrategy GROUP_ROUND_ROBIN) S sq" "limit_ok sq"
  shows "\<exists>toFill sq'. decideGroupRoundRobin sq = Some (toFill, [], sq') \<and>
    sub_inv (comparatorForStrategy GROUP_ROUND_ROBIN) S sq' \<and>
    length toFill = min (nat (maxRuns sq - running_len (running sq))) (size (sq_queued sq)) \<and>
    sq_running sq' = sq_running sq + mset toFill \<and> mset toFill + sq_queued sq' = sq_queued sq \<and>
    sorted_wrt (\<lambda>a b. priorityCompare a b \<le> 0) toFill \<and>
    (\<forall>f \<in> set toFill. \<forall>w \<in># sq_queued sq'. priorityCompare f w \<le> 0)"
proof -
  obtain toFill sq' where f: "fillCapacity sq = (toFill, sq')" by (metis prod.exhaust)
  have cmp: "comparatorForStrategy GROUP_ROUND_ROBIN = priorityCompare" by (simp add: comparatorForStrategy_def)
  note fill = strategy_order.fillCapacity_ok [OF assms f]
  have "sq_running sq' = sq_running sq + mset toFill" using fill(2) by (simp add: union_commute)
  with fill f show ?thesis unfolding cmp
    by (intro exI [of _ toFill] exI [of _ sq']) (simp add: decideGroupRoundRobin_def running_len_contents)
qed

theorem groupRoundRobin_fills_capacity_witness:
  "\<exists>toFill sq'. decideGroupRoundRobin (example_queue GROUP_ROUND_ROBIN 4) = Some (toFill, [], sq') \<and> length toFill = 2"
  using groupRoundRobin_fills_capacity [OF example_queue_inv(1) example_limit_ok [of 4]]
  by (auto simp: example_queue_inv running_len_contents)

text \<open>
  C23. CANCEL_NEWEST fills exactly the free capacity with the best queued slots in priority order (the
  higher priority first, among equal ones the older) and cancels all the other queued slots; no
  running slot is touched and the queue is empty afterwards.
\<close>

theorem cancelNewest_empties_queue:
  assumes "sub_inv (comparatorForStrategy CANCEL_NEWEST) S sq" "limit_ok sq"
  shows "\<exists>toFill toCancel sq'. decideCancelNewest sq = Some (toFill, toCancel, sq') \<and>
    sub_inv (comparatorForStrategy CANCEL_NEWEST) S sq' \<and>
    length toFill = min (nat (maxRuns sq - running_len (running sq))) (size (sq_queued sq)) \<and>
    sq_running sq' = sq_running sq + mset toFill \<and> mset toFill + mset toCancel = sq_queued sq \<and>
    sq_queued sq' = {#} \<and> (\<forall>f \<in> set toFill. \<forall>c \<in> set toCancel. priorityCompare f c \<le> 0)"
proof -
  obtain toFill toCancel sq' where d: "decideCancelNewest sq = Some (toFill, toCancel, sq')"
    by (cases "decideCancelNewest sq") (auto simp: decideCancelNewest_def split: prod.splits)
  have cmp: "comparatorForStrategy CANCEL_NEWEST = priorityCompare" by (simp add: comparatorForStrategy_def)
  note r = strategy_order.decideCancelNewest_ok [OF assms d]
  have "sq_running sq' = sq_running sq + mset toFill" using r(2) by (simp add: union_commute)
  with r d show ?thesis unfolding cmp
    by (intro exI [of _ toFill] exI [of _ toCancel] exI [of _ sq']) (simp add: running_len_contents)
qed

theorem cancelNewest_empties_queue_witness:
  "\<exists>toFill toCancel sq'. decideCancelNewest (example_queue CANCEL_NEWEST 3) = Some (toFill, toCancel, sq') \<and>
     length toFill = 1 \<and> length toCancel = 2"
proof -
  obtain toFill toCancel sq' where d: "decideCancelNewest (example_queue CANCEL_NEWEST 3) = Some (toFill, toCancel, sq')"
    "length toFill = 1" "mset toFill + mset toCancel = {#example_slot 3 1 100, example_slot 4 2 200, example_slot 5 1 300#}"
    using cancelNewest_empties_queue [OF example_queue_inv(1) example_limit_ok [of 3]]
    by (auto simp: example_queue_inv running_len_contents)
  have "length toFill + length toCancel = 3" using arg_cong [OF d(3), of size] by simp
  with d show ?thesis by auto
qed

text \<open>
  C22. CANCEL_QUEUED_EXCEPT_NEWEST fills the free capacity with the oldest queued slots, keeps the
  \<open>maxRuns\<close> newest of the others queued and cancels the rest: every filled slot is at least as old as
  every slot not filled, and every cancelled slot as every slot kept. No running slot is touched.
\<close>

theorem exceptNewest_keeps_newest:
  assumes "sub_inv (comparatorForStrategy CANCEL_QUEUED_EXCEPT_NEWEST) S sq" "limit_ok sq"
  shows "\<exists>toFill toCancel sq'. decideCancelQueuedExceptNewest sq = Some (toFill, toCancel, sq') \<and>
    sub_inv (comparatorForStrategy CANCEL_QUEUED_EXCEPT_NEWEST) S sq' \<and>
    length toFill = min (nat (maxRuns sq - running_len (running sq))) (size (sq_queued sq)) \<and>
    sq_running sq' = sq_running sq + mset toFill \<and>
    mset toFill + mset toCancel + sq_queued sq' = sq_queued sq \<and>
    size (sq_queued sq') = min (nat (maxRuns sq)) (size (sq_queued sq) - length toFill) \<and>
    (\<forall>f \<in> set toFill. \<forall>w \<in># mset toCancel + sq_queued sq'. cancelQueuedExceptCompare f w \<le> 0) \<and>
    (\<forall>c \<in> set toCancel. \<forall>w \<in># sq_queued sq'. cancelQueuedExceptCompare c w \<le> 0)"
proof -
  obtain toFill toCancel sq' where d: "decideCancelQueuedExceptNewest sq = Some (toFill, toCancel, sq')"
    by (cases "decideCancelQueuedExceptNewest sq") (auto simp: decideCancelQueuedExceptNewest_def split: prod.splits)
  have cmp: "comparatorForStrategy CANCEL_QUEUED_EXCEPT_NEWEST = cancelQueuedExceptCompare"
    by (simp add: comparatorForStrategy_def)
  note r = strategy_order.decideCancelQueuedExceptNewest_ok [OF assms d]
  have "sq_running sq' = sq_running sq + mset toFill" using r(2) by (simp add: union_commute)
  with r d show ?thesis unfolding cmp
    by (intro exI [of _ toFill] exI [of _ toCancel] exI [of _ sq']) (simp add: running_len_contents)
qed

theorem exceptNewest_keeps_newest_witness:
  "\<exists>toFill toCancel sq'. decideCancelQueuedExceptNewest (example_queue CANCEL_QUEUED_EXCEPT_NEWEST 2) =
     Some (toFill, toCancel, sq') \<and> toFill = [] \<and> size (sq_queued sq') = 2"
  using exceptNewest_keeps_newest [OF example_queue_inv(1) example_limit_ok [of 2]]
  by (auto simp: example_queue_inv running_len_contents)

text \<open>
  CANCEL_QUEUED_EXCEPT_OLDEST fills the free capacity oldest first, then keeps the \<open>maxRuns\<close>
  oldest of the remaining queued slots and cancels the newer ones.
\<close>

theorem exceptOldest_keeps_oldest:
  assumes "sub_inv (comparatorForStrategy CANCEL_QUEUED_EXCEPT_OLDEST) S sq" "limit_ok sq"
  shows "\<exists>toFill toCancel sq'. decideCancelQueuedExceptOldest sq = Some (toFill, toCancel, sq') \<and>
    sub_inv (comparatorForStrategy CANCEL_QUEUED_EXCEPT_OLDEST) S sq' \<and>
    length toFill = min (nat (maxRuns sq - running_len (running sq))) (size (sq_queued sq)) \<and>
    sq_running sq' = sq_running sq + mset toFill \<and>
    mset toFill + mset toCancel + sq_queued sq' = sq_queued sq \<and>
    size (sq_queued sq') = min (nat (maxRuns sq)) (size (sq_queued sq) - length toFill) \<and>
    (\<forall>c \<in> set toCancel. \<forall>w \<in># sq_queued sq'. cancelQueuedExceptCompare w c \<le> 0)"
proof -
  obtain toFill toCancel sq' where d: "decideCancelQueuedExceptOldest sq = Some (toFill, toCancel, sq')"
    by (cases "decideCancelQueuedExceptOldest sq")
      (auto simp: decideCancelQueuedExceptOldest_def Let_def split: prod.splits if_splits)
  have cmp: "comparatorForStrategy CANCEL_QUEUED_EXCEPT_OLDEST = cancelQueuedExceptCompare"
    by (simp add: comparatorForStrategy_def)
  note r = strategy_order.decideCancelQueuedExceptOldest_ok [OF assms d]
  have "sq_running sq' = sq_running sq + mset toFill" using r by (simp add: union_commute)
  with r d show ?thesis unfolding cmp
    by (intro exI [of _ toFill] exI [of _ toCancel] exI [of _ sq']) (simp add: running_len_contents)
qed

theorem exceptOldest_keeps_oldest_witness:
  "\<exists>toFill toCancel sq'. decideCancelQueuedExceptOldest (example_queue CANCEL_QUEUED_EXCEPT_OLDEST 2) =
     Some (toFill, toCancel, sq') \<and> toFill = [] \<and> size (sq_queued sq') = 2"
  using exceptOldest_keeps_oldest [OF example_queue_inv(1) example_limit_ok [of 2]]
  by (auto simp: example_queue_inv running_len_contents)

text \<open>
  C4. Replaying the write-ahead messages of a key refines the replay on the abstract slot table: the
  table of the resulting sub-queue and the superseded slots are those of the table replay. In
  particular no task is ever both running and queued, a slot is superseded only by one with a
  higher retry count, and an UPDATE or DELETE supersedes nothing. An INSERT at the retry count the
  task already has changes nothing and supersedes nothing, although the comment on \<open>applyWAL\<close> counts
  it among the stale slots to be cancelled.
\<close>

theorem applyWAL_refines_table:
  assumes "sub_inv (comparatorForStrategy kind) S sq"
    "size (sq_running sq + sq_queued sq) + length msgs \<le> index_cap"
    "applyWAL msgs sq = (superseded, sq')"
  shows "sub_inv (comparatorForStrategy kind) S sq' \<and>
    (superseded, task_table sq') = wal_replay msgs (task_table sq)"
  using strategy_order.applyWAL_ok [OF assms(1,2)] assms(3) by simp

definition example_message :: "string \<Rightarrow> int \<Rightarrow> int \<Rightarrow> walMessage" where
  "example_message op t retry =
     \<lparr>msgTaskInsertedAt = 1000 + t, msgOperation = op, msgKey = ''k'', msgTaskId = t,
      msgScheduleTimeoutAtMs = 500, msgPriority = 1, msgTaskRetryCount = retry, msgIsFilled = False,
      msgMaxRuns = None\<rparr>"

theorem applyWAL_refines_table_witness:
  "task_table (snd (applyWAL [example_message ''INSERT'' 1 1, example_message ''DELETE'' 3 0]
     (example_queue GROUP_ROUND_ROBIN 2))) 3 = None"
proof -
  let ?msgs = "[example_message ''INSERT'' 1 1, example_message ''DELETE'' 3 0]"
  obtain xs sq' where a: "applyWAL ?msgs (example_queue GROUP_ROUND_ROBIN 2) = (xs, sq')" by (metis prod.exhaust)
  have "size (sq_running (example_queue GROUP_ROUND_ROBIN 2) + sq_queued (example_queue GROUP_ROUND_ROBIN 2)) + length ?msgs \<le> index_cap"
    by (simp add: example_queue_inv index_cap_def)
  from applyWAL_refines_table [OF example_queue_inv(1) this a] a show ?thesis
    by (simp add: wal_row_def wal_superseded_def example_message_def split: prod.splits option.splits)
qed

text \<open>Any sequence of the writes that a batch makes to a sub-queue.\<close>

datatype sub_op =
    OpAddRunning slot
  | OpRemoveRunning int
  | OpEnqueue slot
  | OpDeleteQueued int
  | OpPopQueued int
  | OpPopTimedOut int
  | OpObserve int int

fun sub_write :: "sub_op \<Rightarrow> subQueue \<Rightarrow> subQueue" where
  "sub_write (OpAddRunning s) sq = addRunning s sq"
| "sub_write (OpRemoveRunning t) sq = snd (removeRunning t sq)"
| "sub_write (OpEnqueue s) sq = enqueue s sq"
| "sub_write (OpDeleteQueued t) sq = deleteQueued t sq"
| "sub_write (OpPopQueued n) sq = snd (popQueued n sq)"
| "sub_write (OpPopTimedOut nowMs) sq = snd (popTimedOutQueued nowMs sq)"
| "sub_write (OpObserve n ns) sq = observeMaxRuns n ns sq"

text \<open>A task is added to one side only when the other does not hold it.\<close>

fun sub_write_fits :: "sub_op \<Rightarrow> subQueue \<Rightarrow> bool" where
  "sub_write_fits (OpAddRunning s) sq \<longleftrightarrow>
     taskId s \<notin> taskId ` set_mset (sq_queued sq) \<and> size (sq_running sq + sq_queued sq) < index_cap"
| "sub_write_fits (OpEnqueue s) sq \<longleftrightarrow>
     taskId s \<notin> taskId ` set_mset (sq_running sq) \<and> size (sq_running sq + sq_queued sq) < index_cap"
| "sub_write_fits _ sq \<longleftrightarrow> True"

fun sub_writes_fit :: "sub_op list \<Rightarrow> subQueue \<Rightarrow> bool" where
  "sub_writes_fit [] sq \<longleftrightarrow> True"
| "sub_writes_fit (w # ws) sq \<longleftrightarrow> sub_write_fits w sq \<and> sub_writes_fit ws (sub_write w sq)"

context running_order
begin

lemma sub_write_inv:
  assumes inv: "sub_inv cmp S sq" and fit: "sub_write_fits w sq"
  shows "sub_inv cmp S (sub_write w sq)"
proof (cases w)
  case (OpAddRunning s)
  have "size (filter_mset (\<lambda>x. taskId x \<noteq> taskId s) (sq_running sq)) + size (sq_queued sq) < index_cap"
    using fit OpAddRunning size_filter_mset_lesseq [of "\<lambda>x. taskId x \<noteq> taskId s" "sq_running sq"]
    by (simp only: sub_write_fits.simps size_union) linarith
  moreover have "\<forall>x \<in># sq_queued sq. taskId x \<noteq> taskId s" using fit OpAddRunning by (metis image_eqI sub_write_fits.simps(1))
  ultimately show ?thesis using addRunning_inv(1) [OF inv] OpAddRunning by simp
next
  case (OpEnqueue s)
  have "size (sq_running sq) + size (filter_mset (\<lambda>x. taskId x \<noteq> taskId s) (sq_queued sq)) < index_cap"
    using fit OpEnqueue size_filter_mset_lesseq [of "\<lambda>x. taskId x \<noteq> taskId s" "sq_queued sq"]
    by (simp only: sub_write_fits.simps size_union) linarith
  moreover have "\<forall>x \<in># sq_running sq. taskId x \<noteq> taskId s" using fit OpEnqueue by (metis image_eqI sub_write_fits.simps(2))
  ultimately show ?thesis using enqueue_inv(1) [OF inv] OpEnqueue by simp
next
  case (OpPopQueued n)
  then show ?thesis using popQueued_inv(1) [OF inv, of n] by (metis prod.collapse sub_write.simps(5))
next
  case (OpPopTimedOut n)
  then show ?thesis using popTimedOutQueued_inv(1) [OF inv, of n] by (metis prod.collapse sub_write.simps(6))
qed (use removeRunning_inv(1) [OF inv] deleteQueued_inv(1) [OF inv] observeMaxRuns_inv [OF inv] in simp_all)

lemma sub_writes_inv: "sub_inv cmp S sq \<Longrightarrow> sub_writes_fit ws sq \<Longrightarrow> sub_inv cmp S (fold sub_write ws sq)"
proof (induction ws arbitrary: sq)
  case (Cons w ws)
  then show ?case using sub_write_inv [of S sq w] by simp
qed simp

end

text \<open>
  Whatever a batch does to a sub-queue inside its undo scope, a rollback restores the running
  slots, the queued slots and the limit it had when the scope was opened, even if the running slots
  moved to the large representation in between.
\<close>

theorem rollback_undoes_scope:
  assumes "sub_inv (comparatorForStrategy kind) None sq" "sub_writes_fit ws (sub_begin sq)"
    "snd (sub_rollback (fold sub_write ws (sub_begin sq))) = sq'"
  shows "sub_inv (comparatorForStrategy kind) None sq' \<and>
    sq_running sq' = sq_running sq \<and> sq_queued sq' = sq_queued sq \<and>
    maxRuns sq' = maxRuns sq \<and> maxRunsFrom sq' = maxRunsFrom sq \<and> key sq' = key sq"
  using strategy_order.sub_rollback_inv
    [OF strategy_order.sub_writes_inv [OF strategy_order.sub_begin_inv(1) [OF assms(1)] assms(2)]] assms(3)
  by blast

theorem rollback_undoes_scope_witness:
  "sq_queued (snd (sub_rollback (fold sub_write [OpPopQueued 2, OpObserve 9 5000]
     (sub_begin (example_queue GROUP_ROUND_ROBIN 2))))) =
   {#example_slot 3 1 100, example_slot 4 2 200, example_slot 5 1 300#}"
  using rollback_undoes_scope [OF example_queue_inv(1) _ refl, of "[OpPopQueued 2, OpObserve 9 5000]"]
  by (simp add: example_queue_inv)

end
