(* ===== verification/Enumerables.thy ===== *)
theory Enumerables
  imports Main "HOL-Library.Multiset"
begin

text \<open>
  The slice and map helpers of \<open>src/internal/enumerables\<close>. Each loop is a recursion over the slice
  that carries the variables the loop body assigns; a Go map is a function to \<open>option\<close>, a set
  (\<open>map[T]struct{}\<close>) is a HOL set. The lemmas identify every loop with the library function it
  computes, and the proofs of the other components use those.
\<close>

section \<open>Model\<close>

fun uniqBy_loop :: "('a \<Rightarrow> 'k) \<Rightarrow> 'k set \<Rightarrow> 'a list \<Rightarrow> 'a list \<Rightarrow> 'a list" where
  "uniqBy_loop fn seen result [] = result"
| "uniqBy_loop fn seen result (x # xs) =
     (if fn x \<notin> seen then uniqBy_loop fn (insert (fn x) seen) (result @ [x]) xs
      else uniqBy_loop fn seen result xs)"

definition UniqBy :: "('a \<Rightarrow> 'k) \<Rightarrow> 'a list \<Rightarrow> 'a list" where
  "UniqBy fn xs = uniqBy_loop fn {} [] xs"

fun uniq_loop :: "'a set \<Rightarrow> 'a list \<Rightarrow> 'a list \<Rightarrow> 'a list" where
  "uniq_loop seen result [] = result"
| "uniq_loop seen result (x # xs) =
     (if x \<notin> seen then uniq_loop (insert x seen) (result @ [x]) xs else uniq_loop seen result xs)"

definition Uniq_slice :: "'a list \<Rightarrow> 'a list" where
  "Uniq_slice xs = uniq_loop {} [] xs"

definition HasKey :: "('k \<Rightarrow> 'v option) \<Rightarrow> 'k \<Rightarrow> bool" where
  "HasKey m k = (m k \<noteq> None)"

definition Any_slice :: "'a list \<Rightarrow> 'a \<Rightarrow> bool" where
  "Any_slice xs target = List.member xs target"

fun All_slice :: "'a list \<Rightarrow> 'a \<Rightarrow> bool" where
  "All_slice [] target = True"
| "All_slice (x # xs) target = (if x \<noteq> target then False else All_slice xs target)"

fun maxOf_loop :: "('a \<Rightarrow> int) \<Rightarrow> int \<Rightarrow> 'a list \<Rightarrow> int" where
  "maxOf_loop fn m [] = m"
| "maxOf_loop fn m (x # xs) = maxOf_loop fn (if m < fn x then fn x else m) xs"

definition MaxOf :: "('a \<Rightarrow> int) \<Rightarrow> 'a list \<Rightarrow> int" where
  "MaxOf fn xs = maxOf_loop fn 0 xs"

fun strictlyEqual_loop :: "nat list \<Rightarrow> 'a list \<Rightarrow> 'a list \<Rightarrow> bool" where
  "strictlyEqual_loop [] a b = True"
| "strictlyEqual_loop (i # is) a b = (if a ! i \<noteq> b ! i then False else strictlyEqual_loop is a b)"

definition AreStrictlyEqual :: "'a list \<Rightarrow> 'a list \<Rightarrow> bool" where
  "AreStrictlyEqual a b =
     (if length a \<noteq> length b then False else strictlyEqual_loop [0..<length a] a b)"

definition AreUnorderedEqual :: "('a :: linorder) list \<Rightarrow> 'a list \<Rightarrow> bool" where
  "AreUnorderedEqual a b = (if length a \<noteq> length b then False else sort a = sort b)"

definition AreSetEqual :: "'a list \<Rightarrow> 'a list \<Rightarrow> bool" where
  "AreSetEqual a b =
     (let aSeen = fold insert a {}; bSeen = fold insert b {}
      in if \<exists>x \<in> aSeen. x \<notin> bSeen then False
         else if \<exists>x \<in> bSeen. x \<notin> aSeen then False
         else True)"

fun map_loop :: "('a \<Rightarrow> 'b) \<Rightarrow> 'b list \<Rightarrow> 'a list \<Rightarrow> 'b list" where
  "map_loop fn result [] = result"
| "map_loop fn result (x # xs) = map_loop fn (result @ [fn x]) xs"

definition Map_slice :: "'a list \<Rightarrow> ('a \<Rightarrow> 'b) \<Rightarrow> 'b list" where
  "Map_slice xs fn = map_loop fn [] xs"

fun ToMap_loop :: "('a \<Rightarrow> 'k) \<Rightarrow> ('a \<Rightarrow> 'v) \<Rightarrow> ('k \<Rightarrow> 'v option) \<Rightarrow> 'a list \<Rightarrow> 'k \<Rightarrow> 'v option" where
  "ToMap_loop kf vf result [] = result"
| "ToMap_loop kf vf result (x # xs) = ToMap_loop kf vf (result(kf x := Some (vf x))) xs"

definition ToMap :: "'a list \<Rightarrow> ('a \<Rightarrow> 'k) \<Rightarrow> ('a \<Rightarrow> 'v) \<Rightarrow> 'k \<Rightarrow> 'v option" where
  "ToMap xs kf vf = ToMap_loop kf vf (\<lambda>_. None) xs"

definition KeyBy :: "'a list \<Rightarrow> ('a \<Rightarrow> 'k) \<Rightarrow> 'k \<Rightarrow> 'a option" where
  "KeyBy xs kf = ToMap_loop kf (\<lambda>x. x) (\<lambda>_. None) xs"

fun groupBy_loop :: "('a \<Rightarrow> 'k) \<Rightarrow> ('k \<Rightarrow> 'a list option) \<Rightarrow> 'a list \<Rightarrow> 'k \<Rightarrow> 'a list option" where
  "groupBy_loop kf result [] = result"
| "groupBy_loop kf result (x # xs) =
     groupBy_loop kf
       (result(kf x := Some ((case result (kf x) of None \<Rightarrow> [] | Some ys \<Rightarrow> ys) @ [x]))) xs"

definition GroupBy :: "'a list \<Rightarrow> ('a \<Rightarrow> 'k) \<Rightarrow> 'k \<Rightarrow> 'a list option" where
  "GroupBy xs kf = groupBy_loop kf (\<lambda>_. None) xs"

definition ToSet :: "'a list \<Rightarrow> ('a \<Rightarrow> 'k) \<Rightarrow> 'k set" where
  "ToSet xs kf = fold (\<lambda>x s. insert (kf x) s) xs {}"

fun filter_loop :: "('a \<Rightarrow> bool) \<Rightarrow> 'a list \<Rightarrow> 'a list \<Rightarrow> 'a list" where
  "filter_loop p result [] = result"
| "filter_loop p result (x # xs) = filter_loop p (if p x then result @ [x] else result) xs"

definition Filter_slice :: "'a list \<Rightarrow> ('a \<Rightarrow> bool) \<Rightarrow> 'a list" where
  "Filter_slice xs p = filter_loop p [] xs"

fun flatMap_loop :: "('a \<Rightarrow> 'b list) \<Rightarrow> 'b list \<Rightarrow> 'a list \<Rightarrow> 'b list" where
  "flatMap_loop fn result [] = result"
| "flatMap_loop fn result (x # xs) = flatMap_loop fn (result @ fn x) xs"

definition FlatMap :: "'a list \<Rightarrow> ('a \<Rightarrow> 'b list) \<Rightarrow> 'b list" where
  "FlatMap xs fn = flatMap_loop fn [] xs"

section \<open>Specification\<close>

lemma uniqBy_loop_append: "uniqBy_loop fn seen result xs = result @ uniqBy_loop fn seen [] xs"
proof (induction xs arbitrary: seen result)
  case (Cons x xs)
  show ?case using Cons.IH [of _ "result @ [x]"] Cons.IH [of _ "[x]"] Cons.IH [of seen result] by simp
qed simp

lemma uniqBy_loop_Cons:
  "fn x \<notin> seen \<Longrightarrow> uniqBy_loop fn seen [] (x # xs) = x # uniqBy_loop fn (insert (fn x) seen) [] xs"
  "fn x \<in> seen \<Longrightarrow> uniqBy_loop fn seen [] (x # xs) = uniqBy_loop fn seen [] xs"
  using uniqBy_loop_append [of fn "insert (fn x) seen" "[x]" xs] by simp_all

text \<open>\<open>UniqBy\<close> keeps the first element of every key, in order.\<close>

lemma uniqBy_loop_first:
  "uniqBy_loop fn seen [] xs =
     map (\<lambda>i. xs ! i) (filter (\<lambda>i. fn (xs ! i) \<notin> seen \<union> fn ` set (take i xs)) [0..<length xs])"
proof (induction xs arbitrary: seen)
  case (Cons x xs)
  have shift: "[0..<length (x # xs)] = 0 # map Suc [0..<length xs]"
    by (simp add: map_Suc_upt upt_conv_Cons del: upt_Suc)
  show ?case
  proof (cases "fn x \<in> seen")
    case True
    then have "(fn y \<notin> seen \<and> fn y \<noteq> fn x \<and> P) = (fn y \<notin> seen \<and> P)" for y P by auto
    with True Cons.IH [of seen] show ?thesis
      unfolding shift by (simp add: filter_map comp_def)
  next
    case False
    have "(fn y \<notin> seen \<and> fn y \<noteq> fn x \<and> P) = (fn y \<noteq> fn x \<and> fn y \<notin> seen \<and> P)" for y P by auto
    with False Cons.IH [of "insert (fn x) seen"] show ?thesis
      unfolding shift uniqBy_loop_Cons(1) [of fn, OF False] by (simp add: filter_map comp_def)
  qed
qed simp

lemma UniqBy_first:
  "UniqBy fn xs = map (\<lambda>i. xs ! i) (filter (\<lambda>i. fn (xs ! i) \<notin> fn ` set (take i xs)) [0..<length xs])"
  by (simp add: UniqBy_def uniqBy_loop_first)

lemma uniqBy_loop_keys:
  "distinct (map fn (uniqBy_loop fn seen [] xs)) \<and>
   fn ` set (uniqBy_loop fn seen [] xs) = fn ` set xs - seen"
proof (induction xs arbitrary: seen)
  case (Cons x xs)
  show ?case
  proof (cases "fn x \<in> seen")
    case True
    with Cons.IH [of seen] show ?thesis by auto
  next
    case False
    with Cons.IH [of "insert (fn x) seen"] show ?thesis
      unfolding uniqBy_loop_Cons(1) [of fn, OF False] by auto
  qed
qed simp

lemma UniqBy_keys:
  "distinct (map fn (UniqBy fn xs))" "fn ` set (UniqBy fn xs) = fn ` set xs"
  using uniqBy_loop_keys [of fn "{}" xs] by (simp_all add: UniqBy_def)

lemma uniq_loop_uniqBy: "uniq_loop seen result xs = uniqBy_loop (\<lambda>x. x) seen result xs"
  by (induction xs arbitrary: seen result) simp_all

lemma Uniq_slice_set: "distinct (Uniq_slice xs)" "set (Uniq_slice xs) = set xs"
  using UniqBy_keys [of "\<lambda>x. x" xs] by (simp_all add: Uniq_slice_def uniq_loop_uniqBy UniqBy_def)

lemma All_slice_iff: "All_slice xs target \<longleftrightarrow> (\<forall>x \<in> set xs. x = target)"
  by (induction xs) auto

text \<open>\<open>MaxOf\<close> never goes below zero, also when every value is negative.\<close>

lemma MaxOf_Max: "MaxOf fn xs = Max (insert 0 (fn ` set xs))"
proof -
  have "maxOf_loop fn m xs = fold max (map fn xs) m" for m
    by (induction xs arbitrary: m) (simp_all add: max_def)
  then show ?thesis using Max.set_eq_fold [of 0 "map fn xs"] by (simp add: MaxOf_def)
qed

lemma strictlyEqual_loop_iff: "strictlyEqual_loop is a b \<longleftrightarrow> (\<forall>i \<in> set is. a ! i = b ! i)"
  by (induction "is") auto

lemma AreStrictlyEqual_iff: "AreStrictlyEqual a b \<longleftrightarrow> a = b"
  by (auto simp: AreStrictlyEqual_def strictlyEqual_loop_iff intro: nth_equalityI)

lemma AreUnorderedEqual_iff: "AreUnorderedEqual a b \<longleftrightarrow> mset a = mset b"
proof
  assume "AreUnorderedEqual a b"
  then show "mset a = mset b" by (metis AreUnorderedEqual_def mset_sort)
next
  assume "mset a = mset b"
  then show "AreUnorderedEqual a b"
    using mset_eq_length [of a b] by (simp add: AreUnorderedEqual_def properties_for_sort)
qed

lemma fold_insert_set: "fold insert xs A = set xs \<union> A"
  by (induction xs arbitrary: A) auto

lemma AreSetEqual_iff: "AreSetEqual a b \<longleftrightarrow> set a = set b"
  by (auto simp: AreSetEqual_def fold_insert_set Let_def)

lemma Map_slice_map: "Map_slice xs fn = map fn xs"
proof -
  have "map_loop fn result xs = result @ map fn xs" for result
    by (induction xs arbitrary: result) simp_all
  then show ?thesis by (simp add: Map_slice_def)
qed

text \<open>The last element with a key gives its value.\<close>

lemma ToMap_loop_eq:
  "ToMap_loop kf vf m xs k =
     (case filter (\<lambda>x. kf x = k) xs of [] \<Rightarrow> m k | ys \<Rightarrow> Some (vf (last ys)))"
  by (induction xs arbitrary: m) (auto split: list.splits)

lemma ToMap_last:
  "ToMap xs kf vf k = (case filter (\<lambda>x. kf x = k) xs of [] \<Rightarrow> None | ys \<Rightarrow> Some (vf (last ys)))"
  by (simp add: ToMap_def ToMap_loop_eq)

lemma KeyBy_last:
  "KeyBy xs kf k = (case filter (\<lambda>x. kf x = k) xs of [] \<Rightarrow> None | ys \<Rightarrow> Some (last ys))"
  by (simp add: KeyBy_def ToMap_loop_eq)

text \<open>Every group holds the elements of its key in their original order; only keys that occur have one.\<close>

lemma groupBy_loop_eq:
  "groupBy_loop kf m xs k =
     (case filter (\<lambda>x. kf x = k) xs of
        [] \<Rightarrow> m k
      | ys \<Rightarrow> Some ((case m k of None \<Rightarrow> [] | Some zs \<Rightarrow> zs) @ ys))"
  by (induction xs arbitrary: m) (auto split: list.splits option.splits)

lemma GroupBy_filter:
  "GroupBy xs kf k = (case filter (\<lambda>x. kf x = k) xs of [] \<Rightarrow> None | ys \<Rightarrow> Some ys)"
  by (simp add: GroupBy_def groupBy_loop_eq split: list.splits)

lemma dom_GroupBy: "dom (GroupBy xs kf) = kf ` set xs"
  by (auto simp: GroupBy_filter dom_def filter_empty_conv split: list.splits)


lemma GroupBy_Some: "GroupBy xs kf k = Some ys \<longleftrightarrow> ys = filter (\<lambda>x. kf x = k) xs \<and> ys \<noteq> []"
  by (auto simp: GroupBy_filter split: list.splits)

lemma ToSet_image: "ToSet xs kf = kf ` set xs"
proof -
  have "fold (\<lambda>x s. insert (kf x) s) xs A = kf ` set xs \<union> A" for A
    by (induction xs arbitrary: A) auto
  then show ?thesis by (simp add: ToSet_def)
qed

lemma Filter_slice_filter: "Filter_slice xs p = filter p xs"
proof -
  have "filter_loop p result xs = result @ filter p xs" for result
    by (induction xs arbitrary: result) simp_all
  then show ?thesis by (simp add: Filter_slice_def)
qed

lemma FlatMap_concat: "FlatMap xs fn = concat (map fn xs)"
proof -
  have "flatMap_loop fn result xs = result @ concat (map fn xs)" for result
    by (induction xs arbitrary: result) simp_all
  then show ?thesis by (simp add: FlatMap_def)
qed

end
