(* ===== verification/Strategy.thy ===== *)
theory Strategy
  imports Decide Enumerables
begin

text \<open>
  The in-memory concurrency strategy (\<open>src/pkg/scheduling/v1/concurrency/strategy.go\<close>): the
  sub-queues of all keys of one strategy, the batch pipeline that replays the messages of the
  outbox topic into them, and the undo of a batch whose transaction fails.

  Every pointer to a sub-queue that the source keeps (\<open>openScopes\<close>, the \<open>touched\<close> slice) is held
  by the map under its own key for as long as it is kept, because a sub-queue leaves the map only
  in \<open>pruneEmpty\<close>, after its scope was finalised. The model keeps the key instead.

  The order in which Go iterates over a map and the order in which the goroutines of a batch
  append their results are the lists \<open>mapOrder\<close> and \<open>finishOrder\<close> of the batch. The database,
  the outbox and the payload decoder are not part of the sources: what one call of them does is a
  parameter of the operation (\<open>dbCall\<close>, \<open>outboxCall\<close>, \<open>unmarshal\<close>). The rows of a database result
  are opaque, so they are the type variables \<open>'q\<close> and \<open>'c\<close>.
\<close>

section \<open>Model\<close>

record stepConcurrency =
  StrategyID :: int
  TenantID :: string
  StrategyKind :: V1ConcurrencyStrategy
  MaxConcurrency :: int

record taskRef =
  refId :: int
  refInsertedAt :: int
  refRetryCount :: int

record cancelledSlotInput =
  inputTask :: taskRef
  inputReason :: string

record ('q, 'c) runConcurrencyResult =
  resQueued :: "'q list"
  resCancelled :: "'c list"
  resNextStrategies :: "int list"

record ('q, 'c) concurrencyStrategy =
  subQueues :: "string \<Rightarrow> subQueue option"
  resident :: residentSize
  strategy :: stepConcurrency
  stratCompare :: "slot \<Rightarrow> slot \<Rightarrow> int"
  built :: bool
  pending :: "('q, 'c) runConcurrencyResult list"
  openScopes :: "string list"
  initialQueued :: bool

record schedule =
  mapOrder :: "string list"
  finishOrder :: "string list"
  batchNowMs :: int

type_synonym ('e, 'q, 'c) dbCall =
  "string \<Rightarrow> int \<Rightarrow> taskRef list \<Rightarrow> cancelledSlotInput list \<Rightarrow> 'e + ('q, 'c) runConcurrencyResult"

datatype 'e strategyError =
    IndexStillBuilding
  | InitialQueueingFailed 'e
  | UnmarshalFailed
  | FlushFailed 'e
  | OutboxFailed "'e strategyError option"

definition NewConcurrencyStrategy :: "stepConcurrency \<Rightarrow> ('q, 'c) concurrencyStrategy" where
  "NewConcurrencyStrategy s =
     \<lparr>subQueues = (\<lambda>_. None), resident = emptySize, strategy = s,
      stratCompare = comparatorForStrategy (StrategyKind s), built = False, pending = [],
      openScopes = [], initialQueued = False\<rparr>"

fun scope_loop ::
  "(subQueue \<Rightarrow> residentSize \<times> subQueue) \<Rightarrow> string list \<Rightarrow>
    residentSize \<times> (string \<Rightarrow> subQueue option) \<Rightarrow> residentSize \<times> (string \<Rightarrow> subQueue option)" where
  "scope_loop fin [] st = st"
| "scope_loop fin (k # ks) (delta, m) =
     (case m k of
        None \<Rightarrow> scope_loop fin ks (delta, m)
      | Some sq \<Rightarrow> (case fin sq of (d, sq') \<Rightarrow> scope_loop fin ks (size_plus delta d, m(k := Some sq'))))"

definition strategy_commit ::
  "string list \<Rightarrow> ('q, 'c) concurrencyStrategy \<Rightarrow> ('q, 'c) concurrencyStrategy" where
  "strategy_commit ks c =
     (case scope_loop sub_commit ks (emptySize, subQueues c) of
        (delta, m) \<Rightarrow> c\<lparr>subQueues := m, resident := size_plus (resident c) delta\<rparr>)"

definition strategy_rollback ::
  "string list \<Rightarrow> ('q, 'c) concurrencyStrategy \<Rightarrow> ('q, 'c) concurrencyStrategy" where
  "strategy_rollback ks c =
     (case scope_loop sub_rollback ks (emptySize, subQueues c) of
        (delta, m) \<Rightarrow> c\<lparr>subQueues := m, resident := size_plus (resident c) delta\<rparr>)"

definition commitScopes ::
  "('q, 'c) concurrencyStrategy \<Rightarrow> string list \<times> ('q, 'c) concurrencyStrategy" where
  "commitScopes c = (openScopes c, (strategy_commit (openScopes c) c)\<lparr>openScopes := []\<rparr>)"

definition rollbackScopes :: "('q, 'c) concurrencyStrategy \<Rightarrow> ('q, 'c) concurrencyStrategy" where
  "rollbackScopes c = (strategy_rollback (openScopes c) c)\<lparr>openScopes := []\<rparr>"

definition appendPending ::
  "('q, 'c) runConcurrencyResult \<Rightarrow> ('q, 'c) concurrencyStrategy \<Rightarrow> ('q, 'c) concurrencyStrategy" where
  "appendPending res c = c\<lparr>pending := pending c @ [res]\<rparr>"

definition takePending ::
  "('q, 'c) concurrencyStrategy \<Rightarrow> ('q, 'c) runConcurrencyResult list \<times> ('q, 'c) concurrencyStrategy" where
  "takePending c = (pending c, c\<lparr>pending := []\<rparr>)"

definition getOrCreateSubQueue ::
  "string \<Rightarrow> ('q, 'c) concurrencyStrategy \<Rightarrow> subQueue \<times> ('q, 'c) concurrencyStrategy" where
  "getOrCreateSubQueue k c =
     (case subQueues c k of
        Some sq \<Rightarrow> (sq, c)
      | None \<Rightarrow>
          (let sq = newSubQueue k (MaxConcurrency (strategy c)) (stratCompare c)
           in (sq, c\<lparr>subQueues := (subQueues c)(k := Some sq)\<rparr>)))"

definition groupMessagesBySubQueue :: "walMessage list \<Rightarrow> string \<Rightarrow> walMessage list option" where
  "groupMessagesBySubQueue msgs = GroupBy msgs msgKey"

definition taskRef_of :: "slot \<Rightarrow> taskRef" where
  "taskRef_of s =
     \<lparr>refId = taskId s, refInsertedAt = taskInsertedAtNs s, refRetryCount = taskRetryCount s\<rparr>"

definition buildSlotInputs ::
  "slot list \<Rightarrow> slot list \<Rightarrow> slot list \<Rightarrow> taskRef list \<times> cancelledSlotInput list" where
  "buildSlotInputs slotsToSetFilled slotsToDelete slotsToTimeout =
     (map taskRef_of slotsToSetFilled,
      map (\<lambda>s. \<lparr>inputTask = taskRef_of s, inputReason = ''CONCURRENCY_LIMIT''\<rparr>) slotsToDelete @
      map (\<lambda>s. \<lparr>inputTask = taskRef_of s, inputReason = ''SCHEDULING_TIMED_OUT''\<rparr>) slotsToTimeout)"

definition mergeResults ::
  "('q, 'c) runConcurrencyResult option list \<Rightarrow> ('q, 'c) runConcurrencyResult" where
  "mergeResults results =
     fold (\<lambda>res merged.
             case res of
               None \<Rightarrow> merged
             | Some r \<Rightarrow>
                 \<lparr>resQueued = resQueued merged @ resQueued r,
                  resCancelled = resCancelled merged @ resCancelled r,
                  resNextStrategies = resNextStrategies merged @ resNextStrategies r\<rparr>)
       results \<lparr>resQueued = [], resCancelled = [], resNextStrategies = []\<rparr>"

text \<open>The body of one goroutine of \<open>decideSubQueues\<close>.\<close>

definition decideSubQueue ::
  "int \<Rightarrow> decideFn \<Rightarrow> walMessage list \<Rightarrow> subQueue \<Rightarrow>
    (slot list \<times> slot list \<times> slot list \<times> subQueue) option" where
  "decideSubQueue nowMs decideF msgs sq =
     (case applyWAL msgs sq of (superseded, sq1) \<Rightarrow>
      case popTimedOutQueued nowMs sq1 of (timedOut, sq2) \<Rightarrow>
      case decideF sq2 of
        None \<Rightarrow> None
      | Some (toFill, toCancel, sq3) \<Rightarrow> Some (toFill, superseded @ toCancel, timedOut, sq3))"

fun open_loop :: "string list \<Rightarrow> ('q, 'c) concurrencyStrategy \<Rightarrow> ('q, 'c) concurrencyStrategy" where
  "open_loop [] c = c"
| "open_loop (k # ks) c =
     (case getOrCreateSubQueue k c of
        (sq, c1) \<Rightarrow> open_loop ks (c1\<lparr>subQueues := (subQueues c1)(k := Some (sub_begin sq))\<rparr>))"

fun goroutine_loop ::
  "(string \<Rightarrow> walMessage list option) \<Rightarrow> int \<Rightarrow> decideFn \<Rightarrow> string list \<Rightarrow>
    slot list \<times> slot list \<times> slot list \<times> (string \<Rightarrow> subQueue option) \<Rightarrow>
    (slot list \<times> slot list \<times> slot list \<times> (string \<Rightarrow> subQueue option)) option" where
  "goroutine_loop grouped nowMs decideF [] st = Some st"
| "goroutine_loop grouped nowMs decideF (k # ks) (fill, del, tmo, m) =
     (case m k of
        None \<Rightarrow> goroutine_loop grouped nowMs decideF ks (fill, del, tmo, m)
      | Some sq \<Rightarrow>
          (case decideSubQueue nowMs decideF (case grouped k of None \<Rightarrow> [] | Some msgs \<Rightarrow> msgs) sq of
             None \<Rightarrow> None
           | Some (f, d, t, sq') \<Rightarrow>
               goroutine_loop grouped nowMs decideF ks (fill @ f, del @ d, tmo @ t, m(k := Some sq'))))"

definition decideSubQueues ::
  "schedule \<Rightarrow> (string \<Rightarrow> walMessage list option) \<Rightarrow> decideFn \<Rightarrow> ('q, 'c) concurrencyStrategy \<Rightarrow>
    (string list \<times> slot list \<times> slot list \<times> slot list \<times> ('q, 'c) concurrencyStrategy) option" where
  "decideSubQueues sch grouped decideF c =
     (let c1 = open_loop (mapOrder sch) c
      in case goroutine_loop grouped (batchNowMs sch) decideF (finishOrder sch) ([], [], [], subQueues c1) of
           None \<Rightarrow> None
         | Some (fill, del, tmo, m) \<Rightarrow> Some (mapOrder sch, fill, del, tmo, c1\<lparr>subQueues := m\<rparr>))"

definition flushToDatabase ::
  "('e, 'q, 'c) dbCall \<Rightarrow> slot list \<Rightarrow> slot list \<Rightarrow> slot list \<Rightarrow> ('q, 'c) concurrencyStrategy \<Rightarrow>
    'e + ('q, 'c) runConcurrencyResult" where
  "flushToDatabase db fill del tmo c =
     (case buildSlotInputs fill del tmo of
        (tasksToSetFilled, cancelledSlots) \<Rightarrow>
          db (TenantID (strategy c)) (StrategyID (strategy c)) tasksToSetFilled cancelledSlots)"

definition processStrategy ::
  "schedule \<Rightarrow> ('e, 'q, 'c) dbCall \<Rightarrow> walMessage list \<Rightarrow> decideFn \<Rightarrow> ('q, 'c) concurrencyStrategy \<Rightarrow>
    (('e + ('q, 'c) runConcurrencyResult) \<times> ('q, 'c) concurrencyStrategy) option" where
  "processStrategy sch db msgs decideF c =
     (case decideSubQueues sch (groupMessagesBySubQueue msgs) decideF c of
        None \<Rightarrow> None
      | Some (touched, fill, del, tmo, c1) \<Rightarrow>
          (let c2 = c1\<lparr>openScopes := touched\<rparr> in Some (flushToDatabase db fill del tmo c2, c2)))"

definition processWALMessages ::
  "schedule \<Rightarrow> ('e, 'q, 'c) dbCall \<Rightarrow> walMessage list \<Rightarrow> ('q, 'c) concurrencyStrategy \<Rightarrow>
    (('e + ('q, 'c) runConcurrencyResult) \<times> ('q, 'c) concurrencyStrategy) option" where
  "processWALMessages sch db msgs c =
     (case decide (StrategyKind (strategy c)) of
        None \<Rightarrow> None
      | Some decideF \<Rightarrow> processStrategy sch db msgs decideF c)"

fun unmarshal_loop :: "('p \<Rightarrow> walMessage option) \<Rightarrow> 'p list \<Rightarrow> walMessage list option" where
  "unmarshal_loop unmarshal [] = Some []"
| "unmarshal_loop unmarshal (p # ps) =
     (case unmarshal p of
        None \<Rightarrow> None
      | Some m \<Rightarrow> map_option ((#) m) (unmarshal_loop unmarshal ps))"

definition Flush ::
  "('p \<Rightarrow> walMessage option) \<Rightarrow> schedule \<Rightarrow> ('e, 'q, 'c) dbCall \<Rightarrow> 'p list \<Rightarrow> ('q, 'c) concurrencyStrategy \<Rightarrow>
    ('e strategyError option \<times> ('q, 'c) concurrencyStrategy) option" where
  "Flush unmarshal sch db msgs c =
     (case unmarshal_loop unmarshal msgs of
        None \<Rightarrow> Some (Some UnmarshalFailed, c)
      | Some wal \<Rightarrow>
          (case processWALMessages sch db wal c of
             None \<Rightarrow> None
           | Some (Inl e, c1) \<Rightarrow> Some (Some (FlushFailed e), c1)
           | Some (Inr res, c1) \<Rightarrow> Some (None, appendPending res c1)))"

definition pruneEmpty ::
  "string list \<Rightarrow> ('q, 'c) concurrencyStrategy \<Rightarrow> ('q, 'c) concurrencyStrategy" where
  "pruneEmpty candidates c =
     c\<lparr>subQueues :=
         fold (\<lambda>k m. case m k of
                       None \<Rightarrow> m
                     | Some sq \<Rightarrow>
                         if running_len (running sq) \<noteq> 0 \<or> index_len (queued sq) \<noteq> 0 then m
                         else m(k := None))
           candidates (subQueues c)\<rparr>"

definition queueAll_skips :: "subQueue \<Rightarrow> bool" where
  "queueAll_skips sq \<longleftrightarrow>
     index_len (queued sq) = 0 \<and> 0 < running_len (running sq) \<and> running_len (running sq) \<le> maxRuns sq"

definition queueAll_grouped :: "('q, 'c) concurrencyStrategy \<Rightarrow> string \<Rightarrow> walMessage list option" where
  "queueAll_grouped c k =
     (case subQueues c k of
        None \<Rightarrow> None
      | Some sq \<Rightarrow> if queueAll_skips sq then None else Some [])"

definition queueAllSubQueues ::
  "schedule \<Rightarrow> ('e, 'q, 'c) dbCall \<Rightarrow> ('q, 'c) concurrencyStrategy \<Rightarrow>
    (('e + ('q, 'c) runConcurrencyResult) \<times> ('q, 'c) concurrencyStrategy) option" where
  "queueAllSubQueues sch db c =
     (if mapOrder sch = []
      then Some (Inr \<lparr>resQueued = [], resCancelled = [], resNextStrategies = []\<rparr>, c)
      else case decide (StrategyKind (strategy c)) of
             None \<Rightarrow> None
           | Some decideF \<Rightarrow>
               (case decideSubQueues sch (queueAll_grouped c) decideF c of
                  None \<Rightarrow> None
                | Some (touched, fill, del, tmo, c1) \<Rightarrow>
                    (case flushToDatabase db fill del tmo c1 of
                       Inl e \<Rightarrow> Some (Inl e, strategy_rollback touched c1)
                     | Inr res \<Rightarrow> Some (Inr res, pruneEmpty touched (strategy_commit touched c1)))))"

definition runInitialQueueing ::
  "schedule \<Rightarrow> ('e, 'q, 'c) dbCall \<Rightarrow> ('q, 'c) concurrencyStrategy \<Rightarrow>
    (('e + ('q, 'c) runConcurrencyResult option) \<times> ('q, 'c) concurrencyStrategy) option" where
  "runInitialQueueing sch db c =
     (if initialQueued c then Some (Inr None, c)
      else case queueAllSubQueues sch db c of
             None \<Rightarrow> None
           | Some (Inl e, c1) \<Rightarrow> Some (Inl e, c1)
           | Some (Inr res, c1) \<Rightarrow> Some (Inr (Some res), c1\<lparr>initialQueued := True\<rparr>))"

text \<open>
  One call of the outbox: the messages it acquired, whether it called the flusher of the topic,
  what the flusher's database call answers, and whether the transaction (message delete and
  commit) succeeded. It returns an error exactly if the flusher or the transaction failed.
\<close>

record ('p, 'e, 'q, 'c) outboxCall =
  callPayloads :: "'p list"
  callFlushes :: bool
  callSchedule :: schedule
  callDb :: "('e, 'q, 'c) dbCall"
  callTxOk :: bool

definition processMessages ::
  "('p \<Rightarrow> walMessage option) \<Rightarrow> ('p, 'e, 'q, 'c) outboxCall \<Rightarrow> ('q, 'c) concurrencyStrategy \<Rightarrow>
    ('e strategyError option \<times> ('q, 'c) concurrencyStrategy) option" where
  "processMessages unmarshal call c =
     (case (if callFlushes call then Flush unmarshal (callSchedule call) (callDb call) (callPayloads call) c
            else Some (None, c)) of
        None \<Rightarrow> None
      | Some (Some e, c1) \<Rightarrow> Some (Some (OutboxFailed (Some e)), c1)
      | Some (None, c1) \<Rightarrow> Some (if callTxOk call then None else Some (OutboxFailed None), c1))"

fun run_loop ::
  "('p \<Rightarrow> walMessage option) \<Rightarrow> ('p, 'e, 'q, 'c) outboxCall list \<Rightarrow>
    ('q, 'c) runConcurrencyResult option list \<Rightarrow> ('q, 'c) concurrencyStrategy \<Rightarrow>
    (('q, 'c) runConcurrencyResult \<times> 'e strategyError option \<times> ('q, 'c) concurrencyStrategy) option" where
  "run_loop unmarshal [] committed c = None"
| "run_loop unmarshal (call # calls) committed c =
     (case processMessages unmarshal call c of
        None \<Rightarrow> None
      | Some (Some e, c1) \<Rightarrow>
          Some (mergeResults committed, Some e, rollbackScopes (snd (takePending c1)))
      | Some (None, c1) \<Rightarrow>
          (case takePending c1 of (res, c2) \<Rightarrow>
           case commitScopes c2 of (ks, c3) \<Rightarrow>
           let c4 = pruneEmpty ks c3; committed' = committed @ map Some res
           in if callPayloads call = [] then Some (mergeResults committed', None, c4)
              else run_loop unmarshal calls committed' c4))"

definition Run ::
  "('p \<Rightarrow> walMessage option) \<Rightarrow> schedule \<Rightarrow> ('e, 'q, 'c) dbCall \<Rightarrow> ('p, 'e, 'q, 'c) outboxCall list \<Rightarrow>
    ('q, 'c) concurrencyStrategy \<Rightarrow>
    (('q, 'c) runConcurrencyResult option \<times> 'e strategyError option \<times> ('q, 'c) concurrencyStrategy) option" where
  "Run unmarshal sch db calls c =
     (if \<not> built c then Some (None, Some IndexStillBuilding, c)
      else case runInitialQueueing sch db (snd (takePending c)) of
             None \<Rightarrow> None
           | Some (Inl e, c1) \<Rightarrow> Some (None, Some (InitialQueueingFailed e), c1)
           | Some (Inr res, c1) \<Rightarrow>
               map_option (\<lambda>(merged, err, c2). (Some merged, err, c2)) (run_loop unmarshal calls [res] c1))"

record indexRow =
  rowKey :: string
  rowSlot :: slot
  rowIsFilled :: bool
  rowMaxRuns :: "int option"

definition buildRow :: "indexRow \<Rightarrow> ('q, 'c) concurrencyStrategy \<Rightarrow> ('q, 'c) concurrencyStrategy" where
  "buildRow row c =
     (case getOrCreateSubQueue (rowKey row) c of
        (sq, c1) \<Rightarrow>
          (let sq1 = (case rowMaxRuns row of
                        None \<Rightarrow> sq
                      | Some n \<Rightarrow> observeMaxRuns n (taskInsertedAtNs (rowSlot row)) sq);
               sq2 = (if rowIsFilled row then addRunning (rowSlot row) sq1 else enqueue (rowSlot row) sq1)
           in c1\<lparr>subQueues := (subQueues c1)(rowKey row := Some sq2),
                 resident := size_plus (resident c1) (size_minus (sub_size sq2) (sub_size sq))\<rparr>))"

definition buildIndex ::
  "bool \<Rightarrow> bool \<Rightarrow> indexRow list \<Rightarrow> ('q, 'c) concurrencyStrategy \<Rightarrow> bool \<times> ('q, 'c) concurrencyStrategy" where
  "buildIndex acquired readOk rows c =
     (if \<not> acquired then (False, c) else (readOk, fold buildRow rows c))"

fun buildIndexLoop ::
  "(bool \<times> bool \<times> indexRow list) list \<Rightarrow> ('q, 'c) concurrencyStrategy \<Rightarrow> ('q, 'c) concurrencyStrategy" where
  "buildIndexLoop [] c = c"
| "buildIndexLoop ((acquired, readOk, rows) # attempts) c =
     (case buildIndex acquired readOk rows c of
        (ok, c1) \<Rightarrow> if ok then c1\<lparr>built := True\<rparr> else buildIndexLoop attempts c1)"

definition updateLimit :: "int \<Rightarrow> subQueue \<Rightarrow> subQueue" where
  "updateLimit n sq =
     (if maxRunsFrom sq = 0
      then sq\<lparr>maxRuns := n, undo := map_option (\<lambda>u. u\<lparr>undoMaxRuns := n\<rparr>) (undo sq)\<rparr>
      else sq)"

definition UpdateStrategy ::
  "stepConcurrency \<Rightarrow> ('q, 'c) concurrencyStrategy \<Rightarrow> ('q, 'c) concurrencyStrategy" where
  "UpdateStrategy next c =
     c\<lparr>strategy := next,
       subQueues := (\<lambda>k. map_option (updateLimit (MaxConcurrency next)) (subQueues c k)),
       initialQueued := False\<rparr>"

section \<open>Scopes of a batch\<close>

text \<open>
  \<open>start_of c k\<close> is the sub-queue a batch finds under \<open>k\<close>: the existing one or a new empty one.
\<close>

definition start_of :: "('q, 'c) concurrencyStrategy \<Rightarrow> string \<Rightarrow> subQueue" where
  "start_of c k = fst (getOrCreateSubQueue k c)"

definition size_fields :: "(residentSize \<Rightarrow> int) set" where
  "size_fields = {rsRunning, rsLargeRunning, rsQueued, rsQueuedKeys}"

lemma size_fields_arith:
  "f \<in> size_fields \<Longrightarrow> f (size_plus a b) = f a + f b"
  "f \<in> size_fields \<Longrightarrow> f (size_minus a b) = f a - f b"
  "f \<in> size_fields \<Longrightarrow> f emptySize = 0"
  by (auto simp: size_fields_def size_plus_def size_minus_def emptySize_def)

definition resident_ok :: "('q, 'c) concurrencyStrategy \<Rightarrow> bool" where
  "resident_ok c \<longleftrightarrow>
     (\<forall>f \<in> size_fields. f (resident c) = (\<Sum>k \<in> dom (subQueues c). f (sub_size (the (subQueues c k)))))"

text \<open>
  The invariant between batches. Beside the invariant of every sub-queue: no scope is open, an empty
  queued index was dropped, and the resident counts are the sums over all sub-queues.
\<close>

definition tidy :: "subQueue \<Rightarrow> bool" where
  "tidy sq \<longleftrightarrow> (queued sq = None \<longleftrightarrow> sq_queued sq = {#})"

definition strategy_inv :: "('q, 'c) concurrencyStrategy \<Rightarrow> bool" where
  "strategy_inv c \<longleftrightarrow>
     finite (dom (subQueues c)) \<and> openScopes c = [] \<and> running_order (stratCompare c) \<and>
     (\<forall>k sq. subQueues c k = Some sq \<longrightarrow> key sq = k \<and> sub_inv (stratCompare c) None sq \<and> tidy sq) \<and>
     resident_ok c"

text \<open>
  \<open>in_batch c\<^sub>0 ks c\<close>: \<open>c\<close> is a state inside the batch that started in \<open>c\<^sub>0\<close> and opened scopes on \<open>ks\<close>.
\<close>

definition in_batch ::
  "('q, 'c) concurrencyStrategy \<Rightarrow> string set \<Rightarrow> (string \<Rightarrow> subQueue option) \<Rightarrow> bool" where
  "in_batch c0 ks m \<longleftrightarrow>
     (\<forall>k \<in> ks. \<exists>sq. m k = Some sq \<and> sub_inv (stratCompare c0) (Some (start_of c0 k)) sq) \<and>
     (\<forall>k. k \<notin> ks \<longrightarrow> m k = subQueues c0 k)"

lemma start_of_cases:
  "subQueues c k = Some sq \<Longrightarrow> start_of c k = sq"
  "subQueues c k = None \<Longrightarrow> start_of c k = newSubQueue k (MaxConcurrency (strategy c)) (stratCompare c)"
  by (simp_all add: start_of_def getOrCreateSubQueue_def Let_def)

lemma start_of_inv:
  assumes "strategy_inv c"
  shows "sub_inv (stratCompare c) None (start_of c k)" "key (start_of c k) = k" "tidy (start_of c k)"
  using assms newSubQueue_inv
  by (cases "subQueues c k"; force simp: start_of_cases strategy_inv_def newSubQueue_def tidy_def)+

lemma sub_size_new: "sub_size (newSubQueue k n cmp) = emptySize"
  by (simp add: sub_size_def newSubQueue_def emptyRunning_def running_len_def emptySize_def)

lemma open_loop_frame:
  "resident (open_loop ks c) = resident c" "strategy (open_loop ks c) = strategy c"
  "stratCompare (open_loop ks c) = stratCompare c" "built (open_loop ks c) = built c"
  "pending (open_loop ks c) = pending c" "openScopes (open_loop ks c) = openScopes c"
  "initialQueued (open_loop ks c) = initialQueued c"
  by (induction ks arbitrary: c) (auto simp: getOrCreateSubQueue_def Let_def split: option.splits)

lemma open_loop_subQueues:
  "distinct ks \<Longrightarrow>
    subQueues (open_loop ks c) k = (if k \<in> set ks then Some (sub_begin (start_of c k)) else subQueues c k)"
proof (induction ks arbitrary: c)
  case (Cons a ks)
  obtain sq c1 where g: "getOrCreateSubQueue a c = (sq, c1)" by (cases "getOrCreateSubQueue a c")
  let ?c = "c1\<lparr>subQueues := (subQueues c1)(a := Some (sub_begin sq))\<rparr>"
  have c1: "\<And>b. b \<noteq> a \<Longrightarrow> subQueues c1 b = subQueues c b" "strategy c1 = strategy c" "stratCompare c1 = stratCompare c"
    using g by (auto simp: getOrCreateSubQueue_def Let_def split: option.splits)
  have "start_of ?c b = start_of c b" if "b \<noteq> a" for b
    using that c1 by (cases "subQueues c b") (simp_all add: start_of_cases)
  moreover have "sq = start_of c a" using g by (simp add: start_of_def)
  ultimately show ?case using Cons.IH [of ?c] Cons.prems g c1(1) by (cases "k = a") auto
qed simp

lemma open_loop_in_batch:
  assumes inv: "strategy_inv c" and "distinct ks"
  shows "in_batch c (set ks) (subQueues (open_loop ks c))"
proof -
  have "running_order (stratCompare c)" using inv by (simp add: strategy_inv_def)
  from running_order.sub_begin_inv(1) [OF this start_of_inv(1) [OF inv]] show ?thesis
    by (simp add: in_batch_def open_loop_subQueues assms(2))
qed

section \<open>The decision of one sub-queue\<close>

text \<open>A limit in the range that the API accepts; with it the capacity never overflows.\<close>

definition valid_limit :: "int \<Rightarrow> bool" where
  "valid_limit n \<longleftrightarrow> 0 \<le> n \<and> n < 2 ^ 31"

text \<open>
  \<open>splits_table nowMs T fill cancel tmo sq\<close>: the rows of \<open>T\<close> are dealt out to the running and queued
  slots of \<open>sq\<close>, the cancelled and the timed-out slots, each to exactly one of them.
\<close>

definition splits_table ::
  "int \<Rightarrow> slot_table \<Rightarrow> slot list \<Rightarrow> slot list \<Rightarrow> slot list \<Rightarrow> subQueue \<Rightarrow> bool" where
  "splits_table nowMs T fill cancel tmo sq \<longleftrightarrow>
     (\<forall>t. filter_mset (\<lambda>s. taskId s = t) (sq_running sq + sq_queued sq + mset cancel + mset tmo) =
        (case T t of None \<Rightarrow> {#} | Some (s, _) \<Rightarrow> {#s#})) \<and>
     (\<forall>s. s \<in> set tmo \<longleftrightarrow> T (taskId s) = Some (s, False) \<and> scheduleTimeoutAtMs s \<le> nowMs) \<and>
     (\<forall>s \<in> set fill. T (taskId s) = Some (s, False) \<and> s \<in># sq_running sq) \<and>
     (\<forall>s \<in># sq_running sq. s \<in> set fill \<or> T (taskId s) = Some (s, True)) \<and>
     int (size (sq_running sq)) \<le> max (int (card {t. \<exists>s. T t = Some (s, True)})) (maxRuns sq)"

context running_order
begin

lemma limit_okI: "sub_inv cmp S sq \<Longrightarrow> valid_limit (maxRuns sq) \<Longrightarrow> limit_ok sq"
  using running_keyed [OF sub_inv_running, of S sq]
  by (auto simp: limit_ok_def valid_limit_def running_len_contents keyed_def index_cap_def)

definition decision_ok :: "subQueue option \<Rightarrow> subQueue \<Rightarrow> slot list \<times> slot list \<times> subQueue \<Rightarrow> bool" where
  "decision_ok S sq r \<longleftrightarrow>
     (case r of (toFill, toCancel, sq') \<Rightarrow>
        sub_inv cmp S sq' \<and>
        sq_running sq' + sq_queued sq' + mset toCancel = sq_running sq + sq_queued sq \<and>
        mset toFill \<subseteq># sq_running sq' \<and> mset toFill \<subseteq># sq_queued sq \<and>
        sq_running sq' \<subseteq># mset toFill + sq_running sq \<and>
        int (size (sq_running sq')) \<le> max (int (size (sq_running sq))) (maxRuns sq) \<and>
        maxRuns sq' = maxRuns sq \<and> maxRunsFrom sq' = maxRunsFrom sq)"

lemma filled_ok:
  assumes "sub_inv cmp S sq'" "sq_running sq' = mset toFill + sq_running sq"
    "mset toFill + mset toCancel + sq_queued sq' = sq_queued sq"
    "length toFill = min (nat (maxRuns sq - int (size (sq_running sq)))) (size (sq_queued sq))"
    "maxRuns sq' = maxRuns sq" "maxRunsFrom sq' = maxRunsFrom sq"
  shows "decision_ok S sq (toFill, toCancel, sq')"
proof -
  have "sq_running sq' + sq_queued sq' + mset toCancel = sq_running sq + sq_queued sq"
    by (simp add: assms(2) assms(3) [symmetric] ac_simps)
  moreover have "mset toFill \<subseteq># sq_queued sq" "mset toFill \<subseteq># sq_running sq'"
    by (simp_all add: assms(2) assms(3) [symmetric])
  moreover have "int (size (sq_running sq')) \<le> max (int (size (sq_running sq))) (maxRuns sq)"
    using assms(4) by (simp add: assms(2))
  ultimately show ?thesis using assms(1,2,5,6) unfolding decision_ok_def prod.case by simp
qed

lemma decideGroupRoundRobin_decision:
  assumes "sub_inv cmp S sq" "limit_ok sq"
  shows "\<exists>r. decideGroupRoundRobin sq = Some r \<and> decision_ok S sq r"
proof -
  obtain f c sq' where d: "decideGroupRoundRobin sq = Some (f, c, sq')"
    by (cases "decideGroupRoundRobin sq") (auto simp: decideGroupRoundRobin_def split: prod.splits)
  note o = decideGroupRoundRobin_ok [OF assms d]
  have "decision_ok S sq (f, c, sq')"
    by (rule filled_ok [OF o(1,3) _ o(5,7,8)]) (use o in simp)
  with d show ?thesis by blast
qed

lemma decideCancelNewest_decision:
  assumes "sub_inv cmp S sq" "limit_ok sq"
  shows "\<exists>r. decideCancelNewest sq = Some r \<and> decision_ok S sq r"
proof -
  obtain f c sq' where d: "decideCancelNewest sq = Some (f, c, sq')"
    by (cases "decideCancelNewest sq") (auto simp: decideCancelNewest_def split: prod.splits)
  note o = decideCancelNewest_ok [OF assms d]
  have "decision_ok S sq (f, c, sq')"
    by (rule filled_ok [OF o(1,2) _ o(5,7,8)]) (use o in simp)
  with d show ?thesis by blast
qed

lemma decideCancelQueuedExceptNewest_decision:
  assumes "sub_inv cmp S sq" "limit_ok sq"
  shows "\<exists>r. decideCancelQueuedExceptNewest sq = Some r \<and> decision_ok S sq r"
proof -
  obtain f c sq' where d: "decideCancelQueuedExceptNewest sq = Some (f, c, sq')"
    by (cases "decideCancelQueuedExceptNewest sq") (auto simp: decideCancelQueuedExceptNewest_def split: prod.splits)
  note o = decideCancelQueuedExceptNewest_ok [OF assms d]
  have "decision_ok S sq (f, c, sq')" by (rule filled_ok [OF o(1-4,8,9)])
  with d show ?thesis by blast
qed

lemma decideCancelQueuedExceptOldest_decision:
  assumes "sub_inv cmp S sq" "limit_ok sq"
  shows "\<exists>r. decideCancelQueuedExceptOldest sq = Some r \<and> decision_ok S sq r"
proof -
  obtain f c sq' where d: "decideCancelQueuedExceptOldest sq = Some (f, c, sq')"
    by (cases "decideCancelQueuedExceptOldest sq")
      (auto simp: decideCancelQueuedExceptOldest_def Let_def split: prod.splits if_splits)
  have "decision_ok S sq (f, c, sq')"
    by (rule filled_ok) (use decideCancelQueuedExceptOldest_ok [OF assms d] in auto)
  with d show ?thesis by blast
qed

lemma decideCancelInProgress_decision:
  assumes "sub_inv cmp S sq"
  shows "\<exists>r. decideCancelInProgress sq = Some r \<and> decision_ok S sq r"
proof -
  obtain f c sq' where d: "decideCancelInProgress sq = Some (f, c, sq')"
    "merge_post cmp S (nat (maxRuns sq)) (sq_running sq) (sq_queued sq) f c sq'"
    "maxRuns sq' = maxRuns sq" "maxRunsFrom sq' = maxRunsFrom sq"
    using decideCancelInProgress_ok [OF assms] by blast
  obtain K where "sq_running sq' = mset f + K" "K \<subseteq># sq_running sq" using d(2) unfolding merge_post_def by blast
  then have "mset f \<subseteq># sq_running sq'" "sq_running sq' \<subseteq># mset f + sq_running sq" by simp_all
  moreover have "int (size (sq_running sq')) \<le> max (int (size (sq_running sq))) (maxRuns sq)"
    using d(2) unfolding merge_post_def by simp
  ultimately have "decision_ok S sq (f, c, sq')" using d unfolding merge_post_def decision_ok_def by simp
  with d(1) show ?thesis by blast
qed

text \<open>Every decision of a known strategy kind returns, keeps the invariant and loses no slot.\<close>

lemma decide_returns:
  assumes "decide kind = Some d" "sub_inv cmp S sq" "limit_ok sq"
  shows "\<exists>r. d sq = Some r \<and> decision_ok S sq r"
  using assms(1) decideGroupRoundRobin_decision [OF assms(2,3)] decideCancelNewest_decision [OF assms(2,3)]
    decideCancelQueuedExceptNewest_decision [OF assms(2,3)] decideCancelQueuedExceptOldest_decision [OF assms(2,3)]
    decideCancelInProgress_decision [OF assms(2)]
  by (cases kind) auto

lemma applyMessage_maxRuns:
  "maxRuns (snd (applyMessage msg sq)) \<in> {maxRuns sq} \<union> set_option (msgMaxRuns msg)"
  by (auto simp: applyMessage_def applyInsert_def applyUpdate_def applyDelete_def deleteQueued_def Let_def
      observeMaxRuns_def split: option.splits if_splits)

lemma applyWAL_maxRuns:
  "maxRuns (snd (applyWAL msgs sq)) \<in> {maxRuns sq} \<union> (\<Union>msg \<in> set msgs. set_option (msgMaxRuns msg))"
proof (induction msgs arbitrary: sq)
  case (Cons msg msgs)
  obtain xs sq1 where m: "applyMessage msg sq = (xs, sq1)" by (cases "applyMessage msg sq")
  have "snd (applyWAL (msg # msgs) sq) = snd (applyWAL msgs sq1)" by (simp add: m split: prod.splits)
  with Cons.IH [of sq1] applyMessage_maxRuns [of msg sq] m show ?case by auto
qed simp

lemma decideSubQueue_ok:
  assumes d: "decide kind = Some d" and inv: "sub_inv cmp S sq"
    and cap: "size (sq_running sq + sq_queued sq) + length msgs \<le> index_cap"
    and lim: "valid_limit (maxRuns sq)" "\<forall>msg \<in> set msgs. \<forall>n \<in> set_option (msgMaxRuns msg). valid_limit n"
  shows "\<exists>fill cancel tmo sq'. 
    decideSubQueue nowMs d msgs sq = Some (fill, fst (applyWAL msgs sq) @ cancel, tmo, sq') \<and>
    sub_inv cmp S sq' \<and>
    mset tmo = filter_mset (\<lambda>s. scheduleTimeoutAtMs s \<le> nowMs) (sq_queued (snd (applyWAL msgs sq))) \<and>
    sq_running sq' + sq_queued sq' + mset cancel + mset tmo =
      sq_running (snd (applyWAL msgs sq)) + sq_queued (snd (applyWAL msgs sq)) \<and>
    mset fill \<subseteq># sq_running sq' \<and> (\<forall>s \<in> set fill. nowMs < scheduleTimeoutAtMs s) \<and>
    mset fill \<subseteq># sq_queued (snd (applyWAL msgs sq)) \<and>
    sq_running sq' \<subseteq># mset fill + sq_running (snd (applyWAL msgs sq)) \<and>
    int (size (sq_running sq')) \<le> max (int (size (sq_running (snd (applyWAL msgs sq))))) (maxRuns sq') \<and>
    maxRuns sq' = maxRuns (snd (applyWAL msgs sq))"
proof -
  obtain sup sq1 where w: "applyWAL msgs sq = (sup, sq1)" by (cases "applyWAL msgs sq")
  have i1: "sub_inv cmp S sq1" using applyWAL_ok [OF inv cap] w by simp
  obtain tmo sq2 where t: "popTimedOutQueued nowMs sq1 = (tmo, sq2)" by (cases "popTimedOutQueued nowMs sq1")
  note p = popTimedOutQueued_inv [OF i1 t]
  have "maxRuns sq1 \<in> {maxRuns sq} \<union> (\<Union>msg \<in> set msgs. set_option (msgMaxRuns msg))"
    using applyWAL_maxRuns [of msgs sq] w by simp
  then have "valid_limit (maxRuns sq1)" using lim by auto
  then have "limit_ok sq2" using limit_okI [OF p(1)] p(5) by simp
  then obtain fill cancel sq3 where r: "d sq2 = Some (fill, cancel, sq3)" "decision_ok S sq2 (fill, cancel, sq3)"
    using decide_returns [OF d p(1)] by (metis prod_cases3)
  have split: "sq_queued sq2 + mset tmo = sq_queued sq1"
    unfolding p(2,3) by (simp add: multiset_partition [symmetric] union_commute)
  have fq: "mset fill \<subseteq># sq_queued sq2" using r(2) by (simp add: decision_ok_def)
  moreover have "sq_queued sq2 \<subseteq># sq_queued sq1" by (simp add: split [symmetric])
  ultimately have fq1: "mset fill \<subseteq># sq_queued sq1" by (rule subset_mset.order_trans)
  from fq have late: "\<forall>s \<in> set fill. nowMs < scheduleTimeoutAtMs s"
    using p(3) by (auto dest!: mset_subset_eqD simp: not_le)
  have cons: "sq_running sq3 + sq_queued sq3 + mset cancel + mset tmo = sq_running sq1 + sq_queued sq1"
    using r(2) split p(4) by (simp add: decision_ok_def union_assoc)
  show ?thesis
    by (intro exI [of _ fill] exI [of _ cancel] exI [of _ tmo] exI [of _ sq3])
      (use w t r late p cons fq1 in \<open>simp add: decideSubQueue_def decision_ok_def\<close>)
qed

text \<open>The slots of a key against its table: every row is one slot, every slot has its row.\<close>

lemma task_table_slots:
  assumes inv: "sub_inv cmp S sq"
  shows "filter_mset (\<lambda>s. taskId s = t) (sq_running sq + sq_queued sq) =
      (case task_table sq t of None \<Rightarrow> {#} | Some (s, _) \<Rightarrow> {#s#})" (is ?slots)
    and "size (sq_running sq) = card {t. \<exists>s. task_table sq t = Some (s, True)}" (is ?count)
proof -
  let ?M = "sq_running sq + sq_queued sq"
  note T = task_table_Some [OF inv]
  have k: "keyed taskId index_cap ?M" by (rule sub_inv_keyed [OF inv])
  show ?slots
  proof (cases "task_table sq t")
    case None
    then show ?thesis using task_table_None [OF inv, of t] by (auto intro!: filter_mset_eq_conv [THEN iffD2])
  next
    case (Some p)
    obtain s b where p: "p = (s, b)" by (cases p)
    then have s: "s \<in># ?M" "taskId s = t" using T [of t s b] Some by (auto split: if_splits)
    obtain N where N: "?M = add_mset s N" using multi_member_split [OF s(1)] by blast
    have "taskId x \<noteq> t" if "x \<in># N" for x using k that s(2) unfolding N keyed_add_mset by (metis imageI)
    then have "filter_mset (\<lambda>s. taskId s = t) N = {#}" by (auto simp: filter_mset_eq_conv)
    then show ?thesis using Some p s(2) by (simp only: N) simp
  qed
  have "keyed taskId index_cap (sq_running sq)" by (rule running_keyed [OF sub_inv_running [OF inv]])
  then have "\<forall>t. count (image_mset taskId (sq_running sq)) t \<le> 1" by (simp add: keyed_def)
  then have "size (image_mset taskId (sq_running sq)) = card (set_mset (image_mset taskId (sq_running sq)))"
    unfolding size_multiset_overloaded_eq card_eq_sum
    by (intro sum.cong) (simp_all add: le_antisym Suc_le_eq)
  moreover have "set_mset (image_mset taskId (sq_running sq)) = {t. \<exists>s. task_table sq t = Some (s, True)}"
    using T by auto
  ultimately show ?count by simp
qed

lemma decideSubQueue_splits:
  assumes "decide kind = Some d" "sub_inv cmp S sq"
    "size (sq_running sq + sq_queued sq) + length msgs \<le> index_cap"
    "valid_limit (maxRuns sq)" "\<forall>msg \<in> set msgs. \<forall>n \<in> set_option (msgMaxRuns msg). valid_limit n"
    "wal_replay msgs (task_table sq) = (superseded, T)"
  shows "\<exists>fill cancel tmo sq'. decideSubQueue nowMs d msgs sq = Some (fill, superseded @ cancel, tmo, sq') \<and>
    splits_table nowMs T fill cancel tmo sq'"
proof -
  obtain sup sq1 where w: "applyWAL msgs sq = (sup, sq1)" by (cases "applyWAL msgs sq")
  have i1: "sub_inv cmp S sq1" and T: "sup = superseded" "task_table sq1 = T"
    using applyWAL_ok [OF assms(2,3)] w assms(6) by simp_all
  obtain fill cancel tmo sq' where r: "decideSubQueue nowMs d msgs sq = Some (fill, superseded @ cancel, tmo, sq')"
    "mset tmo = filter_mset (\<lambda>s. scheduleTimeoutAtMs s \<le> nowMs) (sq_queued sq1)"
    "sq_running sq' + sq_queued sq' + mset cancel + mset tmo = sq_running sq1 + sq_queued sq1"
    "mset fill \<subseteq># sq_running sq'" "mset fill \<subseteq># sq_queued sq1" "sq_running sq' \<subseteq># mset fill + sq_running sq1"
    "int (size (sq_running sq')) \<le> max (int (size (sq_running sq1))) (maxRuns sq')"
    using decideSubQueue_ok [OF assms(1-5), of nowMs] w T(1) by auto
  note row = task_table_Some [OF i1, unfolded T]
  have "s \<in> set tmo \<longleftrightarrow> T (taskId s) = Some (s, False) \<and> scheduleTimeoutAtMs s \<le> nowMs" for s
    using arg_cong [OF r(2), of set_mset] row [of "taskId s" s False] by auto
  moreover have "T (taskId s) = Some (s, False) \<and> s \<in># sq_running sq'" if "s \<in> set fill" for s
    using that mset_subset_eqD [OF r(4), of s] mset_subset_eqD [OF r(5), of s] row [of "taskId s" s False] by simp
  moreover have "s \<in> set fill \<or> T (taskId s) = Some (s, True)" if "s \<in># sq_running sq'" for s
    using mset_subset_eqD [OF r(6) that] row [of "taskId s" s True] by simp
  ultimately have "splits_table nowMs T fill cancel tmo sq'"
    unfolding splits_table_def r(3) using task_table_slots [OF i1, unfolded T] r(7) by simp
  with r(1) show ?thesis by blast
qed

end

section \<open>A whole batch\<close>

text \<open>
  The goroutines touch disjoint sub-queues, so the order in which they finish only orders the
  result lists.
\<close>

definition msgs_of :: "(string \<Rightarrow> walMessage list option) \<Rightarrow> string \<Rightarrow> walMessage list" where
  "msgs_of grouped k = (case grouped k of None \<Rightarrow> [] | Some msgs \<Rightarrow> msgs)"

lemma goroutine_loop_eq:
  assumes "distinct ks" "\<And>k. k \<in> set ks \<Longrightarrow> \<exists>sq. m k = Some sq \<and> decideSubQueue nowMs d (msgs_of grouped k) sq = Some (F k, D k, T k, Q k)"
  shows "goroutine_loop grouped nowMs d ks (fill, del, tmo, m) =
    Some (fill @ concat (map F ks), del @ concat (map D ks), tmo @ concat (map T ks),
          \<lambda>k. if k \<in> set ks then Some (Q k) else m k)"
  using assms
proof (induction ks arbitrary: fill del tmo m)
  case (Cons a ks)
  obtain sq where sq: "m a = Some sq" "decideSubQueue nowMs d (msgs_of grouped a) sq = Some (F a, D a, T a, Q a)"
    using Cons.prems(2) [of a] by auto
  define m1 where "m1 = m(a \<mapsto> Q a)"
  have "goroutine_loop grouped nowMs d ks (fill @ F a, del @ D a, tmo @ T a, m1) =
    Some ((fill @ F a) @ concat (map F ks), (del @ D a) @ concat (map D ks), (tmo @ T a) @ concat (map T ks),
          \<lambda>k. if k \<in> set ks then Some (Q k) else m1 k)"
    by (rule Cons.IH) (use Cons.prems in \<open>auto simp: m1_def\<close>)
  moreover have "(\<lambda>k. if k \<in> set ks then Some (Q k) else m1 k) =
      (\<lambda>k. if k \<in> set (a # ks) then Some (Q k) else m k)" by (auto simp: fun_eq_iff m1_def)
  ultimately show ?case using sq by (simp add: msgs_of_def m1_def)
qed simp

text \<open>
  What a batch needs: \<open>mapOrder\<close> and \<open>finishOrder\<close> list the keys of the group, no key outgrows the
  index, and all limits are in range.
\<close>

definition batch_fits ::
  "schedule \<Rightarrow> (string \<Rightarrow> walMessage list option) \<Rightarrow> ('q, 'c) concurrencyStrategy \<Rightarrow> bool" where
  "batch_fits sch grouped c \<longleftrightarrow>
     distinct (mapOrder sch) \<and> distinct (finishOrder sch) \<and>
     set (mapOrder sch) = dom grouped \<and> set (finishOrder sch) = dom grouped \<and>
     (\<forall>k \<in> dom grouped.
        size (sq_running (start_of c k) + sq_queued (start_of c k)) + length (msgs_of grouped k) \<le> index_cap \<and>
        valid_limit (maxRuns (start_of c k)) \<and>
        (\<forall>msg \<in> set (msgs_of grouped k). \<forall>n \<in> set_option (msgMaxRuns msg). valid_limit n))"

lemma decideSubQueues_ok:
  assumes inv: "strategy_inv c" and d: "decide kind = Some d" and fits: "batch_fits sch grouped c"
  shows "\<exists>F D T Q. (\<forall>k \<in> dom grouped.
      decideSubQueue (batchNowMs sch) d (msgs_of grouped k) (sub_begin (start_of c k)) = Some (F k, D k, T k, Q k) \<and>
      sub_inv (stratCompare c) (Some (start_of c k)) (Q k)) \<and>
    decideSubQueues sch grouped d c =
      Some (mapOrder sch, concat (map F (finishOrder sch)), concat (map D (finishOrder sch)),
        concat (map T (finishOrder sch)),
        (open_loop (mapOrder sch) c)\<lparr>subQueues := (\<lambda>k. if k \<in> dom grouped then Some (Q k) else subQueues c k)\<rparr>)"
proof -
  have ro: "running_order (stratCompare c)" using inv by (simp add: strategy_inv_def)
  let ?res = "\<lambda>k. decideSubQueue (batchNowMs sch) d (msgs_of grouped k) (sub_begin (start_of c k))"
  have each: "\<exists>f e t q. ?res k = Some (f, e, t, q) \<and> sub_inv (stratCompare c) (Some (start_of c k)) q"
    if k: "k \<in> dom grouped" for k
  proof -
    note b = running_order.sub_begin_inv [OF ro start_of_inv(1) [OF inv, of k]]
    have "maxRuns (sub_begin (start_of c k)) = maxRuns (start_of c k)" by (simp add: sub_begin_def)
    then show ?thesis
      using running_order.decideSubQueue_ok [OF ro d b(1), of "msgs_of grouped k" "batchNowMs sch"] fits k b(2,3)
      by (fastforce simp: batch_fits_def)
  qed
  then obtain F D T Q where r: "\<forall>k \<in> dom grouped. ?res k = Some (F k, D k, T k, Q k) \<and>
      sub_inv (stratCompare c) (Some (start_of c k)) (Q k)"
    by metis
  have o: "distinct (mapOrder sch)" "distinct (finishOrder sch)" "set (mapOrder sch) = dom grouped"
    "set (finishOrder sch) = dom grouped" using fits by (auto simp: batch_fits_def)
  have m: "subQueues (open_loop (mapOrder sch) c) k =
      (if k \<in> dom grouped then Some (sub_begin (start_of c k)) else subQueues c k)" for k
    by (simp only: open_loop_subQueues [OF o(1)] o(3))
  have "goroutine_loop grouped (batchNowMs sch) d (finishOrder sch) ([], [], [], subQueues (open_loop (mapOrder sch) c)) =
      Some ([] @ concat (map F (finishOrder sch)), [] @ concat (map D (finishOrder sch)),
        [] @ concat (map T (finishOrder sch)),
        \<lambda>k. if k \<in> set (finishOrder sch) then Some (Q k) else subQueues (open_loop (mapOrder sch) c) k)"
    by (rule goroutine_loop_eq [OF o(2)]) (use r o(4) m in auto)
  moreover have "(\<lambda>k. if k \<in> set (finishOrder sch) then Some (Q k) else subQueues (open_loop (mapOrder sch) c) k) =
      (\<lambda>k. if k \<in> dom grouped then Some (Q k) else subQueues c k)"
    by (simp only: o(4) m fun_eq_iff) simp
  ultimately have "decideSubQueues sch grouped d c =
      Some (mapOrder sch, concat (map F (finishOrder sch)), concat (map D (finishOrder sch)),
        concat (map T (finishOrder sch)),
        (open_loop (mapOrder sch) c)\<lparr>subQueues := (\<lambda>k. if k \<in> dom grouped then Some (Q k) else subQueues c k)\<rparr>)"
    by (simp only: decideSubQueues_def Let_def option.case prod.case append_Nil)
  with r show ?thesis by blast
qed

text \<open>A new scope on a sub-queue does not change its table.\<close>

lemma decideSubQueue_begun:
  assumes inv: "strategy_inv c" and d: "decide kind = Some d" and fits: "batch_fits sch grouped c"
    and k: "k \<in> dom grouped"
  shows "\<exists>fill cancel tmo sq'.
    decideSubQueue (batchNowMs sch) d (msgs_of grouped k) (sub_begin (start_of c k)) =
      Some (fill, fst (wal_replay (msgs_of grouped k) (task_table (start_of c k))) @ cancel, tmo, sq') \<and>
    splits_table (batchNowMs sch) (snd (wal_replay (msgs_of grouped k) (task_table (start_of c k)))) fill cancel tmo sq'"
proof -
  have ro: "running_order (stratCompare c)" using inv by (simp add: strategy_inv_def)
  note i = start_of_inv(1) [OF inv, of k]
  note b = running_order.sub_begin_inv [OF ro i]
  have T: "task_table (sub_begin (start_of c k)) = task_table (start_of c k)"
  proof (rule ext, rule option_eq_iff)
    fix t p
    show "task_table (sub_begin (start_of c k)) t = Some p \<longleftrightarrow> task_table (start_of c k) t = Some p"
      by (cases p) (simp add: running_order.task_table_Some [OF ro b(1)] running_order.task_table_Some [OF ro i] b(2,3))
  qed
  have "maxRuns (sub_begin (start_of c k)) = maxRuns (start_of c k)" by (simp add: sub_begin_def)
  with running_order.decideSubQueue_splits [OF ro d b(1), of "msgs_of grouped k"
      "fst (wal_replay (msgs_of grouped k) (task_table (start_of c k)))"
      "snd (wal_replay (msgs_of grouped k) (task_table (start_of c k)))" "batchNowMs sch"]
  show ?thesis using fits k b(2,3) by (simp add: T batch_fits_def)
qed

subsection \<open>Finalising the scopes\<close>

text \<open>\<open>fin\<close> ends the scope of a sub-queue and returns by how much its size changed.\<close>

lemma scope_loop_eq:
  assumes "distinct ks" "\<And>k. k \<in> set ks \<Longrightarrow> m k \<noteq> None"
  shows "snd (scope_loop fin ks (delta, m)) = (\<lambda>k. if k \<in> set ks then Some (snd (fin (the (m k)))) else m k)"
    "f \<in> size_fields \<Longrightarrow>
      f (fst (scope_loop fin ks (delta, m))) = f delta + (\<Sum>k \<in> set ks. f (fst (fin (the (m k)))))"
proof -
  have "snd (scope_loop fin ks (delta, m)) = (\<lambda>k. if k \<in> set ks then Some (snd (fin (the (m k)))) else m k) \<and>
    (f \<in> size_fields \<longrightarrow>
      f (fst (scope_loop fin ks (delta, m))) = f delta + (\<Sum>k \<in> set ks. f (fst (fin (the (m k))))))"
    using assms
  proof (induction ks arbitrary: delta m)
    case (Cons a ks)
    obtain sq where sq: "m a = Some sq" using Cons.prems(2) [of a] by auto
    obtain e sq' where f: "fin sq = (e, sq')" by (cases "fin sq")
    define m1 where "m1 = m(a \<mapsto> sq')"
    have IH: "snd (scope_loop fin ks (size_plus delta e, m1)) =
        (\<lambda>k. if k \<in> set ks then Some (snd (fin (the (m1 k)))) else m1 k) \<and>
      (f \<in> size_fields \<longrightarrow> f (fst (scope_loop fin ks (size_plus delta e, m1))) =
        f (size_plus delta e) + (\<Sum>k \<in> set ks. f (fst (fin (the (m1 k))))))"
      by (rule Cons.IH) (use Cons.prems in \<open>auto simp: m1_def\<close>)
    have "(\<Sum>k \<in> set ks. f (fst (fin (the (m1 k))))) = (\<Sum>k \<in> set ks. f (fst (fin (the (m k)))))"
      by (rule sum.cong) (use Cons.prems(1) in \<open>auto simp: m1_def\<close>)
    moreover have "(\<lambda>k. if k \<in> set ks then Some (snd (fin (the (m1 k)))) else m1 k) =
        (\<lambda>k. if k \<in> set (a # ks) then Some (snd (fin (the (m k)))) else m k)"
      using Cons.prems(1) sq f by (auto simp: fun_eq_iff m1_def)
    ultimately show ?case using IH Cons.prems(1) sq f
      by (simp add: size_fields_arith m1_def)
  qed simp
  then show "snd (scope_loop fin ks (delta, m)) = (\<lambda>k. if k \<in> set ks then Some (snd (fin (the (m k)))) else m k)"
    "f \<in> size_fields \<Longrightarrow>
      f (fst (scope_loop fin ks (delta, m))) = f delta + (\<Sum>k \<in> set ks. f (fst (fin (the (m k)))))" by auto
qed

text \<open>Finalising all scopes of a batch keeps the resident counts exact.\<close>

lemma resident_finish:
  assumes inv: "strategy_inv c0" and fin: "finite ks"
    and m: "\<And>k. k \<in> ks \<Longrightarrow> \<exists>sq. m k = Some sq \<and> f (E k) = f (sub_size sq) - f (sub_size (start_of c0 k))"
    and out: "\<And>k. k \<notin> ks \<Longrightarrow> m k = subQueues c0 k" and f: "f \<in> size_fields"
  shows "f (resident c0) + (\<Sum>k \<in> ks. f (E k)) = (\<Sum>k \<in> dom m. f (sub_size (the (m k))))"
proof -
  let ?s = "\<lambda>k. f (sub_size (the (m k)))" and ?z = "\<lambda>k. f (sub_size (start_of c0 k))"
  have fd: "finite (dom (subQueues c0))" using inv by (simp add: strategy_inv_def)
  have dm: "dom m = ks \<union> dom (subQueues c0)" using m out by (auto simp: dom_def) (metis option.distinct(1))+
  have new: "?z k = 0" if "k \<notin> dom (subQueues c0)" for k
    using that f by (simp add: start_of_cases domIff sub_size_new size_fields_arith)
  have "f (resident c0) = (\<Sum>k \<in> dom (subQueues c0). f (sub_size (the (subQueues c0 k))))"
    using inv f by (simp add: strategy_inv_def resident_ok_def)
  also have "\<dots> = (\<Sum>k \<in> dom (subQueues c0). ?z k)"
    by (rule sum.cong) (auto simp: start_of_cases)
  also have "\<dots> = (\<Sum>k \<in> dom m. ?z k)"
    by (rule sum.mono_neutral_left) (use fin fd dm new in auto)
  also have "\<dots> = (\<Sum>k \<in> dom m - ks. ?z k) + (\<Sum>k \<in> ks. ?z k)"
    by (rule sum.subset_diff) (use fin fd dm in auto)
  finally have a: "f (resident c0) = (\<Sum>k \<in> dom m - ks. ?z k) + (\<Sum>k \<in> ks. ?z k)" .
  have b: "(\<Sum>k \<in> dom m - ks. ?z k) = (\<Sum>k \<in> dom m - ks. ?s k)"
  proof (rule sum.cong)
    fix k assume "k \<in> dom m - ks"
    then obtain sq where "m k = Some sq" "subQueues c0 k = Some sq" using out by auto
    then show "?z k = ?s k" by (simp add: start_of_cases)
  qed simp
  have "\<forall>k \<in> ks. f (E k) = ?s k - ?z k" using m by fastforce
  then have e: "(\<Sum>k \<in> ks. f (E k)) = (\<Sum>k \<in> ks. ?s k) - (\<Sum>k \<in> ks. ?z k)"
    by (simp add: sum_subtractf)
  have "(\<Sum>k \<in> dom m. ?s k) = (\<Sum>k \<in> dom m - ks. ?s k) + (\<Sum>k \<in> ks. ?s k)"
    by (rule sum.subset_diff) (use fin fd dm in auto)
  with a b e show ?thesis by linarith
qed

lemma scope_loop_finish:
  assumes inv: "strategy_inv c0" and ib: "in_batch c0 (set ks) m" and dist: "distinct ks"
    and f: "\<And>k sq. sub_inv (stratCompare c0) (Some (start_of c0 k)) sq \<Longrightarrow>
      sub_inv (stratCompare c0) None (snd (fin sq)) \<and> key (snd (fin sq)) = k \<and> tidy (snd (fin sq)) \<and>
      fst (fin sq) = size_minus (sub_size (snd (fin sq))) (sub_size (start_of c0 k))"
    and r: "scope_loop fin ks (emptySize, m) = (delta, m')"
    and c: "c' = c1\<lparr>subQueues := m', resident := size_plus (resident c0) delta, openScopes := []\<rparr>"
      "stratCompare c1 = stratCompare c0"
  shows "strategy_inv c'" "m' = (\<lambda>k. if k \<in> set ks then Some (snd (fin (the (m k)))) else subQueues c0 k)"
proof -
  have some: "m k \<noteq> None" if "k \<in> set ks" for k using that ib by (auto simp: in_batch_def)
  have each: "sub_inv (stratCompare c0) (Some (start_of c0 k)) (the (m k))" if "k \<in> set ks" for k
    using that ib by (force simp: in_batch_def)
  have out: "m k = subQueues c0 k" if "k \<notin> set ks" for k using that ib by (simp add: in_batch_def)
  show m': "m' = (\<lambda>k. if k \<in> set ks then Some (snd (fin (the (m k)))) else subQueues c0 k)"
    using scope_loop_eq(1) [where fin = fin and delta = emptySize and m = m, OF dist some] r out by (auto simp: fun_eq_iff)
  have fd: "finite (dom (subQueues c0))" "running_order (stratCompare c0)"
    "\<And>k sq. subQueues c0 k = Some sq \<Longrightarrow> key sq = k \<and> sub_inv (stratCompare c0) None sq \<and> tidy sq"
    using inv by (auto simp: strategy_inv_def)
  have dm: "dom m' \<subseteq> set ks \<union> dom (subQueues c0)" unfolding m' by (auto split: if_splits)
  have "resident_ok c'" unfolding resident_ok_def
  proof
    fix g assume g: "g \<in> size_fields"
    have "g delta = g (fst (scope_loop fin ks (emptySize, m)))" by (simp add: r)
    also have "\<dots> = (\<Sum>k \<in> set ks. g (fst (fin (the (m k)))))"
      by (subst scope_loop_eq(2) [where m = m, OF dist some g]) (simp_all add: size_fields_arith(3) [OF g])
    finally have "g delta = (\<Sum>k \<in> set ks. g (fst (fin (the (m k)))))" .
    moreover have "g (resident c0) + (\<Sum>k \<in> set ks. g (fst (fin (the (m k))))) = (\<Sum>k \<in> dom m'. g (sub_size (the (m' k))))"
      by (rule resident_finish [OF inv _ _ _ g])
        (use f [OF each] g in \<open>auto simp: m' size_fields_arith\<close>)
    ultimately show "g (resident c') = (\<Sum>k \<in> dom (subQueues c'). g (sub_size (the (subQueues c' k))))"
      by (simp add: c size_fields_arith(1) [OF g])
  qed
  moreover have "key sq = k \<and> sub_inv (stratCompare c0) None sq \<and> tidy sq" if "m' k = Some sq" for k sq
    using that f [OF each] fd(3) by (auto simp: m' split: if_splits)
  moreover have "finite (dom m')" by (rule finite_subset [OF dm]) (use fd(1) in simp)
  ultimately show "strategy_inv c'" using fd(2) c by (simp add: strategy_inv_def)
qed

text \<open>What a client can observe of a key: its running and queued slots and its limit.\<close>

definition key_view ::
  "('q, 'c) concurrencyStrategy \<Rightarrow> string \<Rightarrow> slot multiset \<times> slot multiset \<times> int \<times> int" where
  "key_view c k =
     (sq_running (start_of c k), sq_queued (start_of c k), maxRuns (start_of c k), maxRunsFrom (start_of c k))"

lemma strategy_rollback_ok:
  assumes inv: "strategy_inv c0" and ib: "in_batch c0 (set ks) (subQueues c)" and dist: "distinct ks"
    and fr: "resident c = resident c0" "stratCompare c = stratCompare c0" "strategy c = strategy c0"
  shows "strategy_inv ((strategy_rollback ks c)\<lparr>openScopes := []\<rparr>)"
    "key_view ((strategy_rollback ks c)\<lparr>openScopes := []\<rparr>) = key_view c0"
proof -
  obtain delta m' where r: "scope_loop sub_rollback ks (emptySize, subQueues c) = (delta, m')" by fastforce
  define c' where "c' = (strategy_rollback ks c)\<lparr>openScopes := []\<rparr>"
  have c': "c' = c\<lparr>subQueues := m', resident := size_plus (resident c0) delta, openScopes := []\<rparr>"
    by (simp add: c'_def strategy_rollback_def r fr)
  have ro: "running_order (stratCompare c0)" using inv by (simp add: strategy_inv_def)
  note rb = running_order.sub_rollback_inv [OF ro]
  have fin: "sub_inv (stratCompare c0) None (snd (sub_rollback sq)) \<and> key (snd (sub_rollback sq)) = k \<and>
      tidy (snd (sub_rollback sq)) \<and>
      fst (sub_rollback sq) = size_minus (sub_size (snd (sub_rollback sq))) (sub_size (start_of c0 k))"
    if "sub_inv (stratCompare c0) (Some (start_of c0 k)) sq" for k sq
    using rb [OF that] start_of_inv(2,3) [OF inv, of k] by (simp add: tidy_def)
  note fl = scope_loop_finish [OF inv ib dist fin r c' fr(2)]
  show "strategy_inv ((strategy_rollback ks c)\<lparr>openScopes := []\<rparr>)" using fl(1) by (simp only: c'_def)
  have "key_view c' k = key_view c0 k" for k
  proof (cases "k \<in> set ks")
    case True
    then obtain sq where sq: "subQueues c k = Some sq" "sub_inv (stratCompare c0) (Some (start_of c0 k)) sq"
      using ib by (auto simp: in_batch_def)
    then have "start_of c' k = snd (sub_rollback sq)" using True by (simp add: start_of_cases c' fl(2))
    with rb [OF sq(2)] show ?thesis by (simp add: key_view_def)
  next
    case False
    then have "subQueues c' k = subQueues c0 k" by (simp add: c' fl(2))
    then have "start_of c' k = start_of c0 k"
      using fr by (cases "subQueues c0 k") (simp_all add: start_of_cases c')
    then show ?thesis by (simp add: key_view_def)
  qed
  then show "key_view ((strategy_rollback ks c)\<lparr>openScopes := []\<rparr>) = key_view c0" by (auto simp: c'_def)
qed

lemma strategy_commit_ok:
  assumes inv: "strategy_inv c0" and ib: "in_batch c0 (set ks) (subQueues c)" and dist: "distinct ks"
    and fr: "resident c = resident c0" "stratCompare c = stratCompare c0"
  shows "strategy_inv ((strategy_commit ks c)\<lparr>openScopes := []\<rparr>)"
    "k \<in> set ks \<Longrightarrow> key_view ((strategy_commit ks c)\<lparr>openScopes := []\<rparr>) k = key_view c k"
    "k \<notin> set ks \<Longrightarrow> subQueues ((strategy_commit ks c)\<lparr>openScopes := []\<rparr>) k = subQueues c0 k"
proof -
  obtain delta m' where r: "scope_loop sub_commit ks (emptySize, subQueues c) = (delta, m')" by fastforce
  define c' where "c' = (strategy_commit ks c)\<lparr>openScopes := []\<rparr>"
  have c': "c' = c\<lparr>subQueues := m', resident := size_plus (resident c0) delta, openScopes := []\<rparr>"
    by (simp add: c'_def strategy_commit_def r fr)
  have ro: "running_order (stratCompare c0)" using inv by (simp add: strategy_inv_def)
  note cm = running_order.sub_commit_inv [OF ro]
  have fin: "sub_inv (stratCompare c0) None (snd (sub_commit sq)) \<and> key (snd (sub_commit sq)) = k \<and>
      tidy (snd (sub_commit sq)) \<and>
      fst (sub_commit sq) = size_minus (sub_size (snd (sub_commit sq))) (sub_size (start_of c0 k))"
    if "sub_inv (stratCompare c0) (Some (start_of c0 k)) sq" for k sq
    using cm [OF that] start_of_inv(2) [OF inv, of k] that by (simp add: tidy_def sub_inv_def)
  note fl = scope_loop_finish [OF inv ib dist fin r c' fr(2)]
  show "strategy_inv ((strategy_commit ks c)\<lparr>openScopes := []\<rparr>)" using fl(1) by (simp only: c'_def)
  show "key_view ((strategy_commit ks c)\<lparr>openScopes := []\<rparr>) k = key_view c k" if k: "k \<in> set ks"
  proof -
    obtain sq where sq: "subQueues c k = Some sq" "sub_inv (stratCompare c0) (Some (start_of c0 k)) sq"
      using ib k by (auto simp: in_batch_def)
    then have "start_of c' k = snd (sub_commit sq)" using k by (simp add: start_of_cases c' fl(2))
    with cm [OF sq(2)] sq(1) show ?thesis unfolding c'_def [symmetric]
      by (simp add: key_view_def start_of_cases)
  qed
  show "subQueues ((strategy_commit ks c)\<lparr>openScopes := []\<rparr>) k = subQueues c0 k" if "k \<notin> set ks"
    unfolding c'_def [symmetric] using that by (simp add: c' fl(2))
qed

text \<open>Pruning removes exactly the candidates that hold nothing.\<close>

definition sub_empty :: "subQueue \<Rightarrow> bool" where
  "sub_empty sq \<longleftrightarrow> sq_running sq = {#} \<and> sq_queued sq = {#}"

lemma pruneEmpty_subQueues:
  "subQueues (pruneEmpty ks c) k =
     (case subQueues c k of
        None \<Rightarrow> None
      | Some sq \<Rightarrow> if k \<in> set ks \<and> sub_empty sq then None else Some sq)"
proof -
  let ?step = "\<lambda>k m. case m k of None \<Rightarrow> m
      | Some sq \<Rightarrow> if running_len (running sq) \<noteq> 0 \<or> index_len (queued sq) \<noteq> 0 then m else m(k := None)"
  have "fold ?step ks m k = (case m k of None \<Rightarrow> None | Some sq \<Rightarrow> if k \<in> set ks \<and> sub_empty sq then None else Some sq)" for m
    by (induction ks arbitrary: m)
      (auto simp: sub_empty_def running_len_contents index_len_contents simp del: index_len.simps split: option.splits)
  then show ?thesis by (simp add: pruneEmpty_def)
qed

lemma pruneEmpty_frame [simp]:
  "resident (pruneEmpty ks c) = resident c" "strategy (pruneEmpty ks c) = strategy c"
  "stratCompare (pruneEmpty ks c) = stratCompare c" "built (pruneEmpty ks c) = built c"
  "pending (pruneEmpty ks c) = pending c" "openScopes (pruneEmpty ks c) = openScopes c"
  "initialQueued (pruneEmpty ks c) = initialQueued c"
  by (simp_all add: pruneEmpty_def)

lemma sub_size_empty: "tidy sq \<Longrightarrow> sub_empty sq \<Longrightarrow> sub_size sq = emptySize"
  by (auto simp: tidy_def sub_empty_def sub_size_def emptySize_def running_len_contents index_len_contents
      simp del: index_len.simps)

lemma pruneEmpty_inv:
  assumes inv: "strategy_inv c"
  shows "strategy_inv (pruneEmpty ks c)"
proof -
  let ?m = "subQueues (pruneEmpty ks c)"
  have keep: "?m k = Some sq \<Longrightarrow> subQueues c k = Some sq" for k sq
    by (auto simp: pruneEmpty_subQueues split: option.splits if_splits)
  then have sub: "dom ?m \<subseteq> dom (subQueues c)" by auto
  have fd: "finite (dom (subQueues c))" using inv by (simp add: strategy_inv_def)
  have "resident_ok (pruneEmpty ks c)" unfolding resident_ok_def pruneEmpty_frame
  proof
    fix f assume f: "f \<in> size_fields"
    have "f (resident c) = (\<Sum>k \<in> dom (subQueues c). f (sub_size (the (subQueues c k))))"
      using inv f by (simp add: strategy_inv_def resident_ok_def)
    also have "\<dots> = (\<Sum>k \<in> dom ?m. f (sub_size (the (subQueues c k))))"
    proof (rule sum.mono_neutral_right [OF fd sub], rule ballI)
      fix k assume "k \<in> dom (subQueues c) - dom ?m"
      then obtain sq where "subQueues c k = Some sq" "sub_empty sq"
        by (auto simp: pruneEmpty_subQueues split: option.splits if_splits)
      moreover have "tidy sq" using calculation inv by (simp add: strategy_inv_def)
      ultimately show "f (sub_size (the (subQueues c k))) = 0"
        by (simp add: sub_size_empty size_fields_arith(3) [OF f])
    qed
    also have "\<dots> = (\<Sum>k \<in> dom ?m. f (sub_size (the (?m k))))"
      by (rule sum.cong) (use keep in force)+
    finally show "f (resident c) = (\<Sum>k \<in> dom ?m. f (sub_size (the (?m k))))" .
  qed
  then show ?thesis using inv keep finite_subset [OF sub fd] by (auto simp: strategy_inv_def)
qed

subsection \<open>One call of the outbox\<close>

definition same_frame :: "('q, 'c) concurrencyStrategy \<Rightarrow> ('q, 'c) concurrencyStrategy \<Rightarrow> bool" where
  "same_frame c c1 \<longleftrightarrow>
     resident c1 = resident c \<and> strategy c1 = strategy c \<and> stratCompare c1 = stratCompare c \<and>
     built c1 = built c \<and> initialQueued c1 = initialQueued c"

text \<open>\<open>batch_open c ks c\<^sub>1\<close>: a batch that started in \<open>c\<close> has its scopes \<open>ks\<close> open in \<open>c\<^sub>1\<close>.\<close>

definition batch_open :: "('q, 'c) concurrencyStrategy \<Rightarrow> string list \<Rightarrow> ('q, 'c) concurrencyStrategy \<Rightarrow> bool" where
  "batch_open c ks c1 \<longleftrightarrow> distinct ks \<and> in_batch c (set ks) (subQueues c1) \<and> same_frame c c1"

lemma decideSubQueues_open:
  assumes inv: "strategy_inv c" and d: "decide kind = Some d" and fits: "batch_fits sch grouped c"
  shows "\<exists>fill del tmo c1. decideSubQueues sch grouped d c = Some (mapOrder sch, fill, del, tmo, c1) \<and>
    batch_open c (mapOrder sch) c1 \<and> pending c1 = pending c \<and> openScopes c1 = openScopes c"
proof -
  obtain F D T Q where r: "\<forall>k \<in> dom grouped.
      decideSubQueue (batchNowMs sch) d (msgs_of grouped k) (sub_begin (start_of c k)) = Some (F k, D k, T k, Q k) \<and>
      sub_inv (stratCompare c) (Some (start_of c k)) (Q k)"
    "decideSubQueues sch grouped d c =
      Some (mapOrder sch, concat (map F (finishOrder sch)), concat (map D (finishOrder sch)),
        concat (map T (finishOrder sch)),
        (open_loop (mapOrder sch) c)\<lparr>subQueues := (\<lambda>k. if k \<in> dom grouped then Some (Q k) else subQueues c k)\<rparr>)"
    using decideSubQueues_ok [OF inv d fits] by blast
  have o: "distinct (mapOrder sch)" "set (mapOrder sch) = dom grouped" using fits by (auto simp: batch_fits_def)
  then show ?thesis using r by (auto simp: batch_open_def in_batch_def same_frame_def open_loop_frame)
qed

lemma processWALMessages_open:
  assumes inv: "strategy_inv c" and d: "decide (StrategyKind (strategy c)) \<noteq> None"
    and fits: "batch_fits sch (groupMessagesBySubQueue msgs) c"
  shows "\<exists>res c1. processWALMessages sch db msgs c = Some (res, c1) \<and>
    batch_open c (openScopes c1) c1 \<and> pending c1 = pending c"
proof -
  obtain d where d: "decide (StrategyKind (strategy c)) = Some d" using d by blast
  obtain fill del tmo c1 where "decideSubQueues sch (groupMessagesBySubQueue msgs) d c = Some (mapOrder sch, fill, del, tmo, c1)"
    "batch_open c (mapOrder sch) c1" "pending c1 = pending c"
    using decideSubQueues_open [OF inv d fits] by blast
  then show ?thesis
    by (simp add: processWALMessages_def processStrategy_def d Let_def batch_open_def same_frame_def)
qed

definition call_fits ::
  "('p \<Rightarrow> walMessage option) \<Rightarrow> ('p, 'e, 'q, 'c) outboxCall \<Rightarrow> ('q, 'c) concurrencyStrategy \<Rightarrow> bool" where
  "call_fits unmarshal call c \<longleftrightarrow>
     (callFlushes call \<longrightarrow>
        decide (StrategyKind (strategy c)) \<noteq> None \<and>
        (\<forall>wal \<in> set_option (unmarshal_loop unmarshal (callPayloads call)).
           batch_fits (callSchedule call) (groupMessagesBySubQueue wal) c))"

lemma batch_open_refl: "strategy_inv c \<Longrightarrow> batch_open c (openScopes c) c"
  by (simp add: batch_open_def in_batch_def same_frame_def strategy_inv_def)

lemma processMessages_open:
  assumes inv: "strategy_inv c" and fits: "call_fits unmarshal call c"
  shows "\<exists>err c1. processMessages unmarshal call c = Some (err, c1) \<and> batch_open c (openScopes c1) c1"
proof -
  have "\<exists>err c1. Flush unmarshal (callSchedule call) (callDb call) (callPayloads call) c = Some (err, c1) \<and>
      batch_open c (openScopes c1) c1" if fl: "callFlushes call"
  proof (cases "unmarshal_loop unmarshal (callPayloads call)")
    case None
    with batch_open_refl [OF inv] show ?thesis by (simp add: Flush_def)
  next
    case (Some wal)
    have f: "decide (StrategyKind (strategy c)) \<noteq> None" "batch_fits (callSchedule call) (groupMessagesBySubQueue wal) c"
      using fits Some fl by (auto simp: call_fits_def)
    obtain res c1 where "processWALMessages (callSchedule call) (callDb call) wal c = Some (res, c1)"
      "batch_open c (openScopes c1) c1"
      using processWALMessages_open [OF inv f] by blast
    with Some show ?thesis
      by (cases res) (simp_all add: Flush_def appendPending_def batch_open_def same_frame_def)
  qed
  then show ?thesis
    using batch_open_refl [OF inv] by (fastforce simp: processMessages_def split: option.splits)
qed

lemma batch_rolled_back:
  assumes inv: "strategy_inv c" and bo: "batch_open c (openScopes c1) c1"
  shows "strategy_inv (rollbackScopes (snd (takePending c1)))"
    "key_view (rollbackScopes (snd (takePending c1))) = key_view c"
    "pending (rollbackScopes (snd (takePending c1))) = []"
proof -
  let ?c2 = "snd (takePending c1)"
  have o: "in_batch c (set (openScopes ?c2)) (subQueues ?c2)" "distinct (openScopes ?c2)"
    "resident ?c2 = resident c" "stratCompare ?c2 = stratCompare c" "strategy ?c2 = strategy c"
    using bo by (auto simp: batch_open_def same_frame_def takePending_def)
  from strategy_rollback_ok [OF inv o] show "strategy_inv (rollbackScopes (snd (takePending c1)))"
    "key_view (rollbackScopes (snd (takePending c1))) = key_view c"
    by (simp_all add: rollbackScopes_def)
  show "pending (rollbackScopes (snd (takePending c1))) = []"
    by (simp add: rollbackScopes_def strategy_rollback_def takePending_def split: prod.splits)
qed

text \<open>
  The resident counts are determined by what the keys hold, except for the runners in large indexes:
  a runner index that grew large in a batch may stay large when the batch is rolled back.
\<close>

lemma resident_view:
  assumes "strategy_inv c" "f \<in> size_fields" "finite A" "dom (subQueues c) \<subseteq> A"
  shows "f (resident c) = (\<Sum>k \<in> A. f (sub_size (start_of c k)))"
proof -
  have "f (resident c) = (\<Sum>k \<in> dom (subQueues c). f (sub_size (start_of c k)))"
  proof -
    have "f (resident c) = (\<Sum>k \<in> dom (subQueues c). f (sub_size (the (subQueues c k))))"
      using assms(1,2) by (simp add: strategy_inv_def resident_ok_def)
    also have "\<dots> = (\<Sum>k \<in> dom (subQueues c). f (sub_size (start_of c k)))"
      by (rule sum.cong) (auto simp: start_of_cases)
    finally show ?thesis .
  qed
  also have "\<dots> = (\<Sum>k \<in> A. f (sub_size (start_of c k)))"
    by (rule sum.mono_neutral_left [OF assms(3,4)])
      (use size_fields_arith(3) [OF assms(2)] in \<open>auto simp: start_of_cases(2) sub_size_new domIff\<close>)
  finally show ?thesis .
qed

lemma same_view_same_counts:
  assumes "strategy_inv c" "strategy_inv c'" "key_view c' = key_view c"
  shows "rsRunning (resident c') = rsRunning (resident c)" "rsQueued (resident c') = rsQueued (resident c)"
    "rsQueuedKeys (resident c') = rsQueuedKeys (resident c)"
proof -
  let ?A = "dom (subQueues c) \<union> dom (subQueues c')"
  have fin: "finite ?A" using assms(1,2) by (simp add: strategy_inv_def)
  have "rsRunning (sub_size (start_of c' k)) = rsRunning (sub_size (start_of c k)) \<and>
      rsQueued (sub_size (start_of c' k)) = rsQueued (sub_size (start_of c k)) \<and>
      rsQueuedKeys (sub_size (start_of c' k)) = rsQueuedKeys (sub_size (start_of c k))" for k
    using fun_cong [OF assms(3), of k] start_of_inv(3) [OF assms(1), of k] start_of_inv(3) [OF assms(2), of k]
    by (simp add: key_view_def sub_size_def tidy_def running_len_contents index_len_contents del: index_len.simps)
  then have "(\<Sum>k \<in> ?A. f (sub_size (start_of c' k))) = (\<Sum>k \<in> ?A. f (sub_size (start_of c k)))"
    if "f \<in> {rsRunning, rsQueued, rsQueuedKeys}" for f
    using that by (auto intro!: sum.cong)
  moreover have "f (resident c) = (\<Sum>k \<in> ?A. f (sub_size (start_of c k)))"
    "f (resident c') = (\<Sum>k \<in> ?A. f (sub_size (start_of c' k)))"
    if "f \<in> {rsRunning, rsQueued, rsQueuedKeys}" for f
    using that resident_view [OF assms(1) _ fin] resident_view [OF assms(2) _ fin] by (auto simp: size_fields_def)
  ultimately show "rsRunning (resident c') = rsRunning (resident c)" "rsQueued (resident c') = rsQueued (resident c)"
    "rsQueuedKeys (resident c') = rsQueuedKeys (resident c)"
    by simp_all
qed

text \<open>\<open>settle\<close> is what \<open>Run\<close> does after a call that committed.\<close>

definition settle :: "('q, 'c) concurrencyStrategy \<Rightarrow> ('q, 'c) concurrencyStrategy" where
  "settle c1 = (case commitScopes (snd (takePending c1)) of (ks, c3) \<Rightarrow> pruneEmpty ks c3)"

lemma batch_committed:
  assumes inv: "strategy_inv c" and bo: "batch_open c (openScopes c1) c1"
  shows "strategy_inv (settle c1)"
    "k \<in> set (openScopes c1) \<Longrightarrow> subQueues c1 k = Some sq \<Longrightarrow> sub_empty sq \<Longrightarrow> subQueues (settle c1) k = None"
    "k \<in> set (openScopes c1) \<Longrightarrow> subQueues c1 k = Some sq \<Longrightarrow> \<not> sub_empty sq \<Longrightarrow> key_view (settle c1) k = key_view c1 k"
    "k \<notin> set (openScopes c1) \<Longrightarrow> subQueues (settle c1) k = subQueues c k"
proof -
  let ?c2 = "snd (takePending c1)"
  define c3 where "c3 = (strategy_commit (openScopes ?c2) ?c2)\<lparr>openScopes := []\<rparr>"
  have s: "settle c1 = pruneEmpty (openScopes c1) c3"
    by (simp add: settle_def commitScopes_def c3_def takePending_def)
  have o: "in_batch c (set (openScopes ?c2)) (subQueues ?c2)" "distinct (openScopes ?c2)"
    "resident ?c2 = resident c" "stratCompare ?c2 = stratCompare c"
    using bo by (auto simp: batch_open_def same_frame_def takePending_def)
  note cm = strategy_commit_ok [OF inv o, folded c3_def]
  have tp: "openScopes ?c2 = openScopes c1" "subQueues ?c2 = subQueues c1" "key_view ?c2 k = key_view c1 k" for k
    by (simp_all add: takePending_def key_view_def start_of_def getOrCreateSubQueue_def Let_def split: option.splits)
  show "strategy_inv (settle c1)" unfolding s by (rule pruneEmpty_inv [OF cm(1)])
  show "subQueues (settle c1) k = subQueues c k" if "k \<notin> set (openScopes c1)"
    using that cm(3) [of k] by (simp add: s pruneEmpty_subQueues tp split: option.splits)
  have ex: "\<exists>sq'. subQueues c3 k = Some sq' \<and> (sub_empty sq' \<longleftrightarrow> sub_empty sq)"
    if k: "k \<in> set (openScopes c1)" and sq: "subQueues c1 k = Some sq"
  proof -
    have kv: "key_view c3 k = key_view c1 k" using cm(2) [of k] k tp by simp
    have some: "subQueues ?c2 j \<noteq> None" if "j \<in> set (openScopes ?c2)" for j
      using that o(1) by (auto simp: in_batch_def)
    have "subQueues c3 = snd (scope_loop sub_commit (openScopes ?c2) (emptySize, subQueues ?c2))"
      by (simp add: c3_def strategy_commit_def split: prod.splits)
    then obtain sq' where "subQueues c3 k = Some sq'"
      using scope_loop_eq(1) [where fin = sub_commit and delta = emptySize and m = "subQueues ?c2", OF o(2) some] k
      by (simp add: tp)
    then show ?thesis using kv sq by (simp add: key_view_def start_of_cases sub_empty_def)
  qed
  show "subQueues (settle c1) k = None"
    if "k \<in> set (openScopes c1)" "subQueues c1 k = Some sq" "sub_empty sq"
    using ex [OF that(1,2)] that by (auto simp: s pruneEmpty_subQueues)
  show "key_view (settle c1) k = key_view c1 k"
    if k: "k \<in> set (openScopes c1)" "subQueues c1 k = Some sq" "\<not> sub_empty sq"
  proof -
    obtain sq' where "subQueues c3 k = Some sq'" "\<not> sub_empty sq'" using ex [OF k(1,2)] k(3) by blast
    then have "start_of (settle c1) k = start_of c3 k" by (simp add: s pruneEmpty_subQueues start_of_cases)
    with cm(2) [of k] k(1) tp show ?thesis by (simp add: key_view_def)
  qed
qed

subsection \<open>Draining the topic\<close>

fun calls_fit ::
  "('p \<Rightarrow> walMessage option) \<Rightarrow> ('p, 'e, 'q, 'c) outboxCall list \<Rightarrow> ('q, 'c) concurrencyStrategy \<Rightarrow> bool" where
  "calls_fit unmarshal [] c \<longleftrightarrow> True"
| "calls_fit unmarshal (call # calls) c \<longleftrightarrow>
     call_fits unmarshal call c \<and>
     (case processMessages unmarshal call c of
        Some (None, c1) \<Rightarrow> calls_fit unmarshal calls (settle c1)
      | _ \<Rightarrow> True)"

lemma run_loop_Cons:
  "processMessages unmarshal call c = Some (None, c1) \<Longrightarrow>
    run_loop unmarshal (call # calls) committed c =
      (let committed' = committed @ map Some (pending c1)
       in if callPayloads call = [] then Some (mergeResults committed', None, settle c1)
          else run_loop unmarshal calls committed' (settle c1))"
  by (simp add: takePending_def settle_def Let_def split: prod.splits)

lemma settle_pending: "pending (settle c1) = []"
  by (simp add: settle_def commitScopes_def takePending_def strategy_commit_def split: prod.splits)

lemma run_loop_inv:
  assumes "strategy_inv c" "calls_fit unmarshal calls c" "run_loop unmarshal calls committed c = Some (res, err, c')"
  shows "strategy_inv c' \<and> pending c' = []"
  using assms
proof (induction calls arbitrary: c committed)
  case (Cons call calls)
  have f: "call_fits unmarshal call c" using Cons.prems(2) by simp
  obtain e c1 where p: "processMessages unmarshal call c = Some (e, c1)" "batch_open c (openScopes c1) c1"
    using processMessages_open [OF Cons.prems(1) f] by blast
  show ?case
  proof (cases e)
    case (Some x)
    with Cons.prems(3) p batch_rolled_back(1,3) [OF Cons.prems(1) p(2)] show ?thesis by auto
  next
    case None
    with p have p': "processMessages unmarshal call c = Some (None, c1)" by simp
    note s = batch_committed(1) [OF Cons.prems(1) p(2)]
    from Cons.prems(2) p' have fits: "calls_fit unmarshal calls (settle c1)" by simp
    from Cons.prems(3) s settle_pending Cons.IH [OF s fits] show ?thesis
      unfolding run_loop_Cons [OF p'] by (auto simp: Let_def split: if_splits)
  qed
qed simp

lemma run_loop_error:
  "run_loop unmarshal calls committed c = Some (m, err, c') \<Longrightarrow> err \<noteq> Some (InitialQueueingFailed e)"
  by (induction calls arbitrary: committed c)
    (auto simp: processMessages_def Let_def split: option.splits prod.splits if_splits)

lemma run_loop_returns:
  assumes "strategy_inv c" "calls_fit unmarshal calls c" "\<exists>call \<in> set calls. callPayloads call = []"
  shows "run_loop unmarshal calls committed c \<noteq> None"
  using assms
proof (induction calls arbitrary: c committed)
  case (Cons call calls)
  have f: "call_fits unmarshal call c" using Cons.prems(2) by simp
  obtain e c1 where p: "processMessages unmarshal call c = Some (e, c1)" "batch_open c (openScopes c1) c1"
    using processMessages_open [OF Cons.prems(1) f] by blast
  show ?case
  proof (cases e)
    case (Some x)
    with p show ?thesis by simp
  next
    case None
    with p have p': "processMessages unmarshal call c = Some (None, c1)" by simp
    note s = batch_committed(1) [OF Cons.prems(1) p(2)]
    from Cons.prems(2) p' have fits: "calls_fit unmarshal calls (settle c1)" by simp
    show ?thesis
    proof (cases "callPayloads call = []")
      case True
      then show ?thesis unfolding run_loop_Cons [OF p'] by (simp add: Let_def)
    next
      case False
      with Cons.prems(3) have "\<exists>call \<in> set calls. callPayloads call = []" by auto
      from Cons.IH [OF s fits this] False show ?thesis unfolding run_loop_Cons [OF p'] Let_def by simp
    qed
  qed
qed simp

lemma mergeResults_concat:
  "resQueued (mergeResults rs) = concat (map resQueued (concat (map (\<lambda>r. case r of None \<Rightarrow> [] | Some x \<Rightarrow> [x]) rs)))"
  "resCancelled (mergeResults rs) = concat (map resCancelled (concat (map (\<lambda>r. case r of None \<Rightarrow> [] | Some x \<Rightarrow> [x]) rs)))"
  "resNextStrategies (mergeResults rs) = concat (map resNextStrategies (concat (map (\<lambda>r. case r of None \<Rightarrow> [] | Some x \<Rightarrow> [x]) rs)))"
proof -
  let ?xs = "\<lambda>rs. concat (map (\<lambda>r. case r of None \<Rightarrow> [] | Some x \<Rightarrow> [x]) rs)"
  let ?step = "\<lambda>res merged. case res of None \<Rightarrow> merged
      | Some r \<Rightarrow> \<lparr>resQueued = resQueued merged @ resQueued r, resCancelled = resCancelled merged @ resCancelled r,
                  resNextStrategies = resNextStrategies merged @ resNextStrategies r\<rparr>"
  have "fold ?step rs m =
    \<lparr>resQueued = resQueued m @ concat (map resQueued (?xs rs)),
     resCancelled = resCancelled m @ concat (map resCancelled (?xs rs)),
     resNextStrategies = resNextStrategies m @ concat (map resNextStrategies (?xs rs))\<rparr>" for m
    by (induction rs arbitrary: m) (auto split: option.splits)
  then show "resQueued (mergeResults rs) = concat (map resQueued (?xs rs))"
    "resCancelled (mergeResults rs) = concat (map resCancelled (?xs rs))"
    "resNextStrategies (mergeResults rs) = concat (map resNextStrategies (?xs rs))"
    by (simp_all add: mergeResults_def)
qed

subsection \<open>The queueing pass\<close>

lemma scopes_frame [simp]:
  "initialQueued (strategy_rollback ks c) = initialQueued c" "pending (strategy_rollback ks c) = pending c"
  "initialQueued (strategy_commit ks c) = initialQueued c" "pending (strategy_commit ks c) = pending c"
  by (simp_all add: strategy_rollback_def strategy_commit_def split: prod.splits)

lemma queueAllSubQueues_ok:
  assumes inv: "strategy_inv c" and d: "decide (StrategyKind (strategy c)) \<noteq> None"
    and fits: "batch_fits sch (queueAll_grouped c) c"
  shows "\<exists>res c1. queueAllSubQueues sch db c = Some (res, c1) \<and> strategy_inv c1 \<and>
    (\<forall>e. res = Inl e \<longrightarrow> key_view c1 = key_view c) \<and> initialQueued c1 = initialQueued c \<and> pending c1 = pending c"
proof (cases "mapOrder sch = []")
  case True
  with inv show ?thesis by (simp add: queueAllSubQueues_def)
next
  case False
  obtain dd where d: "decide (StrategyKind (strategy c)) = Some dd" using d by blast
  obtain fill del tmo c1 where r: "decideSubQueues sch (queueAll_grouped c) dd c = Some (mapOrder sch, fill, del, tmo, c1)"
    "batch_open c (mapOrder sch) c1" "pending c1 = pending c" "openScopes c1 = openScopes c"
    using decideSubQueues_open [OF inv d fits] by blast
  have o: "in_batch c (set (mapOrder sch)) (subQueues c1)" "distinct (mapOrder sch)"
    "resident c1 = resident c" "stratCompare c1 = stratCompare c" "strategy c1 = strategy c"
    using r(2) by (auto simp: batch_open_def same_frame_def)
  have os: "openScopes c1 = []" using r(4) inv by (simp add: strategy_inv_def)
  have same: "(strategy_rollback (mapOrder sch) c1)\<lparr>openScopes := []\<rparr> = strategy_rollback (mapOrder sch) c1"
    "(strategy_commit (mapOrder sch) c1)\<lparr>openScopes := []\<rparr> = strategy_commit (mapOrder sch) c1"
    using os by (simp_all add: strategy_rollback_def strategy_commit_def split: prod.splits)

  have "initialQueued c1 = initialQueued c" using r(2) by (simp add: batch_open_def same_frame_def)
  with strategy_rollback_ok [OF inv o, unfolded same] pruneEmpty_inv [OF strategy_commit_ok(1) [OF inv o(1-4), unfolded same]]
    False d r(1,3)
  show ?thesis
    by (cases "flushToDatabase db fill del tmo c1") (simp_all add: queueAllSubQueues_def)
qed

lemma runInitialQueueing_ok:
  assumes "strategy_inv c" "decide (StrategyKind (strategy c)) \<noteq> None"
    "\<not> initialQueued c \<longrightarrow> batch_fits sch (queueAll_grouped c) c"
  shows "\<exists>res c1. runInitialQueueing sch db c = Some (res, c1) \<and> strategy_inv c1 \<and> pending c1 = pending c \<and>
    (case res of Inl e \<Rightarrow> key_view c1 = key_view c \<and> \<not> initialQueued c1 | Inr _ \<Rightarrow> initialQueued c1)"
proof (cases "initialQueued c")
  case True
  with assms(1) show ?thesis by (simp add: runInitialQueueing_def)
next
  case False
  then have "batch_fits sch (queueAll_grouped c) c" using assms(3) by simp
  then obtain res c1 where r: "queueAllSubQueues sch db c = Some (res, c1)" "strategy_inv c1"
    "\<forall>e. res = Inl e \<longrightarrow> key_view c1 = key_view c" "initialQueued c1 = initialQueued c" "pending c1 = pending c"
    using queueAllSubQueues_ok [where db = db, OF assms(1,2)] by blast
  have "strategy_inv (c1\<lparr>initialQueued := True\<rparr>)" using r(2) by (simp add: strategy_inv_def resident_ok_def)
  with r False show ?thesis by (cases res) (simp_all add: runInitialQueueing_def)
qed

text \<open>
  The pass skips a sub-queue that only has runners within its limit: no strategy kind would fill or
  cancel anything there.
\<close>

lemma skipped_decision_idle:
  assumes "running_order cmp" "sub_inv cmp S sq" "limit_ok sq" "queueAll_skips sq" "decide kind = Some d"
  shows "\<exists>sq'. d sq = Some ([], [], sq') \<and> sq_running sq' = sq_running sq \<and> sq_queued sq' = {#}"
proof -
  have e: "sq_queued sq = {#}" "int (size (sq_running sq)) \<le> maxRuns sq"
    using assms(4) by (auto simp: queueAll_skips_def index_len_contents running_len_contents simp del: index_len.simps)
  show ?thesis
  proof (cases "kind = CANCEL_IN_PROGRESS")
    case True
    then have "d = decideCancelInProgress" using assms(5) by simp
    then obtain f c sq' where r: "d sq = Some (f, c, sq')"
      "merge_post cmp S (nat (maxRuns sq)) (sq_running sq) (sq_queued sq) f c sq'"
      using running_order.decideCancelInProgress_ok [OF assms(1,2)] by blast
    have "size (sq_running sq') = size (sq_running sq)" using r(2) e by (simp add: merge_post_def)
    moreover have c: "sq_running sq' + mset c = sq_running sq" "mset f = {#}" "sq_queued sq' = {#}"
      using r(2) e by (auto simp: merge_post_def)
    moreover have "size (sq_running sq') + length c = size (sq_running sq)" using c(1) by (metis size_mset size_union)
    ultimately have "f = []" "c = []" by simp_all
    with r(1) c show ?thesis by simp
  next
    case False
    note fills = running_order.decideGroupRoundRobin_ok [OF assms(1-3)]
      running_order.decideCancelNewest_ok [OF assms(1-3)]
      running_order.decideCancelQueuedExceptNewest_ok [OF assms(1-3)]
      running_order.decideCancelQueuedExceptOldest_ok [OF assms(1-3)]
    obtain f c sq' where r: "d sq = Some (f, c, sq')"
      using running_order.decide_returns [OF assms(1,5,2,3)] by (metis prod_cases3)
    have "mset f + mset c + sq_queued sq' = {#} \<and> sq_running sq' = mset f + sq_running sq"
      using False assms(5) r e(1) fills [of f c sq'] by (cases kind) auto
    then have "f = []" "c = []" "sq_queued sq' = {#}" "sq_running sq' = sq_running sq" by auto
    with r show ?thesis by blast
  qed
qed

section \<open>Building the index\<close>

lemma sub_inv_drop_undo_free:
  assumes ro: "running_order cmp" and inv: "sub_inv cmp None sq"
    and keyed: "keyed taskId index_cap (add_mset s (sq_running sq + sq_queued sq))"
  shows "sub_inv cmp None (addRunning s sq)" "sub_inv cmp None (enqueue s sq)"
    "sq_running (addRunning s sq) = add_mset s (sq_running sq)" "sq_queued (enqueue s sq) = add_mset s (sq_queued sq)"
  using running_order.addRunning_new [OF ro inv keyed] running_order.enqueue_new [OF ro inv keyed] by blast+

definition row_sub :: "indexRow \<Rightarrow> subQueue \<Rightarrow> subQueue" where
  "row_sub row sq =
     (let sq1 = (case rowMaxRuns row of None \<Rightarrow> sq | Some n \<Rightarrow> observeMaxRuns n (taskInsertedAtNs (rowSlot row)) sq)
      in if rowIsFilled row then addRunning (rowSlot row) sq1 else enqueue (rowSlot row) sq1)"

lemma buildRow_eq:
  "subQueues (buildRow row c) = (subQueues c)(rowKey row \<mapsto> row_sub row (start_of c (rowKey row)))"
  "resident (buildRow row c) = size_plus (resident c)
     (size_minus (sub_size (row_sub row (start_of c (rowKey row)))) (sub_size (start_of c (rowKey row))))"
  "openScopes (buildRow row c) = openScopes c" "stratCompare (buildRow row c) = stratCompare c"
  "strategy (buildRow row c) = strategy c"
  by (cases "subQueues c (rowKey row)";
      simp add: buildRow_def start_of_def getOrCreateSubQueue_def row_sub_def Let_def)+

lemma row_sub_ok:
  assumes ro: "running_order cmp" and inv: "sub_inv cmp None sq"
    and keyed: "keyed taskId index_cap (add_mset (rowSlot row) (sq_running sq + sq_queued sq))" and tidy: "tidy sq"
  shows "sub_inv cmp None (row_sub row sq)" "tidy (row_sub row sq)" "key (row_sub row sq) = key sq"
    "sq_running (row_sub row sq) = (if rowIsFilled row then {#rowSlot row#} else {#}) + sq_running sq"
    "sq_queued (row_sub row sq) = (if rowIsFilled row then {#} else {#rowSlot row#}) + sq_queued sq"
proof -
  define sq1 where "sq1 = (case rowMaxRuns row of None \<Rightarrow> sq | Some n \<Rightarrow> observeMaxRuns n (taskInsertedAtNs (rowSlot row)) sq)"
  have 1: "sub_inv cmp None sq1" "running sq1 = running sq" "queued sq1 = queued sq" "key sq1 = key sq"
    using inv observeMaxRuns_inv by (auto simp: sq1_def split: option.splits)
  have "keyed taskId index_cap (add_mset (rowSlot row) (sq_running sq1 + sq_queued sq1))" using keyed 1 by simp
  note add = sub_inv_drop_undo_free [OF ro 1(1) this]
  have eq: "row_sub row sq = (if rowIsFilled row then addRunning (rowSlot row) sq1 else enqueue (rowSlot row) sq1)"
    by (simp add: row_sub_def sq1_def Let_def)
  have "queued (enqueue (rowSlot row) sq1) \<noteq> None" by (simp add: enqueue_def Let_def)
  then show "sub_inv cmp None (row_sub row sq)" "tidy (row_sub row sq)" "key (row_sub row sq) = key sq"
    "sq_running (row_sub row sq) = (if rowIsFilled row then {#rowSlot row#} else {#}) + sq_running sq"
    "sq_queued (row_sub row sq) = (if rowIsFilled row then {#} else {#rowSlot row#}) + sq_queued sq"
    using add 1 tidy by (auto simp: eq tidy_def simp del: addRunning_frame(1))
qed

lemma buildRow_ok:
  assumes inv: "strategy_inv c"
    and keyed: "keyed taskId index_cap
      (add_mset (rowSlot row) (sq_running (start_of c (rowKey row)) + sq_queued (start_of c (rowKey row))))"
  shows "strategy_inv (buildRow row c)"
    "start_of (buildRow row c) k = (if k = rowKey row then row_sub row (start_of c k) else start_of c k)"
proof -
  let ?k = "rowKey row" and ?c = "buildRow row c"
  let ?sq = "row_sub row (start_of c ?k)"
  have ro: "running_order (stratCompare c)" using inv by (simp add: strategy_inv_def)
  note s = start_of_inv [OF inv, of ?k]
  note r = row_sub_ok [OF ro s(1) keyed s(3)]
  show "start_of ?c k = (if k = ?k then row_sub row (start_of c k) else start_of c k)"
    by (cases "subQueues c k") (simp_all add: start_of_cases buildRow_eq)
  have "resident_ok ?c" unfolding resident_ok_def
  proof
    fix f assume f: "f \<in> size_fields"
    have "f (resident c) + (\<Sum>k \<in> {?k}. f (size_minus (sub_size ?sq) (sub_size (start_of c ?k)))) =
        (\<Sum>k \<in> dom (subQueues ?c). f (sub_size (the (subQueues ?c k))))"
      by (rule resident_finish [OF inv _ _ _ f]) (simp_all add: buildRow_eq size_fields_arith [OF f])
    then show "f (resident ?c) = (\<Sum>k \<in> dom (subQueues ?c). f (sub_size (the (subQueues ?c k))))"
      by (simp add: buildRow_eq(2) size_fields_arith [OF f])
  qed
  with inv r s show "strategy_inv ?c" by (auto simp: strategy_inv_def buildRow_eq)
qed

definition row_slots :: "bool \<Rightarrow> string \<Rightarrow> indexRow list \<Rightarrow> slot multiset" where
  "row_slots filled k rows = mset (map rowSlot (filter (\<lambda>r. rowKey r = k \<and> rowIsFilled r = filled) rows))"

lemma buildRows_ok:
  assumes "strategy_inv c"
    "\<And>k. keyed taskId index_cap
      (row_slots True k rows + row_slots False k rows + (sq_running (start_of c k) + sq_queued (start_of c k)))"
  shows "strategy_inv (fold buildRow rows c) \<and>
    (\<forall>k. sq_running (start_of (fold buildRow rows c) k) = row_slots True k rows + sq_running (start_of c k) \<and>
         sq_queued (start_of (fold buildRow rows c) k) = row_slots False k rows + sq_queued (start_of c k))"
  using assms
proof (induction rows arbitrary: c)
  case (Cons row rows)
  let ?k = "rowKey row"
  have "keyed taskId index_cap (add_mset (rowSlot row) (sq_running (start_of c ?k) + sq_queued (start_of c ?k)))"
    by (rule keyed_mono [OF _ Cons.prems(2) [of ?k]]) (auto simp: row_slots_def)
  note b = buildRow_ok [OF Cons.prems(1) this]
  have ro: "running_order (stratCompare c)" using Cons.prems(1) by (simp add: strategy_inv_def)
  note s = start_of_inv [OF Cons.prems(1), of ?k]
  note r = row_sub_ok [OF ro s(1) \<open>keyed taskId index_cap (add_mset (rowSlot row) _)\<close> s(3)]
  have sz: "sq_running (start_of (buildRow row c) k) =
      (if k = ?k \<and> rowIsFilled row then {#rowSlot row#} else {#}) + sq_running (start_of c k)"
    "sq_queued (start_of (buildRow row c) k) =
      (if k = ?k \<and> \<not> rowIsFilled row then {#rowSlot row#} else {#}) + sq_queued (start_of c k)" for k
    using r(4,5) by (auto simp: b(2))
  have rs: "row_slots True k (row # rows) = (if k = ?k \<and> rowIsFilled row then {#rowSlot row#} else {#}) + row_slots True k rows"
    "row_slots False k (row # rows) = (if k = ?k \<and> \<not> rowIsFilled row then {#rowSlot row#} else {#}) + row_slots False k rows" for k
    by (auto simp: row_slots_def)
  have k: "keyed taskId index_cap (row_slots True k rows + row_slots False k rows +
      (sq_running (start_of (buildRow row c) k) + sq_queued (start_of (buildRow row c) k)))" for k
    using Cons.prems(2) [of k] by (simp add: sz rs ac_simps split: if_splits)
  from Cons.IH [OF b(1) k] show ?case by (auto simp: sz rs)
qed (simp add: row_slots_def)

text \<open>
  The observation of a limit with the newest timestamp wins, so the order of the rows of a build
  does not matter when the timestamps are distinct.
\<close>

abbreviation observe_all :: "(int \<times> int) list \<Rightarrow> subQueue \<Rightarrow> subQueue" where
  "observe_all obs sq \<equiv> fold (\<lambda>(n, ns). observeMaxRuns n ns) obs sq"

lemma observe_all_older: "\<forall>x \<in> set obs. snd x < maxRunsFrom sq \<Longrightarrow> observe_all obs sq = sq"
  by (induction obs) (auto simp: observeMaxRuns_def)

lemma observe_all_bound: "maxRunsFrom sq \<le> b \<Longrightarrow> \<forall>x \<in> set obs. snd x \<le> b \<Longrightarrow> maxRunsFrom (observe_all obs sq) \<le> b"
  by (induction obs arbitrary: sq) (auto simp: observeMaxRuns_def)

lemma observe_all_overwrite:
  "(observe_all obs sq)\<lparr>maxRuns := n, maxRunsFrom := ns\<rparr> = sq\<lparr>maxRuns := n, maxRunsFrom := ns\<rparr>"
  by (induction obs arbitrary: sq) (auto simp: observeMaxRuns_def)

lemma observe_all_newest:
  assumes "(n, ns) \<in> set obs" "\<forall>x \<in> set obs. snd x \<le> ns" "distinct (map snd obs)" "maxRunsFrom sq \<le> ns"
  shows "observe_all obs sq = sq\<lparr>maxRuns := n, maxRunsFrom := ns\<rparr>"
proof -
  obtain as bs where o: "obs = as @ (n, ns) # bs" using assms(1) by (meson split_list)
  have "maxRunsFrom (observe_all as sq) \<le> ns" by (rule observe_all_bound) (use assms o in auto)
  then have "observe_all (as @ [(n, ns)]) sq = sq\<lparr>maxRuns := n, maxRunsFrom := ns\<rparr>"
    using observe_all_overwrite [where obs = as and sq = sq and n = n and ns = ns] by (auto simp: observeMaxRuns_def)
  moreover have "\<forall>x \<in> set bs. snd x < ns" using assms(2,3) unfolding o by (force simp: order_less_le)
  ultimately show ?thesis using observe_all_older [of bs] by (simp add: o)
qed

lemma observe_all_perm:
  assumes "mset obs = mset obs'" "distinct (map snd obs)"
  shows "observe_all obs sq = observe_all obs' sq"
proof (cases "\<forall>x \<in> set obs. snd x < maxRunsFrom sq")
  case True
  moreover have "set obs' = set obs" using assms(1) by (metis set_mset_mset)
  ultimately show ?thesis by (simp add: observe_all_older)
next
  case False
  have same: "set obs' = set obs" "distinct (map snd obs')"
    using assms by (metis set_mset_mset, metis distinct_map_mset)
  let ?ns = "Max (snd ` set obs)"
  have "?ns \<in> snd ` set obs" by (rule Max_in) (use False in auto)
  then obtain n where n: "(n, ?ns) \<in> set obs" by force
  have le: "\<forall>x \<in> set obs. snd x \<le> ?ns" by simp
  then have "maxRunsFrom sq \<le> ?ns" using False by (metis not_less order_trans)
  with observe_all_newest [of n ?ns] n le same assms(2) show ?thesis by metis
qed

section \<open>Changing the limit\<close>

lemma updateLimit_scope:
  assumes "sub_inv cmp (Some s0) sq" "maxRunsFrom sq = 0"
  shows "sub_inv cmp (Some (s0\<lparr>maxRuns := n\<rparr>)) (updateLimit n sq)"
  using assms by (auto simp: sub_inv_def updateLimit_def scope_mode_def sub_size_def)

lemma updateLimit_inv: "sub_inv cmp None sq \<Longrightarrow> sub_inv cmp None (updateLimit n sq)"
  by (auto simp: sub_inv_def updateLimit_def scope_mode_def)

lemma updateLimit_frame [simp]:
  "running (updateLimit n sq) = running sq" "queued (updateLimit n sq) = queued sq" "key (updateLimit n sq) = key sq"
  "maxRunsFrom (updateLimit n sq) = maxRunsFrom sq"
  by (simp_all add: updateLimit_def)

lemma UpdateStrategy_inv:
  assumes inv: "strategy_inv c"
  shows "strategy_inv (UpdateStrategy next c)"
proof -
  have d: "dom (subQueues (UpdateStrategy next c)) = dom (subQueues c)"
    by (auto simp: UpdateStrategy_def)
  have sz: "sub_size (updateLimit n sq) = sub_size sq" for n sq by (simp add: sub_size_def)
  have "resident_ok (UpdateStrategy next c)"
    unfolding resident_ok_def d
  proof
    fix f assume f: "f \<in> size_fields"
    have "(\<Sum>k \<in> dom (subQueues c). f (sub_size (the (subQueues (UpdateStrategy next c) k)))) =
        (\<Sum>k \<in> dom (subQueues c). f (sub_size (the (subQueues c k))))"
      by (rule sum.cong) (auto simp: UpdateStrategy_def sz)
    then show "f (resident (UpdateStrategy next c)) =
        (\<Sum>k \<in> dom (subQueues c). f (sub_size (the (subQueues (UpdateStrategy next c) k))))"
      using inv f by (simp add: strategy_inv_def resident_ok_def UpdateStrategy_def)
  qed
  with inv d show ?thesis
    by (auto simp: strategy_inv_def UpdateStrategy_def tidy_def intro: updateLimit_inv)
qed

section \<open>Properties\<close>

text \<open>A strategy with one hydrated key, for the examples.\<close>

definition example_step :: "V1ConcurrencyStrategy \<Rightarrow> int \<Rightarrow> stepConcurrency" where
  "example_step kind limit = \<lparr>StrategyID = 7, TenantID = ''t'', StrategyKind = kind, MaxConcurrency = limit\<rparr>"

definition example_row :: "int \<Rightarrow> bool \<Rightarrow> indexRow" where
  "example_row t filled =
     \<lparr>rowKey = ''k'', rowSlot = example_slot t 1 (100 * t), rowIsFilled = filled, rowMaxRuns = None\<rparr>"

definition example_strategy :: "V1ConcurrencyStrategy \<Rightarrow> (unit, unit) concurrencyStrategy" where
  "example_strategy kind =
     snd (buildIndex True True [example_row 1 True, example_row 2 False] (NewConcurrencyStrategy (example_step kind 3)))"

lemma NewConcurrencyStrategy_inv:
  "strategy_inv (NewConcurrencyStrategy s)"
  "sq_running (start_of (NewConcurrencyStrategy s) k) = {#}" "sq_queued (start_of (NewConcurrencyStrategy s) k) = {#}"
  by (simp_all add: strategy_inv_def NewConcurrencyStrategy_def resident_ok_def size_fields_arith running_order_strategy
      start_of_cases newSubQueue_def emptyRunning_def running_contents_def)

text \<open>
  Building the index from database rows with one row per task of a key gives a well-formed
  strategy (every sub-queue consistent, resident counts exact) in which every key holds exactly
  its filled rows as running slots and its unfilled rows as queued slots.
\<close>

theorem buildIndex_hydrates:
  fixes c :: "('q, 'c) concurrencyStrategy"
  assumes "\<And>k. keyed taskId index_cap (row_slots True k rows + row_slots False k rows)"
    "buildIndex True True rows (NewConcurrencyStrategy s) = (ok, c)"
  shows "ok \<and> strategy_inv c \<and>
    (\<forall>k. sq_running (start_of c k) = row_slots True k rows \<and> sq_queued (start_of c k) = row_slots False k rows)"
proof -
  let ?c0 = "NewConcurrencyStrategy s :: ('q, 'c) concurrencyStrategy"
  have "keyed taskId index_cap (row_slots True k rows + row_slots False k rows +
      (sq_running (start_of ?c0 k) + sq_queued (start_of ?c0 k)))" for k
    using assms(1) [of k] by (simp add: NewConcurrencyStrategy_inv)
  from buildRows_ok [OF NewConcurrencyStrategy_inv(1) this] assms(2) show ?thesis
    by (simp add: buildIndex_def NewConcurrencyStrategy_inv)
qed

lemma example_rows_keyed:
  "keyed taskId index_cap (row_slots True k [example_row 1 True, example_row 2 False] +
     row_slots False k [example_row 1 True, example_row 2 False])"
  by (simp add: row_slots_def example_row_def keyed_add_mset index_cap_def)

theorem buildIndex_hydrates_witness:
  "strategy_inv (example_strategy GROUP_ROUND_ROBIN) \<and>
   sq_queued (start_of (example_strategy GROUP_ROUND_ROBIN) ''k'') = {#example_slot 2 1 200#}"
proof -
  obtain ok c where b: "buildIndex True True [example_row 1 True, example_row 2 False]
      (NewConcurrencyStrategy (example_step GROUP_ROUND_ROBIN 3) :: (unit, unit) concurrencyStrategy) = (ok, c)"
    by (metis prod.exhaust)
  from buildIndex_hydrates [OF example_rows_keyed b] b show ?thesis
    by (simp add: example_strategy_def row_slots_def example_row_def)
qed

lemma example_strategy_inv:
  "strategy_inv (example_strategy kind)"
  "sq_running (start_of (example_strategy kind) ''k'') = {#example_slot 1 1 100#}"
  "sq_queued (start_of (example_strategy kind) ''k'') = {#example_slot 2 1 200#}"
  "strategy (example_strategy kind) = example_step kind 3"
  "maxRuns (start_of (example_strategy kind) ''k'') = 3"
  "maxRunsFrom (start_of (example_strategy kind) ''k'') = 0"
proof -
  let ?rows = "[example_row 1 True, example_row 2 False]"
  let ?c0 = "NewConcurrencyStrategy (example_step kind 3) :: (unit, unit) concurrencyStrategy"
  have "keyed taskId index_cap (row_slots True k ?rows + row_slots False k ?rows +
      (sq_running (start_of ?c0 k) + sq_queued (start_of ?c0 k)))" for k
    using example_rows_keyed [of k] by (simp add: NewConcurrencyStrategy_inv)
  note r = buildRows_ok [OF NewConcurrencyStrategy_inv(1) this]
  show "strategy_inv (example_strategy kind)"
    "sq_running (start_of (example_strategy kind) ''k'') = {#example_slot 1 1 100#}"
    "sq_queued (start_of (example_strategy kind) ''k'') = {#example_slot 2 1 200#}"
    using r by (simp_all add: example_strategy_def buildIndex_def NewConcurrencyStrategy_inv row_slots_def
        example_row_def del: fold_simps)
  show "strategy (example_strategy kind) = example_step kind 3"
    by (simp add: example_strategy_def buildIndex_def buildRow_eq NewConcurrencyStrategy_def)
  show "maxRuns (start_of (example_strategy kind) ''k'') = 3" "maxRunsFrom (start_of (example_strategy kind) ''k'') = 0"
    by (simp_all add: example_strategy_def buildIndex_def buildRow_eq start_of_cases row_sub_def example_row_def
        NewConcurrencyStrategy_def newSubQueue_def example_step_def Let_def)
qed

lemma example_view:
  "key_view (example_strategy kind) ''k'' = ({#example_slot 1 1 100#}, {#example_slot 2 1 200#}, 3, 0)"
  by (simp add: key_view_def example_strategy_inv)

definition example_schedule :: schedule where
  "example_schedule = \<lparr>mapOrder = [''k''], finishOrder = [''k''], batchNowMs = 50\<rparr>"

definition example_call :: "bool \<Rightarrow> (walMessage, unit, unit, unit) outboxCall" where
  "example_call ok =
     \<lparr>callPayloads = [example_message ''INSERT'' 5 0], callFlushes = True, callSchedule = example_schedule,
      callDb = (\<lambda>_ _ _ _. Inr \<lparr>resQueued = [()], resCancelled = [], resNextStrategies = []\<rparr>), callTxOk = ok\<rparr>"

lemma example_grouped:
  "groupMessagesBySubQueue [example_message ''INSERT'' 5 0] = [''k'' \<mapsto> [example_message ''INSERT'' 5 0]]"
  by (auto simp: groupMessagesBySubQueue_def GroupBy_filter example_message_def fun_eq_iff)

lemma example_call_fits: "decide kind \<noteq> None \<Longrightarrow> call_fits Some (example_call ok) (example_strategy kind)"
  by (simp add: call_fits_def example_call_def example_strategy_inv example_step_def example_grouped batch_fits_def
      example_schedule_def msgs_of_def index_cap_def valid_limit_def)
    (simp add: example_message_def)

text \<open>
  C3. When a batch fails - its payload cannot be decoded, its slot writes fail, or the outbox
  transaction fails after the flush - the run returns the error with the results committed before,
  and the strategy is back where it was: every key has the running slots, queued slots and limit it
  had before, the counts of running slots, queued slots and queued keys are what they were, no
  scope stays open and no result of the batch is left to be reported. Only the count of runners in
  large indexes may differ; it is again the exact sum over the keys.
\<close>

theorem failed_batch_restores_state:
  assumes "strategy_inv c" "call_fits unmarshal call c" "processMessages unmarshal call c = Some (Some err, c1)"
  shows "\<exists>c'. run_loop unmarshal (call # calls) committed c = Some (mergeResults committed, Some err, c') \<and>
    strategy_inv c' \<and> key_view c' = key_view c \<and> pending c' = [] \<and> openScopes c' = [] \<and>
    rsRunning (resident c') = rsRunning (resident c) \<and> rsQueued (resident c') = rsQueued (resident c) \<and>
    rsQueuedKeys (resident c') = rsQueuedKeys (resident c)"
proof -
  obtain e c2 where "processMessages unmarshal call c = Some (e, c2)" "batch_open c (openScopes c2) c2"
    using processMessages_open [OF assms(1,2)] by blast
  then have "batch_open c (openScopes c1) c1" using assms(3) by simp
  note r = batch_rolled_back [OF assms(1) this]
  have "openScopes (rollbackScopes (snd (takePending c1))) = []" by (simp add: rollbackScopes_def)
  with r same_view_same_counts [OF assms(1) r(1,2)] assms(3) show ?thesis by simp
qed

theorem failed_batch_restores_state_witness:
  "\<exists>c'. run_loop Some [example_call False] [] (example_strategy CANCEL_IN_PROGRESS) =
       Some (mergeResults [], Some (OutboxFailed None), c') \<and>
     key_view c' ''k'' = ({#example_slot 1 1 100#}, {#example_slot 2 1 200#}, 3, 0)"
proof -
  let ?c = "example_strategy CANCEL_IN_PROGRESS"
  have fits: "call_fits Some (example_call False) ?c" by (rule example_call_fits) simp
  obtain res c1 where w: "processWALMessages example_schedule (callDb (example_call False)) [example_message ''INSERT'' 5 0] ?c = Some (res, c1)"
    using processWALMessages_open [where db = "callDb (example_call False)", OF example_strategy_inv(1)] fits
    by (force simp: call_fits_def example_call_def)
  have "res = Inr \<lparr>resQueued = [()], resCancelled = [], resNextStrategies = []\<rparr>"
    using w by (auto simp: processWALMessages_def processStrategy_def flushToDatabase_def example_call_def Let_def
        split: option.splits prod.splits)
  then obtain c2 where p: "processMessages Some (example_call False) ?c = Some (Some (OutboxFailed None), c2)"
    using w by (simp add: processMessages_def Flush_def example_call_def)
  from failed_batch_restores_state [OF example_strategy_inv(1) fits p, of "[]" "[]"] show ?thesis
    by (auto simp only: example_view)
qed

text \<open>
  C20. After a batch commits, the strategy is well-formed again with exact resident counts; a touched
  key that the batch emptied is gone from the index, every other touched key keeps what the batch
  made of it, and an untouched key is unchanged.
\<close>

theorem committed_batch_settles:
  assumes "strategy_inv c" "call_fits unmarshal call c" "processMessages unmarshal call c = Some (None, c1)"
  shows "strategy_inv (settle c1) \<and>
    (\<forall>k \<in> set (openScopes c1). \<exists>sq. subQueues c1 k = Some sq \<and>
       (if sub_empty sq then subQueues (settle c1) k = None else key_view (settle c1) k = key_view c1 k)) \<and>
    (\<forall>k. k \<notin> set (openScopes c1) \<longrightarrow> subQueues (settle c1) k = subQueues c k)"
proof -
  obtain e c2 where "processMessages unmarshal call c = Some (e, c2)" "batch_open c (openScopes c2) c2"
    using processMessages_open [OF assms(1,2)] by blast
  then have o: "batch_open c (openScopes c1) c1" using assms(3) by simp
  have "\<exists>sq. subQueues c1 k = Some sq" if "k \<in> set (openScopes c1)" for k
    using o that by (auto simp: batch_open_def in_batch_def)
  with batch_committed [OF assms(1) o] show ?thesis by metis
qed

lemma example_call_ok:
  "decide kind \<noteq> None \<Longrightarrow>
    \<exists>c1. processMessages Some (example_call True) (example_strategy kind) = Some (None, c1)"
proof -
  assume d: "decide kind \<noteq> None"
  have fits: "call_fits Some (example_call True) (example_strategy kind)" by (rule example_call_fits [OF d])
  obtain res c1 where w: "processWALMessages example_schedule (callDb (example_call True))
      [example_message ''INSERT'' 5 0] (example_strategy kind) = Some (res, c1)"
    using processWALMessages_open [where db = "callDb (example_call True)", OF example_strategy_inv(1)] fits
    by (force simp: call_fits_def example_call_def)
  have "res = Inr \<lparr>resQueued = [()], resCancelled = [], resNextStrategies = []\<rparr>"
    using w by (auto simp: processWALMessages_def processStrategy_def flushToDatabase_def example_call_def Let_def
        split: option.splits prod.splits)
  then show ?thesis using w by (simp add: processMessages_def Flush_def example_call_def)
qed

theorem committed_batch_settles_witness:
  "\<exists>c1. processMessages Some (example_call True) (example_strategy CANCEL_NEWEST) = Some (None, c1) \<and>
     strategy_inv (settle c1)"
proof -
  obtain c1 where p: "processMessages Some (example_call True) (example_strategy CANCEL_NEWEST) = Some (None, c1)"
    using example_call_ok [of CANCEL_NEWEST] by auto
  have "call_fits Some (example_call True) (example_strategy CANCEL_NEWEST)" by (rule example_call_fits) simp
  from committed_batch_settles [OF example_strategy_inv(1) this p] p show ?thesis by blast
qed

text \<open>
  C21. \<open>Run\<close> returns and leaves a well-formed strategy with exact resident counts, no open scope and,
  if the index is built, no result left over, whatever of its database and outbox calls fail: for a
  known strategy kind, when one outbox call finds the topic drained, no key outgrows the
  index and all limits are in the accepted range. While the index is being built it reports that and
  changes nothing; when the initial queueing pass fails, every key is as before and the pass runs again.
\<close>

theorem run_returns_well_formed:
  assumes "strategy_inv c" "decide (StrategyKind (strategy c)) \<noteq> None"
    "\<not> initialQueued c \<longrightarrow> batch_fits sch (queueAll_grouped c) c"
    "\<And>res c1. runInitialQueueing sch db (snd (takePending c)) = Some (Inr res, c1) \<Longrightarrow> calls_fit unmarshal calls c1"
    "\<exists>call \<in> set calls. callPayloads call = []"
  shows "\<exists>res err c'. Run unmarshal sch db calls c = Some (res, err, c') \<and> strategy_inv c' \<and>
    (if built c then pending c' = [] else err = Some IndexStillBuilding \<and> c' = c) \<and>
    (\<forall>e. err = Some (InitialQueueingFailed e) \<longrightarrow> key_view c' = key_view c \<and> \<not> initialQueued c')"
proof (cases "built c")
  case False
  with assms(1) show ?thesis by (simp add: Run_def)
next
  case True
  let ?c = "snd (takePending c)"
  have tp: "strategy_inv ?c" "strategy ?c = strategy c" "queueAll_grouped ?c = queueAll_grouped c"
    "start_of ?c k = start_of c k" "initialQueued ?c = initialQueued c" "pending ?c = []" for k
    using assms(1) by (simp_all add: takePending_def strategy_inv_def resident_ok_def queueAll_grouped_def fun_eq_iff
        start_of_def getOrCreateSubQueue_def Let_def split: option.split)
  have fits: "\<not> initialQueued ?c \<longrightarrow> batch_fits sch (queueAll_grouped ?c) ?c"
    using assms(3) by (simp add: tp batch_fits_def)
  have "decide (StrategyKind (strategy ?c)) \<noteq> None" using assms(2) by (simp add: tp)
  from runInitialQueueing_ok [where db = db, OF tp(1) this fits] obtain res c1 where
    q: "runInitialQueueing sch db ?c = Some (res, c1)" "strategy_inv c1" "pending c1 = []"
      "case res of Inl e \<Rightarrow> key_view c1 = key_view ?c \<and> \<not> initialQueued c1 | Inr _ \<Rightarrow> initialQueued c1"
    unfolding tp(6) by blast
  have view: "key_view ?c = key_view c" by (simp add: key_view_def tp fun_eq_iff)
  show ?thesis
  proof (cases res)
    case (Inl e)
    then show ?thesis using True q view by (simp add: Run_def)
  next
    case (Inr x)
    have fits: "calls_fit unmarshal calls c1" using assms(4) q(1) Inr by blast
    obtain r where "run_loop unmarshal calls [x] c1 = Some r" using run_loop_returns [OF q(2) fits assms(5)] by blast
    moreover obtain m err c' where "r = (m, err, c')" by (cases r)
    ultimately have l: "run_loop unmarshal calls [x] c1 = Some (m, err, c')" by simp
    have "err \<noteq> Some (InitialQueueingFailed e)" for e by (rule run_loop_error [OF l])
    with run_loop_inv [OF q(2) fits l] l True q(1) Inr show ?thesis by (simp add: Run_def)
  qed
qed

definition example_drained :: "(walMessage, unit, unit, unit) outboxCall" where
  "example_drained = (example_call True)\<lparr>callPayloads := [], callFlushes := False\<rparr>"

definition example_built :: "(unit, unit) concurrencyStrategy" where
  "example_built = (example_strategy GROUP_ROUND_ROBIN)\<lparr>built := True\<rparr>"

theorem run_returns_well_formed_witness:
  "\<exists>res err c'. Run Some example_schedule (\<lambda>_ _ _ _. Inl ()) [example_drained] example_built = Some (res, err, c') \<and>
     strategy_inv c' \<and> pending c' = []"
proof -
  have s: "start_of example_built k = start_of (example_strategy GROUP_ROUND_ROBIN) k" for k
    by (simp add: example_built_def start_of_def getOrCreateSubQueue_def Let_def split: option.split)
  have dom: "dom (subQueues example_built) = {''k''}"
    by (auto simp: example_built_def example_strategy_def buildIndex_def buildRow_eq NewConcurrencyStrategy_def
        example_row_def split: if_splits)
  then obtain sq where sq: "subQueues example_built ''k'' = Some sq" by blast
  then have "sq_queued sq = {#example_slot 2 1 200#}"
    using s [of "''k''"] example_strategy_inv(3) [of GROUP_ROUND_ROBIN] by (simp add: start_of_cases(1))
  then have "\<not> queueAll_skips sq"
    by (simp add: queueAll_skips_def index_len_contents del: index_len.simps)
  then have g: "queueAll_grouped example_built = [''k'' \<mapsto> []]"
    using dom sq by (auto simp: queueAll_grouped_def fun_eq_iff split: option.split)
  have inv: "strategy_inv example_built"
    using example_strategy_inv(1) by (simp add: example_built_def strategy_inv_def resident_ok_def)
  have fits: "batch_fits example_schedule (queueAll_grouped example_built) example_built"
    by (simp add: g batch_fits_def example_schedule_def s example_strategy_inv msgs_of_def index_cap_def valid_limit_def)
  have "\<exists>res err c'. Run Some example_schedule (\<lambda>_ _ _ _. Inl ()) [example_drained] example_built = Some (res, err, c') \<and>
      strategy_inv c' \<and>
      (if built example_built then pending c' = [] else err = Some IndexStillBuilding \<and> c' = example_built) \<and>
      (\<forall>e. err = Some (InitialQueueingFailed e) \<longrightarrow> key_view c' = key_view example_built \<and> \<not> initialQueued c')"
    by (rule run_returns_well_formed [OF inv])
      (use fits in \<open>simp_all add: example_built_def example_strategy_inv example_step_def example_drained_def
        call_fits_def split: option.splits prod.splits\<close>)
  then show ?thesis by (auto simp: example_built_def)
qed



text \<open>
  The limit a key ends up with does not depend on the order in which its observations arrive, as
  long as their timestamps differ: the observation of the newest task wins.
\<close>

theorem observeMaxRuns_order_irrelevant:
  assumes "mset obs = mset obs'" "distinct (map snd obs)"
  shows "fold (\<lambda>(n, ns). observeMaxRuns n ns) obs sq = fold (\<lambda>(n, ns). observeMaxRuns n ns) obs' sq"
  using observe_all_perm [OF assms] .

theorem observeMaxRuns_order_irrelevant_witness:
  "maxRuns (fold (\<lambda>(n, ns). observeMaxRuns n ns) [(8, 20), (4, 10)] (example_queue GROUP_ROUND_ROBIN 2)) = 8"
  using observeMaxRuns_order_irrelevant [of "[(8, 20), (4, 10)]" "[(4, 10), (8, 20)]" "example_queue GROUP_ROUND_ROBIN 2"]
  by (simp add: observeMaxRuns_def example_queue_def newSubQueue_def add_mset_commute)

text \<open>The limit of a key of an open batch after a changed definition and a rollback.\<close>

lemma updateLimit_rolled_back:
  assumes "strategy_inv c" "batch_open c ks c1" "k \<in> set ks"
  shows "\<exists>sq. subQueues c1 k = Some sq \<and> maxRunsFrom (snd (sub_rollback (updateLimit n sq))) = maxRunsFrom (start_of c k) \<and>
    maxRuns (snd (sub_rollback (updateLimit n sq))) = (if maxRunsFrom sq = 0 then n else maxRuns (start_of c k))"
proof -
  have ro: "running_order (stratCompare c)" using assms(1) by (simp add: strategy_inv_def)
  obtain sq where sq: "subQueues c1 k = Some sq" "sub_inv (stratCompare c) (Some (start_of c k)) sq"
    using assms(2,3) by (auto simp: batch_open_def in_batch_def)
  show ?thesis
  proof (cases "maxRunsFrom sq = 0")
    case True
    with running_order.sub_rollback_inv(5,6) [OF ro updateLimit_scope [OF sq(2) True]] sq(1) show ?thesis by simp
  next
    case False
    then have "updateLimit n sq = sq" by (simp add: updateLimit_def)
    with running_order.sub_rollback_inv(5,6) [OF ro sq(2)] sq(1) False show ?thesis by simp
  qed
qed


text \<open>A batch that fails after it observed a dynamic limit.\<close>

definition example_observing :: "(walMessage, unit, unit, unit) outboxCall" where
  "example_observing =
     (example_call False)\<lparr>callPayloads := [(example_message ''INSERT'' 5 0)\<lparr>msgMaxRuns := Some 8\<rparr>]\<rparr>"

lemma example_observing_eval:
  "map_option (\<lambda>(e, c1). (e, openScopes c1, map_option maxRunsFrom (subQueues c1 ''k'')))
     (processMessages Some example_observing (example_strategy GROUP_ROUND_ROBIN)) =
   Some (Some (OutboxFailed None), [''k''], Some 1005)"
  by code_simp


text \<open>
  The queueing pass may skip a key that has nothing queued and runs within its limit: no strategy
  kind would fill or cancel a slot there, so the skipped decision would change nothing.
\<close>

theorem queueAll_skip_sound:
  assumes "sub_inv (comparatorForStrategy kind) S sq" "limit_ok sq" "queueAll_skips sq" "decide kind = Some d"
  shows "\<exists>sq'. d sq = Some ([], [], sq') \<and> sq_running sq' = sq_running sq \<and> sq_queued sq' = sq_queued sq"
proof -
  have "sq_queued sq = {#}" using assms(3) by (simp add: queueAll_skips_def index_len_contents del: index_len.simps)
  with skipped_decision_idle [OF running_order_strategy assms] show ?thesis by simp
qed

theorem queueAll_skip_sound_witness:
  "\<exists>sq'. decideCancelInProgress (fold addRunning [example_slot 1 1 100]
     (newSubQueue ''k'' 2 (comparatorForStrategy CANCEL_IN_PROGRESS))) = Some ([], [], sq')"
proof -
  let ?new = "newSubQueue ''k'' 2 (comparatorForStrategy CANCEL_IN_PROGRESS)"
  let ?sq = "fold addRunning [example_slot 1 1 100] ?new"
  have 0: "sq_running ?new = {#}" "sq_queued ?new = {#}"
    by (simp_all add: newSubQueue_def emptyRunning_def running_contents_def)
  have "keyed taskId index_cap (mset [example_slot 1 1 100] + (sq_running ?new + sq_queued ?new))"
    unfolding 0 by (simp add: keyed_add_mset index_cap_def)
  note 1 = strategy_order.fold_addRunning_inv [OF newSubQueue_inv this, unfolded 0]
  have 2: "queued ?sq = None" "maxRuns ?sq = 2"
    by (simp_all only: fold_addRunning_frame) (simp_all add: newSubQueue_def)
  have "limit_ok ?sq" "queueAll_skips ?sq"
    using 1 2 unfolding limit_ok_def queueAll_skips_def running_len_contents by simp_all
  from queueAll_skip_sound [OF conjunct1 [OF 1] this, of decideCancelInProgress] show ?thesis by auto
qed

end
