(* ===== verification/Slot_Pool.thy ===== *)
theory Slot_Pool
  imports Hatchet_Prelude
begin

text \<open>
  Schedulable capacity of workers (\<open>src/pkg/scheduling/v1/slot.go\<close>, \<open>slot_pool.go\<close>). Slots and pools
  are shared by pointer: a pool lists its slots, a slot points back to its pool, and an assignment
  keeps the slots it took. They therefore live in a memory, addressed by numbers, and every
  operation passes the memory on. A slot keeps the id of its worker, the only part of the worker
  the code reads through a slot. A worker id is the number its 16 bytes spell in big-endian order.

  An operation that indexes a slice out of range or goes through a nil pool panics in Go: it is
  \<open>None\<close> here, and the lemmas show that it does not happen.
\<close>

section \<open>Model\<close>

type_synonym uuid = nat

type_synonym poolKey = "uuid \<times> string"

record wslot =
  slotWorker :: uuid
  slotPool :: "nat option"
  slotType :: string
  slotIdx :: nat
  slotUsed :: bool

record slotPool =
  poolWorker :: uuid
  poolSlotType :: string
  poolExpiresAt :: int
  poolSlots :: "nat list"
  poolFree :: "nat list"

record poolMem =
  slotAt :: "nat \<Rightarrow> wslot"
  slotNext :: nat
  poolAt :: "nat \<Rightarrow> slotPool"
  poolNext :: nat

definition defaultSlotExpiry :: int where
  "defaultSlotExpiry = 1500 * 1000000"

definition staleAt :: "int \<Rightarrow> slotPool option \<Rightarrow> bool" where
  "staleAt now p = (case p of None \<Rightarrow> True | Some pl \<Rightarrow> \<not> poolExpiresAt pl > now)"

definition freeCountAt :: "int \<Rightarrow> slotPool option \<Rightarrow> int" where
  "freeCountAt now p =
     (if staleAt now p then 0 else case p of None \<Rightarrow> 0 | Some pl \<Rightarrow> int (length (poolFree pl)))"

definition setUsed :: "nat \<Rightarrow> bool \<Rightarrow> poolMem \<Rightarrow> poolMem" where
  "setUsed sl b m = m\<lparr>slotAt := (slotAt m)(sl := (slotAt m sl)\<lparr>slotUsed := b\<rparr>)\<rparr>"

definition setFree :: "nat \<Rightarrow> nat list \<Rightarrow> poolMem \<Rightarrow> poolMem" where
  "setFree p fs m = m\<lparr>poolAt := (poolAt m)(p := (poolAt m p)\<lparr>poolFree := fs\<rparr>)\<rparr>"

fun pool_take :: "nat option \<Rightarrow> poolMem \<Rightarrow> (nat option \<times> poolMem) option" where
  "pool_take None m = None"
| "pool_take (Some p) m =
     (let pl = poolAt m p
      in if poolFree pl = [] then Some (None, m)
         else
           let idx = last (poolFree pl);
               m1 = setFree p (butlast (poolFree pl)) m
           in if idx < length (poolSlots pl)
              then Some (Some (poolSlots pl ! idx), setUsed (poolSlots pl ! idx) True m1)
              else None)"

definition pool_release :: "nat \<Rightarrow> nat \<Rightarrow> poolMem \<Rightarrow> poolMem" where
  "pool_release p sl m =
     (if \<not> slotUsed (slotAt m sl) then m
      else
        let m1 = setUsed sl False m
        in setFree p (poolFree (poolAt m1 p) @ [slotIdx (slotAt m1 sl)]) m1)"

text \<open>The loop of \<open>reset\<close> over the remaining slots, the first of which has index \<open>i\<close>.\<close>

fun reset_loop :: "nat \<Rightarrow> nat \<Rightarrow> nat list \<Rightarrow> poolMem \<Rightarrow> poolMem" where
  "reset_loop p i [] m = m"
| "reset_loop p i (sl # sls) m =
     (let m1 = m\<lparr>slotAt := (slotAt m)(sl := (slotAt m sl)\<lparr>slotPool := Some p, slotIdx := i\<rparr>)\<rparr>
      in reset_loop p (Suc i) sls
           (if slotUsed (slotAt m1 sl) then m1 else setFree p (poolFree (poolAt m1 p) @ [i]) m1))"

definition pool_reset :: "nat \<Rightarrow> nat list \<Rightarrow> int \<Rightarrow> poolMem \<Rightarrow> poolMem" where
  "pool_reset p sls expiresAt m =
     reset_loop p 0 sls
       (m\<lparr>poolAt := (poolAt m)(p := (poolAt m p)\<lparr>poolSlots := sls, poolExpiresAt := expiresAt,
                                                  poolFree := []\<rparr>)\<rparr>)"

text \<open>
  The slots reserved for one assignment. The two rate-limit closures of the source settle or
  release the reservation of one task, or do nothing.
\<close>

record assignedSlots =
  asSlots :: "nat list"
  asReservation :: "int option"

definition assigned_workerId :: "poolMem \<Rightarrow> assignedSlots \<Rightarrow> uuid" where
  "assigned_workerId m a = (case asSlots a of [] \<Rightarrow> 0 | sl # _ \<Rightarrow> slotWorker (slotAt m sl))"

section \<open>The freelist is exact\<close>

text \<open>
  A pool at address \<open>p\<close> is well formed when its slots are distinct, each points back to the pool
  with its own index, and the freelist holds, without repetition, exactly the indexes of the slots
  that are not in use.
\<close>

definition pool_ok :: "poolMem \<Rightarrow> nat \<Rightarrow> bool" where
  "pool_ok m p \<longleftrightarrow>
     (let pl = poolAt m p in
        distinct (poolSlots pl) \<and> distinct (poolFree pl) \<and>
        set (poolFree pl) \<subseteq> {..<length (poolSlots pl)} \<and>
        (\<forall>i<length (poolSlots pl).
           let sl = poolSlots pl ! i in
             sl < slotNext m \<and> slotPool (slotAt m sl) = Some p \<and> slotIdx (slotAt m sl) = i \<and>
             slotWorker (slotAt m sl) = poolWorker pl \<and> slotType (slotAt m sl) = poolSlotType pl \<and>
             (slotUsed (slotAt m sl) \<longleftrightarrow> i \<notin> set (poolFree pl))))"

text \<open>The next lemma states the shape of an operation that touches one pool and one slot of it.\<close>

lemma pool_ok_other:
  assumes "pool_ok m q" "q \<noteq> p"
    and "\<And>sl. slotPool (slotAt m sl) = Some q \<Longrightarrow> slotAt m' sl = slotAt m sl"
    and "poolAt m' q = poolAt m q" "slotNext m \<le> slotNext m'"
  shows "pool_ok m' q"
proof -
  have "slotAt m' (poolSlots (poolAt m q) ! i) = slotAt m (poolSlots (poolAt m q) ! i)"
    if "i < length (poolSlots (poolAt m q))" for i
    using assms(1,3) that by (auto simp: pool_ok_def Let_def)
  then show ?thesis
    using assms(1,4,5) by (auto simp: pool_ok_def Let_def intro: less_le_trans)
qed

lemma pool_slot_ref:
  assumes "pool_ok m p" "sl \<in> set (poolSlots (poolAt m p))"
  shows "slotPool (slotAt m sl) = Some p" "sl < slotNext m"
    "slotIdx (slotAt m sl) < length (poolSlots (poolAt m p))"
    "poolSlots (poolAt m p) ! slotIdx (slotAt m sl) = sl"
    "slotWorker (slotAt m sl) = poolWorker (poolAt m p)"
    "slotType (slotAt m sl) = poolSlotType (poolAt m p)"
  using assms by (auto simp: pool_ok_def Let_def in_set_conv_nth)

text \<open>Taking a slot: it was free, it is used afterwards, and nothing else changes.\<close>

lemma pool_take_ok:
  assumes ok: "pool_ok m p" and free: "poolFree (poolAt m p) \<noteq> []"
  obtains sl m' where "pool_take (Some p) m = Some (Some sl, m')"
    "sl \<in> set (poolSlots (poolAt m p))" "\<not> slotUsed (slotAt m sl)"
    "m' = setUsed sl True (setFree p (butlast (poolFree (poolAt m p))) m)" "pool_ok m' p"
proof -
  let ?pl = "poolAt m p"
  let ?i = "last (poolFree ?pl)"
  let ?sl = "poolSlots ?pl ! ?i"
  let ?m = "setUsed ?sl True (setFree p (butlast (poolFree ?pl)) m)"
  have i: "?i \<in> set (poolFree ?pl)" using free by simp
  then have l: "?i < length (poolSlots ?pl)" using ok by (auto simp: pool_ok_def Let_def)
  have fs: "poolFree ?pl = butlast (poolFree ?pl) @ [?i]" using free by simp
  have d: "distinct (poolFree ?pl)" using ok by (simp add: pool_ok_def Let_def)
  then have "?i \<notin> set (butlast (poolFree ?pl))"
    by (metis distinct_append fs not_distinct_conv_prefix)
  moreover have "set (poolFree ?pl) = insert ?i (set (butlast (poolFree ?pl)))"
    by (metis fs Un_commute insert_is_Un list.set(1) list.simps(15) set_append)
  moreover have "distinct (butlast (poolFree ?pl))" using d by (simp add: distinct_butlast)
  ultimately have "pool_ok ?m p"
    using ok l nth_eq_iff_index_eq[of "poolSlots ?pl"]
    by (auto simp: pool_ok_def Let_def setUsed_def setFree_def)
  moreover have "\<not> slotUsed (slotAt m ?sl)" using ok i l by (auto simp: pool_ok_def Let_def)
  ultimately show thesis
    using that[of ?sl ?m] free l by (simp add: Let_def)
qed

text \<open>Releasing a used slot of the pool.\<close>

lemma pool_release_ok:
  assumes ok: "pool_ok m p" and sl: "sl \<in> set (poolSlots (poolAt m p))"
  shows "pool_ok (pool_release p sl m) p"
proof (cases "slotUsed (slotAt m sl)")
  case True
  let ?i = "slotIdx (slotAt m sl)"
  note r = pool_slot_ref[OF ok sl]
  have "?i \<notin> set (poolFree (poolAt m p))" using ok True r by (auto simp: pool_ok_def Let_def)
  then show ?thesis
    using ok True r nth_eq_iff_index_eq[of "poolSlots (poolAt m p)" _ ?i]
    by (auto simp: pool_ok_def Let_def pool_release_def setUsed_def setFree_def)
qed (simp add: pool_release_def ok)

text \<open>What the operations leave alone.\<close>

lemma setUsed_frame [simp]:
  "slotNext (setUsed sl b m) = slotNext m" "poolAt (setUsed sl b m) = poolAt m"
  "poolNext (setUsed sl b m) = poolNext m" "x \<noteq> sl \<Longrightarrow> slotAt (setUsed sl b m) x = slotAt m x"
  "slotPool (slotAt (setUsed sl b m) x) = slotPool (slotAt m x)"
  "slotIdx (slotAt (setUsed sl b m) x) = slotIdx (slotAt m x)"
  "slotWorker (slotAt (setUsed sl b m) x) = slotWorker (slotAt m x)"
  "slotType (slotAt (setUsed sl b m) x) = slotType (slotAt m x)"
  "slotUsed (slotAt (setUsed sl b m) x) = (if x = sl then b else slotUsed (slotAt m x))"
  by (simp_all add: setUsed_def)

lemma setFree_frame [simp]:
  "slotNext (setFree p fs m) = slotNext m" "slotAt (setFree p fs m) = slotAt m"
  "poolNext (setFree p fs m) = poolNext m" "q \<noteq> p \<Longrightarrow> poolAt (setFree p fs m) q = poolAt m q"
  "poolSlots (poolAt (setFree p fs m) q) = poolSlots (poolAt m q)"
  "poolWorker (poolAt (setFree p fs m) q) = poolWorker (poolAt m q)"
  "poolSlotType (poolAt (setFree p fs m) q) = poolSlotType (poolAt m q)"
  "poolExpiresAt (poolAt (setFree p fs m) q) = poolExpiresAt (poolAt m q)"
  "poolFree (poolAt (setFree p fs m) q) = (if q = p then fs else poolFree (poolAt m q))"
  by (simp_all add: setFree_def)

text \<open>
  Resetting a pool installs the given slots. A slot keeps whether it is used, and the freelist is
  the indexes of those that are not.
\<close>

lemma reset_loop_frame:
  "slotNext (reset_loop p i sls m) = slotNext m" "poolNext (reset_loop p i sls m) = poolNext m"
  "x \<notin> set sls \<Longrightarrow> slotAt (reset_loop p i sls m) x = slotAt m x"
  "q \<noteq> p \<Longrightarrow> poolAt (reset_loop p i sls m) q = poolAt m q"
  "poolSlots (poolAt (reset_loop p i sls m) q) = poolSlots (poolAt m q)"
  "poolWorker (poolAt (reset_loop p i sls m) q) = poolWorker (poolAt m q)"
  "poolSlotType (poolAt (reset_loop p i sls m) q) = poolSlotType (poolAt m q)"
  "poolExpiresAt (poolAt (reset_loop p i sls m) q) = poolExpiresAt (poolAt m q)"
  "slotUsed (slotAt (reset_loop p i sls m) x) = slotUsed (slotAt m x)"
  "slotWorker (slotAt (reset_loop p i sls m) x) = slotWorker (slotAt m x)"
  "slotType (slotAt (reset_loop p i sls m) x) = slotType (slotAt m x)"
  by (induction p i sls m rule: reset_loop.induct) (auto simp: Let_def)

lemma reset_loop_slots:
  "distinct sls \<Longrightarrow> j < length sls \<Longrightarrow>
   slotPool (slotAt (reset_loop p i sls m) (sls ! j)) = Some p \<and>
   slotIdx (slotAt (reset_loop p i sls m) (sls ! j)) = i + j"
proof (induction p i sls m arbitrary: j rule: reset_loop.induct)
  case (2 p i sl sls m)
  show ?case
  proof (cases j)
    case 0
    then show ?thesis using 2(2) by (auto simp: Let_def reset_loop_frame)
  next
    case (Suc j')
    then show ?thesis using 2(1)[OF refl, of j'] 2(2,3) by (simp add: Let_def)
  qed
qed simp

lemma reset_loop_free:
  "poolFree (poolAt (reset_loop p i sls m) p) =
     poolFree (poolAt m p) @ filter (\<lambda>j. \<not> slotUsed (slotAt m (sls ! (j - i)))) [i..<i + length sls]"
proof (induction p i sls m rule: reset_loop.induct)
  case (2 p i sl sls m)
  let ?m1 = "m\<lparr>slotAt := (slotAt m)(sl := (slotAt m sl)\<lparr>slotPool := Some p, slotIdx := i\<rparr>)\<rparr>"
  define m2 where "m2 = (if slotUsed (slotAt ?m1 sl) then ?m1 else setFree p (poolFree (poolAt ?m1 p) @ [i]) ?m1)"
  have m2: "slotUsed (slotAt m2 x) = slotUsed (slotAt m x)"
    "poolFree (poolAt m2 p) = poolFree (poolAt m p) @ (if slotUsed (slotAt m sl) then [] else [i])" for x
    by (auto simp: m2_def)
  have c: "[i..<i + length (sl # sls)] = i # [Suc i..<Suc i + length sls]"
    by (simp add: upt_conv_Cons del: upt_Suc)
  have f: "filter (\<lambda>j. \<not> slotUsed (slotAt m ((sl # sls) ! (j - i)))) [Suc i..<Suc i + length sls]
      = filter (\<lambda>j. \<not> slotUsed (slotAt m (sls ! (j - Suc i)))) [Suc i..<Suc i + length sls]"
    by (intro filter_cong refl) (auto simp: nth_Cons')
  have "reset_loop p i (sl # sls) m = reset_loop p (Suc i) sls m2"
    by (simp add: Let_def m2_def)
  moreover have "poolFree (poolAt (reset_loop p (Suc i) sls m2) p) = poolFree (poolAt m2 p) @
      filter (\<lambda>j. \<not> slotUsed (slotAt m2 (sls ! (j - Suc i)))) [Suc i..<Suc i + length sls]"
    using 2[OF refl] unfolding m2_def .
  ultimately show ?case
    unfolding c m2 by (simp add: f[unfolded add_Suc] del: upt_Suc reset_loop.simps)
qed simp

lemma pool_reset_frame [simp]:
  "slotNext (pool_reset p sls t m) = slotNext m" "poolNext (pool_reset p sls t m) = poolNext m"
  "x \<notin> set sls \<Longrightarrow> slotAt (pool_reset p sls t m) x = slotAt m x"
  "q \<noteq> p \<Longrightarrow> poolAt (pool_reset p sls t m) q = poolAt m q"
  "poolSlots (poolAt (pool_reset p sls t m) p) = sls"
  "poolExpiresAt (poolAt (pool_reset p sls t m) p) = t"
  "poolWorker (poolAt (pool_reset p sls t m) q) = poolWorker (poolAt m q)"
  "poolSlotType (poolAt (pool_reset p sls t m) q) = poolSlotType (poolAt m q)"
  "slotUsed (slotAt (pool_reset p sls t m) x) = slotUsed (slotAt m x)"
  "slotWorker (slotAt (pool_reset p sls t m) x) = slotWorker (slotAt m x)"
  "slotType (slotAt (pool_reset p sls t m) x) = slotType (slotAt m x)"
  by (simp_all add: pool_reset_def reset_loop_frame)

lemma pool_reset_free:
  "poolFree (poolAt (pool_reset p sls t m) p) = filter (\<lambda>j. \<not> slotUsed (slotAt m (sls ! j))) [0..<length sls]"
  by (simp add: pool_reset_def reset_loop_free)

lemma pool_reset_free_count:
  "length (poolFree (poolAt (pool_reset p sls t m) p)) = length (filter (\<lambda>sl. \<not> slotUsed (slotAt m sl)) sls)"
proof -
  have "filter (\<lambda>sl. \<not> slotUsed (slotAt m sl)) sls =
      map ((!) sls) (filter (\<lambda>j. \<not> slotUsed (slotAt m (sls ! j))) [0..<length sls])"
    by (metis (no_types, lifting) filter_cong filter_map map_nth o_apply)
  then show ?thesis by (simp add: pool_reset_free)
qed

lemma pool_reset_ok:
  assumes "distinct sls"
    and "\<forall>sl\<in>set sls. sl < slotNext m \<and> slotWorker (slotAt m sl) = poolWorker (poolAt m p) \<and>
           slotType (slotAt m sl) = poolSlotType (poolAt m p)"
  shows "pool_ok (pool_reset p sls t m) p"
proof -
  have "slotPool (slotAt (pool_reset p sls t m) (sls ! j)) = Some p \<and>
      slotIdx (slotAt (pool_reset p sls t m) (sls ! j)) = j" if "j < length sls" for j
    using reset_loop_slots[OF assms(1) that] by (simp add: pool_reset_def)
  then show ?thesis
    using assms by (auto simp: pool_ok_def Let_def pool_reset_free)
qed

text \<open>A slot that is not listed keeps its back pointer, so pools that share no slot are left alone.\<close>

lemma pool_reset_other:
  assumes "pool_ok m q" "q \<noteq> p" "set sls \<inter> set (poolSlots (poolAt m q)) = {}"
  shows "pool_ok (pool_reset p sls t m) q"
proof -
  have "slotAt (pool_reset p sls t m) (poolSlots (poolAt m q) ! i) = slotAt m (poolSlots (poolAt m q) ! i)"
    if "i < length (poolSlots (poolAt m q))" for i
    using assms(3) nth_mem[OF that] by (intro pool_reset_frame(3)) blast
  then show ?thesis using assms(1,2) by (auto simp: pool_ok_def Let_def)
qed

end
