(* ===== verification/Worker_Ranking.thy ===== *)
theory Worker_Ranking
  imports Slot_Pool
begin

text \<open>
  Which workers a queue item may run on and in which order they are tried: label affinity
  (\<open>src/pkg/scheduling/v1/worker.go\<close>) and \<open>rankWorkerIds\<close> of \<open>scheduler.go\<close>.
\<close>

section \<open>Model\<close>

datatype WorkerLabelComparator =
    EQUAL | NOT_EQUAL | GREATER_THAN | GREATER_THAN_OR_EQUAL | LESS_THAN | LESS_THAN_OR_EQUAL
  | OTHER_COMPARATOR string

record desiredLabel =
  dlKey :: string
  dlStrValue :: "string option"
  dlIntValue :: "int option"
  dlRequired :: bool
  dlWeight :: int
  dlComparator :: WorkerLabelComparator

record workerLabel =
  wlKey :: string
  wlStrValue :: "string option"
  wlIntValue :: "int option"

record worker =
  wkId :: uuid
  wkName :: string
  wkLabels :: "workerLabel list"
  wkTotalSlotsByType :: "(string \<times> int) list"

datatype V1StickyStrategy = STICKY_NONE | STICKY_SOFT | STICKY_HARD | STICKY_OTHER string

record queueItem =
  qiId :: int
  qiTaskId :: int
  qiTaskInsertedAt :: "int option"
  qiRetryCount :: int
  qiQueue :: string
  qiActionId :: string
  qiStepId :: uuid
  qiPriority :: int
  qiStepTimeout :: string
  qiDesiredWorkerLabel :: string
  qiSticky :: V1StickyStrategy
  qiDesiredWorkerId :: "uuid option"
  qiScheduleTimeoutAt :: int

text \<open>\<open>both p a b\<close>: both values are present and related, as in \<open>a.Valid && b.Valid && p\<close>.\<close>

definition both :: "('a \<Rightarrow> 'a \<Rightarrow> bool) \<Rightarrow> 'a option \<Rightarrow> 'a option \<Rightarrow> bool" where
  "both p a b = (case (a, b) of (Some x, Some y) \<Rightarrow> p x y | _ \<Rightarrow> False)"

fun labelMet :: "WorkerLabelComparator \<Rightarrow> desiredLabel \<Rightarrow> workerLabel \<Rightarrow> bool" where
  "labelMet EQUAL d w \<longleftrightarrow>
     both (=) (dlStrValue d) (wlStrValue w) \<or> both (=) (dlIntValue d) (wlIntValue w)"
| "labelMet NOT_EQUAL d w \<longleftrightarrow>
     both (\<noteq>) (dlStrValue d) (wlStrValue w) \<or> both (\<noteq>) (dlIntValue d) (wlIntValue w)"
| "labelMet GREATER_THAN d w \<longleftrightarrow> both (\<lambda>x y. y > x) (dlIntValue d) (wlIntValue w)"
| "labelMet LESS_THAN d w \<longleftrightarrow> both (\<lambda>x y. y < x) (dlIntValue d) (wlIntValue w)"
| "labelMet GREATER_THAN_OR_EQUAL d w \<longleftrightarrow> both (\<lambda>x y. y \<ge> x) (dlIntValue d) (wlIntValue w)"
| "labelMet LESS_THAN_OR_EQUAL d w \<longleftrightarrow> both (\<lambda>x y. y \<le> x) (dlIntValue d) (wlIntValue w)"
| "labelMet (OTHER_COMPARATOR _) d w \<longleftrightarrow> False"

text \<open>The inner loop: whether the first label with the key meets the condition; \<open>None\<close>: no label.\<close>

fun label_loop :: "desiredLabel \<Rightarrow> workerLabel list \<Rightarrow> bool option" where
  "label_loop d [] = None"
| "label_loop d (w # ws) =
     (if dlKey d = wlKey w then Some (labelMet (dlComparator d) d w) else label_loop d ws)"

fun computeWeight_loop :: "workerLabel list \<Rightarrow> desiredLabel list \<Rightarrow> int \<Rightarrow> int" where
  "computeWeight_loop ws [] acc = acc"
| "computeWeight_loop ws (d # ds) acc =
     (case label_loop d ws of
        None \<Rightarrow> if dlRequired d then - 1 else computeWeight_loop ws ds acc
      | Some True \<Rightarrow> computeWeight_loop ws ds (acc + dlWeight d)
      | Some False \<Rightarrow> if dlRequired d then - 1 else computeWeight_loop ws ds acc)"

definition computeWeight :: "worker \<Rightarrow> desiredLabel list \<Rightarrow> int" where
  "computeWeight w ds = computeWeight_loop (wkLabels w) ds 0"

text \<open>The body of the loop of \<open>rankWorkerIds\<close>: the rank of a worker, \<open>None\<close> when it is skipped.\<close>

definition workerRank ::
  "(uuid \<times> worker) list \<Rightarrow> queueItem \<Rightarrow> desiredLabel list \<Rightarrow> uuid \<Rightarrow> int option" where
  "workerRank workers qi labels wid =
     (case qiSticky qi of
        STICKY_HARD \<Rightarrow>
          (if qiDesiredWorkerId qi \<noteq> None \<and> qiDesiredWorkerId qi \<noteq> Some wid then None else Some 0)
      | STICKY_SOFT \<Rightarrow> Some (if qiDesiredWorkerId qi = Some wid then 1 else 0)
      | _ \<Rightarrow>
          (if labels \<noteq> []
           then (case map_of workers wid of
                   None \<Rightarrow> None
                 | Some w \<Rightarrow> let rank = computeWeight w labels in if rank < 0 then None else Some rank)
           else Some 0))"

fun rank_loop ::
  "(uuid \<times> worker) list \<Rightarrow> queueItem \<Rightarrow> desiredLabel list \<Rightarrow> uuid list \<Rightarrow> (uuid \<times> int) list" where
  "rank_loop workers qi labels [] = []"
| "rank_loop workers qi labels (wid # wids) =
     (case workerRank workers qi labels wid of
        None \<Rightarrow> rank_loop workers qi labels wids
      | Some rank \<Rightarrow> (wid, rank) # rank_loop workers qi labels wids)"

fun topRank_loop :: "int \<Rightarrow> (uuid \<times> int) list \<Rightarrow> nat" where
  "topRank_loop best [] = 0"
| "topRank_loop best ((_, rank) # rs) = (if rank = best then Suc (topRank_loop best rs) else 0)"

text \<open>
  \<open>slices.SortStableFunc\<close> with \<open>right.rank - left.rank\<close> is the stable sort by decreasing rank. The
  ranks are only sorted when some rank differs from the first.
\<close>

definition rankWorkerIds ::
  "(uuid \<times> worker) list \<Rightarrow> queueItem \<Rightarrow> desiredLabel list \<Rightarrow> uuid list \<Rightarrow> uuid list \<times> nat" where
  "rankWorkerIds workers qi labels wids =
     (case rank_loop workers qi labels wids of
        [] \<Rightarrow> ([], 0)
      | r # rs \<Rightarrow>
          if list_ex (\<lambda>x. snd x \<noteq> snd r) rs
          then let sorted = sort_key (\<lambda>x. - snd x) (r # rs)
               in (map fst sorted, topRank_loop (snd (hd sorted)) sorted)
          else (map fst (r # rs), length (r # rs)))"

section \<open>Label affinity\<close>

text \<open>A desired label is met when the first label of the worker with its key satisfies the comparison.\<close>

definition desire_met :: "worker \<Rightarrow> desiredLabel \<Rightarrow> bool" where
  "desire_met w d \<longleftrightarrow>
     (case find (\<lambda>l. wlKey l = dlKey d) (wkLabels w) of
        None \<Rightarrow> False | Some l \<Rightarrow> labelMet (dlComparator d) d l)"

lemma label_loop_met: "label_loop d (wkLabels w) = Some True \<longleftrightarrow> desire_met w d"
proof -
  have "label_loop d ws = Some True \<longleftrightarrow>
      (case find (\<lambda>l. wlKey l = dlKey d) ws of None \<Rightarrow> False | Some l \<Rightarrow> labelMet (dlComparator d) d l)" for ws
    by (induction ws) auto
  then show ?thesis by (simp add: desire_met_def)
qed

lemma computeWeight_loop_spec:
  "computeWeight_loop (wkLabels w) ds acc =
     (if \<exists>d\<in>set ds. dlRequired d \<and> \<not> desire_met w d then - 1
      else acc + (\<Sum>d\<leftarrow>filter (desire_met w) ds. dlWeight d))"
proof (induction ds arbitrary: acc)
  case (Cons d ds)
  show ?case
  proof (cases "desire_met w d")
    case True
    then show ?thesis using Cons label_loop_met[of d w] by auto
  next
    case False
    then have "label_loop d (wkLabels w) \<noteq> Some True" using label_loop_met by simp
    then show ?thesis using False Cons by (auto split: option.splits bool.splits)
  qed
qed simp

text \<open>
  The weight of a worker is the sum of the weights of the desired labels it meets, unless
  it fails a required one: then it is -1, whatever the other labels contribute.
\<close>

theorem computeWeight_sums_met_labels:
  "computeWeight w ds =
     (if \<exists>d\<in>set ds. dlRequired d \<and> \<not> desire_met w d then - 1
      else (\<Sum>d\<leftarrow>filter (desire_met w) ds. dlWeight d))"
  by (auto simp: computeWeight_def computeWeight_loop_spec)

section \<open>Ranking\<close>

lemma rank_loop_eq:
  "rank_loop workers qi labels wids =
     map (\<lambda>w. (w, the (workerRank workers qi labels w)))
       (filter (\<lambda>w. workerRank workers qi labels w \<noteq> None) wids)"
  by (induction wids) (auto split: option.splits)

lemma topRank_loop_le: "topRank_loop best rs \<le> length rs"
  by (induction best rs rule: topRank_loop.induct) auto

lemma topRank_loop_spec:
  assumes "sorted (map (\<lambda>x. - snd x) rs)" "rs \<noteq> []" "best = snd (hd rs)"
  shows "i < topRank_loop best rs \<Longrightarrow> snd (rs ! i) = best"
    and "topRank_loop best rs \<le> i \<Longrightarrow> i < length rs \<Longrightarrow> snd (rs ! i) < best"
proof -
  have eq: "snd (rs ! i) = best" if "i < topRank_loop best rs" for rs :: "(uuid \<times> int) list" and i
    using that
  proof (induction best rs arbitrary: i rule: topRank_loop.induct)
    case (2 best w rank rs)
    then show ?case by (cases i) (auto split: if_splits)
  qed simp
  show "i < topRank_loop best rs \<Longrightarrow> snd (rs ! i) = best" by (rule eq)
  have lt: "snd (rs ! i) < best"
    if "sorted (map (\<lambda>x. - snd x) rs)" "\<forall>x\<in>set rs. snd x \<le> best" "topRank_loop best rs \<le> i" "i < length rs"
    for rs :: "(uuid \<times> int) list" and i
    using that
  proof (induction best rs arbitrary: i rule: topRank_loop.induct)
    case (2 best w rank rs)
    show ?case
    proof (cases "rank = best")
      case True
      then show ?thesis using 2 by (cases i) auto
    next
      case False
      then have "rank < best" using 2(3) by simp
      moreover have "snd (((w, rank) # rs) ! i) \<le> rank"
        using 2(2,5) nth_mem[of "i - 1" rs] by (cases i) auto
      ultimately show ?thesis by simp
    qed
  qed simp
  have "\<forall>x\<in>set rs. snd x \<le> best"
    using assms by (cases rs) auto
  then show "topRank_loop best rs \<le> i \<Longrightarrow> i < length rs \<Longrightarrow> snd (rs ! i) < best"
    using lt[OF assms(1)] by blast
qed

text \<open>The list that \<open>rankWorkerIds\<close> returns, with the ranks.\<close>

definition ranked_workers ::
  "(uuid \<times> worker) list \<Rightarrow> queueItem \<Rightarrow> desiredLabel list \<Rightarrow> uuid list \<Rightarrow> (uuid \<times> int) list" where
  "ranked_workers workers qi labels wids =
     sort_key (\<lambda>x. - snd x) (rank_loop workers qi labels wids)"

lemma sort_key_of_map: "sort_key f (map g xs) = map g (sort_key (\<lambda>x. f (g x)) xs)"
proof -
  have "insort_key f (g x) (map g ys) = map g (insort_key (\<lambda>x. f (g x)) x ys)" for x ys
    by (induction ys) auto
  then show ?thesis by (induction xs) auto
qed

lemma rankWorkerIds_eq:
  "rankWorkerIds workers qi labels wids =
     (let rs = ranked_workers workers qi labels wids
      in (map fst rs, if rs = [] then 0 else topRank_loop (snd (hd rs)) rs))"
proof (cases "rank_loop workers qi labels wids")
  case Nil
  then show ?thesis by (simp add: rankWorkerIds_def ranked_workers_def)
next
  case (Cons r rs)
  have ne: "sort_key f (r # rs) \<noteq> []" for f :: "uuid \<times> int \<Rightarrow> int"
    by (metis length_0_conv length_sort list.distinct(1))
  show ?thesis
  proof (cases "list_ex (\<lambda>x. snd x \<noteq> snd r) rs")
    case True
    then show ?thesis using Cons ne by (simp add: rankWorkerIds_def ranked_workers_def Let_def del: sort_key_simps)
  next
    case False
    then have same: "\<forall>x\<in>set (r # rs). snd x = snd r" by (auto simp: list_ex_iff)
    then have "map (\<lambda>x. - snd x) (r # rs) = map (\<lambda>_. - snd r) (r # rs)"
      by (intro map_cong refl) auto
    then have "sorted (map (\<lambda>x. - snd x) (r # rs))"
      by (simp add: map_replicate_const)
    then have "sort_key (\<lambda>x. - snd x) (r # rs) = r # rs" by (rule sort_key_id_if_sorted)
    moreover have "topRank_loop t xs = length xs" if "\<forall>x\<in>set xs. snd x = t" for t xs
      using that by (induction t xs rule: topRank_loop.induct) auto
    then have "topRank_loop (snd r) (r # rs) = length (r # rs)" using same by blast
    ultimately show ?thesis
      using Cons False by (simp add: rankWorkerIds_def ranked_workers_def Let_def del: sort_key_simps)
  qed
qed

lemma topRank_loop_pos: "rs \<noteq> [] \<Longrightarrow> 0 < topRank_loop (snd (hd rs)) rs"
  by (cases rs) auto

text \<open>
  C28. \<open>rankWorkerIds\<close> returns exactly the workers that are eligible for the item, ordered by
  decreasing rank and, within one rank, in the order of the action's list. The number it returns
  is the length of the prefix of highest rank: every worker before it has the highest rank
  and every worker after it a lower one, and it is positive unless no worker is eligible.
\<close>

theorem rankWorkerIds_orders_eligible:
  assumes "rankWorkerIds workers qi labels wids = (ids, n)"
  defines "rank \<equiv> \<lambda>w. the (workerRank workers qi labels w)"
    and "eligible \<equiv> filter (\<lambda>w. workerRank workers qi labels w \<noteq> None) wids"
  shows "mset ids = mset eligible \<and>
    (\<forall>r. filter (\<lambda>w. rank w = r) ids = filter (\<lambda>w. rank w = r) eligible) \<and>
    sorted (map (\<lambda>w. - rank w) ids) \<and> n \<le> length ids \<and> (n = 0 \<longleftrightarrow> eligible = []) \<and>
    (\<forall>i<n. rank (ids ! i) = rank (ids ! 0)) \<and>
    (\<forall>i. n \<le> i \<and> i < length ids \<longrightarrow> rank (ids ! i) < rank (ids ! 0))"
proof -
  define rs where "rs = ranked_workers workers qi labels wids"
  have loop: "rank_loop workers qi labels wids = map (\<lambda>w. (w, rank w)) eligible"
    by (simp add: rank_loop_eq rank_def eligible_def)
  have rs: "rs = map (\<lambda>w. (w, rank w)) (sort_key (\<lambda>w. - rank w) eligible)"
    unfolding rs_def ranked_workers_def loop by (simp add: sort_key_of_map)
  have ids: "ids = sort_key (\<lambda>w. - rank w) eligible"
    and n: "n = (if rs = [] then 0 else topRank_loop (snd (hd rs)) rs)"
    using assms(1) unfolding rankWorkerIds_eq rs_def[symmetric] by (auto simp: Let_def rs comp_def)
  have len: "length rs = length ids" and nth: "\<And>i. i < length ids \<Longrightarrow> snd (rs ! i) = rank (ids ! i)"
    by (simp_all add: rs ids)
  have srt: "sorted (map (\<lambda>x. - snd x) rs)" by (simp add: rs comp_def)
  have empty: "rs = [] \<longleftrightarrow> ids = []" "ids = [] \<longleftrightarrow> eligible = []"
    using len by (auto simp: ids) (metis length_0_conv length_sort)+
  have stable: "filter (\<lambda>w. rank w = r) ids = filter (\<lambda>w. rank w = r) eligible" for r
    using sort_key_stable[of "\<lambda>w. - rank w" "- r" eligible] by (simp add: ids)
  have hd: "snd (hd rs) = rank (ids ! 0)" if "rs \<noteq> []"
    using that nth[of 0] empty by (simp add: hd_conv_nth)
  have le: "n \<le> length ids" using topRank_loop_le[of _ rs] by (simp add: n len[symmetric])
  have "rank (ids ! i) = rank (ids ! 0)" if "i < n" for i
  proof -
    from that have ne: "rs \<noteq> []" by (auto simp: n split: if_splits)
    from topRank_loop_spec(1)[OF srt ne refl, of i] that show ?thesis
      using nth[of i] le hd[OF ne] ne by (simp add: n)
  qed
  moreover have "rank (ids ! i) < rank (ids ! 0)" if "n \<le> i" "i < length ids" for i
  proof -
    from that have ne: "rs \<noteq> []" using empty by auto
    from topRank_loop_spec(2)[OF srt ne refl, of i] that show ?thesis
      using nth[of i] hd[OF ne] ne len by (simp add: n)
  qed
  moreover have "n = 0 \<longleftrightarrow> eligible = []"
    using topRank_loop_pos[of rs] empty by (auto simp: n)
  moreover have "mset ids = mset eligible" "sorted (map (\<lambda>w. - rank w) ids)"
    by (simp_all add: ids)
  ultimately show ?thesis using stable le by blast
qed

definition example_label :: "int \<Rightarrow> desiredLabel" where
  "example_label weight = \<lparr>dlKey = ''gpu'', dlStrValue = None, dlIntValue = Some 1, dlRequired = False,
     dlWeight = weight, dlComparator = GREATER_THAN_OR_EQUAL\<rparr>"

definition example_worker :: "uuid \<Rightarrow> int \<Rightarrow> worker" where
  "example_worker wid gpus = \<lparr>wkId = wid, wkName = ''w'',
     wkLabels = [\<lparr>wlKey = ''gpu'', wlStrValue = None, wlIntValue = Some gpus\<rparr>],
     wkTotalSlotsByType = [(''default'', 2)]\<rparr>"

definition example_item :: "int \<Rightarrow> V1StickyStrategy \<Rightarrow> uuid option \<Rightarrow> queueItem" where
  "example_item task sticky desired = \<lparr>qiId = task, qiTaskId = task, qiTaskInsertedAt = Some 0, qiRetryCount = 0, qiQueue = ''q'', qiActionId = ''a'',
     qiStepId = 1, qiPriority = 1, qiStepTimeout = [], qiDesiredWorkerLabel = [], qiSticky = sticky, qiDesiredWorkerId = desired, qiScheduleTimeoutAt = 0\<rparr>"

theorem computeWeight_sums_met_labels_witness:
  "computeWeight (example_worker 3 2) [example_label 5, example_label 7] = 12"
  unfolding computeWeight_sums_met_labels
  by (simp add: desire_met_def example_worker_def example_label_def both_def)

theorem rankWorkerIds_orders_eligible_witness:
  "\<exists>ids n. rankWorkerIds [(1, example_worker 1 0), (2, example_worker 2 4)] (example_item 9 STICKY_NONE None)
       [example_label 5] [1, 2] = (ids, n) \<and> mset ids = {#1, 2#} \<and> n \<le> length ids"
proof -
  let ?ws = "[(1, example_worker 1 0), (2, example_worker 2 4)]"
  let ?qi = "example_item 9 STICKY_NONE None"
  obtain ids n where r: "rankWorkerIds ?ws ?qi [example_label 5] [1, 2] = (ids, n)" by (metis prod.exhaust)
  have "filter (\<lambda>w. workerRank ?ws ?qi [example_label 5] w \<noteq> None) [1, 2] = [1, 2]"
    by (simp add: workerRank_def example_item_def computeWeight_def example_worker_def example_label_def both_def)
  with rankWorkerIds_orders_eligible[OF r] r show ?thesis by auto
qed

end
