(* ===== verification/Starvation.thy ===== *)
theory Starvation
  imports Slot_Pool "HOL-Library.List_Lexorder" "HOL-Library.Char_ord"
begin

text \<open>
  An action's index of workers and its starvation entries (\<open>src/pkg/scheduling/v1/action.go\<close>). A
  slot request (\<open>map[string]int32\<close>) and the maps the code iterates over are association lists in
  iteration order. Go compares strings bytewise, which is the lexicographic order of \<open>List_Lexorder\<close>
  over \<open>Char_ord\<close>.
\<close>

section \<open>Model\<close>

type_synonym slotRequest = "(string \<times> int) list"

text \<open>The pools of each worker by slot type: the addresses of the pools.\<close>

type_synonym workerPools = "(uuid \<times> (string \<times> nat) list) list"

record action =
  lastReplenishedSlotCount :: int
  lastReplenishedWorkerCount :: int
  workerIds :: "uuid list"
  ringOffset :: int
  starved :: "(string \<times> string list) list"

definition newAction :: action where
  "newAction = \<lparr>lastReplenishedSlotCount = 0, lastReplenishedWorkerCount = 0, workerIds = [],
     ringOffset = 0, starved = []\<rparr>"

definition slotTypeSeparator :: char where
  "slotTypeSeparator = CHR 0x00"

fun strings_Join :: "string list \<Rightarrow> char \<Rightarrow> string" where
  "strings_Join [] sep = []"
| "strings_Join [x] sep = x"
| "strings_Join (x # xs) sep = x @ sep # strings_Join xs sep"

fun strings_Split :: "string \<Rightarrow> char \<Rightarrow> string list" where
  "strings_Split [] sep = [[]]"
| "strings_Split (c # cs) sep =
     (if c = sep then [] # strings_Split cs sep
      else case strings_Split cs sep of [] \<Rightarrow> [[c]] | w # ws \<Rightarrow> (c # w) # ws)"

text \<open>The first loop of \<open>slotTypeSetOf\<close>: the last type with units and the number of such types.\<close>

fun setOf_loop :: "slotRequest \<Rightarrow> string \<times> nat \<Rightarrow> string \<times> nat" where
  "setOf_loop [] st = st"
| "setOf_loop ((t, units) # req) (single, n) =
     setOf_loop req (if units > 0 then (t, Suc n) else (single, n))"

fun setOf_types :: "slotRequest \<Rightarrow> string list" where
  "setOf_types [] = []"
| "setOf_types ((t, units) # req) = (if units > 0 then t # setOf_types req else setOf_types req)"

definition slotTypeSetOf :: "slotRequest \<Rightarrow> string option" where
  "slotTypeSetOf req =
     (case setOf_loop req ([], 0) of
        (single, n) \<Rightarrow>
          if n = 0 then None
          else if n = 1 then Some single
          else Some (strings_Join (sort (setOf_types req)) slotTypeSeparator))"

definition slotTypeSetKey_types :: "string \<Rightarrow> string list" where
  "slotTypeSetKey_types k = strings_Split k slotTypeSeparator"

definition IsStarved :: "action \<Rightarrow> bool" where
  "IsStarved a \<longleftrightarrow> length (starved a) > 0"

text \<open>Reading \<open>a.starved[queue]\<close>: the nil map, without keys, when there is no entry.\<close>

definition entries_of :: "action \<Rightarrow> string \<Rightarrow> string list" where
  "entries_of a queue = (case map_of (starved a) queue of None \<Rightarrow> [] | Some es \<Rightarrow> es)"

definition MarkStarved :: "string \<Rightarrow> slotRequest \<Rightarrow> action \<Rightarrow> bool \<times> action" where
  "MarkStarved queue request a =
     (case slotTypeSetOf request of
        None \<Rightarrow> (False, a)
      | Some key \<Rightarrow>
          let entries = entries_of a queue
          in if key \<in> set entries then (False, a)
             else (True, a\<lparr>starved := AList.update queue (entries @ [key]) (starved a)\<rparr>))"

definition poolOf :: "poolMem \<Rightarrow> workerPools \<Rightarrow> uuid \<Rightarrow> string \<Rightarrow> slotPool option" where
  "poolOf m ps w t = map_option (poolAt m) (Option.bind (map_of ps w) (\<lambda>byType. map_of byType t))"

definition hasFreeSlotOfEachTypeIn ::
  "poolMem \<Rightarrow> workerPools \<Rightarrow> uuid list \<Rightarrow> string list \<Rightarrow> int \<Rightarrow> bool" where
  "hasFreeSlotOfEachTypeIn m ps wids slotTypes now \<longleftrightarrow>
     list_ex (\<lambda>w. list_all (\<lambda>t. freeCountAt now (poolOf m ps w t) \<noteq> 0) slotTypes) wids"

definition hasFreeSlotOfEachType ::
  "poolMem \<Rightarrow> workerPools \<Rightarrow> uuid list \<Rightarrow> slotRequest \<Rightarrow> int \<Rightarrow> bool" where
  "hasFreeSlotOfEachType m ps wids slotTypes now \<longleftrightarrow>
     list_ex (\<lambda>w. list_all (\<lambda>(t, _). freeCountAt now (poolOf m ps w t) \<noteq> 0) slotTypes) wids"

text \<open>The loop over the entries of one queue: what is left of them and whether one was deleted.\<close>

fun restore_entries :: "(string list \<Rightarrow> bool) \<Rightarrow> string list \<Rightarrow> string list \<times> bool" where
  "restore_entries free [] = ([], False)"
| "restore_entries free (key # keys) =
     (case restore_entries free keys of
        (kept, restored) \<Rightarrow>
          if free (slotTypeSetKey_types key) then (kept, True) else (key # kept, restored))"

fun restore_loop ::
  "(string list \<Rightarrow> bool) \<Rightarrow> (string \<times> string list) list \<Rightarrow> string list \<times> (string \<times> string list) list" where
  "restore_loop free [] = ([], [])"
| "restore_loop free ((queue, entries) # rest) =
     (case (restore_entries free entries, restore_loop free rest) of
        ((kept, restored), (queues, st)) \<Rightarrow>
          (if restored then queue # queues else queues,
           if kept = [] then st else (queue, kept) # st))"

definition RestoreStarved ::
  "poolMem \<Rightarrow> workerPools \<Rightarrow> uuid list \<Rightarrow> int \<Rightarrow> action \<Rightarrow> string list \<times> action" where
  "RestoreStarved m ps wids now a =
     (case restore_loop (\<lambda>ts. hasFreeSlotOfEachTypeIn m ps wids ts now) (starved a) of
        (queues, st) \<Rightarrow> (queues, a\<lparr>starved := st\<rparr>))"

text \<open>The loops of \<open>activeCount\<close>; \<open>None\<close> is the early return of zero on a stale pool.\<close>

fun active_pools :: "poolMem \<Rightarrow> int \<Rightarrow> (string \<times> nat) list \<Rightarrow> int \<Rightarrow> int option" where
  "active_pools m now [] n = Some n"
| "active_pools m now ((_, p) # ps) n =
     (if staleAt now (Some (poolAt m p)) then None
      else active_pools m now ps (n + int (length (poolFree (poolAt m p)))))"

fun active_workers :: "poolMem \<Rightarrow> workerPools \<Rightarrow> int \<Rightarrow> uuid list \<Rightarrow> int \<Rightarrow> int option" where
  "active_workers m ps now [] n = Some n"
| "active_workers m ps now (w # ws) n =
     (case active_pools m now (case map_of ps w of None \<Rightarrow> [] | Some byType \<Rightarrow> byType) n of
        None \<Rightarrow> None
      | Some n' \<Rightarrow> active_workers m ps now ws n')"

definition activeCount :: "poolMem \<Rightarrow> workerPools \<Rightarrow> int \<Rightarrow> action \<Rightarrow> int" where
  "activeCount m ps now a =
     (case active_workers m ps now (workerIds a) 0 of None \<Rightarrow> 0 | Some n \<Rightarrow> n)"

section \<open>The key of a set of slot types\<close>

lemma setOf_types_eq: "setOf_types req = map fst (filter (\<lambda>(_, u). u > 0) req)"
  by (induction req rule: setOf_types.induct) auto

lemma setOf_loop_eq:
  "setOf_loop req (single, n) =
     (if setOf_types req = [] then single else last (setOf_types req), n + length (setOf_types req))"
  by (induction req "(single, n)" arbitrary: single n rule: setOf_loop.induct) auto

lemma slotTypeSetOf_eq:
  "slotTypeSetOf req =
     (if setOf_types req = [] then None
      else Some (strings_Join (sort (setOf_types req)) slotTypeSeparator))"
proof -
  consider "setOf_types req = []" | t where "setOf_types req = [t]" | t u ts where "setOf_types req = t # u # ts"
    by (metis list.exhaust)
  then show ?thesis
    by cases (simp_all add: slotTypeSetOf_def setOf_loop_eq)
qed

lemma strings_Split_no_sep: "sep \<notin> set x \<Longrightarrow> strings_Split x sep = [x]"
  by (induction x) auto

lemma strings_Split_append:
  "sep \<notin> set x \<Longrightarrow> strings_Split (x @ sep # ys) sep = x # strings_Split ys sep"
  by (induction x) auto

lemma strings_Split_Join:
  "xs \<noteq> [] \<Longrightarrow> \<forall>x\<in>set xs. sep \<notin> set x \<Longrightarrow> strings_Split (strings_Join xs sep) sep = xs"
  by (induction xs sep rule: strings_Join.induct) (simp_all add: strings_Split_no_sep strings_Split_append)

text \<open>
  The key of a slot request round-trips: it exists exactly when some type has units, and it
  decodes to the sorted list of the types with units, provided no type contains the separator (NUL,
  which Postgres text values cannot hold). So two requests have the same key exactly when they ask
  for the same types.
\<close>

theorem slotTypeSet_roundtrip:
  assumes "\<forall>(t, _)\<in>set req. slotTypeSeparator \<notin> set t"
  defines "asked \<equiv> map fst (filter (\<lambda>(_, units). units > 0) req)"
  shows "map_option slotTypeSetKey_types (slotTypeSetOf req) = (if asked = [] then None else Some (sort asked))"
proof -
  have "\<forall>x\<in>set (sort asked). slotTypeSeparator \<notin> set x"
    using assms(1) by (auto simp: asked_def)
  then have "strings_Split (strings_Join (sort asked) slotTypeSeparator) slotTypeSeparator = sort asked"
    if "asked \<noteq> []"
    using that strings_Split_Join[of "sort asked"] by (metis length_0_conv length_sort)
  then show ?thesis
    by (simp add: slotTypeSetOf_eq setOf_types_eq asked_def[symmetric] slotTypeSetKey_types_def)
qed

theorem slotTypeSet_roundtrip_witness:
  "map_option slotTypeSetKey_types (slotTypeSetOf [(''gpu'', 2), (''idle'', 0), (''default'', 1)]) =
     Some [''default'', ''gpu'']"
proof -
  have "\<forall>(t, _)\<in>set [(''gpu'', 2 :: int), (''idle'', 0), (''default'', 1)]. slotTypeSeparator \<notin> set t"
    by (simp add: slotTypeSeparator_def)
  from slotTypeSet_roundtrip[OF this] show ?thesis by (simp add: less_eq_char_def less_char_def)
qed

section \<open>Starvation episodes\<close>

lemma restore_entries_eq:
  "restore_entries free keys =
     (filter (\<lambda>k. \<not> free (slotTypeSetKey_types k)) keys, list_ex (\<lambda>k. free (slotTypeSetKey_types k)) keys)"
  by (induction keys) auto

lemma restore_loop_queues:
  "fst (restore_loop free st) =
     map fst (filter (\<lambda>(_, es). \<exists>k\<in>set es. free (slotTypeSetKey_types k)) st)"
  by (induction free st rule: restore_loop.induct)
    (auto simp: restore_entries_eq list_ex_iff split: prod.splits)

lemma restore_loop_keys: "fst ` set (snd (restore_loop free st)) \<subseteq> fst ` set st"
proof (induction free st rule: restore_loop.induct)
  case (2 free queue es rest)
  then show ?case by (cases "restore_loop free rest") (auto simp: restore_entries_eq)
qed simp

lemma restore_loop_lookup:
  "distinct_keys st \<Longrightarrow>
   map_of (snd (restore_loop free st)) q =
     (case map_of st q of
        None \<Rightarrow> None
      | Some es \<Rightarrow> let kept = filter (\<lambda>k. \<not> free (slotTypeSetKey_types k)) es
                   in if kept = [] then None else Some kept)"
proof (induction free st rule: restore_loop.induct)
  case (2 free queue es rest)
  obtain queues st where l: "restore_loop free rest = (queues, st)" by (metis prod.exhaust)
  have "map_of st queue = None"
    using 2(2) restore_loop_keys[of free rest] l by (auto simp: map_of_eq_None_iff)
  then show ?case using 2 l by (auto simp: restore_entries_eq Let_def)
qed simp

lemma restore_loop_distinct: "distinct_keys st \<Longrightarrow> distinct_keys (snd (restore_loop free st))"
proof (induction free st rule: restore_loop.induct)
  case (2 free queue es rest)
  then show ?case
    using restore_loop_keys[of free rest]
    by (cases "restore_loop free rest") (auto simp: restore_entries_eq subset_iff)
qed simp

text \<open>
  A rebuild restores exactly the entries it can serve: a queue is reported exactly when one of
  its entries has all its slot types free on one worker, those entries are cleared, every other
  entry is kept, and a queue without entries is forgotten.
\<close>

theorem RestoreStarved_exact:
  assumes "RestoreStarved m ps wids now a = (queues, a')" "distinct_keys (starved a)"
  defines "free \<equiv> \<lambda>key. hasFreeSlotOfEachTypeIn m ps wids (slotTypeSetKey_types key) now"
  shows "set queues = {q. \<exists>key\<in>set (entries_of a q). free key} \<and>
    (\<forall>q. set (entries_of a' q) = {key \<in> set (entries_of a q). \<not> free key}) \<and>
    (\<forall>q. map_of (starved a') q \<noteq> None \<longrightarrow> entries_of a' q \<noteq> []) \<and>
    workerIds a' = workerIds a \<and> ringOffset a' = ringOffset a"
proof -
  let ?f = "\<lambda>ts. hasFreeSlotOfEachTypeIn m ps wids ts now"
  have q: "queues = fst (restore_loop ?f (starved a))"
    and a': "a' = a\<lparr>starved := snd (restore_loop ?f (starved a))\<rparr>"
    using assms(1) by (auto simp: RestoreStarved_def split: prod.splits)
  have m: "(q, es) \<in> set (starved a) \<longleftrightarrow> map_of (starved a) q = Some es" for q es
    using assms(2) by (auto simp: distinct_keys_def)
  have "q \<in> set queues \<longleftrightarrow> (\<exists>es. (q, es) \<in> set (starved a) \<and> (\<exists>key\<in>set es. free key))" for q
    unfolding assms(3) q restore_loop_queues by force
  moreover have "(\<exists>es. map_of (starved a) q = Some es \<and> (\<exists>key\<in>set es. free key)) \<longleftrightarrow>
      (\<exists>key\<in>set (entries_of a q). free key)" for q
    by (cases "map_of (starved a) q") (auto simp: entries_of_def)
  ultimately have "set queues = {q. \<exists>key\<in>set (entries_of a q). free key}"
    unfolding m by auto
  moreover have "set (entries_of a' q) = {key \<in> set (entries_of a q). \<not> free key}"
    and "map_of (starved a') q \<noteq> None \<longrightarrow> entries_of a' q \<noteq> []" for q
    by (cases "map_of (starved a) q";
        auto simp: a' free_def restore_loop_lookup[OF assms(2)] entries_of_def Let_def filter_empty_conv)+
  ultimately show ?thesis by (simp add: a')
qed

text \<open>
  A starvation episode is reported once: a miss reports a new entry exactly when its request
  asks for some type and the queue has no entry for that set of types yet; it then records that
  entry and nothing else, and the same miss afterwards reports nothing and changes nothing.
\<close>

theorem MarkStarved_once:
  assumes "MarkStarved queue request a = (new, a')"
  shows "(new \<longleftrightarrow> (\<exists>key. slotTypeSetOf request = Some key \<and> key \<notin> set (entries_of a queue))) \<and>
    (\<forall>q. set (entries_of a' q) =
       set (entries_of a q) \<union> (if q = queue then set_option (slotTypeSetOf request) else {})) \<and>
    MarkStarved queue request a' = (False, a')"
proof (cases "slotTypeSetOf request")
  case None
  then show ?thesis using assms by (auto simp: MarkStarved_def)
next
  case (Some key)
  show ?thesis
  proof (cases "key \<in> set (entries_of a queue)")
    case True
    then have "new = False" "a' = a"
      using assms Some by (auto simp: MarkStarved_def Let_def)
    then show ?thesis using True Some assms by auto
  next
    case False
    then have n: "new" and a': "a' = a\<lparr>starved := AList.update queue (entries_of a queue @ [key]) (starved a)\<rparr>"
      using assms Some by (auto simp: MarkStarved_def Let_def)
    have e: "entries_of a' q = (if q = queue then entries_of a queue @ [key] else entries_of a q)" for q
      by (simp add: a' entries_of_def)
    have "MarkStarved queue request a' = (False, a')"
      using Some e[of queue] by (simp add: MarkStarved_def Let_def)
    then show ?thesis using n False Some e by auto
  qed
qed

definition example_action :: action where
  "example_action = newAction\<lparr>workerIds := [1]\<rparr>"

theorem MarkStarved_once_witness:
  "\<exists>a'. MarkStarved ''q'' [(''default'', 1)] example_action = (True, a') \<and>
     MarkStarved ''q'' [(''default'', 1)] a' = (False, a')"
proof -
  obtain new a' where m: "MarkStarved ''q'' [(''default'', 1)] example_action = (new, a')" by (metis prod.exhaust)
  then have "new" by (simp add: MarkStarved_def slotTypeSetOf_def example_action_def newAction_def entries_of_def)
  with m MarkStarved_once[OF m] show ?thesis by auto
qed

definition example_pools :: "poolMem" where
  "example_pools = \<lparr>slotAt = (\<lambda>sl. \<lparr>slotWorker = 1, slotPool = Some 0, slotType = ''default'', slotIdx = sl,
       slotUsed = (sl \<noteq> 0)\<rparr>), slotNext = 2,
     poolAt = (\<lambda>_. \<lparr>poolWorker = 1, poolSlotType = ''default'', poolExpiresAt = 10, poolSlots = [0, 1],
       poolFree = [0]\<rparr>), poolNext = 1\<rparr>"

theorem RestoreStarved_exact_witness:
  "\<exists>a'. RestoreStarved example_pools [(1, [(''default'', 0)])] [1] 5
        (example_action\<lparr>starved := [(''q'', [''default'', ''gpu''])]\<rparr>) = ([''q''], a') \<and>
     set (entries_of a' ''q'') = {''gpu''}"
proof -
  let ?a = "example_action\<lparr>starved := [(''q'', [''default'', ''gpu''])]\<rparr>"
  let ?ps = "[(1, [(''default'', 0)])]"
  let ?free = "\<lambda>key. hasFreeSlotOfEachTypeIn example_pools ?ps [1] (slotTypeSetKey_types key) 5"
  have f: "?free ''default''" "\<not> ?free ''gpu''"
    by (simp_all add: hasFreeSlotOfEachTypeIn_def slotTypeSetKey_types_def slotTypeSeparator_def poolOf_def
        example_pools_def freeCountAt_def staleAt_def)
  obtain queues a' where r: "RestoreStarved example_pools ?ps [1] 5 ?a = (queues, a')" by (metis prod.exhaust)
  have d: "distinct_keys (starved ?a)" by simp
  have "queues = [''q'']"
    using r f by (simp add: RestoreStarved_def)
  moreover have "set (entries_of a' ''q'') = {''gpu''}"
    using RestoreStarved_exact[OF r d] f by (auto simp: entries_of_def)
  ultimately show ?thesis using r by blast
qed

end
