(* ===== verification/Rate_Limiter.thy ===== *)
theory Rate_Limiter
  imports Hatchet_Prelude
begin

text \<open>
  The tenant's rate limiter (\<open>src/pkg/scheduling/v1/rate_limit.go\<close>): the units a task reserves
  before it is assigned (\<open>use\<close>), the two ways a reservation ends (\<open>ack\<close>, \<open>nack\<close>), and the flush that
  charges spent units to the database and reads the limits back.

  A Go map is an association list, whose order is the order in which the map is iterated; the
  operations use \<open>AList.update\<close> and \<open>AList.delete\<close>, so keys stay distinct. A time is the number of
  nanoseconds since Go's zero time. Every reading of the clock inside an operation is an argument
  of it, and so is each call of \<open>FlushRateLimits\<close>, which runs SQL.
\<close>

section \<open>Model\<close>

definition MAX_RATE_LIMIT_UPDATE_FREQUENCY :: int where
  "MAX_RATE_LIMIT_UPDATE_FREQUENCY = 500 * 1000000"

record rateLimit =
  rlKey :: string
  rlVal :: int
  rlLimitValue :: int
  rlWindow :: string
  rlNextRefillAt :: "int option"
  rlPausedUntil :: "int option"

type_synonym rateLimitSet = "(string \<times> rateLimit) list"

text \<open>The units a task asks for, per key (\<open>map[string]int32\<close>).\<close>

type_synonym rateLimitUnits = "(string \<times> int) list"

record rateLimitDefinition =
  defLimitValue :: int
  defWindow :: string

text \<open>The send side of the channel of ended pauses: the room left in its buffer and what was sent.\<close>

record pauseChannel =
  chanRoom :: nat
  chanSent :: "nat list"

record rateLimiter =
  rlTenantId :: nat
  nextRefillAt :: "int option"
  unacked :: "(int \<times> rateLimitSet) list"
  unflushed :: rateLimitSet
  dbRateLimits :: rateLimitSet
  lastFlushAt :: int
  pausesEndedCh :: "pauseChannel option"
  pendingDefinitions :: "(string \<times> rateLimitDefinition) list"

definition newRateLimiter :: "nat \<Rightarrow> pauseChannel option \<Rightarrow> rateLimiter" where
  "newRateLimiter tenant ch =
     \<lparr>rlTenantId = tenant, nextRefillAt = None, unacked = [], unflushed = [], dbRateLimits = [],
      lastFlushAt = 0, pausesEndedCh = ch, pendingDefinitions = []\<rparr>"

text \<open>
  The result of \<open>use\<close>. The two closures of the source call \<open>ack\<close> and \<open>nack\<close> with the task they were
  built for: the model keeps that task id.
\<close>

record rateLimitResult =
  rlSucceeded :: bool
  rlTaskId :: int
  rlCallbacks :: "int option"
  exceededKey :: string
  exceededUnits :: int
  exceededVal :: int
  resNextRefillAt :: "int option"
  resPausedUntil :: "int option"

definition emptyResult :: rateLimitResult where
  "emptyResult =
     \<lparr>rlSucceeded = False, rlTaskId = 0, rlCallbacks = None, exceededKey = [], exceededUnits = 0,
      exceededVal = 0, resNextRefillAt = None, resPausedUntil = None\<rparr>"

text \<open>A \<open>rateLimit\<close> built with only its key and value, as in the unacked and unflushed sets.\<close>

definition usageEntry :: "string \<Rightarrow> int \<Rightarrow> rateLimit" where
  "usageEntry k v =
     \<lparr>rlKey = k, rlVal = v, rlLimitValue = 0, rlWindow = [], rlNextRefillAt = None,
      rlPausedUntil = None\<rparr>"

definition rateLimitsExist :: "rateLimitUnits \<Rightarrow> rateLimiter \<Rightarrow> bool" where
  "rateLimitsExist rls r \<longleftrightarrow> list_all (\<lambda>(k, _). map_of (dbRateLimits r) k \<noteq> None) rls"

fun pauseExpired_loop ::
  "int \<Rightarrow> rateLimiter \<Rightarrow> rateLimitUnits \<Rightarrow> int option \<Rightarrow> int option" where
  "pauseExpired_loop now r [] expiredAt = expiredAt"
| "pauseExpired_loop now r ((k, _) # rls) expiredAt =
     (case Option.bind (map_of (dbRateLimits r) k) rlPausedUntil of
        None \<Rightarrow> pauseExpired_loop now r rls expiredAt
      | Some t \<Rightarrow>
          if t > now \<or> \<not> t > lastFlushAt r then pauseExpired_loop now r rls expiredAt
          else if (case expiredAt of None \<Rightarrow> True | Some e \<Rightarrow> t > e)
               then pauseExpired_loop now r rls (Some t)
               else pauseExpired_loop now r rls expiredAt)"

definition pauseExpiredSinceFlush :: "int \<Rightarrow> rateLimitUnits \<Rightarrow> rateLimiter \<Rightarrow> int option" where
  "pauseExpiredSinceFlush now rls r = pauseExpired_loop now r rls None"

definition shouldRefill :: "int \<Rightarrow> rateLimiter \<Rightarrow> bool" where
  "shouldRefill now r = (case nextRefillAt r of None \<Rightarrow> False | Some t \<Rightarrow> \<not> t > now)"

definition copyDbRateLimits :: "rateLimiter \<Rightarrow> rateLimitSet" where
  "copyDbRateLimits r =
     map (\<lambda>(k, v). (k, (usageEntry k (rlVal v))
                          \<lparr>rlNextRefillAt := rlNextRefillAt v, rlPausedUntil := rlPausedUntil v\<rparr>))
         (dbRateLimits r)"

fun subtractSet :: "rateLimitUnits \<Rightarrow> rateLimitSet \<Rightarrow> rateLimitSet \<Rightarrow> rateLimitSet" where
  "subtractSet cand [] cur = cur"
| "subtractSet cand ((k, v) # vs) cur =
     subtractSet cand vs
       (if map_of cand k \<noteq> None
        then (case map_of cur k of
                None \<Rightarrow> cur
              | Some c \<Rightarrow> AList.update k (c\<lparr>rlVal := rlVal c - rlVal v\<rparr>) cur)
        else cur)"

fun subtractUnacked_loop ::
  "rateLimitUnits \<Rightarrow> (int \<times> rateLimitSet) list \<Rightarrow> rateLimitSet \<Rightarrow> rateLimitSet" where
  "subtractUnacked_loop cand [] cur = cur"
| "subtractUnacked_loop cand ((_, vs) # us) cur =
     subtractUnacked_loop cand us (subtractSet cand vs cur)"

definition subtractUnacked :: "rateLimitUnits \<Rightarrow> rateLimiter \<Rightarrow> rateLimitSet \<Rightarrow> rateLimitSet" where
  "subtractUnacked cand r cur = subtractUnacked_loop cand (unacked r) cur"

definition subtractUnflushed :: "rateLimitUnits \<Rightarrow> rateLimiter \<Rightarrow> rateLimitSet \<Rightarrow> rateLimitSet" where
  "subtractUnflushed cand r cur = subtractSet cand (unflushed r) cur"

fun addToUnacked :: "int \<Rightarrow> rateLimitUnits \<Rightarrow> rateLimiter \<Rightarrow> rateLimiter" where
  "addToUnacked task [] r = r"
| "addToUnacked task ((k, v) # rls) r =
     (let vs = (case map_of (unacked r) task of None \<Rightarrow> [] | Some vs \<Rightarrow> vs)
      in addToUnacked task rls
           (r\<lparr>unacked := AList.update task (AList.update k (usageEntry k v) vs) (unacked r)\<rparr>))"

fun ack_loop :: "rateLimitSet \<Rightarrow> rateLimitSet \<Rightarrow> rateLimitSet" where
  "ack_loop [] fl = fl"
| "ack_loop ((k, v) # vs) fl =
     (let e = (case map_of fl k of None \<Rightarrow> usageEntry k 0 | Some e \<Rightarrow> e)
      in ack_loop vs (AList.update k (e\<lparr>rlVal := rlVal e + rlVal v\<rparr>) fl))"

definition rl_ack :: "int \<Rightarrow> rateLimiter \<Rightarrow> rateLimiter" where
  "rl_ack task r =
     (case map_of (unacked r) task of
        None \<Rightarrow> r
      | Some vs \<Rightarrow> r\<lparr>unflushed := ack_loop vs (unflushed r), unacked := AList.delete task (unacked r)\<rparr>)"

definition rl_nack :: "int \<Rightarrow> rateLimiter \<Rightarrow> rateLimiter" where
  "rl_nack task r = r\<lparr>unacked := AList.delete task (unacked r)\<rparr>"

text \<open>\<open>addDefinitions\<close> accepts a nil receiver.\<close>

definition addDefinitions ::
  "(string \<times> rateLimitDefinition) list \<Rightarrow> rateLimiter option \<Rightarrow> rateLimiter option" where
  "addDefinitions defs ro =
     map_option (\<lambda>r. r\<lparr>pendingDefinitions :=
                         foldl (\<lambda>m (k, d). AList.update k d m) (pendingDefinitions r) defs\<rparr>) ro"

definition takeChangedDefinitions ::
  "rateLimiter \<Rightarrow> (string \<times> rateLimitDefinition) list \<times> rateLimiter" where
  "takeChangedDefinitions r =
     (filter (\<lambda>(k, d). \<not> (case map_of (dbRateLimits r) k of
                             None \<Rightarrow> False
                           | Some c \<Rightarrow> rlLimitValue c = defLimitValue d \<and> rlWindow c = defWindow d))
             (pendingDefinitions r),
      r\<lparr>pendingDefinitions := []\<rparr>)"

definition restoreDefinitions ::
  "(string \<times> rateLimitDefinition) list \<Rightarrow> rateLimiter \<Rightarrow> rateLimiter" where
  "restoreDefinitions defs r =
     r\<lparr>pendingDefinitions :=
         foldl (\<lambda>m (k, d). if map_of m k = None then AList.update k d m else m)
               (pendingDefinitions r) defs\<rparr>"

definition notifyPausesEnded :: "rateLimiter \<Rightarrow> rateLimiter" where
  "notifyPausesEnded r =
     (case pausesEndedCh r of
        None \<Rightarrow> r
      | Some ch \<Rightarrow>
          if 0 < chanRoom ch
          then r\<lparr>pausesEndedCh :=
                   Some (ch\<lparr>chanRoom := chanRoom ch - 1, chanSent := chanSent ch @ [rlTenantId r]\<rparr>)\<rparr>
          else r)"

record rateLimitRow =
  rowKey :: string
  rowValue :: int
  rowLimitValue :: int
  rowWindow :: string
  rowNextRefillAt :: int
  rowPausedUntil :: "int option"

type_synonym 'e flushCall =
  "(string \<times> int) list \<Rightarrow> (string \<times> rateLimitDefinition) list \<Rightarrow> 'e + rateLimitRow list \<times> int option"

text \<open>The readings of the clock in \<open>flush\<close>, in the order of the source.\<close>

record flushClock =
  clkCheck :: int
  clkRead :: int
  clkUntil :: int
  clkMin :: int

fun readRows :: "rateLimitRow list \<Rightarrow> rateLimitSet \<Rightarrow> rateLimitSet" where
  "readRows [] db = db"
| "readRows (row # rows) db =
     readRows rows
       (AList.update (rowKey row)
          \<lparr>rlKey = rowKey row, rlVal = rowValue row, rlLimitValue = rowLimitValue row,
           rlWindow = rowWindow row, rlNextRefillAt = Some (rowNextRefillAt row),
           rlPausedUntil = rowPausedUntil row\<rparr> db)"

definition pauseEnded :: "rateLimitSet \<Rightarrow> rateLimitSet \<Rightarrow> bool" where
  "pauseEnded old new \<longleftrightarrow>
     list_ex (\<lambda>(k, v). rlPausedUntil v \<noteq> None \<and>
                        (case map_of new k of None \<Rightarrow> True | Some rl \<Rightarrow> rlPausedUntil rl = None)) old"

definition flush ::
  "'e flushCall \<Rightarrow> flushClock \<Rightarrow> int option \<Rightarrow> rateLimiter \<Rightarrow> 'e option \<times> rateLimiter" where
  "flush db clk staleBefore r =
     (if (case staleBefore of None \<Rightarrow> False | Some t \<Rightarrow> \<not> lastFlushAt r < t) then (None, r)
      else
        case takeChangedDefinitions r of (definitions, r1) \<Rightarrow>
          if staleBefore = None \<and> definitions = [] \<and>
             (case nextRefillAt r1 of None \<Rightarrow> False | Some t \<Rightarrow> t > clkCheck clk)
          then (None, r1)
          else
            case db (map (\<lambda>(k, v). (k, rlVal v)) (unflushed r1)) definitions of
              Inl e \<Rightarrow> (Some e, restoreDefinitions definitions r1)
            | Inr (rows, refill) \<Rightarrow>
                let r2 = (case refill of
                            None \<Rightarrow> r1
                          | Some t \<Rightarrow>
                              r1\<lparr>nextRefillAt :=
                                   Some (if t - clkUntil clk < MAX_RATE_LIMIT_UPDATE_FREQUENCY
                                         then clkMin clk + MAX_RATE_LIMIT_UPDATE_FREQUENCY else t)\<rparr>);
                    r3 = r2\<lparr>dbRateLimits := readRows rows [], lastFlushAt := clkRead clk,
                             unflushed := []\<rparr>
                in (None, if pauseEnded (dbRateLimits r2) (dbRateLimits r3)
                          then notifyPausesEnded r3 else r3))"

definition rl_flushToDatabase ::
  "'e flushCall \<Rightarrow> flushClock \<Rightarrow> rateLimiter \<Rightarrow> 'e option \<times> rateLimiter" where
  "rl_flushToDatabase db clk r = flush db clk None r"

definition rl_refresh ::
  "'e flushCall \<Rightarrow> flushClock \<Rightarrow> int \<Rightarrow> rateLimiter \<Rightarrow> 'e option \<times> rateLimiter" where
  "rl_refresh db clk staleBefore r = flush db clk (Some staleBefore) r"

text \<open>The loop of \<open>use\<close> over the keys that are paused: the key whose pause ends last is reported.\<close>

fun use_paused :: "int \<Rightarrow> rateLimitSet \<Rightarrow> rateLimitUnits \<Rightarrow> rateLimitResult \<Rightarrow> rateLimitResult" where
  "use_paused now cur [] res = res"
| "use_paused now cur ((k, v) # rls) res =
     use_paused now cur rls
       (case Option.bind (map_of cur k) rlPausedUntil of
          None \<Rightarrow> res
        | Some t \<Rightarrow>
            if t > now \<and> (case resPausedUntil res of None \<Rightarrow> True | Some p \<Rightarrow> t > p)
            then res\<lparr>exceededKey := k, exceededUnits := v, resPausedUntil := Some t,
                     resNextRefillAt := Some t\<rparr>
            else res)"

text \<open>The loop over the keys that have too few units left; \<open>None\<close> when there is none.\<close>

fun use_exceeded :: "rateLimitSet \<Rightarrow> rateLimitUnits \<Rightarrow> rateLimitResult \<Rightarrow> rateLimitResult option" where
  "use_exceeded cur [] res = None"
| "use_exceeded cur ((k, v) # rls) res =
     (case map_of cur k of
        None \<Rightarrow> use_exceeded cur rls res
      | Some c \<Rightarrow>
          if rlVal c < v
          then Some (res\<lparr>exceededKey := k, exceededUnits := v, exceededVal := int32 (rlVal c),
                         resNextRefillAt := rlNextRefillAt c\<rparr>)
          else use_exceeded cur rls res)"

text \<open>
  What \<open>use\<close> does from \<open>copyDbRateLimits\<close> on. The part that reads the state (\<open>use_check\<close>, \<open>None\<close> when
  nothing stands against the task) is apart from the one that writes it, because the locks of the
  source are released between them.
\<close>

definition use_check ::
  "int \<Rightarrow> int \<Rightarrow> rateLimitUnits \<Rightarrow> rateLimiter \<Rightarrow> rateLimitResult option" where
  "use_check now task rls r =
     (let res = emptyResult\<lparr>rlTaskId := task\<rparr>;
          currRls = copyDbRateLimits r;
          paused = use_paused now currRls rls res
      in if resPausedUntil paused \<noteq> None then Some paused
         else use_exceeded (subtractUnflushed rls r (subtractUnacked rls r currRls)) rls res)"

definition use_granted :: "int \<Rightarrow> rateLimitResult" where
  "use_granted task = emptyResult\<lparr>rlSucceeded := True, rlCallbacks := Some task\<rparr>"

text \<open>The database calls and clock readings of one \<open>use\<close>.\<close>

record 'e useEnv =
  envFlush :: "'e flushCall"
  envFlushClock :: flushClock
  envRefresh :: "'e flushCall"
  envRefreshClock :: flushClock
  envRefillNow :: int
  envExpiredNow :: int
  envNow :: int

text \<open>The first part of \<open>use\<close>: the limits are brought up to date. \<open>Inl\<close> is an early return.\<close>

definition use_sync ::
  "'e useEnv \<Rightarrow> rateLimitUnits \<Rightarrow> rateLimiter \<Rightarrow> rateLimiter + rateLimiter" where
  "use_sync env rls r =
     (if \<not> rateLimitsExist rls r
      then (case rl_flushToDatabase (envFlush env) (envFlushClock env) r of
              (Some _, r1) \<Rightarrow> Inl r1
            | (None, r1) \<Rightarrow> if rateLimitsExist rls r1 then Inr r1 else Inl r1)
      else if shouldRefill (envRefillNow env) r
      then (case rl_flushToDatabase (envFlush env) (envFlushClock env) r of
              (Some _, r1) \<Rightarrow> Inl r1 | (None, r1) \<Rightarrow> Inr r1)
      else Inr r)"

definition use_refresh ::
  "'e useEnv \<Rightarrow> rateLimitUnits \<Rightarrow> rateLimiter \<Rightarrow> rateLimiter + rateLimiter" where
  "use_refresh env rls r =
     (case pauseExpiredSinceFlush (envExpiredNow env) rls r of
        None \<Rightarrow> Inr r
      | Some expiredAt \<Rightarrow>
          (case rl_refresh (envRefresh env) (envRefreshClock env) expiredAt r of
             (Some _, r1) \<Rightarrow> Inl r1 | (None, r1) \<Rightarrow> Inr r1))"

definition rl_use ::
  "'e useEnv \<Rightarrow> int \<Rightarrow> rateLimitUnits \<Rightarrow> rateLimiter \<Rightarrow> rateLimitResult \<times> rateLimiter" where
  "rl_use env task rls r =
     (case use_sync env rls r of
        Inl r1 \<Rightarrow> (emptyResult\<lparr>rlTaskId := task\<rparr>, r1)
      | Inr r1 \<Rightarrow>
          (case use_refresh env rls r1 of
             Inl r2 \<Rightarrow> (emptyResult\<lparr>rlTaskId := task\<rparr>, r2)
           | Inr r2 \<Rightarrow>
               (case use_check (envNow env) task rls r2 of
                  Some res \<Rightarrow> (res, r2)
                | None \<Rightarrow> (use_granted task, addToUnacked task rls r2))))"

section \<open>Ledger of reserved and charged units\<close>

text \<open>
  \<open>reserved r k\<close> are the units of \<open>k\<close> held by tasks that were neither acked nor nacked, \<open>charged r k\<close> the
  spent units that the database has not seen yet.
\<close>

definition units_in :: "rateLimitSet \<Rightarrow> string \<Rightarrow> int" where
  "units_in vs k = (case map_of vs k of None \<Rightarrow> 0 | Some v \<Rightarrow> rlVal v)"

definition held_by :: "(int \<times> rateLimitSet) list \<Rightarrow> int \<Rightarrow> string \<Rightarrow> int" where
  "held_by us task k = units_in (case map_of us task of None \<Rightarrow> [] | Some vs \<Rightarrow> vs) k"

definition reserved :: "rateLimiter \<Rightarrow> string \<Rightarrow> int" where
  "reserved r k = (\<Sum>(_, vs)\<leftarrow>unacked r. units_in vs k)"

definition charged :: "rateLimiter \<Rightarrow> string \<Rightarrow> int" where
  "charged r k = units_in (unflushed r) k"

text \<open>The maps of the limiter have one entry per key, and no reservation is negative.\<close>

definition limiter_ok :: "rateLimiter \<Rightarrow> bool" where
  "limiter_ok r \<longleftrightarrow>
     distinct_keys (unacked r) \<and> distinct_keys (unflushed r) \<and> distinct_keys (dbRateLimits r) \<and>
     distinct_keys (pendingDefinitions r) \<and>
     (\<forall>(_, vs)\<in>set (unacked r). distinct_keys vs \<and> (\<forall>(_, v)\<in>set vs. 0 \<le> rlVal v)) \<and>
     (\<forall>(_, v)\<in>set (unflushed r). 0 \<le> rlVal v)"

lemma units_in_simps [simp]:
  "units_in [] k = 0"
  "units_in ((k', v) # vs) k = (if k = k' then rlVal v else units_in vs k)"
  "units_in (AList.update k' v vs) k = (if k = k' then rlVal v else units_in vs k)"
  by (auto simp: units_in_def)

lemma units_in_absent: "k \<notin> fst ` set vs \<Longrightarrow> units_in vs k = 0"
  by (simp add: units_in_def map_of_eq_None_iff[THEN iffD2])

lemma units_in_nonneg: "(\<forall>(_, v)\<in>set vs. 0 \<le> rlVal v) \<Longrightarrow> 0 \<le> units_in vs k"
  by (auto simp: units_in_def split: option.splits dest!: map_of_SomeD)

lemma reserved_update:
  assumes "distinct_keys (unacked r)"
  shows "reserved (r\<lparr>unacked := AList.update task vs (unacked r)\<rparr>) k =
     reserved r k - held_by (unacked r) task k + units_in vs k"
  unfolding reserved_def held_by_def
  using assms by (simp add: sum_AList_update[of _ "\<lambda>vs. units_in vs k"] split: option.splits)

lemma reserved_delete:
  assumes "distinct_keys (unacked r)"
  shows "reserved (r\<lparr>unacked := AList.delete task (unacked r)\<rparr>) k =
     reserved r k - held_by (unacked r) task k"
  unfolding reserved_def held_by_def
  using assms by (simp add: sum_AList_delete[of _ "\<lambda>vs. units_in vs k"] split: option.splits)

lemma held_by_nonneg: "limiter_ok r \<Longrightarrow> 0 \<le> held_by (unacked r) task k"
  unfolding held_by_def limiter_ok_def
  by (fastforce split: option.splits dest!: map_of_SomeD intro!: units_in_nonneg)

lemma reserved_nonneg: "limiter_ok r \<Longrightarrow> 0 \<le> reserved r k"
  unfolding reserved_def limiter_ok_def
  by (fastforce intro!: sum_list_nonneg units_in_nonneg)

lemma charged_nonneg: "limiter_ok r \<Longrightarrow> 0 \<le> charged r k"
  unfolding charged_def limiter_ok_def by (auto intro!: units_in_nonneg)

section \<open>The operations\<close>

lemma ack_loop_units: "distinct_keys vs \<Longrightarrow> units_in (ack_loop vs fl) k = units_in fl k + units_in vs k"
proof (induction vs fl rule: ack_loop.induct)
  case (2 k' v vs fl)
  then show ?case
    by (auto simp: Let_def units_in_absent units_in_def[of fl] usageEntry_def split: option.splits)
qed simp

lemma ack_loop_distinct [simp]: "distinct_keys fl \<Longrightarrow> distinct_keys (ack_loop vs fl)"
  by (induction vs fl rule: ack_loop.induct) (auto simp: Let_def)

lemma ack_loop_nonneg:
  assumes "\<forall>(_, v)\<in>set fl. 0 \<le> rlVal v" "\<forall>(_, v)\<in>set vs. 0 \<le> rlVal v"
  shows "\<forall>(_, v)\<in>set (ack_loop vs fl). 0 \<le> rlVal v"
  using assms
proof (induction vs fl rule: ack_loop.induct)
  case (2 k v vs fl)
  let ?e = "case map_of fl k of None \<Rightarrow> usageEntry k 0 | Some e \<Rightarrow> e"
  have "0 \<le> rlVal ?e"
    using 2(2) by (auto simp: usageEntry_def split: option.splits dest!: map_of_SomeD)
  then have "\<forall>(_, w)\<in>set (AList.update k (?e\<lparr>rlVal := rlVal ?e + rlVal v\<rparr>) fl). 0 \<le> rlVal w"
    using 2(2,3) by (fastforce dest: set_AList_update)
  from 2(1)[OF refl this] 2(3) show ?case by (simp add: Let_def)
qed simp

lemma ack_units:
  assumes "limiter_ok r"
  shows "reserved (rl_ack task r) k = reserved r k - held_by (unacked r) task k"
    and "charged (rl_ack task r) k = charged r k + held_by (unacked r) task k"
proof -
  have d: "distinct_keys (unacked r)" using assms by (simp add: limiter_ok_def)
  have "reserved (rl_ack task r) k = reserved (r\<lparr>unacked := AList.delete task (unacked r)\<rparr>) k"
    by (auto simp: rl_ack_def reserved_def delete_id map_of_eq_None_iff split: option.splits)
  then show "reserved (rl_ack task r) k = reserved r k - held_by (unacked r) task k"
    using reserved_delete[OF d] by simp
  have v: "distinct_keys vs" if "map_of (unacked r) task = Some vs" for vs
    using assms map_of_SomeD[OF that] by (auto simp: limiter_ok_def)
  show "charged (rl_ack task r) k = charged r k + held_by (unacked r) task k"
    by (cases "map_of (unacked r) task") (auto simp: rl_ack_def held_by_def charged_def ack_loop_units v)
qed

lemma nack_units:
  assumes "limiter_ok r"
  shows "reserved (rl_nack task r) k = reserved r k - held_by (unacked r) task k"
    and "charged (rl_nack task r) k = charged r k"
  using assms reserved_delete by (auto simp: rl_nack_def charged_def limiter_ok_def)

lemma ack_ok: "limiter_ok r \<Longrightarrow> limiter_ok (rl_ack task r)"
proof (cases "map_of (unacked r) task")
  case (Some vs)
  assume ok: "limiter_ok r"
  have vs: "(task, vs) \<in> set (unacked r)" by (rule map_of_SomeD[OF Some])
  have "\<forall>(_, v)\<in>set (ack_loop vs (unflushed r)). 0 \<le> rlVal v"
    using ok vs by (intro ack_loop_nonneg) (auto simp: limiter_ok_def)
  then show ?thesis
    using ok Some by (auto simp: rl_ack_def limiter_ok_def dest!: set_AList_delete)
qed (simp add: rl_ack_def)

lemma nack_ok: "limiter_ok r \<Longrightarrow> limiter_ok (rl_nack task r)"
  by (auto simp: rl_nack_def limiter_ok_def dest!: set_AList_delete)

text \<open>What \<open>addToUnacked\<close> leaves alone.\<close>

lemma addToUnacked_frame [simp]:
  "unflushed (addToUnacked task rls r) = unflushed r"
  "dbRateLimits (addToUnacked task rls r) = dbRateLimits r"
  "pendingDefinitions (addToUnacked task rls r) = pendingDefinitions r"
  "nextRefillAt (addToUnacked task rls r) = nextRefillAt r"
  "lastFlushAt (addToUnacked task rls r) = lastFlushAt r"
  by (induction task rls r rule: addToUnacked.induct) (auto simp: Let_def)

abbreviation unacked_of :: "rateLimiter \<Rightarrow> int \<Rightarrow> rateLimitSet" where
  "unacked_of r task \<equiv> (case map_of (unacked r) task of None \<Rightarrow> [] | Some vs \<Rightarrow> vs)"

lemma unacked_of_ok:
  assumes "limiter_ok r"
  shows "distinct_keys (unacked_of r task)" "\<forall>(_, u)\<in>set (unacked_of r task). 0 \<le> rlVal u"
proof -
  show "distinct_keys (unacked_of r task)"
    using assms by (auto simp: limiter_ok_def split: option.split dest!: map_of_SomeD)
  show "\<forall>(_, u)\<in>set (unacked_of r task). 0 \<le> rlVal u"
  proof (cases "map_of (unacked r) task")
    case (Some vs)
    then show ?thesis using assms map_of_SomeD[OF Some] by (auto simp: limiter_ok_def)
  qed simp
qed

lemma add_one_ok:
  assumes ok: "limiter_ok r" and v: "0 \<le> v"
  shows "limiter_ok (r\<lparr>unacked := AList.update task (AList.update k (usageEntry k v) (unacked_of r task)) (unacked r)\<rparr>)"
proof -
  let ?vs = "unacked_of r task"
  note vs = unacked_of_ok[OF ok, of task]
  then have "\<forall>(_, u)\<in>set (AList.update k (usageEntry k v) ?vs). 0 \<le> rlVal u"
    using v by (auto simp: usageEntry_def dest!: set_AList_update)
  then show ?thesis
    using ok vs by (auto simp: limiter_ok_def dest!: set_AList_update)
qed

lemma addToUnacked_ok:
  "limiter_ok r \<Longrightarrow> \<forall>(_, v)\<in>set rls. 0 \<le> v \<Longrightarrow> limiter_ok (addToUnacked task rls r)"
proof (induction task rls r rule: addToUnacked.induct)
  case (2 task k v rls r)
  then show ?case using add_one_ok[of r v task k] by (auto simp: Let_def)
qed simp

lemma addToUnacked_held:
  "held_by (unacked (addToUnacked task rls r)) task k =
     (case map_of (rev rls) k of None \<Rightarrow> held_by (unacked r) task k | Some v \<Rightarrow> v)"
proof (induction task rls r rule: addToUnacked.induct)
  case (2 task k' v rls r)
  let ?r = "r\<lparr>unacked := AList.update task (AList.update k' (usageEntry k' v) (unacked_of r task)) (unacked r)\<rparr>"
  have "held_by (unacked ?r) task k = (if k = k' then v else held_by (unacked r) task k)"
    by (simp add: held_by_def usageEntry_def)
  then show ?case
    using 2[OF refl] by (auto simp: Let_def map_add_def split: option.splits)
qed simp

lemma addToUnacked_reserved:
  "limiter_ok r \<Longrightarrow> \<forall>(_, v)\<in>set rls. 0 \<le> v \<Longrightarrow>
   reserved (addToUnacked task rls r) k =
     reserved r k - held_by (unacked r) task k +
     held_by (unacked (addToUnacked task rls r)) task k"
proof (induction task rls r rule: addToUnacked.induct)
  case (2 task k' v rls r)
  let ?vs = "AList.update k' (usageEntry k' v) (unacked_of r task)"
  let ?r = "r\<lparr>unacked := AList.update task ?vs (unacked r)\<rparr>"
  have d: "distinct_keys (unacked r)" using 2(2) by (simp add: limiter_ok_def)
  have "limiter_ok ?r" using add_one_ok[of r v task k'] 2(2,3) by auto
  with 2(1)[OF refl] 2(3) have "reserved (addToUnacked task rls ?r) k =
      reserved ?r k - held_by (unacked ?r) task k + held_by (unacked (addToUnacked task rls ?r)) task k"
    by auto
  moreover have "reserved ?r k = reserved r k - held_by (unacked r) task k + units_in ?vs k"
    by (rule reserved_update[OF d])
  moreover have "held_by (unacked ?r) task k = units_in ?vs k"
    by (simp add: held_by_def)
  ultimately show ?case by (simp add: Let_def)
qed simp

lemma map_of_copyDb:
  "map_of (copyDbRateLimits r) k =
     map_option (\<lambda>v. (usageEntry k (rlVal v))
       \<lparr>rlNextRefillAt := rlNextRefillAt v, rlPausedUntil := rlPausedUntil v\<rparr>) (map_of (dbRateLimits r) k)"
proof -
  have "map_of (map (\<lambda>(k, v). (k, f k v)) db) k = map_option (f k) (map_of db k)"
    for f :: "string \<Rightarrow> rateLimit \<Rightarrow> rateLimit" and db
    by (induction db) auto
  then show ?thesis by (simp add: copyDbRateLimits_def)
qed

lemma subtractSet_lookup:
  "distinct_keys vs \<Longrightarrow>
   map_of (subtractSet cand vs cur) k =
     (if map_of cand k = None then map_of cur k
      else map_option (\<lambda>c. c\<lparr>rlVal := rlVal c - units_in vs k\<rparr>) (map_of cur k))"
proof (induction cand vs cur rule: subtractSet.induct)
  case (1 cand cur)
  then show ?case by (cases "map_of cur k") auto
next
  case (2 cand k' v vs cur)
  then show ?case
    by (cases "map_of cur k'"; cases "map_of cur k") (auto simp: units_in_absent)
qed

lemma subtractUnacked_loop_lookup:
  "\<forall>(_, vs)\<in>set us. distinct_keys vs \<Longrightarrow>
   map_of (subtractUnacked_loop cand us cur) k =
     (if map_of cand k = None then map_of cur k
      else map_option (\<lambda>c. c\<lparr>rlVal := rlVal c - (\<Sum>(_, vs)\<leftarrow>us. units_in vs k)\<rparr>) (map_of cur k))"
proof (induction cand us cur rule: subtractUnacked_loop.induct)
  case (1 cand cur)
  then show ?case by (cases "map_of cur k") auto
next
  case (2 cand t vs us cur)
  then show ?case
    by (cases "map_of cur k") (auto simp: subtractSet_lookup)
qed

text \<open>After both subtractions a requested key shows the units nobody holds or has spent.\<close>

lemma subtracted_lookup:
  assumes "limiter_ok r" "k \<in> fst ` set rls"
  shows "map_of (subtractUnflushed rls r (subtractUnacked rls r (copyDbRateLimits r))) k =
     map_option (\<lambda>v. (usageEntry k (rlVal v - reserved r k - charged r k))
       \<lparr>rlNextRefillAt := rlNextRefillAt v, rlPausedUntil := rlPausedUntil v\<rparr>) (map_of (dbRateLimits r) k)"
proof -
  obtain u where c: "map_of rls k = Some u"
    using assms(2) by (cases "map_of rls k") (auto simp: map_of_eq_None_iff)
  have "\<forall>(_, vs)\<in>set (unacked r). distinct_keys vs" "distinct_keys (unflushed r)"
    using assms(1) by (auto simp: limiter_ok_def)
  then show ?thesis
    using c by (cases "map_of (dbRateLimits r) k")
      (simp_all add: subtractUnflushed_def subtractUnacked_def subtractSet_lookup
        subtractUnacked_loop_lookup map_of_copyDb charged_def reserved_def usageEntry_def)
qed

lemma use_exceeded_None:
  "use_exceeded cur rls res = None \<longleftrightarrow>
     (\<forall>(k, v)\<in>set rls. \<forall>c. map_of cur k = Some c \<longrightarrow> v \<le> rlVal c)"
  by (induction cur rls res rule: use_exceeded.induct) (auto split: option.splits)

definition pause_times :: "int \<Rightarrow> rateLimitSet \<Rightarrow> rateLimitUnits \<Rightarrow> int set" where
  "pause_times now db rls =
     {t. now < t \<and> (\<exists>k\<in>fst ` set rls. Option.bind (map_of db k) rlPausedUntil = Some t)}"

lemma finite_pause_times [simp]: "finite (pause_times now db rls)"
proof (rule finite_subset)
  show "pause_times now db rls \<subseteq> (\<lambda>(_, c). the (rlPausedUntil c)) ` set db"
    by (force simp: pause_times_def bind_eq_Some_conv dest: map_of_SomeD)
qed simp

lemma pause_times_Nil [simp]: "pause_times now db [] = {}"
  by (simp add: pause_times_def)

lemma pause_times_Cons:
  "pause_times now db ((k, v) # rls) =
     (case Option.bind (map_of db k) rlPausedUntil of
        None \<Rightarrow> {} | Some t \<Rightarrow> if now < t then {t} else {}) \<union> pause_times now db rls"
  by (auto simp: pause_times_def split: option.splits)

lemma use_paused_time:
  "resPausedUntil (use_paused now cur rls res) =
     (let ts = pause_times now cur rls \<union> set_option (resPausedUntil res)
      in if ts = {} then None else Some (Max ts))"
proof (induction now cur rls res rule: use_paused.induct)
  case (1 now cur res)
  then show ?case by (cases "resPausedUntil res") simp_all
next
  case (2 now cur k v rls res)
  show ?case
  proof (cases "Option.bind (map_of cur k) rlPausedUntil")
    case None
    then show ?thesis using 2 by (simp add: pause_times_Cons)
  next
    case (Some t)
    show ?thesis
    proof (cases "now < t")
      case False
      then show ?thesis using 2 Some by (simp add: pause_times_Cons)
    next
      case now: True
      show ?thesis
      proof (cases "resPausedUntil res")
        case None
        then show ?thesis using 2 Some now by (simp add: pause_times_Cons insert_commute)
      next
        case (Some p)
        let ?S = "pause_times now cur rls"
        have m: "Max (?S \<union> {q}) = Max (insert t ?S \<union> {p})" if "q = (if p < t then t else p)" for q
        proof -
          have "insert t ?S \<union> {p} = insert t (insert p ?S)" by auto
          then show ?thesis
            using that by (cases "?S = {}") (auto simp: max_def)
        qed
        show ?thesis
          using 2 Some \<open>Option.bind _ _ = Some t\<close> now m[OF refl]
          by (cases "p < t") (simp_all add: pause_times_Cons Let_def)
      qed
    qed
  qed
qed

lemma use_paused_unchanged:
  "pause_times now cur rls = {} \<Longrightarrow> use_paused now cur rls res = res"
proof (induction now cur rls res rule: use_paused.induct)
  case (2 now cur k v rls res)
  then show ?case
    by (auto simp: pause_times_Cons split: option.splits if_splits)
qed simp

lemma pause_times_copy: "pause_times now (copyDbRateLimits r) rls = pause_times now (dbRateLimits r) rls"
proof -
  have "Option.bind (map_of (copyDbRateLimits r) k) rlPausedUntil =
      Option.bind (map_of (dbRateLimits r) k) rlPausedUntil" for k
    by (cases "map_of (dbRateLimits r) k") (simp_all add: map_of_copyDb)
  then show ?thesis by (simp add: pause_times_def)
qed

text \<open>A task passes the check exactly when no key is paused and every key has the units left.\<close>

definition units_left :: "rateLimiter \<Rightarrow> rateLimitUnits \<Rightarrow> bool" where
  "units_left r rls \<longleftrightarrow>
     (\<forall>(k, v)\<in>set rls. \<forall>c. map_of (dbRateLimits r) k = Some c \<longrightarrow>
        v + reserved r k + charged r k \<le> rlVal c)"

lemma use_check_None:
  assumes "limiter_ok r"
  shows "use_check now task rls r = None \<longleftrightarrow>
     pause_times now (dbRateLimits r) rls = {} \<and> units_left r rls"
proof -
  have "use_exceeded (subtractUnflushed rls r (subtractUnacked rls r (copyDbRateLimits r))) rls res = None
      \<longleftrightarrow> units_left r rls" for res
    unfolding use_exceeded_None units_left_def
  proof (intro ball_cong refl, clarify)
    fix k v assume "(k, v) \<in> set rls"
    then have "k \<in> fst ` set rls" by force
    from subtracted_lookup[OF assms this]
    show "(\<forall>c. map_of (subtractUnflushed rls r (subtractUnacked rls r (copyDbRateLimits r))) k = Some c \<longrightarrow> v \<le> rlVal c)
        \<longleftrightarrow> (\<forall>c. map_of (dbRateLimits r) k = Some c \<longrightarrow> v + reserved r k + charged r k \<le> rlVal c)"
      by (cases "map_of (dbRateLimits r) k") (auto simp: usageEntry_def)
  qed
  moreover have "resPausedUntil (use_paused now (copyDbRateLimits r) rls (emptyResult\<lparr>rlTaskId := task\<rparr>)) \<noteq> None
      \<longleftrightarrow> pause_times now (dbRateLimits r) rls \<noteq> {}"
    by (simp add: use_paused_time pause_times_copy emptyResult_def Let_def)
  ultimately show ?thesis
    by (simp add: use_check_def Let_def)
qed

lemma use_check_paused:
  assumes "pause_times now (dbRateLimits r) rls \<noteq> {}"
  shows "\<exists>res. use_check now task rls r = Some res \<and>
     resPausedUntil res = Some (Max (pause_times now (dbRateLimits r) rls))"
  using assms by (simp add: use_check_def use_paused_time pause_times_copy emptyResult_def Let_def)

section \<open>Flushing\<close>

lemma use_check_refuses:
  assumes "use_check now task rls r = Some res"
  shows "\<not> rlSucceeded res"
proof -
  have "\<not> rlSucceeded (use_paused now cur us s)" if "\<not> rlSucceeded s" for cur us s
    using that by (induction now cur us s rule: use_paused.induct) (auto split: option.splits)
  moreover have "\<not> rlSucceeded s'" if "use_exceeded cur us s = Some s'" "\<not> rlSucceeded s" for cur us s s'
    using that by (induction cur us s rule: use_exceeded.induct) (auto split: option.splits if_splits)
  ultimately show ?thesis
    using assms by (auto simp: use_check_def Let_def emptyResult_def split: if_splits)
qed

lemma readRows_distinct [simp]: "distinct_keys db \<Longrightarrow> distinct_keys (readRows rows db)"
  by (induction rows db rule: readRows.induct) auto

lemma notifyPausesEnded_frame [simp]:
  "unacked (notifyPausesEnded r) = unacked r" "unflushed (notifyPausesEnded r) = unflushed r"
  "dbRateLimits (notifyPausesEnded r) = dbRateLimits r"
  "pendingDefinitions (notifyPausesEnded r) = pendingDefinitions r"
  by (simp_all add: notifyPausesEnded_def split: option.splits)

lemma restoreDefinitions_frame [simp]:
  "unacked (restoreDefinitions defs r) = unacked r" "unflushed (restoreDefinitions defs r) = unflushed r"
  "dbRateLimits (restoreDefinitions defs r) = dbRateLimits r"
  "nextRefillAt (restoreDefinitions defs r) = nextRefillAt r"
  "lastFlushAt (restoreDefinitions defs r) = lastFlushAt r"
  by (simp_all add: restoreDefinitions_def)

lemma restore_lookup:
  "map_of (foldl (\<lambda>m (k, d). if map_of m k = None then AList.update k d m else m) m defs) k =
     (case map_of m k of Some d \<Rightarrow> Some d | None \<Rightarrow> map_of defs k)"
proof (induction defs arbitrary: m)
  case (Cons p defs)
  then show ?case by (cases p) (auto split: option.splits)
qed (simp split: option.splits)

lemma restore_distinct:
  "distinct_keys m \<Longrightarrow>
   distinct_keys (foldl (\<lambda>m (k, d). if map_of m k = None then AList.update k d m else m) m defs)"
  by (induction defs arbitrary: m) (auto split: prod.splits)

abbreviation usage_of :: "rateLimiter \<Rightarrow> (string \<times> int) list" where
  "usage_of r \<equiv> map (\<lambda>(k, v). (k, rlVal v)) (unflushed r)"

lemma map_of_usage: "map_of (usage_of r) k = map_option rlVal (map_of (unflushed r) k)"
  by (induction "unflushed r" arbitrary: r) (simp_all add: map_of_map)

text \<open>
  A flush returns early, fails, or succeeds. The first two keep reservations, spent units and the
  limits as they are; a success empties the spent units and installs the rows the database returned
  for them.
\<close>

lemma flush_cases:
  assumes "flush db clk st r = (err, r')"
  obtains
    (Idle) "err = None" "unacked r' = unacked r" "unflushed r' = unflushed r"
      "dbRateLimits r' = dbRateLimits r"
      "pendingDefinitions r' = pendingDefinitions r \<or>
       pendingDefinitions r' = [] \<and> fst (takeChangedDefinitions r) = []"
  | (Fail) e defs where "err = Some e" "takeChangedDefinitions r = (defs, r\<lparr>pendingDefinitions := []\<rparr>)"
      "db (usage_of r) defs = Inl e"
      "r' = restoreDefinitions defs (r\<lparr>pendingDefinitions := []\<rparr>)"
  | (Done) defs rows refill where "err = None" "db (usage_of r) defs = Inr (rows, refill)"
      "unacked r' = unacked r" "unflushed r' = []" "dbRateLimits r' = readRows rows []"
      "pendingDefinitions r' = []"
proof -
  obtain defs where t: "takeChangedDefinitions r = (defs, r\<lparr>pendingDefinitions := []\<rparr>)"
    by (simp add: takeChangedDefinitions_def)
  let ?stale = "case st of None \<Rightarrow> False | Some t \<Rightarrow> \<not> lastFlushAt r < t"
  let ?early = "st = None \<and> defs = [] \<and> (case nextRefillAt r of None \<Rightarrow> False | Some t \<Rightarrow> t > clkCheck clk)"
  show thesis
  proof (cases "?stale \<or> ?early")
    case True
    then show thesis
      using assms t by (intro Idle) (auto simp: flush_def split: if_splits)
  next
    case False
    then have s: "\<not> ?stale" and e: "\<not> ?early" by auto
    show thesis
    proof (cases "db (usage_of r) defs")
      case (Inl x)
      have "flush db clk st r = (Some x, restoreDefinitions defs (r\<lparr>pendingDefinitions := []\<rparr>))"
        using s e Inl by (cases st; cases "nextRefillAt r"; cases defs) (simp_all add: flush_def t)
      with assms t Inl show thesis by (intro Fail) auto
    next
      case (Inr p)
      obtain rows refill where p: "p = (rows, refill)" by (cases p)
      define r2 where "r2 = (case refill of
                            None \<Rightarrow> r\<lparr>pendingDefinitions := []\<rparr>
                          | Some t \<Rightarrow>
                              (r\<lparr>pendingDefinitions := []\<rparr>)\<lparr>nextRefillAt :=
                                   Some (if t - clkUntil clk < MAX_RATE_LIMIT_UPDATE_FREQUENCY
                                         then clkMin clk + MAX_RATE_LIMIT_UPDATE_FREQUENCY else t)\<rparr>)"
      have r2: "unacked r2 = unacked r" "pendingDefinitions r2 = []"
        by (simp_all add: r2_def split: option.split)
      have fl: "flush db clk st r =
          (let r3 = r2\<lparr>dbRateLimits := readRows rows [], lastFlushAt := clkRead clk, unflushed := []\<rparr>
           in (None, if pauseEnded (dbRateLimits r2) (dbRateLimits r3) then notifyPausesEnded r3 else r3))"
        unfolding r2_def using s e Inr p
        by (cases st; cases "nextRefillAt r"; cases defs) (simp_all add: flush_def t Let_def)
      show thesis
      proof (rule Done[of defs rows refill])
        show "db (usage_of r) defs = Inr (rows, refill)" using Inr p by simp
      qed (use assms r2 fl in \<open>auto simp: Let_def split: if_splits\<close>)
    qed
  qed
qed

lemma flush_ok:
  assumes "limiter_ok r" "flush db clk st r = (err, r')"
  shows "limiter_ok r'"
  using assms(2)
proof (cases rule: flush_cases)
  case (Fail e defs)
  then show ?thesis
    using assms(1) by (auto simp: limiter_ok_def restoreDefinitions_def restore_distinct)
qed (use assms(1) in \<open>auto simp: limiter_ok_def\<close>)

section \<open>The budget\<close>

text \<open>
  \<open>FlushRateLimits\<close> subtracts the usage it is handed from the row of each key, and a refill sets the
  value to the limit, which is not below it. A value falls otherwise, or a row disappears, only when
  somebody lowers the limit of the key or deletes it. \<open>keeps_limit k\<close> states that this does not happen
  to the key \<open>k\<close> in one call, made in the state \<open>r\<close>.
\<close>

definition keeps_limit :: "string \<Rightarrow> 'e flushCall \<Rightarrow> rateLimiter \<Rightarrow> bool" where
  "keeps_limit k db r \<longleftrightarrow>
     (\<forall>defs rows refill c. db (usage_of r) defs = Inr (rows, refill) \<longrightarrow> map_of (dbRateLimits r) k = Some c \<longrightarrow>
        (\<exists>c'. map_of (readRows rows []) k = Some c' \<and> rlVal c - charged r k \<le> rlVal c'))"

text \<open>Nobody holds units of a key without a row, and what is held or spent fits into the row's value.\<close>

definition fits_row :: "rateLimit option \<Rightarrow> int \<Rightarrow> int \<Rightarrow> bool" where
  "fits_row row held spent \<longleftrightarrow>
     (case row of None \<Rightarrow> held = 0 \<and> spent = 0 | Some c \<Rightarrow> held + spent \<le> max 0 (rlVal c))"

definition in_budget :: "string \<Rightarrow> rateLimiter \<Rightarrow> bool" where
  "in_budget k r \<longleftrightarrow> limiter_ok r \<and> fits_row (map_of (dbRateLimits r) k) (reserved r k) (charged r k)"

lemma fits_row_simps [simp]:
  "fits_row None x y \<longleftrightarrow> x = 0 \<and> y = 0" "fits_row (Some c) x y \<longleftrightarrow> x + y \<le> max 0 (rlVal c)"
  by (simp_all add: fits_row_def)

lemma fits_row_release:
  assumes "fits_row row x y" "0 \<le> h" "0 \<le> x - h"
  shows "fits_row row (x - h) y" "fits_row row (x - h) (y + h)"
  using assms by (cases row; auto)+

lemma ledger_cong:
  assumes "unacked r' = unacked r" "unflushed r' = unflushed r"
  shows "reserved r' k = reserved r k" "charged r' k = charged r k"
  using assms by (simp_all add: reserved_def charged_def)

lemma flush_in_budget:
  assumes b: "in_budget k r" and law: "keeps_limit k db r" and f: "flush db clk st r = (err, r')"
  shows "in_budget k r'"
proof -
  have ok: "limiter_ok r" and fit: "fits_row (map_of (dbRateLimits r) k) (reserved r k) (charged r k)"
    using b by (auto simp: in_budget_def)
  have "fits_row (map_of (dbRateLimits r') k) (reserved r' k) (charged r' k)"
    using f
  proof (cases rule: flush_cases)
    case Idle
    note l = ledger_cong[OF Idle(2,3)]
    show ?thesis using fit Idle(4) by (simp add: l)
  next
    case (Fail e defs)
    then have "unacked r' = unacked r" "unflushed r' = unflushed r" "dbRateLimits r' = dbRateLimits r"
      by simp_all
    note l = ledger_cong[OF this(1,2)] this(3)
    show ?thesis using fit by (simp add: l)
  next
    case (Done defs rows refill)
    have r': "reserved r' k = reserved r k" "charged r' k = 0"
      using Done by (simp_all add: reserved_def charged_def)
    note nn = reserved_nonneg[OF ok, of k] charged_nonneg[OF ok, of k]
    show ?thesis
    proof (cases "map_of (dbRateLimits r) k")
      case None
      then show ?thesis using fit r' by (cases "map_of (dbRateLimits r') k") auto
    next
      case (Some c)
      then obtain c' where "map_of (readRows rows []) k = Some c'" "rlVal c - charged r k \<le> rlVal c'"
        using law Done unfolding keeps_limit_def by blast
      then show ?thesis using fit Some nn r' Done by auto
    qed
  qed
  then show ?thesis using flush_ok[OF ok f] by (simp add: in_budget_def)
qed

lemma flush_keeps_row:
  assumes law: "keeps_limit k db r" and f: "flush db clk st r = (err, r')"
    and k: "map_of (dbRateLimits r) k \<noteq> None"
  shows "map_of (dbRateLimits r') k \<noteq> None"
  using f
proof (cases rule: flush_cases)
  case (Done defs rows refill)
  then show ?thesis using law k unfolding keeps_limit_def by fastforce
qed (use k in auto)

lemma ack_in_budget: "in_budget k r \<Longrightarrow> in_budget k (rl_ack task r)"
proof -
  assume b: "in_budget k r"
  then have ok: "limiter_ok r" by (simp add: in_budget_def)
  have d: "dbRateLimits (rl_ack task r) = dbRateLimits r" by (simp add: rl_ack_def split: option.splits)
  have "0 \<le> reserved r k - held_by (unacked r) task k"
    using ack_units(1)[OF ok, of task k] reserved_nonneg[OF ack_ok[OF ok, of task], of k] by simp
  then show ?thesis
    using b fits_row_release(2)[OF _ held_by_nonneg[OF ok, of task k]] ack_ok[OF ok]
    unfolding in_budget_def d ack_units[OF ok] by blast
qed

lemma nack_in_budget: "in_budget k r \<Longrightarrow> in_budget k (rl_nack task r)"
proof -
  assume b: "in_budget k r"
  then have ok: "limiter_ok r" by (simp add: in_budget_def)
  have d: "dbRateLimits (rl_nack task r) = dbRateLimits r" by (simp add: rl_nack_def)
  have "0 \<le> reserved r k - held_by (unacked r) task k"
    using nack_units(1)[OF ok, of task k] reserved_nonneg[OF nack_ok[OF ok, of task], of k] by simp
  then show ?thesis
    using b fits_row_release(1)[OF _ held_by_nonneg[OF ok, of task k]] nack_ok[OF ok]
    unfolding in_budget_def d nack_units[OF ok] by blast
qed

section \<open>Taking units\<close>

abbreviation units_ok :: "rateLimitUnits \<Rightarrow> bool" where
  "units_ok rls \<equiv> distinct_keys rls \<and> (\<forall>(_, v)\<in>set rls. 0 \<le> v)"

text \<open>A granted key is within its value, whatever the database did before; other keys are untouched.\<close>

lemma grant_units:
  assumes ok: "limiter_ok r" and left: "units_left r rls" and rls: "units_ok rls"
  shows "(k, v) \<in> set rls \<Longrightarrow> map_of (dbRateLimits r) k = Some c \<Longrightarrow>
      reserved (addToUnacked task rls r) k + charged (addToUnacked task rls r) k \<le> rlVal c"
    and "k \<notin> fst ` set rls \<Longrightarrow> reserved (addToUnacked task rls r) k = reserved r k"
proof -
  let ?r = "addToUnacked task rls r"
  have nn: "\<forall>(_, v)\<in>set rls. 0 \<le> v" using rls by simp
  have res: "reserved ?r k = reserved r k - held_by (unacked r) task k + held_by (unacked ?r) task k"
    by (rule addToUnacked_reserved[OF ok nn])
  show "reserved ?r k + charged ?r k \<le> rlVal c" if kv: "(k, v) \<in> set rls" and c: "map_of (dbRateLimits r) k = Some c"
  proof -
    have "map_of (rev rls) k = Some v"
      using kv rls by (simp add: distinct_keys_def rev_map[symmetric])
    then have "held_by (unacked ?r) task k = v" by (simp add: addToUnacked_held)
    moreover have "charged ?r k = charged r k" by (simp add: charged_def)
    moreover have "v + reserved r k + charged r k \<le> rlVal c" using left kv c by (auto simp: units_left_def)
    ultimately show ?thesis using res held_by_nonneg[OF ok, of task k] by simp
  qed
  show "reserved ?r k = reserved r k" if "k \<notin> fst ` set rls"
  proof -
    have "map_of (rev rls) k = None" using that by (simp add: map_of_eq_None_iff)
    then show ?thesis using res by (simp add: addToUnacked_held)
  qed
qed

lemma rateLimitsExist_rows:
  "rateLimitsExist rls r \<longleftrightarrow> (\<forall>(k, _)\<in>set rls. map_of (dbRateLimits r) k \<noteq> None)"
  by (auto simp: rateLimitsExist_def list_all_iff)

text \<open>Bringing the limits up to date makes at most one flush each.\<close>

lemma use_sync_cases:
  assumes "use_sync env rls r = Inl r1 \<or> use_sync env rls r = Inr r1"
  shows "r1 = r \<or> (\<exists>err. flush (envFlush env) (envFlushClock env) None r = (err, r1))"
  using assms by (auto simp: use_sync_def rl_flushToDatabase_def split: if_splits prod.splits option.splits)

lemma use_refresh_cases:
  assumes "use_refresh env rls r = Inl r1 \<or> use_refresh env rls r = Inr r1"
  shows "r1 = r \<or> (\<exists>err st. flush (envRefresh env) (envRefreshClock env) st r = (err, r1))"
  using assms by (auto simp: use_refresh_def rl_refresh_def split: prod.splits option.splits)

lemma use_ready_ok:
  assumes "limiter_ok r"
  shows "use_sync env rls r = Inl r1 \<or> use_sync env rls r = Inr r1 \<Longrightarrow> limiter_ok r1"
    and "use_refresh env rls r = Inl r1 \<or> use_refresh env rls r = Inr r1 \<Longrightarrow> limiter_ok r1"
  using assms use_sync_cases[of env rls r r1] use_refresh_cases[of env rls r r1] flush_ok[OF assms] by blast+

text \<open>A granted \<open>use\<close> passed the check in the state both flushes left behind.\<close>

lemma use_cases:
  assumes "limiter_ok r" "rl_use env task rls r = (res, r')"
  obtains
    (Early) "res = emptyResult\<lparr>rlTaskId := task\<rparr>" "limiter_ok r'"
      "use_sync env rls r = Inl r' \<or> (\<exists>r1. use_sync env rls r = Inr r1 \<and> use_refresh env rls r1 = Inl r')"
  | (Refused) r1 where "use_sync env rls r = Inr r1" "use_refresh env rls r1 = Inr r'" "limiter_ok r'"
      "use_check (envNow env) task rls r' = Some res"
  | (Granted) r1 r2 where "use_sync env rls r = Inr r1" "use_refresh env rls r1 = Inr r2" "limiter_ok r2"
      "use_check (envNow env) task rls r2 = None" "res = use_granted task" "r' = addToUnacked task rls r2"
proof (cases "use_sync env rls r")
  case (Inl r1)
  then show thesis using assms use_ready_ok(1)[OF assms(1), of env rls r1] by (intro Early) (auto simp: rl_use_def)
next
  case s: (Inr r1)
  have ok: "limiter_ok r1" using use_ready_ok(1)[OF assms(1), of env rls r1] s by blast
  show thesis
  proof (cases "use_refresh env rls r1")
    case (Inl r2)
    then show thesis using assms s use_ready_ok(2)[OF ok, of env rls r2] by (intro Early) (auto simp: rl_use_def)
  next
    case f: (Inr r2)
    have ok2: "limiter_ok r2" using use_ready_ok(2)[OF ok, of env rls r2] f by blast
    show thesis
    proof (cases "use_check (envNow env) task rls r2")
      case None
      then show thesis using assms s f ok2 by (intro Granted[of r1 r2]) (auto simp: rl_use_def)
    next
      case (Some x)
      then show thesis using assms s f ok2 by (intro Refused[of r1]) (auto simp: rl_use_def)
    qed
  qed
qed

lemma rl_use_ok:
  assumes "limiter_ok r" "units_ok rls"
  shows "limiter_ok (snd (rl_use env task rls r))"
proof -
  obtain res r' where u: "rl_use env task rls r = (res, r')" by fastforce
  from assms(1) u show ?thesis
  proof (cases rule: use_cases)
    case (Granted r1 r2)
    then show ?thesis using u addToUnacked_ok[of r2 rls task] assms(2) by simp
  qed (simp_all add: u)
qed

lemma granted_within_value:
  assumes "limiter_ok r" "units_ok rls" "rl_use env task rls r = (res, r')" "rlSucceeded res"
    and "(k, v) \<in> set rls" "map_of (dbRateLimits r') k = Some c"
  shows "reserved r' k + charged r' k \<le> rlVal c"
  using assms(1,3)
proof (cases rule: use_cases)
  case Early
  then show ?thesis using assms(4) by (simp add: emptyResult_def)
next
  case (Refused r1)
  then show ?thesis using assms(4) use_check_refuses by blast
next
  case (Granted r1 r2)
  have "units_left r2 rls" using Granted(4) use_check_None[OF Granted(3)] by blast
  from grant_units(1)[OF Granted(3) this assms(2,5), of c task] assms(6) show ?thesis
    by (simp add: Granted(6))
qed

text \<open>The database calls of one \<open>use\<close> in the states it makes them.\<close>

definition use_keeps :: "string \<Rightarrow> 'e useEnv \<Rightarrow> rateLimitUnits \<Rightarrow> rateLimiter \<Rightarrow> bool" where
  "use_keeps k env rls r \<longleftrightarrow>
     keeps_limit k (envFlush env) r \<and>
     (case use_sync env rls r of Inl _ \<Rightarrow> True | Inr r1 \<Rightarrow> keeps_limit k (envRefresh env) r1)"

lemma use_sync_budget:
  assumes "in_budget k r" "keeps_limit k (envFlush env) r"
  shows "use_sync env rls r = Inl r1 \<or> use_sync env rls r = Inr r1 \<Longrightarrow> in_budget k r1"
    and "use_sync env rls r = Inr r1 \<Longrightarrow> k \<in> fst ` set rls \<Longrightarrow> map_of (dbRateLimits r1) k \<noteq> None"
proof -
  show "use_sync env rls r = Inl r1 \<or> use_sync env rls r = Inr r1 \<Longrightarrow> in_budget k r1"
    using use_sync_cases[of env rls r r1] flush_in_budget[OF assms] assms(1) by blast
  assume s: "use_sync env rls r = Inr r1" and k: "k \<in> fst ` set rls"
  have e: "map_of (dbRateLimits q) k \<noteq> None" if "rateLimitsExist rls q" for q
    using that k unfolding rateLimitsExist_rows by fastforce
  show "map_of (dbRateLimits r1) k \<noteq> None"
  proof (cases "rateLimitsExist rls r")
    case True
    then show ?thesis
      using use_sync_cases[of env rls r r1] s e[OF True] flush_keeps_row[OF assms(2)] by blast
  next
    case False
    then have "rateLimitsExist rls r1" using s by (simp add: use_sync_def split: prod.splits option.splits if_splits)
    then show ?thesis by (rule e)
  qed
qed

lemma use_in_budget:
  assumes b: "in_budget k r" and keeps: "use_keeps k env rls r" and rls: "units_ok rls"
  shows "in_budget k (snd (rl_use env task rls r))"
proof -
  have ok: "limiter_ok r" using b by (simp add: in_budget_def)
  have kf: "keeps_limit k (envFlush env) r" using keeps by (simp add: use_keeps_def)
  note sync = use_sync_budget[OF b kf, where rls = rls]
  have refresh: "in_budget k r2" if "use_sync env rls r = Inr r1" "use_refresh env rls r1 = Inl r2 \<or> use_refresh env rls r1 = Inr r2" for r1 r2
    using use_refresh_cases[OF that(2)] flush_in_budget[of k r1 "envRefresh env"] sync(1)[of r1] that(1) keeps
    by (auto simp: use_keeps_def)
  obtain res r' where u: "rl_use env task rls r = (res, r')" by fastforce
  from ok u have "in_budget k r'"
  proof (cases rule: use_cases)
    case Early
    then show ?thesis using sync(1) refresh by blast
  next
    case (Refused r1)
    then show ?thesis using refresh by blast
  next
    case (Granted r1 r2)
    have b2: "in_budget k r2" using Granted refresh by blast
    have left: "units_left r2 rls" using Granted(4) use_check_None[OF Granted(3)] by blast
    have ok': "limiter_ok r'" using rl_use_ok[OF ok rls, of env task] u by simp
    have ch: "charged r' k = charged r2 k" "dbRateLimits r' = dbRateLimits r2" by (simp_all add: Granted(6) charged_def)
    show ?thesis
    proof (cases "k \<in> fst ` set rls")
      case True
      then obtain v where v: "(k, v) \<in> set rls" by force
      have "map_of (dbRateLimits r2) k \<noteq> None"
        using use_refresh_cases[of env rls r1 r2] flush_keeps_row[of k "envRefresh env" r1] sync(2)[OF Granted(1) True]
          Granted(1,2) keeps by (auto simp: use_keeps_def)
      then obtain c where c: "map_of (dbRateLimits r2) k = Some c" by blast
      show ?thesis using grant_units(1)[OF Granted(3) left rls v c, of task] ok' c
        by (simp add: in_budget_def Granted(6))
    next
      case False
      then show ?thesis using grant_units(2)[OF Granted(3) left rls False, of task] b2 ok' ch
        by (simp add: in_budget_def Granted(6))
    qed
  qed
  then show ?thesis by (simp add: u)
qed

text \<open>The operations of the limiter as one step, and the runs of a limiter.\<close>

datatype 'e rl_op =
    RUse "'e useEnv" int rateLimitUnits
  | RAck int
  | RNack int
  | RFlush "'e flushCall" flushClock
  | RDefine "(string \<times> rateLimitDefinition) list"

fun rl_write :: "'e rl_op \<Rightarrow> rateLimiter \<Rightarrow> rateLimiter" where
  "rl_write (RUse env task rls) r = snd (rl_use env task rls r)"
| "rl_write (RAck task) r = rl_ack task r"
| "rl_write (RNack task) r = rl_nack task r"
| "rl_write (RFlush db clk) r = snd (rl_flushToDatabase db clk r)"
| "rl_write (RDefine defs) r = the (addDefinitions defs (Some r))"

text \<open>The units a task asks for are a map to numbers that are not negative.\<close>

fun rl_op_ok :: "'e rl_op \<Rightarrow> bool" where
  "rl_op_ok (RUse env task rls) \<longleftrightarrow> units_ok rls"
| "rl_op_ok _ \<longleftrightarrow> True"

text \<open>No database call of a run lowers the limit of \<open>k\<close> or deletes it.\<close>

fun op_keeps :: "string \<Rightarrow> 'e rl_op \<Rightarrow> rateLimiter \<Rightarrow> bool" where
  "op_keeps k (RUse env task rls) r \<longleftrightarrow> use_keeps k env rls r"
| "op_keeps k (RFlush db clk) r \<longleftrightarrow> keeps_limit k db r"
| "op_keeps k _ r \<longleftrightarrow> True"

fun run_keeps :: "string \<Rightarrow> 'e rl_op list \<Rightarrow> rateLimiter \<Rightarrow> bool" where
  "run_keeps k [] r \<longleftrightarrow> True"
| "run_keeps k (x # xs) r \<longleftrightarrow> op_keeps k x r \<and> run_keeps k xs (rl_write x r)"

lemma define_distinct:
  "distinct_keys m \<Longrightarrow> distinct_keys (foldl (\<lambda>m (k, d). AList.update k d m) m defs)"
  by (induction defs arbitrary: m) auto

lemma rl_write_ok:
  assumes "limiter_ok r" "rl_op_ok x"
  shows "limiter_ok (rl_write x r)"
proof (cases x)
  case (RUse env task rls)
  then show ?thesis using assms rl_use_ok by auto
next
  case (RFlush db clk)
  then show ?thesis
    using assms flush_ok[of r db clk None] by (cases "flush db clk None r") (auto simp: rl_flushToDatabase_def)
next
  case (RDefine defs)
  then show ?thesis using assms define_distinct by (auto simp: addDefinitions_def limiter_ok_def)
qed (use assms ack_ok nack_ok in auto)

lemma rl_write_in_budget:
  assumes "in_budget k r" "rl_op_ok x" "op_keeps k x r"
  shows "in_budget k (rl_write x r)"
proof (cases x)
  case (RUse env task rls)
  then show ?thesis using assms use_in_budget[of k r env rls task] by simp
next
  case (RFlush db clk)
  then show ?thesis
    using assms flush_in_budget[of k r db clk None]
    by (cases "flush db clk None r") (auto simp: rl_flushToDatabase_def)
next
  case (RDefine defs)
  then show ?thesis
    using assms rl_write_ok[of r x] by (auto simp: in_budget_def addDefinitions_def reserved_def charged_def)
qed (use assms ack_in_budget nack_in_budget in auto)

lemma newRateLimiter_in_budget: "in_budget k (newRateLimiter tenant ch)"
  by (simp add: in_budget_def newRateLimiter_def limiter_ok_def reserved_def charged_def)

lemma run_ok: "limiter_ok r \<Longrightarrow> list_all rl_op_ok xs \<Longrightarrow> limiter_ok (fold rl_write xs r)"
  by (induction xs arbitrary: r) (auto simp: rl_write_ok)

lemma run_in_budget:
  "in_budget k r \<Longrightarrow> list_all rl_op_ok xs \<Longrightarrow> run_keeps k xs r \<Longrightarrow> in_budget k (fold rl_write xs r)"
  by (induction xs arbitrary: r) (auto simp: rl_write_in_budget)

section \<open>Reservations as an interface\<close>

text \<open>
  What the scheduler relies on: ending a reservation by \<open>settle\<close> or \<open>release\<close> concerns that task
  alone, \<open>settle\<close> keeps the units accounted for, \<open>release\<close> gives them back.
\<close>

locale reservations =
  fixes valid :: "'s \<Rightarrow> bool"
    and settle :: "int \<Rightarrow> 's \<Rightarrow> 's"
    and release :: "int \<Rightarrow> 's \<Rightarrow> 's"
    and holds :: "'s \<Rightarrow> int \<Rightarrow> 'k \<Rightarrow> int"
    and accounted :: "'s \<Rightarrow> 'k \<Rightarrow> int"
  assumes settle_valid: "valid s \<Longrightarrow> valid (settle t s)"
    and release_valid: "valid s \<Longrightarrow> valid (release t s)"
    and settle_accounted: "valid s \<Longrightarrow> accounted (settle t s) k = accounted s k"
    and release_accounted: "valid s \<Longrightarrow> accounted (release t s) k = accounted s k - holds s t k"
    and settle_holds: "valid s \<Longrightarrow> holds (settle t s) u k = (if u = t then 0 else holds s u k)"
    and release_holds: "valid s \<Longrightarrow> holds (release t s) u k = (if u = t then 0 else holds s u k)"
begin

lemma release_all_valid: "valid s \<Longrightarrow> valid (fold release ts s)"
  by (induction ts arbitrary: s) (auto simp: release_valid)

lemma release_all_holds:
  "valid s \<Longrightarrow> holds (fold release ts s) u k = (if u \<in> set ts then 0 else holds s u k)"
  by (induction ts arbitrary: s) (auto simp: release_holds release_valid)

lemma release_all_accounted:
  "valid s \<Longrightarrow> distinct ts \<Longrightarrow> accounted (fold release ts s) k = accounted s k - (\<Sum>t\<leftarrow>ts. holds s t k)"
proof (induction ts arbitrary: s)
  case (Cons t ts)
  have "(\<Sum>u\<leftarrow>ts. holds (release t s) u k) = (\<Sum>u\<leftarrow>ts. holds s u k)"
    using Cons.prems by (intro arg_cong[where f = sum_list] map_cong refl) (auto simp: release_holds)
  then show ?case
    using Cons.IH[OF release_valid[OF Cons.prems(1), of t]] Cons.prems
    by (simp add: release_accounted)
qed simp

lemma settle_all:
  assumes "valid s"
  shows "valid (fold settle ts s)" "accounted (fold settle ts s) k = accounted s k"
    "holds (fold settle ts s) u k = (if u \<in> set ts then 0 else holds s u k)"
proof -
  have "valid (fold settle ts s) \<and> accounted (fold settle ts s) k = accounted s k \<and>
      holds (fold settle ts s) u k = (if u \<in> set ts then 0 else holds s u k)"
    using assms by (induction ts arbitrary: s) (auto simp: settle_holds settle_valid settle_accounted)
  then show "valid (fold settle ts s)" "accounted (fold settle ts s) k = accounted s k"
    "holds (fold settle ts s) u k = (if u \<in> set ts then 0 else holds s u k)" by auto
qed

end

interpretation limiter_reservations: reservations limiter_ok rl_ack rl_nack
  "\<lambda>r t k. held_by (unacked r) t k" "\<lambda>r k. reserved r k + charged r k"
proof
  fix r t u and k :: string
  assume ok: "limiter_ok r"
  show "limiter_ok (rl_ack t r)" by (rule ack_ok[OF ok])
  show "limiter_ok (rl_nack t r)" by (rule nack_ok[OF ok])
  show "reserved (rl_ack t r) k + charged (rl_ack t r) k = reserved r k + charged r k"
    by (simp add: ack_units[OF ok])
  show "reserved (rl_nack t r) k + charged (rl_nack t r) k =
      reserved r k + charged r k - held_by (unacked r) t k"
    by (simp add: nack_units[OF ok])
  show "held_by (unacked (rl_ack t r)) u k = (if u = t then 0 else held_by (unacked r) u k)"
    by (auto simp: rl_ack_def held_by_def split: option.split)
  show "held_by (unacked (rl_nack t r)) u k = (if u = t then 0 else held_by (unacked r) u k)"
    by (auto simp: rl_nack_def held_by_def)
qed

section \<open>Properties\<close>

definition example_limit_row :: "int \<Rightarrow> int option \<Rightarrow> rateLimitRow" where
  "example_limit_row v paused =
     \<lparr>rowKey = ''api'', rowValue = v, rowLimitValue = 10, rowWindow = ''1 minute'', rowNextRefillAt = 60,
      rowPausedUntil = paused\<rparr>"

text \<open>A database with one key that had \<open>v\<close> units before the call.\<close>

definition example_db :: "int \<Rightarrow> int option \<Rightarrow> unit flushCall" where
  "example_db v paused usage defs =
     Inr ([example_limit_row (v - (case map_of usage ''api'' of None \<Rightarrow> 0 | Some u \<Rightarrow> u)) paused], None)"

definition example_clock :: "int \<Rightarrow> flushClock" where
  "example_clock t = \<lparr>clkCheck = t, clkRead = t, clkUntil = t, clkMin = t\<rparr>"

definition example_env :: "int \<Rightarrow> int option \<Rightarrow> int \<Rightarrow> unit useEnv" where
  "example_env v paused t =
     \<lparr>envFlush = example_db v paused, envFlushClock = example_clock t, envRefresh = example_db v paused,
      envRefreshClock = example_clock t, envRefillNow = t, envExpiredNow = t, envNow = t\<rparr>"

lemma example_db_keeps:
  assumes "\<And>c. map_of (dbRateLimits r) ''api'' = Some c \<Longrightarrow> rlVal c \<le> v"
  shows "keeps_limit ''api'' (example_db v paused) r"
  unfolding keeps_limit_def
proof (intro allI impI)
  fix defs rows refill c
  assume db: "example_db v paused (usage_of r) defs = Inr (rows, refill)"
    and k: "map_of (dbRateLimits r) ''api'' = Some c"
  have "(case map_of (usage_of r) ''api'' of None \<Rightarrow> 0 | Some u \<Rightarrow> u) = charged r ''api''"
    unfolding map_of_usage charged_def units_in_def by (cases "map_of (unflushed r) ''api''") simp_all
  then show "\<exists>c'. map_of (readRows rows []) ''api'' = Some c' \<and> rlVal c - charged r ''api'' \<le> rlVal c'"
    using db assms[OF k] by (auto simp: example_db_def example_limit_row_def)
qed

lemmas example_limiter_defs = example_env_def example_db_def example_limit_row_def example_clock_def
  newRateLimiter_def rl_flushToDatabase_def flush_def takeChangedDefinitions_def pauseEnded_def
  rl_use_def use_sync_def use_refresh_def use_check_def rateLimitsExist_def shouldRefill_def
  pauseExpiredSinceFlush_def copyDbRateLimits_def subtractUnacked_def subtractUnflushed_def
  usageEntry_def emptyResult_def use_granted_def rl_ack_def rl_nack_def reserved_def charged_def
  units_in_def held_by_def

definition example_limiter :: rateLimiter where
  "example_limiter = snd (rl_flushToDatabase (example_db 3 None) (example_clock 1) (newRateLimiter 7 None))"

lemma example_limiter_eq:
  "example_limiter = (newRateLimiter 7 None)
     \<lparr>dbRateLimits := [(''api'', \<lparr>rlKey = ''api'', rlVal = 3, rlLimitValue = 10, rlWindow = ''1 minute'',
                                  rlNextRefillAt = Some 60, rlPausedUntil = None\<rparr>)],
      lastFlushAt := 1\<rparr>"
  unfolding example_limiter_def by (simp add: example_limiter_defs)


lemma example_run:
  "run_keeps ''api'' [RFlush (example_db 3 None) (example_clock 1), RUse (example_env 3 None 2) 5 [(''api'', 2)]]
     (newRateLimiter 7 None)"
proof -
  have "keeps_limit ''api'' (example_db 3 None) (newRateLimiter 7 None)"
    by (rule example_db_keeps) (simp add: newRateLimiter_def)
  moreover have "keeps_limit ''api'' (example_db 3 None) example_limiter"
    by (rule example_db_keeps) (auto simp: example_limiter_eq newRateLimiter_def split: if_splits)
  moreover have "use_sync (example_env 3 None 2) [(''api'', 2)] example_limiter = Inr example_limiter"
    by (simp add: use_sync_def rateLimitsExist_def shouldRefill_def example_limiter_eq newRateLimiter_def)
  moreover have "envFlush (example_env 3 None 2) = example_db 3 None"
    "envRefresh (example_env 3 None 2) = example_db 3 None"
    by (simp_all add: example_env_def)
  ultimately show ?thesis
    by (simp add: use_keeps_def example_limiter_def[symmetric])
qed


text \<open>
  C26. When \<open>use\<close> grants. It succeeds exactly when the flushes it needs to bring the limits up to
  date succeed, and in the state they leave none of the task's keys is paused and every key that has
  a row there has the requested units left besides those held by other tasks and those spent but
  not flushed. A key without a row is refused if the row was missing when \<open>use\<close> began and the flush
  did not bring it; a row that disappears in a later flush of the same call is not missed: the key
  is granted without a check. When a key is paused the task is refused, whatever is left, and the
  reported deadline is the latest of the pauses.
\<close>

theorem use_grants_iff_units_left:
  assumes "limiter_ok r" "rl_use env task rls r = (res, r')"
  shows "(rlSucceeded res \<longleftrightarrow>
      (\<exists>r1 r2. use_sync env rls r = Inr r1 \<and> use_refresh env rls r1 = Inr r2 \<and>
         pause_times (envNow env) (dbRateLimits r2) rls = {} \<and> units_left r2 rls)) \<and>
    (\<not> rateLimitsExist rls r \<and> rlSucceeded res \<longrightarrow> (\<exists>r1. use_sync env rls r = Inr r1 \<and> rateLimitsExist rls r1)) \<and>
    (\<forall>r1 r2. use_sync env rls r = Inr r1 \<and> use_refresh env rls r1 = Inr r2 \<and>
       pause_times (envNow env) (dbRateLimits r2) rls \<noteq> {} \<longrightarrow>
       resPausedUntil res = Some (Max (pause_times (envNow env) (dbRateLimits r2) rls)) \<and> r' = r2)"
proof -
  have rows: "rateLimitsExist rls r1" if "\<not> rateLimitsExist rls r" "use_sync env rls r = Inr r1" for r1
    using that by (simp add: use_sync_def split: prod.splits option.splits if_splits)
  from assms show ?thesis
  proof (cases rule: use_cases)
    case Early
    then show ?thesis by (auto simp: emptyResult_def)
  next
    case (Refused r1)
    have "resPausedUntil res = Some (Max (pause_times (envNow env) (dbRateLimits r') rls))"
      if "pause_times (envNow env) (dbRateLimits r') rls \<noteq> {}"
      using use_check_paused[OF that, of task] Refused(4) by simp
    moreover have "\<not> (pause_times (envNow env) (dbRateLimits r') rls = {} \<and> units_left r' rls)"
      using use_check_None[OF Refused(3), of "envNow env" task rls] Refused(4) by simp
    ultimately show ?thesis using Refused(1,2) use_check_refuses[OF Refused(4)] by auto
  next
    case (Granted r1 r2)
    have "pause_times (envNow env) (dbRateLimits r2) rls = {}" "units_left r2 rls"
      using use_check_None[OF Granted(3), of "envNow env" task rls] Granted(4) by simp_all
    moreover have "rlSucceeded res" by (simp add: Granted(5) use_granted_def)
    ultimately show ?thesis using Granted(1,2) rows[OF _ Granted(1)] by auto
  qed
qed

text \<open>The limiter of the example with its refill due, and a call that finds the row deleted.\<close>

definition example_due :: rateLimiter where
  "example_due = example_limiter\<lparr>nextRefillAt := Some 2\<rparr>"

definition example_deleted :: "unit useEnv" where
  "example_deleted = (example_env 3 None 2)\<lparr>envFlush := (\<lambda>_ _. Inr ([], None))\<rparr>"

theorem use_grants_iff_units_left_witness:
  "rlSucceeded (fst (rl_use (example_env 3 None 2) 5 [(''api'', 2)] example_limiter)) \<and>
   rlSucceeded (fst (rl_use example_deleted 5 [(''api'', 9)] example_due))"
proof -
  have ok: "limiter_ok example_limiter" "limiter_ok example_due"
    by (simp_all add: example_due_def example_limiter_eq newRateLimiter_def limiter_ok_def)
  have s: "use_sync (example_env 3 None 2) [(''api'', 2)] example_limiter = Inr example_limiter"
    and f: "use_refresh (example_env 3 None 2) [(''api'', 2)] example_limiter = Inr example_limiter"
    by (simp_all add: use_sync_def use_refresh_def rateLimitsExist_def shouldRefill_def
        pauseExpiredSinceFlush_def example_limiter_eq newRateLimiter_def)
  have p: "pause_times (envNow (example_env 3 None 2)) (dbRateLimits example_limiter) [(''api'', 2)] = {}"
    "units_left example_limiter [(''api'', 2)]"
    by (simp_all add: pause_times_def units_left_def example_limiter_eq newRateLimiter_def reserved_def
        charged_def)
  let ?r1 = "example_due\<lparr>dbRateLimits := [], lastFlushAt := 2\<rparr>"
  have d: "use_sync example_deleted [(''api'', 9)] example_due = Inr ?r1"
    "use_refresh example_deleted [(''api'', 9)] ?r1 = Inr ?r1"
    "pause_times (envNow example_deleted) (dbRateLimits ?r1) [(''api'', 9)] = {}" "units_left ?r1 [(''api'', 9)]"
    by (simp_all add: use_sync_def use_refresh_def rateLimitsExist_def shouldRefill_def rl_flushToDatabase_def flush_def
        takeChangedDefinitions_def pauseEnded_def pauseExpiredSinceFlush_def pause_times_def units_left_def
        example_deleted_def example_due_def example_env_def example_clock_def example_limiter_eq newRateLimiter_def)
  show ?thesis
    using use_grants_iff_units_left[OF ok(1) prod.collapse[symmetric], of "example_env 3 None 2" 5 "[(''api'', 2)]"] s f p
      use_grants_iff_units_left[OF ok(2) prod.collapse[symmetric], of example_deleted 5 "[(''api'', 9)]"] d by blast
qed

text \<open>
  C38. The check of \<open>use\<close> and the reservation it leads to are not one atomic step: the locks are
  released in between. When two tasks are checked against the same state before either reserves,
  both are granted although together they exceed the units left, and the key is overspent.
\<close>

theorem concurrent_uses_overspend:
  assumes "limiter_ok r" "t1 \<noteq> t2" "held_by (unacked r) t1 k = 0" "held_by (unacked r) t2 k = 0"
    and "0 \<le> v" "0 \<le> w" "map_of (dbRateLimits r) k = Some c"
    and "pause_times now (dbRateLimits r) [(k, v)] = {}" "pause_times now (dbRateLimits r) [(k, w)] = {}"
    and "v + reserved r k + charged r k \<le> rlVal c" "w + reserved r k + charged r k \<le> rlVal c"
    and "rlVal c < v + w + reserved r k + charged r k"
  defines "r' \<equiv> addToUnacked t2 [(k, w)] (addToUnacked t1 [(k, v)] r)"
  shows "use_check now t1 [(k, v)] r = None \<and> use_check now t2 [(k, w)] r = None \<and>
    rlVal c < reserved r' k + charged r' k"
proof -
  let ?r1 = "addToUnacked t1 [(k, v)] r"
  have checks: "use_check now t1 [(k, v)] r = None" "use_check now t2 [(k, w)] r = None"
    using assms by (simp_all add: use_check_None units_left_def)
  have ok1: "limiter_ok ?r1" using addToUnacked_ok[OF assms(1), of "[(k, v)]"] assms(5) by simp
  have "reserved ?r1 k = reserved r k + v"
    using addToUnacked_reserved[OF assms(1), of "[(k, v)]" t1 k] addToUnacked_held[of t1 "[(k, v)]" r k]
      assms(3,5) by simp
  moreover have "held_by (unacked ?r1) t2 k = 0"
    using assms(2,4) by (simp add: held_by_def Let_def)
  ultimately have "reserved r' k = reserved r k + v + w"
    unfolding r'_def
    using addToUnacked_reserved[OF ok1, of "[(k, w)]" t2 k] addToUnacked_held[of t2 "[(k, w)]" ?r1 k]
      assms(6) by simp
  moreover have "charged r' k = charged r k" by (simp add: r'_def charged_def del: addToUnacked.simps)
  ultimately show ?thesis using checks assms(12) by simp
qed

theorem concurrent_uses_overspend_witness:
  "use_check 2 1 [(''api'', 2)] example_limiter = None \<and> use_check 2 4 [(''api'', 2)] example_limiter = None \<and>
   3 < reserved (addToUnacked 4 [(''api'', 2)] (addToUnacked 1 [(''api'', 2)] example_limiter)) ''api'' +
       charged (addToUnacked 4 [(''api'', 2)] (addToUnacked 1 [(''api'', 2)] example_limiter)) ''api''"
proof -
  have ok: "limiter_ok example_limiter"
    by (simp add: example_limiter_eq newRateLimiter_def limiter_ok_def)
  have z: "reserved example_limiter ''api'' = 0" "charged example_limiter ''api'' = 0"
    "held_by (unacked example_limiter) t ''api'' = 0" for t
    by (simp_all add: example_limiter_eq newRateLimiter_def reserved_def charged_def held_by_def)
  have p: "pause_times 2 (dbRateLimits example_limiter) [(''api'', 2)] = {}"
    by (simp add: pause_times_def example_limiter_eq newRateLimiter_def)
  obtain c where c: "map_of (dbRateLimits example_limiter) ''api'' = Some c" "rlVal c = 3"
    by (simp add: example_limiter_eq newRateLimiter_def)
  show ?thesis
    using concurrent_uses_overspend[OF ok _ z(3) z(3) _ _ c(1) p p, of 1 4] z c(2) by simp
qed

text \<open>When a flush calls the database: the guards at its start, read as one condition.\<close>

definition flush_due :: "flushClock \<Rightarrow> int option \<Rightarrow> rateLimiter \<Rightarrow> bool" where
  "flush_due clk staleBefore r \<longleftrightarrow>
     (case staleBefore of
        Some t \<Rightarrow> lastFlushAt r < t
      | None \<Rightarrow> fst (takeChangedDefinitions r) \<noteq> [] \<or> (\<forall>t. nextRefillAt r = Some t \<longrightarrow> t \<le> clkCheck clk))"

lemma flush_due_eq:
  assumes "flush_due clk staleBefore r"
  shows "flush db clk staleBefore r =
    (case db (usage_of r) (fst (takeChangedDefinitions r)) of
       Inl e \<Rightarrow> (Some e, restoreDefinitions (fst (takeChangedDefinitions r)) (r\<lparr>pendingDefinitions := []\<rparr>))
     | Inr (rows, refill) \<Rightarrow>
         let r2 = (case refill of
                     None \<Rightarrow> r\<lparr>pendingDefinitions := []\<rparr>
                   | Some t \<Rightarrow> r\<lparr>pendingDefinitions := [],
                        nextRefillAt := Some (if t - clkUntil clk < MAX_RATE_LIMIT_UPDATE_FREQUENCY
                                              then clkMin clk + MAX_RATE_LIMIT_UPDATE_FREQUENCY else t)\<rparr>);
             r3 = r2\<lparr>dbRateLimits := readRows rows [], lastFlushAt := clkRead clk, unflushed := []\<rparr>
         in (None, if pauseEnded (dbRateLimits r2) (dbRateLimits r3) then notifyPausesEnded r3 else r3))"
proof -
  obtain defs where t: "takeChangedDefinitions r = (defs, r\<lparr>pendingDefinitions := []\<rparr>)"
    by (simp add: takeChangedDefinitions_def)
  have due: "\<not> (case staleBefore of None \<Rightarrow> False | Some t \<Rightarrow> \<not> lastFlushAt r < t)"
    "\<not> (staleBefore = None \<and> defs = [] \<and>
        (case nextRefillAt (r\<lparr>pendingDefinitions := []\<rparr>) of None \<Rightarrow> False | Some t \<Rightarrow> t > clkCheck clk))"
    using assms by (auto simp: flush_due_def t split: option.splits)
  show ?thesis unfolding flush_def if_not_P[OF due(1)] t fst_conv prod.case if_not_P[OF due(2)] by simp
qed

text \<open>
  C27. Spent units are charged once. Whether a flush calls the database is decided by its guards: a
  refresh when the limits were read before the given time, any other flush when a definition changed
  or the refill time is not in the future. A flush that does not call it succeeds and changes
  neither the spent units nor the limits. One that does hands it exactly the spent units and the
  changed definitions. If the call fails, the error is returned and the spent units, the limits, the
  times and every changed definition are kept for the next flush; if it succeeds, the spent units
  and the pending definitions are emptied and the limits are the rows it returned. Reservations are
  never touched.
\<close>

theorem flush_charges_exactly_once:
  assumes "flush db clk staleBefore r = (err, r')"
  shows "unacked r' = unacked r \<and>
    (if flush_due clk staleBefore r
     then case db (usage_of r) (fst (takeChangedDefinitions r)) of
            Inl e \<Rightarrow>
              err = Some e \<and> unflushed r' = unflushed r \<and> dbRateLimits r' = dbRateLimits r \<and>
              lastFlushAt r' = lastFlushAt r \<and> nextRefillAt r' = nextRefillAt r \<and>
              map_of (pendingDefinitions r') = map_of (fst (takeChangedDefinitions r))
          | Inr (rows, refill) \<Rightarrow>
              err = None \<and> unflushed r' = [] \<and> dbRateLimits r' = readRows rows [] \<and>
              lastFlushAt r' = clkRead clk \<and> pendingDefinitions r' = []
     else err = None \<and> unflushed r' = unflushed r \<and> dbRateLimits r' = dbRateLimits r \<and>
       lastFlushAt r' = lastFlushAt r \<and> nextRefillAt r' = nextRefillAt r)"
proof (cases "flush_due clk staleBefore r")
  case False
  then show ?thesis
    using assms by (auto simp: flush_due_def flush_def takeChangedDefinitions_def split: option.splits if_splits)
next
  case True
  let ?defs = "fst (takeChangedDefinitions r)"
  have keep: "map_of (pendingDefinitions (restoreDefinitions ?defs (r\<lparr>pendingDefinitions := []\<rparr>))) = map_of ?defs"
    by (simp add: restoreDefinitions_def restore_lookup fun_eq_iff)
  have last: "lastFlushAt (notifyPausesEnded q) = lastFlushAt q" for q
    by (simp add: notifyPausesEnded_def split: option.split)
  show ?thesis
  proof (cases "db (usage_of r) ?defs")
    case (Inl e)
    then show ?thesis using assms flush_due_eq[OF True, of db] True keep by auto
  next
    case (Inr p)
    obtain rows refill where p: "p = (rows, refill)" by (cases p)
    show ?thesis
      using assms flush_due_eq[OF True, of db] True Inr p last by (cases refill) (auto simp: Let_def)
  qed
qed

theorem flush_charges_exactly_once_witness:
  "\<exists>err r'. flush (\<lambda>_ _. Inl ()) (example_clock 5) None (rl_ack 1 (addToUnacked 1 [(''api'', 2)] example_limiter))
       = (err, r') \<and> err = Some () \<and> charged r' ''api'' = 2"
proof -
  let ?r = "rl_ack 1 (addToUnacked 1 [(''api'', 2)] example_limiter)"
  obtain err r' where f: "flush (\<lambda>_ _. Inl ()) (example_clock 5) None ?r = (err, r')"
    by (metis prod.exhaust)
  have "flush_due (example_clock 5) None ?r"
    by (simp add: flush_due_def rl_ack_def example_limiter_eq newRateLimiter_def)
  with flush_charges_exactly_once[OF f] have "err = Some ()" "unflushed r' = unflushed ?r" by simp_all
  moreover have "charged ?r ''api'' = 2"
    by (simp add: rl_ack_def example_limiter_eq newRateLimiter_def charged_def usageEntry_def)
  ultimately show ?thesis using f by (auto simp: charged_def)
qed

end
