(* ===== verification/Scheduler.thy ===== *)
theory Scheduler
  imports Worker_Ranking Starvation Rate_Limiter "HOL-Library.Word" "HOL-Library.Monad_Syntax"
begin

text \<open>
  The tenant scheduler (\<open>src/pkg/scheduling/v1/scheduler.go\<close>). Its state is owned by one run loop:
  every definition here is what one op does when the loop runs it, so an execution of the scheduler
  is a sequence of these ops in any order. \<open>replenish\<close> is four such ops with database reads between
  them, and other ops may run between those.

  \<open>None\<close> is a panic (a slice index out of range, a write to a nil map, a nil pool). An op reads the
  clock through the argument \<open>now\<close>. A batch of items under assignment is shared by the caller, the
  loop, the parked retry and the timeout: it is an object of the state, under a number.
\<close>

section \<open>Model\<close>

definition SlotTypeDefault :: string where
  "SlotTypeDefault = ''default''"

record assignSingleResult =
  arItem :: queueItem
  arWorkerId :: uuid
  arAckId :: int
  arNoSlots :: bool
  arSucceeded :: bool
  arRateLimit :: "rateLimitResult option"
  arToBatch :: bool
  arReservation :: "int option"

text \<open>What the closures of one \<open>tryAssignBatch\<close> share; \<open>baFinished\<close> is the reason once it is finished.\<close>

record assignBatch =
  baActionId :: string
  baRes :: "assignSingleResult list"
  baLabels :: "(uuid \<times> desiredLabel list) list"
  baRequests :: "(uuid \<times> slotRequest) list"
  baOverrides :: "(int \<times> desiredLabel list) list"
  baFinished :: "string option"

record scheduler =
  mem :: poolMem
  actions :: "(string \<times> action) list"
  pools :: "(poolKey \<times> nat) list"
  poolsByWorker :: workerPools
  workers :: "(uuid \<times> worker) list"
  unackedSlots :: "(int \<times> assignedSlots) list"
  assignedCount :: int
  replenishing :: bool
  ackedDuringReplenish :: "(poolKey \<times> int) list option"
  afterReplenish :: "nat list"
  notifyReplenishCh :: bool
  capacityEpoch :: "64 word"
  warmedSlotTypes :: "(uuid \<times> string list) list"
  batches :: "nat \<Rightarrow> assignBatch option"

definition emptyMem :: poolMem where
  "emptyMem = \<lparr>slotAt = (\<lambda>_. \<lparr>slotWorker = 0, slotPool = None, slotType = [], slotIdx = 0, slotUsed = False\<rparr>),
     slotNext = 0,
     poolAt = (\<lambda>_. \<lparr>poolWorker = 0, poolSlotType = [], poolExpiresAt = 0, poolSlots = [], poolFree = []\<rparr>),
     poolNext = 0\<rparr>"

definition newScheduler :: scheduler where
  "newScheduler = \<lparr>mem = emptyMem, actions = [], pools = [], poolsByWorker = [], workers = [],
     unackedSlots = [], assignedCount = 0, replenishing = False, ackedDuringReplenish = None,
     afterReplenish = [], notifyReplenishCh = False, capacityEpoch = 0, warmedSlotTypes = [],
     batches = (\<lambda>_. None)\<rparr>"

subsection \<open>Starvation\<close>

text \<open>The channel has one buffered element: a request that finds one pending is dropped.\<close>

definition notifyReplenish :: "scheduler \<Rightarrow> scheduler" where
  "notifyReplenish s = s\<lparr>notifyReplenishCh := True\<rparr>"

definition markActionStarved :: "string \<Rightarrow> action \<Rightarrow> string \<Rightarrow> slotRequest \<Rightarrow> scheduler \<Rightarrow> scheduler" where
  "markActionStarved actionId a queue request s =
     (case MarkStarved queue request a of
        (new, a') \<Rightarrow>
          let s1 = s\<lparr>actions := AList.update actionId a' (actions s)\<rparr>
          in if new then notifyReplenish s1 else s1)"

definition lookupActionAndMarkStarved :: "string \<Rightarrow> string \<Rightarrow> slotRequest \<Rightarrow> scheduler \<Rightarrow> scheduler" where
  "lookupActionAndMarkStarved actionId queue request s =
     (case map_of (actions s) actionId of
        Some a \<Rightarrow> markActionStarved actionId a queue request s
      | None \<Rightarrow> markActionStarved actionId newAction queue request
                  (s\<lparr>actions := AList.update actionId newAction (actions s)\<rparr>))"

subsection \<open>Acknowledging assignments\<close>

definition slotKey :: "poolMem \<Rightarrow> nat \<Rightarrow> poolKey" where
  "slotKey m sl = (slotWorker (slotAt m sl), slotType (slotAt m sl))"

definition mapCount :: "('k \<times> int) list \<Rightarrow> 'k \<Rightarrow> int" where
  "mapCount m k = (case map_of m k of None \<Rightarrow> 0 | Some n \<Rightarrow> n)"

fun count_acked :: "poolMem \<Rightarrow> nat list \<Rightarrow> (poolKey \<times> int) list option \<Rightarrow> (poolKey \<times> int) list option option" where
  "count_acked m [] acked = Some acked"
| "count_acked m (sl # sls) None = None"
| "count_acked m (sl # sls) (Some acked) =
     count_acked m sls (Some (AList.update (slotKey m sl) (mapCount acked (slotKey m sl) + 1) acked))"

fun handleAck :: "int list \<Rightarrow> scheduler \<Rightarrow> (int option list \<times> scheduler) option" where
  "handleAck [] s = Some ([], s)"
| "handleAck (i # ids) s =
     (case map_of (unackedSlots s) i of
        None \<Rightarrow> handleAck ids s
      | Some assigned \<Rightarrow>
          do {
            acked \<leftarrow> (if replenishing s then count_acked (mem s) (asSlots assigned) (ackedDuringReplenish s)
                      else Some (ackedDuringReplenish s));
            (callbacks, s') \<leftarrow> handleAck ids
               (s\<lparr>unackedSlots := AList.delete i (unackedSlots s), ackedDuringReplenish := acked\<rparr>);
            Some (asReservation assigned # callbacks, s')
          })"

fun release_slots :: "nat list \<Rightarrow> poolMem \<Rightarrow> poolMem" where
  "release_slots [] m = m"
| "release_slots (sl # sls) m =
     release_slots sls (case slotPool (slotAt m sl) of None \<Rightarrow> m | Some p \<Rightarrow> pool_release p sl m)"

fun handleNack :: "int list \<Rightarrow> scheduler \<Rightarrow> int option list \<times> scheduler" where
  "handleNack [] s = ([], s)"
| "handleNack (i # ids) s =
     (case map_of (unackedSlots s) i of
        None \<Rightarrow> handleNack ids s
      | Some assigned \<Rightarrow>
          (case handleNack ids
              (s\<lparr>unackedSlots := AList.delete i (unackedSlots s),
                 mem := release_slots (asSlots assigned) (mem s)\<rparr>) of
             (callbacks, s') \<Rightarrow> (asReservation assigned # callbacks, s')))"

subsection \<open>Workers and the capacity epoch\<close>

definition capacityEpochNow :: "scheduler \<Rightarrow> 64 word" where
  "capacityEpochNow s = capacityEpoch s"

definition isWorkerCapacityUpdated :: "64 word \<Rightarrow> scheduler \<Rightarrow> bool" where
  "isWorkerCapacityUpdated since s \<longleftrightarrow> capacityEpochNow s \<noteq> since"

definition markWorkerCapacityUpdated :: "scheduler \<Rightarrow> scheduler" where
  "markWorkerCapacityUpdated s = s\<lparr>capacityEpoch := capacityEpoch s + 1\<rparr>"

definition setWorkers :: "worker list \<Rightarrow> scheduler \<Rightarrow> scheduler" where
  "setWorkers ws s = s\<lparr>workers := foldl (\<lambda>m w. AList.update (wkId w) w m) [] ws\<rparr>"

definition addWorker :: "worker \<Rightarrow> scheduler \<Rightarrow> scheduler" where
  "addWorker w s = s\<lparr>workers := AList.update (wkId w) w (workers s)\<rparr>"

definition typesOf :: "uuid \<Rightarrow> workerPools \<Rightarrow> (string \<times> nat) list" where
  "typesOf w ps = (case map_of ps w of None \<Rightarrow> [] | Some byType \<Rightarrow> byType)"

definition removeWorker :: "uuid \<Rightarrow> scheduler \<Rightarrow> scheduler" where
  "removeWorker w s =
     markWorkerCapacityUpdated
       (s\<lparr>workers := AList.delete w (workers s),
          pools := foldl (\<lambda>ps (t, _). AList.delete (w, t) ps) (pools s) (typesOf w (poolsByWorker s)),
          poolsByWorker := AList.delete w (poolsByWorker s),
          warmedSlotTypes := AList.delete w (warmedSlotTypes s)\<rparr>)"

subsection \<open>Assigning one item\<close>

fun select_check :: "poolMem \<Rightarrow> (string \<times> nat) list \<Rightarrow> int \<Rightarrow> slotRequest \<Rightarrow> bool" where
  "select_check m byType now [] \<longleftrightarrow> True"
| "select_check m byType now ((t, units) # req) \<longleftrightarrow>
     (if units \<le> 0 then select_check m byType now req
      else if freeCountAt now (map_option (poolAt m) (map_of byType t)) < units then False
      else select_check m byType now req)"

text \<open>Taking \<open>n\<close> slots of one type. The check that precedes it rules out a pool that runs empty.\<close>

fun take_units :: "nat option \<Rightarrow> nat \<Rightarrow> poolMem \<Rightarrow> (nat list \<times> poolMem) option" where
  "take_units p 0 m = Some ([], m)"
| "take_units p (Suc n) m =
     (case pool_take p m of
        Some (Some sl, m1) \<Rightarrow> do { (sls, m2) \<leftarrow> take_units p n m1; Some (sl # sls, m2) }
      | _ \<Rightarrow> None)"

fun take_request :: "(string \<times> nat) list \<Rightarrow> slotRequest \<Rightarrow> poolMem \<Rightarrow> (nat list \<times> poolMem) option" where
  "take_request byType [] m = Some ([], m)"
| "take_request byType ((t, units) # req) m =
     do {
       (sls, m1) \<leftarrow> take_units (map_of byType t) (nat units) m;
       (rest, m2) \<leftarrow> take_request byType req m1;
       Some (sls @ rest, m2)
     }"

text \<open>\<open>Some None\<close> is the miss \<open>nil, false\<close>.\<close>

definition selectSlotsFromPools ::
  "(string \<times> nat) list \<Rightarrow> slotRequest \<Rightarrow> int \<Rightarrow> poolMem \<Rightarrow> (nat list \<times> poolMem) option option" where
  "selectSlotsFromPools byType requests now m =
     (if select_check m byType now requests then map_option Some (take_request byType requests m)
      else Some None)"

definition isSingleUnitRequest :: "slotRequest \<Rightarrow> bool" where
  "isSingleUnitRequest requests \<longleftrightarrow> list_all (\<lambda>(_, units). \<not> units > 1) requests"

fun try_workers ::
  "workerPools \<Rightarrow> slotRequest \<Rightarrow> int \<Rightarrow> uuid list \<Rightarrow> poolMem \<Rightarrow> (nat list \<times> poolMem) option option" where
  "try_workers ps requests now [] m = Some None"
| "try_workers ps requests now (w # ws) m =
     (case selectSlotsFromPools (typesOf w ps) requests now m of
        None \<Rightarrow> None
      | Some (Some sel) \<Rightarrow> Some (Some sel)
      | Some None \<Rightarrow> try_workers ps requests now ws m)"

text \<open>The tied group of highest rank, starting at the offset and wrapping around.\<close>

definition rotated :: "int \<Rightarrow> nat \<Rightarrow> uuid list \<Rightarrow> uuid list" where
  "rotated offset n ws = map (\<lambda>i. ws ! nat ((offset mod int n + int i) mod int n)) [0..<n]"

definition rankedCandidates :: "queueItem \<Rightarrow> desiredLabel list \<Rightarrow> action \<Rightarrow> scheduler \<Rightarrow> uuid list \<times> nat" where
  "rankedCandidates qi labels a s =
     (if qiSticky qi \<noteq> STICKY_NONE \<or> labels \<noteq> [] then rankWorkerIds (workers s) qi labels (workerIds a)
      else (workerIds a, length (workerIds a)))"

definition assignSingleton ::
  "string \<Rightarrow> action \<Rightarrow> assignSingleResult \<Rightarrow> desiredLabel list \<Rightarrow> slotRequest \<Rightarrow> int \<Rightarrow> scheduler \<Rightarrow>
    (assignSingleResult \<times> scheduler) option" where
  "assignSingleton actionId a r labels requests now s =
     (let qi = arItem r;
          offset = ringOffset a;
          a1 = a\<lparr>ringOffset := ringOffset a + 1\<rparr>;
          s1 = s\<lparr>actions := AList.update actionId a1 (actions s)\<rparr>
      in case rankedCandidates qi labels a s of
           (candidates, topRankCount) \<Rightarrow>
             if candidates = [] \<or> topRankCount = 0 then Some (r\<lparr>arNoSlots := True\<rparr>, s1)
             else
               do {
                 first \<leftarrow> try_workers (poolsByWorker s1) requests now (rotated offset topRankCount candidates) (mem s1);
                 selected \<leftarrow> (case first of
                    Some sel \<Rightarrow> Some (Some sel)
                  | None \<Rightarrow> try_workers (poolsByWorker s1) requests now (drop topRankCount candidates) (mem s1));
                 (case selected of
                    None \<Rightarrow>
                      Some (r\<lparr>arNoSlots := True\<rparr>,
                            if length candidates = length (workerIds a1) \<and> isSingleUnitRequest requests \<or>
                               \<not> hasFreeSlotOfEachType (mem s1) (poolsByWorker s1) (workerIds a1) requests now
                            then markActionStarved actionId a1 (qiQueue qi) requests s1 else s1)
                  | Some (sls, m') \<Rightarrow>
                      if sls = [] then None
                      else
                        let ackId = assignedCount s1 + 1
                        in Some (r\<lparr>arAckId := ackId, arWorkerId := slotWorker (slotAt m' (hd sls)),
                                   arSucceeded := True\<rparr>,
                                 s1\<lparr>assignedCount := ackId, mem := m',
                                    unackedSlots := AList.update ackId
                                      \<lparr>asSlots = sls, asReservation = arReservation r\<rparr> (unackedSlots s1)\<rparr>))
               })"

subsection \<open>Assigning a batch\<close>

definition requestsFor :: "assignBatch \<Rightarrow> queueItem \<Rightarrow> slotRequest" where
  "requestsFor b qi =
     (case map_of (baRequests b) (qiStepId qi) of
        Some req \<Rightarrow> if req \<noteq> [] then req else [(SlotTypeDefault, 1)]
      | None \<Rightarrow> [(SlotTypeDefault, 1)])"

definition labelsFor :: "assignBatch \<Rightarrow> queueItem \<Rightarrow> desiredLabel list" where
  "labelsFor b qi =
     (case map_of (baOverrides b) (qiTaskId qi) of
        Some ls \<Rightarrow> ls
      | None \<Rightarrow> (case map_of (baLabels b) (qiStepId qi) of None \<Rightarrow> [] | Some ls \<Rightarrow> ls))"

fun miss_loop :: "assignBatch \<Rightarrow> assignSingleResult list \<Rightarrow> scheduler \<Rightarrow> assignSingleResult list \<times> scheduler" where
  "miss_loop b [] s = ([], s)"
| "miss_loop b (r # rs) s =
     (if arRateLimit r = None \<and> \<not> arToBatch r
      then (case miss_loop b rs (lookupActionAndMarkStarved (baActionId b) (qiQueue (arItem r))
                                   (requestsFor b (arItem r)) s) of
              (rs', s') \<Rightarrow> (r\<lparr>arNoSlots := True\<rparr> # rs', s'))
      else (case miss_loop b rs s of (rs', s') \<Rightarrow> (r # rs', s')))"

text \<open>The action is read again for each item: the loop of the source holds a pointer to it.\<close>

fun assign_loop ::
  "assignBatch \<Rightarrow> int \<Rightarrow> assignSingleResult list \<Rightarrow> scheduler \<Rightarrow> (assignSingleResult list \<times> scheduler) option" where
  "assign_loop b now [] s = Some ([], s)"
| "assign_loop b now (r # rs) s =
     (if arToBatch r \<or> arRateLimit r \<noteq> None \<or> arSucceeded r
      then do { (rs', s') \<leftarrow> assign_loop b now rs s; Some (r # rs', s') }
      else
        (case map_of (actions s) (baActionId b) of
           None \<Rightarrow> None
         | Some a \<Rightarrow>
             do {
               (r', s1) \<leftarrow> assignSingleton (baActionId b) a r (labelsFor b (arItem r))
                             (requestsFor b (arItem r)) now s;
               (rs', s') \<leftarrow> assign_loop b now rs s1;
               Some (r' # rs', s')
             }))"

definition handleAssignBatch ::
  "assignBatch \<Rightarrow> int \<Rightarrow> scheduler \<Rightarrow> (assignSingleResult list \<times> scheduler) option" where
  "handleAssignBatch b now s =
     (case map_of (actions s) (baActionId b) of
        None \<Rightarrow> Some (miss_loop b (baRes b) s)
      | Some a \<Rightarrow> if workerIds a = [] then Some (miss_loop b (baRes b) s)
                  else assign_loop b now (baRes b) s)"

definition isMiss :: "assignSingleResult \<Rightarrow> bool" where
  "isMiss r \<longleftrightarrow> arRateLimit r = None \<and> \<not> arToBatch r \<and> \<not> arSucceeded r"

definition batchHasMisses :: "assignSingleResult list \<Rightarrow> bool" where
  "batchHasMisses rs \<longleftrightarrow> list_ex isMiss rs"

definition finishBatch :: "nat \<Rightarrow> string \<Rightarrow> scheduler \<Rightarrow> scheduler" where
  "finishBatch i reason s =
     (case batches s i of
        None \<Rightarrow> s
      | Some b \<Rightarrow>
          if baFinished b \<noteq> None then s
          else s\<lparr>batches := (batches s)(i \<mapsto> b\<lparr>baFinished := Some reason\<rparr>)\<rparr>)"

definition attempt :: "nat \<Rightarrow> bool \<Rightarrow> int \<Rightarrow> scheduler \<Rightarrow> scheduler option" where
  "attempt i isRetry now s =
     (case batches s i of
        None \<Rightarrow> Some s
      | Some b \<Rightarrow>
          do {
            (rs, s1) \<leftarrow> handleAssignBatch b now s;
            let s2 = s1\<lparr>batches := (batches s1)(i \<mapsto> b\<lparr>baRes := rs\<rparr>)\<rparr>;
            Some (if \<not> isRetry \<and> replenishing s2 \<and> batchHasMisses rs
                  then s2\<lparr>afterReplenish := afterReplenish s2 @ [i]\<rparr>
                  else finishBatch i (if isRetry then ''replenish-retry'' else ''first-attempt'') s2)
          })"

text \<open>The parked closure: the miss markers are cleared before the retry.\<close>

definition retryParked :: "nat \<Rightarrow> int \<Rightarrow> scheduler \<Rightarrow> scheduler option" where
  "retryParked i now s =
     (case batches s i of
        None \<Rightarrow> Some s
      | Some b \<Rightarrow>
          if baFinished b \<noteq> None then Some s
          else attempt i True now
                 (s\<lparr>batches := (batches s)(i \<mapsto> b\<lparr>baRes :=
                      map (\<lambda>r. if isMiss r then r\<lparr>arNoSlots := False\<rparr> else r) (baRes b)\<rparr>)\<rparr>))"

fun retry_loop :: "(nat \<Rightarrow> int) \<Rightarrow> nat list \<Rightarrow> scheduler \<Rightarrow> scheduler option" where
  "retry_loop clock [] s = Some s"
| "retry_loop clock (i # is) s = do { s1 \<leftarrow> retryParked i (clock i) s; retry_loop clock is s1 }"

definition endReplenishCycle :: "(nat \<Rightarrow> int) \<Rightarrow> scheduler \<Rightarrow> scheduler option" where
  "endReplenishCycle clock s =
     retry_loop clock (afterReplenish s)
       (s\<lparr>replenishing := False, ackedDuringReplenish := None, afterReplenish := []\<rparr>)"

subsection \<open>One slot for a whole batch flush\<close>

definition isTimedOut :: "int \<Rightarrow> queueItem \<Rightarrow> bool" where
  "isTimedOut now qi \<longleftrightarrow> qiScheduleTimeoutAt qi \<noteq> 0 \<and> qiScheduleTimeoutAt qi < now"

definition newSingleResult :: "queueItem \<Rightarrow> assignSingleResult" where
  "newSingleResult qi = \<lparr>arItem = qi, arWorkerId = 0, arAckId = 0, arNoSlots = False, arSucceeded = False,
     arRateLimit = None, arToBatch = False, arReservation = None\<rparr>"

text \<open>
  \<open>ctxErr\<close>: the context is cancelled at the call; \<open>running\<close>: whether the op reached the loop, which
  it does not when the scheduler shuts down. The result is the pair of the error flag and the
  result, \<open>None\<close> for the zero value.
\<close>

definition tryAssignBatchQueueItem ::
  "bool \<Rightarrow> bool \<Rightarrow> int \<Rightarrow> queueItem option \<Rightarrow> desiredLabel list \<Rightarrow> scheduler \<Rightarrow>
    ((bool \<times> assignSingleResult option) \<times> scheduler) option" where
  "tryAssignBatchQueueItem ctxErr running now item labels s =
     (case item of
        None \<Rightarrow> Some ((False, None), s)
      | Some qi \<Rightarrow>
          if ctxErr then Some ((True, None), s)
          else
            (let res = newSingleResult qi; requests = [(SlotTypeDefault, 1)];
                 miss = (False, Some (res\<lparr>arNoSlots := True\<rparr>))
             in if isTimedOut now qi \<or> \<not> running then Some (miss, s)
                else
                  (case map_of (actions s) (qiActionId qi) of
                     None \<Rightarrow> Some (miss, lookupActionAndMarkStarved (qiActionId qi) (qiQueue qi) requests s)
                   | Some a \<Rightarrow>
                       if workerIds a = []
                       then Some (miss, lookupActionAndMarkStarved (qiActionId qi) (qiQueue qi) requests s)
                       else do { (r, s') \<leftarrow> assignSingleton (qiActionId qi) a res labels requests now s;
                                 Some ((False, Some r), s') })))"

subsection \<open>Replenishing\<close>

text \<open>
  First op: \<open>None\<close> when another cycle is in flight, otherwise the ids of the workers the database
  reads are made for.
\<close>

definition replenish_begin :: "scheduler \<Rightarrow> uuid list option \<times> scheduler" where
  "replenish_begin s =
     (if replenishing s then (None, s)
      else (Some (map fst (workers s)), s\<lparr>replenishing := True, ackedDuringReplenish := Some []\<rparr>))"

definition mapList :: "('k \<times> 'v list) list \<Rightarrow> 'k \<Rightarrow> 'v list" where
  "mapList m k = (case map_of m k of None \<Rightarrow> [] | Some vs \<Rightarrow> vs)"

text \<open>The rows of \<open>ListActionsForWorkers\<close>, by action.\<close>

fun group_actions ::
  "(string option \<times> uuid) list \<Rightarrow> (string \<times> uuid list) list \<Rightarrow> (string \<times> uuid list) list" where
  "group_actions [] acc = acc"
| "group_actions ((None, _) # rows) acc = group_actions rows acc"
| "group_actions ((Some actionId, w) # rows) acc =
     group_actions rows (AList.update actionId (mapList acc actionId @ [w]) acc)"

text \<open>Second op: which actions to replenish.\<close>

definition scan_one ::
  "bool \<Rightarrow> int \<Rightarrow> scheduler \<Rightarrow> string \<Rightarrow> uuid list \<Rightarrow> bool" where
  "scan_one must now s actionId wids =
     (case map_of (actions s) actionId of
        None \<Rightarrow> True
      | Some a \<Rightarrow>
          let active = activeCount (mem s) (poolsByWorker s) now a
          in must \<or> IsStarved a \<or> active = 0 \<or> active \<le> lastReplenishedSlotCount a div 2 \<or>
             int (length wids) > lastReplenishedWorkerCount a)"

fun replenish_scan ::
  "bool \<Rightarrow> int \<Rightarrow> (string \<times> uuid list) list \<Rightarrow> scheduler \<Rightarrow> string list \<times> scheduler" where
  "replenish_scan must now [] s = ([], s)"
| "replenish_scan must now ((actionId, wids) # rest) s =
     (let s1 = (if map_of (actions s) actionId = None
                then s\<lparr>actions := AList.update actionId newAction (actions s)\<rparr> else s)
      in case replenish_scan must now rest s1 of
           (ids, s') \<Rightarrow> (if scan_one must now s actionId wids then actionId # ids else ids, s'))"

text \<open>Third op: the acks counted so far are visible to the availability read that follows.\<close>

definition replenish_resetAcks :: "scheduler \<Rightarrow> scheduler" where
  "replenish_resetAcks s = s\<lparr>ackedDuringReplenish := Some []\<rparr>"

definition add_key :: "'k \<Rightarrow> 'k list \<Rightarrow> 'k list" where
  "add_key k ks = (if k \<in> set ks then ks else ks @ [k])"

text \<open>The pools of the rows of \<open>ListWorkerSlotConfigs\<close>, and the rows of the availability read.\<close>

definition configured_pools :: "poolKey list \<Rightarrow> poolKey list" where
  "configured_pools rows = foldl (\<lambda>ks k. add_key k ks) [] rows"

definition available_by_pool :: "(poolKey \<times> int) list \<Rightarrow> (poolKey \<times> int) list" where
  "available_by_pool rows = foldl (\<lambda>m (k, n). AList.update k n m) [] rows"

text \<open>The unacked slots by pool; their pools are configured too.\<close>

fun collect_slots ::
  "poolMem \<Rightarrow> nat list \<Rightarrow> (poolKey \<times> nat list) list \<times> poolKey list \<Rightarrow> (poolKey \<times> nat list) list \<times> poolKey list" where
  "collect_slots m [] st = st"
| "collect_slots m (sl # sls) (byPool, configured) =
     collect_slots m sls
       (AList.update (slotKey m sl) (mapList byPool (slotKey m sl) @ [sl]) byPool,
        add_key (slotKey m sl) configured)"

fun collect_unacked ::
  "poolMem \<Rightarrow> (int \<times> assignedSlots) list \<Rightarrow> (poolKey \<times> nat list) list \<times> poolKey list \<Rightarrow>
    (poolKey \<times> nat list) list \<times> poolKey list" where
  "collect_unacked m [] st = st"
| "collect_unacked m ((_, a) # rest) st = collect_unacked m rest (collect_slots m (asSlots a) st)"

fun alloc_slots :: "poolKey \<Rightarrow> nat \<Rightarrow> poolMem \<Rightarrow> nat list \<times> poolMem" where
  "alloc_slots key 0 m = ([], m)"
| "alloc_slots key (Suc n) m =
     (let sl = slotNext m;
          m1 = m\<lparr>slotAt := (slotAt m)(sl := \<lparr>slotWorker = fst key, slotPool = None, slotType = snd key,
                                             slotIdx = 0, slotUsed = False\<rparr>), slotNext := Suc sl\<rparr>
      in case alloc_slots key n m1 of (sls, m2) \<Rightarrow> (sl # sls, m2))"

text \<open>\<open>s.pools[key]\<close>, or a new pool; then its worker and slot type are set.\<close>

definition pool_for :: "poolKey \<Rightarrow> (poolKey \<times> nat) list \<Rightarrow> poolMem \<Rightarrow> nat \<times> poolMem" where
  "pool_for key old m =
     (let (p, m1) = (case map_of old key of
            Some p \<Rightarrow> (p, m)
          | None \<Rightarrow> (poolNext m, m\<lparr>poolAt := (poolAt m)(poolNext m :=
               \<lparr>poolWorker = 0, poolSlotType = [], poolExpiresAt = 0, poolSlots = [], poolFree = []\<rparr>),
               poolNext := Suc (poolNext m)\<rparr>))
      in (p, m1\<lparr>poolAt := (poolAt m1)(p := (poolAt m1 p)\<lparr>poolWorker := fst key, poolSlotType := snd key\<rparr>)\<rparr>))"

definition available_count :: "int \<Rightarrow> int \<Rightarrow> int \<Rightarrow> nat" where
  "available_count available unackedCount ackedCount =
     (let n = available - unackedCount - ackedCount in nat (if n < 0 then 0 else n))"

record rebuild =
  rbMem :: poolMem
  rbPools :: "(poolKey \<times> nat) list"
  rbByWorker :: workerPools

definition build_pool ::
  "scheduler \<Rightarrow> (poolKey \<times> nat list) list \<Rightarrow> (poolKey \<times> int) list \<Rightarrow> int \<Rightarrow> poolKey \<Rightarrow> rebuild \<Rightarrow> rebuild" where
  "build_pool s byPool available expiresAt key rb =
     (case map_of (workers s) (fst key) of
        None \<Rightarrow> rb
      | Some _ \<Rightarrow>
          (case pool_for key (pools s) (rbMem rb) of
             (p, m1) \<Rightarrow>
               (let kept = mapList byPool key;
                    n = available_count (mapCount available key) (int (length kept))
                          (case ackedDuringReplenish s of None \<Rightarrow> 0 | Some acked \<Rightarrow> mapCount acked key)
                in case alloc_slots key n m1 of
                     (new, m2) \<Rightarrow>
                       \<lparr>rbMem = pool_reset p (new @ kept) expiresAt m2,
                        rbPools = AList.update key p (rbPools rb),
                        rbByWorker = AList.update (fst key)
                          (AList.update (snd key) p (typesOf (fst key) (rbByWorker rb))) (rbByWorker rb)\<rparr>)))"

fun build_pools ::
  "scheduler \<Rightarrow> (poolKey \<times> nat list) list \<Rightarrow> (poolKey \<times> int) list \<Rightarrow> int \<Rightarrow> poolKey list \<Rightarrow> rebuild \<Rightarrow> rebuild" where
  "build_pools s byPool available expiresAt [] rb = rb"
| "build_pools s byPool available expiresAt (key # keys) rb =
     build_pools s byPool available expiresAt keys (build_pool s byPool available expiresAt key rb)"

definition total_slots :: "poolMem \<Rightarrow> workerPools \<Rightarrow> uuid list \<Rightarrow> int" where
  "total_slots m ps wids =
     (\<Sum>w\<leftarrow>wids. \<Sum>(_, p)\<leftarrow>typesOf w ps. int (length (poolSlots (poolAt m p))))"

text \<open>
  The loop over the actions: an action without slots is deleted, the others get the new worker list
  (sorted, without repetitions) and their served starvation entries cleared.
\<close>

fun reindex_actions ::
  "poolMem \<Rightarrow> workerPools \<Rightarrow> (string \<times> uuid list) list \<Rightarrow> int \<Rightarrow> (string \<times> action) list \<Rightarrow>
    string list \<times> (string \<times> action) list" where
  "reindex_actions m ps a2w now [] = ([], [])"
| "reindex_actions m ps a2w now ((actionId, a) # acts) =
     (let wids = remdups_adj (sort (mapList a2w actionId));
          n = total_slots m ps wids
      in case reindex_actions m ps a2w now acts of
           (queues, rest) \<Rightarrow>
             if n = 0 then (queues, rest)
             else
               (case (if IsStarved a then RestoreStarved m ps wids now a else ([], a)) of
                  (restored, a1) \<Rightarrow>
                    (restored @ queues,
                     (actionId, a1\<lparr>workerIds := wids, lastReplenishedSlotCount := n,
                                  lastReplenishedWorkerCount := int (length wids)\<rparr>) # rest)))"

text \<open>Fourth op: the pools are rebuilt and the actions re-indexed; the queues to wake are returned.\<close>

definition replenish_apply ::
  "(string \<times> uuid list) list \<Rightarrow> poolKey list \<Rightarrow> (poolKey \<times> int) list \<Rightarrow> int \<Rightarrow> (nat \<Rightarrow> int) \<Rightarrow> scheduler \<Rightarrow>
    (string list \<times> scheduler) option" where
  "replenish_apply a2w configured available now clock s =
     (let (byPool, keys) = collect_unacked (mem s) (unackedSlots s) ([], configured);
          rb = build_pools s byPool available (now + defaultSlotExpiry) keys
                 \<lparr>rbMem = mem s, rbPools = [], rbByWorker = []\<rparr>;
          s1 = markWorkerCapacityUpdated
                 (s\<lparr>mem := rbMem rb, pools := rbPools rb, poolsByWorker := rbByWorker rb\<rparr>);
          (queues, acts) = reindex_actions (mem s1) (poolsByWorker s1) a2w now (actions s1)
      in do { s2 \<leftarrow> endReplenishCycle clock (s1\<lparr>actions := acts\<rparr>); Some (queues, s2) })"

end
