(* ===== verification/Scheduler_Capacity.thy ===== *)
theory Scheduler_Capacity
  imports Scheduler
begin

text \<open>
  The invariant of the scheduler and what every op of it does to the slots: how many slots of a
  worker and slot type are free, which are held by an assignment that is not acknowledged yet, and
  which were acknowledged during a replenish cycle. The contracts \<open>takes\<close> (slots leave the
  freelists) and \<open>grants\<close> (an op assigns items) are stated once and every op is shown to have one.
\<close>

section \<open>Memory invariant\<close>

text \<open>
  \<open>mem_ok m ps U\<close>: the pools listed in \<open>ps\<close> are well formed, distinct objects of their key, and the
  slots in \<open>U\<close> (those of the unacked assignments) are used and, when their pool is listed, still in it.
\<close>

definition mem_ok :: "poolMem \<Rightarrow> (poolKey \<times> nat) list \<Rightarrow> nat set \<Rightarrow> bool" where
  "mem_ok m ps U \<longleftrightarrow>
     distinct_keys ps \<and> distinct (map snd ps) \<and>
     (\<forall>(k, p)\<in>set ps. p < poolNext m \<and> pool_ok m p \<and> (poolWorker (poolAt m p), poolSlotType (poolAt m p)) = k) \<and>
     (\<forall>sl\<in>U. sl < slotNext m \<and> slotUsed (slotAt m sl) \<and>
        (\<forall>p. slotPool (slotAt m sl) = Some p \<longrightarrow>
           p < poolNext m \<and> (p \<in> snd ` set ps \<longrightarrow> sl \<in> set (poolSlots (poolAt m p)))))"

definition freeAt :: "poolMem \<Rightarrow> (poolKey \<times> nat) list \<Rightarrow> poolKey \<Rightarrow> nat" where
  "freeAt m ps k = (case map_of ps k of None \<Rightarrow> 0 | Some p \<Rightarrow> length (poolFree (poolAt m p)))"

definition countAt :: "poolMem \<Rightarrow> poolKey \<Rightarrow> nat list \<Rightarrow> nat" where
  "countAt m k sls = length (filter (\<lambda>sl. slotKey m sl = k) sls)"

lemma countAt_simps [simp]:
  "countAt m k [] = 0" "countAt m k (sl # sls) = (if slotKey m sl = k then 1 else 0) + countAt m k sls"
  "countAt m k (xs @ ys) = countAt m k xs + countAt m k ys"
  by (simp_all add: countAt_def)

lemma mem_ok_mono: "mem_ok m ps U \<Longrightarrow> V \<subseteq> U \<Longrightarrow> mem_ok m ps V"
  unfolding mem_ok_def by blast

lemma mem_ok_pool:
  assumes "mem_ok m ps U" "map_of ps k = Some p"
  shows "pool_ok m p" "p < poolNext m" "poolWorker (poolAt m p) = fst k" "poolSlotType (poolAt m p) = snd k"
    "p \<in> snd ` set ps"
  using assms map_of_SomeD[OF assms(2)] by (auto simp: mem_ok_def) force

text \<open>Two keys with the same pool are the same key.\<close>

lemma mem_ok_inj:
  assumes "mem_ok m ps U" "map_of ps k = Some p" "map_of ps k' = Some p"
  shows "k = k'"
  using mem_ok_pool(3,4)[OF assms(1,2)] mem_ok_pool(3,4)[OF assms(1,3)] by (auto intro: prod_eqI)

lemma pool_of_address:
  assumes "mem_ok m ps U" "p \<in> snd ` set ps"
  obtains k where "map_of ps k = Some p"
  using assms by (auto simp: mem_ok_def distinct_keys_def)

text \<open>
  What an operation that moves slots between the freelists and the assignments keeps: which slots
  belong to which key, the pools' slots and expiry, and the objects allocated.
\<close>

definition same_layout :: "poolMem \<Rightarrow> poolMem \<Rightarrow> bool" where
  "same_layout m m' \<longleftrightarrow>
     (\<forall>x. slotKey m' x = slotKey m x \<and> slotPool (slotAt m' x) = slotPool (slotAt m x)) \<and>
     (\<forall>q. poolSlots (poolAt m' q) = poolSlots (poolAt m q) \<and>
          poolExpiresAt (poolAt m' q) = poolExpiresAt (poolAt m q)) \<and>
     slotNext m' = slotNext m \<and> poolNext m' = poolNext m"

lemma same_layout_refl [simp]: "same_layout m m"
  by (simp add: same_layout_def)

lemma same_layout_trans: "same_layout m m1 \<Longrightarrow> same_layout m1 m2 \<Longrightarrow> same_layout m m2"
  by (simp add: same_layout_def)

lemma same_layoutD:
  assumes "same_layout m m'"
  shows "slotKey m' = slotKey m" "countAt m' k sls = countAt m k sls"
    "poolSlots (poolAt m' q) = poolSlots (poolAt m q)" "poolExpiresAt (poolAt m' q) = poolExpiresAt (poolAt m q)"
proof -
  show k: "slotKey m' = slotKey m" using assms by (auto simp: same_layout_def)
  show "countAt m' k sls = countAt m k sls" by (simp add: countAt_def k)
qed (use assms in \<open>auto simp: same_layout_def\<close>)

text \<open>Taking slots: \<open>takes ps U m sls m'\<close> is the contract of every operation that takes the slots \<open>sls\<close>.\<close>

definition takes :: "(poolKey \<times> nat) list \<Rightarrow> nat set \<Rightarrow> poolMem \<Rightarrow> nat list \<Rightarrow> poolMem \<Rightarrow> bool" where
  "takes ps U m sls m' \<longleftrightarrow>
     mem_ok m' ps (U \<union> set sls) \<and> distinct sls \<and> set sls \<inter> U = {} \<and> same_layout m m' \<and>
     (\<forall>k. freeAt m' ps k + countAt m k sls = freeAt m ps k)"

lemma takesD:
  assumes "takes ps U m sls m'"
  shows "mem_ok m' ps (U \<union> set sls)" "distinct sls" "set sls \<inter> U = {}" "same_layout m m'"
    "freeAt m' ps k + countAt m k sls = freeAt m ps k"
  using assms unfolding takes_def by blast+

lemma takes_none: "mem_ok m ps U \<Longrightarrow> takes ps U m [] m"
  by (simp add: takes_def)

lemma takes_append:
  assumes "takes ps U m xs m1" "takes ps (U \<union> set xs) m1 ys m2"
  shows "takes ps U m (xs @ ys) m2"
proof -
  have c: "countAt m1 k ys = countAt m k ys" for k
    by (rule same_layoutD(2)[OF takesD(4)[OF assms(1)]])
  have "freeAt m2 ps k + countAt m k (xs @ ys) = freeAt m ps k" for k
    using takesD(5)[OF assms(1), of k] takesD(5)[OF assms(2), of k] by (simp add: c)
  moreover have "same_layout m m2"
    by (rule same_layout_trans[OF takesD(4)[OF assms(1)] takesD(4)[OF assms(2)]])
  moreover have "mem_ok m2 ps (U \<union> set (xs @ ys))" using takesD(1)[OF assms(2)] by (simp add: Un_assoc)
  moreover have "distinct (xs @ ys)" "set (xs @ ys) \<inter> U = {}"
    using takesD(2,3)[OF assms(1)] takesD(2,3)[OF assms(2)] by auto
  ultimately show ?thesis unfolding takes_def by blast
qed

text \<open>One slot of one pool changes hands: how the invariant follows for the other pools.\<close>

lemma mem_ok_touch:
  assumes ok: "mem_ok m ps U" and k: "map_of ps k = Some p"
    and p: "pool_ok m' p" and sl: "slotPool (slotAt m sl) = Some p"
    and other: "\<And>x. x \<noteq> sl \<Longrightarrow> slotAt m' x = slotAt m x" "\<And>q. q \<noteq> p \<Longrightarrow> poolAt m' q = poolAt m q"
    and lay: "same_layout m m'"
    and key: "poolWorker (poolAt m' p) = poolWorker (poolAt m p)" "poolSlotType (poolAt m' p) = poolSlotType (poolAt m p)"
    and V: "\<And>x. x \<in> V \<Longrightarrow> x \<in> U \<or> x = sl" "sl \<in> V \<Longrightarrow> slotUsed (slotAt m' sl) \<and> sl \<in> set (poolSlots (poolAt m p)) \<and> sl < slotNext m"
  shows "mem_ok m' ps V"
proof -
  have pools: "pool_ok m' q" if q: "(k', q) \<in> set ps" for k' q
  proof (cases "q = p")
    case False
    have "pool_ok m q" using ok q by (auto simp: mem_ok_def)
    then show ?thesis
    proof (rule pool_ok_other[where p = p])
      fix x assume "slotPool (slotAt m x) = Some q"
      then have "x \<noteq> sl" using sl False by auto
      then show "slotAt m' x = slotAt m x" by (rule other(1))
    qed (use False other lay in \<open>auto simp: same_layout_def\<close>)
  qed (use p in simp)
  have keys: "poolWorker (poolAt m' q) = poolWorker (poolAt m q)" "poolSlotType (poolAt m' q) = poolSlotType (poolAt m q)" for q
    using other(2)[of q] key by (cases "q = p"; auto)+
  have slots: "slotUsed (slotAt m' x)" if "x \<in> V" for x
    using that V other(1)[of x] ok by (cases "x = sl") (auto simp: mem_ok_def)
  have l: "slotNext m' = slotNext m" "poolNext m' = poolNext m" "\<And>x. slotPool (slotAt m' x) = slotPool (slotAt m x)"
    "\<And>q. poolSlots (poolAt m' q) = poolSlots (poolAt m q)"
    using lay by (auto simp: same_layout_def)
  have "x < slotNext m \<and> (\<forall>q. slotPool (slotAt m x) = Some q \<longrightarrow>
      q < poolNext m \<and> (q \<in> snd ` set ps \<longrightarrow> x \<in> set (poolSlots (poolAt m q))))" if "x \<in> V" for x
  proof (cases "x = sl")
    case True
    then show ?thesis using V(2) that sl mem_ok_pool(2)[OF ok k] by auto
  next
    case False
    then show ?thesis using V(1)[OF that] ok by (auto simp: mem_ok_def)
  qed
  then show ?thesis
    using ok pools slots by (auto simp: mem_ok_def l keys)
qed

lemma pool_take_takes:
  assumes ok: "mem_ok m ps U" and k: "map_of ps k = Some p" and free: "0 < length (poolFree (poolAt m p))"
  obtains sl m' where "pool_take (Some p) m = Some (Some sl, m')" "takes ps U m [sl] m'" "slotKey m sl = k"
proof -
  have pk: "pool_ok m p" by (rule mem_ok_pool(1)[OF ok k])
  have ne: "poolFree (poolAt m p) \<noteq> []" using free by auto
  obtain sl m' where t: "pool_take (Some p) m = Some (Some sl, m')" and sl: "sl \<in> set (poolSlots (poolAt m p))"
    and nu: "\<not> slotUsed (slotAt m sl)"
    and m': "m' = setUsed sl True (setFree p (butlast (poolFree (poolAt m p))) m)" and ok': "pool_ok m' p"
    using pool_take_ok[OF pk ne] by metis
  note ref = pool_slot_ref[OF pk sl]
  have lay: "same_layout m m'" by (simp add: m' same_layout_def slotKey_def)
  have key: "slotKey m sl = k"
    using ref(5,6) mem_ok_pool(3,4)[OF ok k] by (simp add: slotKey_def)
  have nU: "sl \<notin> U" using nu ok by (auto simp: mem_ok_def)
  have "mem_ok m' ps (insert sl U)"
    by (rule mem_ok_touch[OF ok k ok' ref(1)]) (use lay sl ref(2) in \<open>auto simp: m'\<close>)
  moreover have "freeAt m' ps k' + countAt m k' [sl] = freeAt m ps k'" for k'
  proof (cases "k' = k")
    case True
    then show ?thesis using k key ne by (simp add: freeAt_def m' length_butlast)
  next
    case False
    then have "map_of ps k' \<noteq> Some p" using mem_ok_inj[OF ok _ k] by blast
    then show ?thesis using False key by (cases "map_of ps k'") (auto simp: freeAt_def m')
  qed
  ultimately have "takes ps U m [sl] m'" using nU lay by (simp add: takes_def)
  with t key show thesis using that by blast
qed

lemma take_units_takes:
  "mem_ok m ps U \<Longrightarrow> map_of ps k = Some p \<Longrightarrow> n \<le> length (poolFree (poolAt m p)) \<Longrightarrow>
   \<exists>sls m'. take_units (Some p) n m = Some (sls, m') \<and> takes ps U m sls m' \<and> length sls = n \<and>
     (\<forall>sl\<in>set sls. slotKey m sl = k)"
proof (induction n arbitrary: m U)
  case 0
  then show ?case by (simp add: takes_none)
next
  case (Suc n)
  obtain sl m1 where t: "pool_take (Some p) m = Some (Some sl, m1)" "takes ps U m [sl] m1" "slotKey m sl = k"
    using pool_take_takes[OF Suc.prems(1,2)] Suc.prems(3) by (metis Suc_le_lessD length_greater_0_conv list.size(3) not_less_zero)
  have ok1: "mem_ok m1 ps (U \<union> set [sl])" using t(2) by (simp add: takes_def)
  have "freeAt m1 ps k + 1 = freeAt m ps k" using takesD(5)[OF t(2), of k] t(3) by simp
  then have "n \<le> length (poolFree (poolAt m1 p))" using Suc.prems(2,3) by (simp add: freeAt_def)
  from Suc.IH[OF ok1 Suc.prems(2) this] obtain sls m2 where
    r: "take_units (Some p) n m1 = Some (sls, m2)" "takes ps (U \<union> set [sl]) m1 sls m2" "length sls = n"
      "\<forall>x\<in>set sls. slotKey m1 x = k" by blast
  have "slotKey m1 = slotKey m" using t(2) by (simp add: takes_def same_layoutD)
  then show ?case
    using t r takes_append[OF t(2) r(2)] by simp
qed

text \<open>Giving slots back. A slot whose pool was dropped goes to that dropped pool.\<close>

definition livePools :: "poolMem \<Rightarrow> (poolKey \<times> nat) list \<Rightarrow> nat \<Rightarrow> bool" where
  "livePools m ps sl \<longleftrightarrow> (\<exists>p. slotPool (slotAt m sl) = Some p \<and> p \<in> snd ` set ps)"

definition release_one :: "nat \<Rightarrow> poolMem \<Rightarrow> poolMem" where
  "release_one sl m = (case slotPool (slotAt m sl) of None \<Rightarrow> m | Some p \<Rightarrow> pool_release p sl m)"

lemma release_one_layout: "same_layout m (release_one sl m)"
  by (auto simp: release_one_def pool_release_def same_layout_def slotKey_def Let_def split: option.split)

lemma release_one_frame:
  "x \<noteq> sl \<Longrightarrow> slotAt (release_one sl m) x = slotAt m x"
  "slotPool (slotAt m sl) \<noteq> Some q \<Longrightarrow> poolAt (release_one sl m) q = poolAt m q"
  "poolWorker (poolAt (release_one sl m) q) = poolWorker (poolAt m q)"
  "poolSlotType (poolAt (release_one sl m) q) = poolSlotType (poolAt m q)"
  by (auto simp: release_one_def pool_release_def Let_def split: option.split)

lemma unacked_slot_pool:
  assumes ok: "mem_ok m ps U" and sl: "sl \<in> U" and p: "slotPool (slotAt m sl) = Some p"
    and live: "p \<in> snd ` set ps"
  shows "sl \<in> set (poolSlots (poolAt m p))" "map_of ps (slotKey m sl) = Some p"
proof -
  show s: "sl \<in> set (poolSlots (poolAt m p))" using ok sl p live unfolding mem_ok_def by blast
  obtain k where k: "map_of ps k = Some p" by (rule pool_of_address[OF ok live])
  from pool_slot_ref(5,6)[OF mem_ok_pool(1)[OF ok k] s] mem_ok_pool(3,4)[OF ok k]
  have "slotKey m sl = k" by (simp add: slotKey_def)
  then show "map_of ps (slotKey m sl) = Some p" using k by simp
qed

lemma release_one_mem_ok:
  assumes ok: "mem_ok m ps U" and sl: "sl \<in> U"
  shows "mem_ok (release_one sl m) ps (U - {sl})"
proof (cases "livePools m ps sl")
  case True
  then obtain p where p: "slotPool (slotAt m sl) = Some p" and live: "p \<in> snd ` set ps"
    by (auto simp: livePools_def)
  note s = unacked_slot_pool[OF ok sl p live]
  have "pool_ok (release_one sl m) p"
    using pool_release_ok[OF mem_ok_pool(1)[OF ok s(2)] s(1)] by (simp add: release_one_def p)
  then show ?thesis
    by (rule mem_ok_touch[OF ok s(2) _ p])
      (use release_one_frame release_one_layout p in auto)
next
  case False
  let ?m = "release_one sl m"
  have l: "slotNext ?m = slotNext m" "poolNext ?m = poolNext m" "\<And>x. slotPool (slotAt ?m x) = slotPool (slotAt m x)"
    "\<And>q. poolSlots (poolAt ?m q) = poolSlots (poolAt m q)"
    using release_one_layout[of m sl] by (auto simp: same_layout_def)
  have pools: "pool_ok ?m q" if q: "(k, q) \<in> set ps" for k q
  proof -
    have nq: "slotPool (slotAt m sl) \<noteq> Some q" using False q by (force simp: livePools_def)
    have "pool_ok m q" using ok q by (auto simp: mem_ok_def)
    then show ?thesis
    proof (rule pool_ok_other)
      show "q \<noteq> Suc q" by simp
      fix x assume "slotPool (slotAt m x) = Some q"
      with nq show "slotAt ?m x = slotAt m x" by (intro release_one_frame(1)) auto
    qed (use release_one_frame(2)[OF nq] l in auto)
  qed
  have used: "slotUsed (slotAt ?m x)" if "x \<in> U - {sl}" for x
    using that ok release_one_frame(1)[of x sl m] by (auto simp: mem_ok_def)
  have P: "\<forall>(k, p)\<in>set ps. p < poolNext ?m \<and> pool_ok ?m p \<and> (poolWorker (poolAt ?m p), poolSlotType (poolAt ?m p)) = k"
    using ok pools by (auto simp: mem_ok_def l release_one_frame(3,4))
  have S: "\<forall>x\<in>U - {sl}. x < slotNext ?m \<and> slotUsed (slotAt ?m x) \<and> (\<forall>p. slotPool (slotAt ?m x) = Some p \<longrightarrow>
      p < poolNext ?m \<and> (p \<in> snd ` set ps \<longrightarrow> x \<in> set (poolSlots (poolAt ?m p))))"
    using ok used unfolding mem_ok_def l by blast
  show ?thesis using ok P S unfolding mem_ok_def by blast
qed

lemma release_one_free:
  assumes ok: "mem_ok m ps U" and sl: "sl \<in> U"
  shows "freeAt (release_one sl m) ps k = freeAt m ps k + (if slotKey m sl = k \<and> livePools m ps sl then 1 else 0)"
proof (cases "livePools m ps sl")
  case True
  then obtain p where p: "slotPool (slotAt m sl) = Some p" and live: "p \<in> snd ` set ps"
    by (auto simp: livePools_def)
  note s = unacked_slot_pool[OF ok sl p live]
  have used: "slotUsed (slotAt m sl)" using ok sl by (auto simp: mem_ok_def)
  show ?thesis
  proof (cases "slotKey m sl = k")
    case k: True
    then show ?thesis
      using s(2) p used True by (simp add: freeAt_def release_one_def pool_release_def Let_def)
  next
    case False
    then have "map_of ps k \<noteq> Some p" using mem_ok_inj[OF ok _ s(2)] by blast
    then show ?thesis
      using False p release_one_frame(2)[of m sl]
      by (cases "map_of ps k") (auto simp: freeAt_def)
  qed
next
  case False
  have "poolAt (release_one sl m) q = poolAt m q" if "map_of ps k = Some q" for q
    using mem_ok_pool(5)[OF ok that] False by (intro release_one_frame(2)) (auto simp: livePools_def)
  then show ?thesis using False by (cases "map_of ps k") (auto simp: freeAt_def)
qed

lemma release_slots_eq: "release_slots sls m = fold release_one sls m"
  by (induction sls m rule: release_slots.induct) (simp_all add: release_one_def)

lemma release_slots_ok:
  "mem_ok m ps U \<Longrightarrow> distinct sls \<Longrightarrow> set sls \<subseteq> U \<Longrightarrow>
   mem_ok (release_slots sls m) ps (U - set sls) \<and> same_layout m (release_slots sls m) \<and>
   (\<forall>k. freeAt (release_slots sls m) ps k =
      freeAt m ps k + length (filter (\<lambda>sl. slotKey m sl = k \<and> livePools m ps sl) sls))"
proof (induction sls arbitrary: m U)
  case Nil
  then show ?case by (simp add: release_slots_eq)
next
  case (Cons sl sls)
  let ?m = "release_one sl m"
  have sl: "sl \<in> U" using Cons.prems by simp
  note lay = release_one_layout[of m sl]
  have "set sls \<subseteq> U - {sl}" "distinct sls" using Cons.prems by auto
  from Cons.IH[OF release_one_mem_ok[OF Cons.prems(1) sl] this(2,1)]
  have ih: "mem_ok (release_slots sls ?m) ps (U - {sl} - set sls)" "same_layout ?m (release_slots sls ?m)"
    "\<And>k. freeAt (release_slots sls ?m) ps k =
      freeAt ?m ps k + length (filter (\<lambda>x. slotKey ?m x = k \<and> livePools ?m ps x) sls)" by blast+
  have e: "release_slots (sl # sls) m = release_slots sls ?m" by (simp add: release_one_def)
  have "slotKey ?m = slotKey m" "livePools ?m ps = livePools m ps"
    using lay same_layoutD(1)[OF lay] by (auto simp: same_layout_def livePools_def)
  then have "freeAt (release_slots (sl # sls) m) ps k =
      freeAt m ps k + length (filter (\<lambda>x. slotKey m x = k \<and> livePools m ps x) (sl # sls))" for k
    using ih(3)[of k] release_one_free[OF Cons.prems(1) sl, of k] unfolding e by simp
  moreover have "U - set (sl # sls) = U - {sl} - set sls" by auto
  ultimately show ?case
    using ih(1) same_layout_trans[OF lay ih(2)] unfolding e by metis
qed

section \<open>Selecting slots\<close>

definition pools_index :: "(poolKey \<times> nat) list \<Rightarrow> workerPools \<Rightarrow> bool" where
  "pools_index ps pw \<longleftrightarrow>
     distinct_keys pw \<and> (\<forall>(_, byType)\<in>set pw. distinct_keys byType) \<and>
     (\<forall>w t. map_of ps (w, t) = map_of (typesOf w pw) t)"

text \<open>A worker can serve a request: each type it asks units of has that many free slots in a fresh pool.\<close>

definition fits :: "poolMem \<Rightarrow> workerPools \<Rightarrow> slotRequest \<Rightarrow> int \<Rightarrow> uuid \<Rightarrow> bool" where
  "fits m pw req now w \<longleftrightarrow>
     (\<forall>(t, units)\<in>set req. 0 < units \<longrightarrow>
        units \<le> freeCountAt now (map_option (poolAt m) (map_of (typesOf w pw) t)))"

text \<open>What a request asks of one key, and the requests the code can serve without a panic.\<close>

definition unitsAt :: "uuid \<Rightarrow> slotRequest \<Rightarrow> poolKey \<Rightarrow> nat" where
  "unitsAt w req k = (if fst k = w then nat (mapCount req (snd k)) else 0)"

definition request_ok :: "slotRequest \<Rightarrow> bool" where
  "request_ok req \<longleftrightarrow> distinct_keys req \<and> (\<exists>(_, units)\<in>set req. 0 < units)"

lemma select_check_fits: "select_check m (typesOf w pw) now req \<longleftrightarrow> fits m pw req now w"
  by (induction m "typesOf w pw" now req rule: select_check.induct) (auto simp: fits_def not_less)

lemma freeCountAt_pos:
  assumes "0 < units" "units \<le> freeCountAt now (map_option (poolAt m) x)"
  obtains p where "x = Some p" "units \<le> int (length (poolFree (poolAt m p)))" "now < poolExpiresAt (poolAt m p)"
  using assms by (cases x) (auto simp: freeCountAt_def staleAt_def split: if_splits)

lemma unitsAt_Nil [simp]: "unitsAt w [] k = 0"
  by (simp add: unitsAt_def mapCount_def)

lemma unitsAt_Cons:
  "t \<notin> fst ` set req \<Longrightarrow>
   unitsAt w ((t, units) # req) k = (if k = (w, t) then nat units else 0) + unitsAt w req k"
  by (cases k) (auto simp: unitsAt_def mapCount_def map_of_eq_None_iff[THEN iffD2])

lemma take_request_takes:
  "mem_ok m ps U \<Longrightarrow> \<forall>t. map_of ps (w, t) = map_of byType t \<Longrightarrow> distinct_keys req \<Longrightarrow>
   \<forall>(t, units)\<in>set req. nat units \<le> freeAt m ps (w, t) \<Longrightarrow>
   \<exists>sls m'. take_request byType req m = Some (sls, m') \<and> takes ps U m sls m' \<and>
     (\<forall>k. countAt m k sls = unitsAt w req k) \<and> (\<forall>sl\<in>set sls. fst (slotKey m sl) = w)"
proof (induction req arbitrary: m U)
  case Nil
  then show ?case by (simp add: takes_none)
next
  case (Cons x req)
  obtain t units where x: "x = (t, units)" by (cases x)
  have t: "t \<notin> fst ` set req" and d: "distinct_keys req" using Cons.prems(3) x by auto
  have "\<exists>sls m1. take_units (map_of byType t) (nat units) m = Some (sls, m1) \<and> takes ps U m sls m1 \<and>
      length sls = nat units \<and> (\<forall>sl\<in>set sls. slotKey m sl = (w, t))"
  proof (cases "units \<le> 0")
    case True
    then show ?thesis using takes_none[OF Cons.prems(1)] by simp
  next
    case False
    then have "nat units \<le> freeAt m ps (w, t)" "0 < nat units" using Cons.prems(4) x by auto
    then obtain p where p: "map_of ps (w, t) = Some p" "nat units \<le> length (poolFree (poolAt m p))"
      by (auto simp: freeAt_def split: option.splits)
    from take_units_takes[OF Cons.prems(1) p] show ?thesis using Cons.prems(2) p(1) by simp
  qed
  then obtain sls m1 where one: "take_units (map_of byType t) (nat units) m = Some (sls, m1)"
    "takes ps U m sls m1" "length sls = nat units" "\<forall>sl\<in>set sls. slotKey m sl = (w, t)" by blast
  have c: "countAt m k sls = (if k = (w, t) then nat units else 0)" for k
    using one(3,4) by (auto simp: countAt_def filter_id_conv[THEN iffD2] filter_empty_conv)
  note lay = takesD(4)[OF one(2)]
  have free: "freeAt m1 ps (w, u) = freeAt m ps (w, u)" if "u \<noteq> t" for u
    using takesD(5)[OF one(2), of "(w, u)"] c[of "(w, u)"] that by simp
  have "\<forall>(u, n)\<in>set req. nat n \<le> freeAt m1 ps (w, u)"
  proof clarify
    fix u n assume un: "(u, n) \<in> set req"
    then have "u \<noteq> t" using t by force
    then show "nat n \<le> freeAt m1 ps (w, u)" using Cons.prems(4) un by (auto simp: free)
  qed
  from Cons.IH[OF takesD(1)[OF one(2)] Cons.prems(2) d this] obtain rest m2 where
    r: "take_request byType req m1 = Some (rest, m2)" "takes ps (U \<union> set sls) m1 rest m2"
      "\<forall>k. countAt m1 k rest = unitsAt w req k" "\<forall>sl\<in>set rest. fst (slotKey m1 sl) = w" by blast
  have "take_request byType (x # req) m = Some (sls @ rest, m2)" using one(1) r(1) x by simp
  moreover have "countAt m k (sls @ rest) = unitsAt w (x # req) k" for k
    using c r(3)[rule_format, of k] unfolding x unitsAt_Cons[OF t] same_layoutD(2)[OF lay] by simp
  moreover have "\<forall>sl\<in>set (sls @ rest). fst (slotKey m sl) = w"
    using one(4) r(4) unfolding same_layoutD(1)[OF lay] by auto
  ultimately show ?case using takes_append[OF one(2) r(2)] by blast
qed

text \<open>\<open>selectSlotsFromPools\<close> reserves all the requested units on one worker, or nothing.\<close>

lemma select_miss:
  "\<not> fits m pw req now w \<Longrightarrow> selectSlotsFromPools (typesOf w pw) req now m = Some None"
  by (simp add: selectSlotsFromPools_def select_check_fits)

lemma select_hit:
  assumes "mem_ok m ps U" "pools_index ps pw" "distinct_keys req" "fits m pw req now w"
  obtains sls m' where "selectSlotsFromPools (typesOf w pw) req now m = Some (Some (sls, m'))"
    "takes ps U m sls m'" "\<And>k. countAt m k sls = unitsAt w req k" "\<And>sl. sl \<in> set sls \<Longrightarrow> fst (slotKey m sl) = w"
proof -
  have i: "\<forall>t. map_of ps (w, t) = map_of (typesOf w pw) t" using assms(2) by (simp add: pools_index_def)
  have "nat units \<le> freeAt m ps (w, t)" if tu: "(t, units) \<in> set req" for t units
  proof (cases "0 < units")
    case True
    then have "units \<le> freeCountAt now (map_option (poolAt m) (map_of (typesOf w pw) t))"
      using assms(4) tu by (auto simp: fits_def)
    then obtain p where "map_of (typesOf w pw) t = Some p" "units \<le> int (length (poolFree (poolAt m p)))"
      by (rule freeCountAt_pos[OF True])
    then show ?thesis using i by (simp add: freeAt_def)
  qed simp
  then obtain sls m' where t: "take_request (typesOf w pw) req m = Some (sls, m')" "takes ps U m sls m'"
    "\<forall>k. countAt m k sls = unitsAt w req k" "\<forall>sl\<in>set sls. fst (slotKey m sl) = w"
    using take_request_takes[OF assms(1) i assms(3)] by blast
  have "selectSlotsFromPools (typesOf w pw) req now m = Some (Some (sls, m'))"
    using assms(4) t(1) by (simp add: selectSlotsFromPools_def select_check_fits)
  with t show thesis using that by blast
qed

lemma try_workers_miss:
  "\<forall>w\<in>set ws. \<not> fits m pw req now w \<Longrightarrow> try_workers pw req now ws m = Some None"
  by (induction ws) (simp_all add: select_miss)

lemma try_workers_hit:
  assumes "mem_ok m ps U" "pools_index ps pw" "distinct_keys req"
    and "find (fits m pw req now) ws = Some w"
  obtains sls m' where "try_workers pw req now ws m = Some (Some (sls, m'))" "takes ps U m sls m'"
    "\<And>k. countAt m k sls = unitsAt w req k" "\<And>sl. sl \<in> set sls \<Longrightarrow> fst (slotKey m sl) = w"
proof -
  have f: "fits m pw req now w" using assms(4) by (auto simp: find_Some_iff)
  obtain sls m' where s: "selectSlotsFromPools (typesOf w pw) req now m = Some (Some (sls, m'))"
    "takes ps U m sls m'" "\<And>k. countAt m k sls = unitsAt w req k" "\<And>sl. sl \<in> set sls \<Longrightarrow> fst (slotKey m sl) = w"
    using select_hit[OF assms(1-3) f] by metis
  have "try_workers pw req now ws m = Some (Some (sls, m'))"
    using assms(4) s(1) by (induction ws) (auto simp: select_miss split: if_splits)
  then show thesis using that s by blast
qed

section \<open>Scheduler invariant\<close>

definition slotsOf :: "(int \<times> assignedSlots) list \<Rightarrow> nat list" where
  "slotsOf us = concat (map (\<lambda>(_, a). asSlots a) us)"

definition batch_ok :: "assignBatch \<Rightarrow> bool" where
  "batch_ok b \<longleftrightarrow> (\<forall>(_, req)\<in>set (baRequests b). req = [] \<or> request_ok req)"

text \<open>
  Besides the memory invariant: the slots of the unacked assignments are pairwise different, their
  ids have been handed out, the two indexes of the pools agree, and acks are counted while a
  replenish cycle is in flight.
\<close>

definition sched_inv :: "scheduler \<Rightarrow> bool" where
  "sched_inv s \<longleftrightarrow>
     mem_ok (mem s) (pools s) (set (slotsOf (unackedSlots s))) \<and> distinct (slotsOf (unackedSlots s)) \<and>
     distinct_keys (unackedSlots s) \<and> (\<forall>i\<in>fst ` set (unackedSlots s). i \<le> assignedCount s) \<and>
     pools_index (pools s) (poolsByWorker s) \<and> distinct_keys (actions s) \<and>
     (replenishing s \<longrightarrow> ackedDuringReplenish s \<noteq> None) \<and>
     (\<forall>i b. batches s i = Some b \<longrightarrow> batch_ok b)"

lemma sched_invD:
  assumes "sched_inv s"
  shows "mem_ok (mem s) (pools s) (set (slotsOf (unackedSlots s)))" "distinct (slotsOf (unackedSlots s))"
    "distinct_keys (unackedSlots s)" "\<And>i. i \<in> fst ` set (unackedSlots s) \<Longrightarrow> i \<le> assignedCount s"
    "pools_index (pools s) (poolsByWorker s)" "distinct_keys (actions s)"
    "replenishing s \<Longrightarrow> ackedDuringReplenish s \<noteq> None" "\<And>i b. batches s i = Some b \<Longrightarrow> batch_ok b"
  using assms unfolding sched_inv_def by blast+

lemma slotsOf_simps [simp]:
  "slotsOf [] = []" "slotsOf ((i, a) # us) = asSlots a @ slotsOf us" "slotsOf (xs @ ys) = slotsOf xs @ slotsOf ys"
  by (simp_all add: slotsOf_def)

lemma newScheduler_inv: "sched_inv newScheduler"
  by (simp add: sched_inv_def newScheduler_def mem_ok_def pools_index_def typesOf_def)

text \<open>
  The contract of every op that assigns items: it appends assignments with new ids, and each slot
  it appends left the freelist of its pool.
\<close>

definition grants :: "scheduler \<Rightarrow> scheduler \<Rightarrow> bool" where
  "grants s s' \<longleftrightarrow>
     sched_inv s' \<and> pools s' = pools s \<and> poolsByWorker s' = poolsByWorker s \<and> workers s' = workers s \<and>
     replenishing s' = replenishing s \<and> ackedDuringReplenish s' = ackedDuringReplenish s \<and>
     same_layout (mem s) (mem s') \<and> fst ` set (actions s) \<subseteq> fst ` set (actions s') \<and>
     assignedCount s \<le> assignedCount s' \<and>
     (\<exists>new. unackedSlots s' = unackedSlots s @ new \<and>
        (\<forall>i\<in>fst ` set new. assignedCount s < i) \<and>
        (\<forall>k. freeAt (mem s') (pools s) k + countAt (mem s) k (slotsOf new) = freeAt (mem s) (pools s) k))"

lemma grantsD:
  assumes "grants s s'"
  shows "sched_inv s'" "pools s' = pools s" "poolsByWorker s' = poolsByWorker s" "workers s' = workers s"
    "replenishing s' = replenishing s" "ackedDuringReplenish s' = ackedDuringReplenish s"
    "same_layout (mem s) (mem s')" "fst ` set (actions s) \<subseteq> fst ` set (actions s')"
    "assignedCount s \<le> assignedCount s'"
  using assms unfolding grants_def by blast+

lemma grants_new:
  assumes "grants s s'"
  obtains new where "unackedSlots s' = unackedSlots s @ new" "\<And>i. i \<in> fst ` set new \<Longrightarrow> assignedCount s < i"
    "\<And>k. freeAt (mem s') (pools s) k + countAt (mem s) k (slotsOf new) = freeAt (mem s) (pools s) k"
  using assms unfolding grants_def by blast

lemma grants_refl: "sched_inv s \<Longrightarrow> grants s s"
  by (simp add: grants_def exI[of _ "[]"])

lemma grants_trans:
  assumes "grants s s1" "grants s1 s2"
  shows "grants s s2"
proof -
  obtain n1 where n1: "unackedSlots s1 = unackedSlots s @ n1" "\<And>i. i \<in> fst ` set n1 \<Longrightarrow> assignedCount s < i"
    "\<And>k. freeAt (mem s1) (pools s) k + countAt (mem s) k (slotsOf n1) = freeAt (mem s) (pools s) k"
    using grants_new[OF assms(1)] by blast
  obtain n2 where n2: "unackedSlots s2 = unackedSlots s1 @ n2" "\<And>i. i \<in> fst ` set n2 \<Longrightarrow> assignedCount s1 < i"
    "\<And>k. freeAt (mem s2) (pools s1) k + countAt (mem s1) k (slotsOf n2) = freeAt (mem s1) (pools s1) k"
    using grants_new[OF assms(2)] by blast
  note g1 = grantsD[OF assms(1)] and g2 = grantsD[OF assms(2)]
  have "freeAt (mem s2) (pools s) k + countAt (mem s) k (slotsOf (n1 @ n2)) = freeAt (mem s) (pools s) k" for k
    using n1(3)[of k] n2(3)[of k] same_layoutD(2)[OF g1(7)] g1(2) by simp
  moreover have "\<forall>i\<in>fst ` set (n1 @ n2). assignedCount s < i"
    using n1(2) n2(2) g1(9) by force
  moreover have "unackedSlots s2 = unackedSlots s @ n1 @ n2" using n1(1) n2(1) by simp
  moreover have "same_layout (mem s) (mem s2)" by (rule same_layout_trans[OF g1(7) g2(7)])
  moreover have "fst ` set (actions s) \<subseteq> fst ` set (actions s2)" using g1(8) g2(8) by blast
  ultimately show ?thesis
    using g1 g2 unfolding grants_def by (intro conjI exI[of _ "n1 @ n2"]) auto
qed

text \<open>Changing the parts of the state that only steer the loop.\<close>

lemma grants_frame:
  assumes "grants s s1" "sched_inv s2"
    and "mem s2 = mem s1" "pools s2 = pools s1" "poolsByWorker s2 = poolsByWorker s1" "workers s2 = workers s1"
    and "replenishing s2 = replenishing s1" "ackedDuringReplenish s2 = ackedDuringReplenish s1"
    and "unackedSlots s2 = unackedSlots s1" "assignedCount s2 = assignedCount s1"
    and "fst ` set (actions s1) \<subseteq> fst ` set (actions s2)"
  shows "grants s s2"
proof -
  have a: "fst ` set (actions s) \<subseteq> fst ` set (actions s2)"
    using assms(11) grantsD(8)[OF assms(1)] by (rule subset_trans[rotated])
  note g = grantsD[OF assms(1)]
  show ?thesis
    unfolding grants_def assms(3-10) using g(2-7,9) assms(1,2) a
    by (intro conjI) (simp_all add: grants_def)
qed

lemma AList_update_new: "k \<notin> fst ` set xs \<Longrightarrow> AList.update k v xs = xs @ [(k, v)]"
  by (induction xs) auto

lemma AList_update_keys: "fst ` set (AList.update k v xs) = insert k (fst ` set xs)"
  by (induction xs) auto

text \<open>Starvation only touches the actions and the request for a replenish.\<close>

lemma markActionStarved_eq:
  "markActionStarved actionId a queue req s =
     s\<lparr>actions := AList.update actionId (snd (MarkStarved queue req a)) (actions s),
       notifyReplenishCh := (fst (MarkStarved queue req a) \<or> notifyReplenishCh s)\<rparr>"
  by (cases "MarkStarved queue req a"; cases "fst (MarkStarved queue req a)")
    (simp_all add: markActionStarved_def notifyReplenish_def)

lemma steer_inv:
  assumes "sched_inv s" "distinct_keys acts"
  shows "sched_inv (s\<lparr>actions := acts, notifyReplenishCh := b\<rparr>)"
  using assms by (simp add: sched_inv_def)

lemma grants_steer:
  assumes "sched_inv s" "distinct_keys acts" "fst ` set (actions s) \<subseteq> fst ` set acts"
  shows "grants s (s\<lparr>actions := acts, notifyReplenishCh := b\<rparr>)"
  by (rule grants_frame[OF grants_refl[OF assms(1)] steer_inv[OF assms(1,2)]]) (use assms in auto)

lemma markActionStarved_grants:
  "sched_inv s \<Longrightarrow> grants s (markActionStarved actionId a queue req s)"
  unfolding markActionStarved_eq
  by (intro grants_steer) (auto simp: sched_invD(6) AList_update_keys)

lemma lookupActionAndMarkStarved_grants:
  assumes "sched_inv s"
  shows "grants s (lookupActionAndMarkStarved actionId queue req s)"
proof (cases "map_of (actions s) actionId")
  case (Some a)
  then show ?thesis using markActionStarved_grants[OF assms] by (simp add: lookupActionAndMarkStarved_def)
next
  case None
  let ?s1 = "s\<lparr>actions := AList.update actionId newAction (actions s)\<rparr>"
  have "grants s (s\<lparr>actions := AList.update actionId newAction (actions s), notifyReplenishCh := notifyReplenishCh s\<rparr>)"
    using assms by (intro grants_steer) (auto simp: sched_invD(6) AList_update_keys)
  then have g: "grants s ?s1" by simp
  show ?thesis
    using grants_trans[OF g markActionStarved_grants[OF grantsD(1)[OF g]]] None
    by (simp add: lookupActionAndMarkStarved_def)
qed

section \<open>Assigning one item\<close>

lemma try_workers_append:
  "try_workers pw req now (xs @ ys) m =
     (case try_workers pw req now xs m of
        None \<Rightarrow> None | Some (Some sel) \<Rightarrow> Some (Some sel) | Some None \<Rightarrow> try_workers pw req now ys m)"
  by (induction xs) (auto split: option.split)

lemma rotated_eq:
  assumes "n \<le> length ws" "0 < n"
  shows "rotated offset n ws = rotate (nat (offset mod int n)) (take n ws)"
proof (rule nth_equalityI)
  show "length (rotated offset n ws) = length (rotate (nat (offset mod int n)) (take n ws))"
    using assms by (simp add: rotated_def)
  fix i assume "i < length (rotated offset n ws)"
  then have i: "i < n" by (simp add: rotated_def)
  let ?j = "nat (offset mod int n)"
  have "nat ((offset mod int n + int i) mod int n) = (?j + i) mod n"
    using assms(2) by (metis int_nat_eq nat_int of_nat_0_less_iff of_nat_add of_nat_mod pos_mod_sign)
  moreover have "(?j + i) mod n < n" using assms(2) by simp
  ultimately show "rotated offset n ws ! i = rotate ?j (take n ws) ! i"
    using i assms by (simp add: rotated_def nth_rotate)
qed

lemma rotated_set: "n \<le> length ws \<Longrightarrow> set (rotated offset n ws) = set (take n ws)"
proof (cases "n = 0")
  case False
  then show "n \<le> length ws \<Longrightarrow> ?thesis" using rotated_eq[of n ws offset] by simp
qed (simp add: rotated_def)

text \<open>The order in which the workers are tried for an item.\<close>

definition tryOrder :: "queueItem \<Rightarrow> desiredLabel list \<Rightarrow> action \<Rightarrow> scheduler \<Rightarrow> uuid list" where
  "tryOrder qi labels a s =
     (case rankedCandidates qi labels a s of
        (cs, n) \<Rightarrow> if cs = [] \<or> n = 0 then [] else rotated (ringOffset a) n cs @ drop n cs)"

lemma rankedCandidates_bound: "rankedCandidates qi labels a s = (cs, n) \<Longrightarrow> n \<le> length cs"
  using topRank_loop_le by (auto simp: rankedCandidates_def rankWorkerIds_eq Let_def split: if_splits)

lemma assignSingleton_miss:
  assumes inv: "sched_inv s" and none: "\<forall>w\<in>set (tryOrder (arItem r) labels a s). \<not> fits (mem s) (poolsByWorker s) req now w"
  obtains s' where "assignSingleton actionId a r labels req now s = Some (r\<lparr>arNoSlots := True\<rparr>, s')"
    "grants s s'" "actionId \<in> fst ` set (actions s')" "batches s' = batches s" "afterReplenish s' = afterReplenish s"
    "mem s' = mem s" "unackedSlots s' = unackedSlots s"
proof -
  obtain cs n where c: "rankedCandidates (arItem r) labels a s = (cs, n)" by (metis prod.exhaust)
  let ?a = "a\<lparr>ringOffset := ringOffset a + 1\<rparr>"
  let ?s1 = "s\<lparr>actions := AList.update actionId ?a (actions s)\<rparr>"
  have d: "distinct_keys (AList.update actionId ?a (actions s))" using sched_invD(6)[OF inv] by simp
  have g1: "grants s ?s1"
    using grants_steer[OF inv d, of "notifyReplenishCh s"] by (simp add: AList_update_keys subset_insertI)
  show thesis
  proof (cases "cs = [] \<or> n = 0")
    case True
    then have "assignSingleton actionId a r labels req now s = Some (r\<lparr>arNoSlots := True\<rparr>, ?s1)"
      by (auto simp: assignSingleton_def Let_def c)
    then show thesis using that[of ?s1] g1 by (simp add: AList_update_keys)
  next
    case False
    have "\<forall>w\<in>set (rotated (ringOffset a) n cs). \<not> fits (mem s) (poolsByWorker s) req now w"
      "\<forall>w\<in>set (drop n cs). \<not> fits (mem s) (poolsByWorker s) req now w"
      using none False by (auto simp: tryOrder_def c)
    then have t: "try_workers (poolsByWorker s) req now (rotated (ringOffset a) n cs) (mem s) = Some None"
      "try_workers (poolsByWorker s) req now (drop n cs) (mem s) = Some None"
      by (simp_all add: try_workers_miss)
    define s2 where "s2 = (if length cs = length (workerIds ?a) \<and> isSingleUnitRequest req \<or>
        \<not> hasFreeSlotOfEachType (mem ?s1) (poolsByWorker ?s1) (workerIds ?a) req now
      then markActionStarved actionId ?a (qiQueue (arItem r)) req ?s1 else ?s1)"
    have e: "assignSingleton actionId a r labels req now s = Some (r\<lparr>arNoSlots := True\<rparr>, s2)"
      using False by (simp add: assignSingleton_def Let_def c t s2_def)
    have g2: "grants ?s1 s2"
      unfolding s2_def
      using markActionStarved_grants[OF grantsD(1)[OF g1]] grants_refl[OF grantsD(1)[OF g1]] by simp
    have k: "actionId \<in> fst ` set (actions s2)" "batches s2 = batches s" "afterReplenish s2 = afterReplenish s"
      "mem s2 = mem s" "unackedSlots s2 = unackedSlots s"
      by (simp_all add: s2_def markActionStarved_eq AList_update_keys)
    show thesis by (rule that[OF e grants_trans[OF g1 g2] k])
  qed
qed

lemma assignSingleton_hit:
  assumes inv: "sched_inv s" and req: "request_ok req"
    and w: "find (fits (mem s) (poolsByWorker s) req now) (tryOrder (arItem r) labels a s) = Some w"
  obtains s' sls where "assignSingleton actionId a r labels req now s =
      Some (r\<lparr>arAckId := assignedCount s + 1, arWorkerId := w, arSucceeded := True\<rparr>, s')"
    "grants s s'" "actionId \<in> fst ` set (actions s')" "batches s' = batches s" "afterReplenish s' = afterReplenish s"
    "unackedSlots s' = unackedSlots s @ [(assignedCount s + 1, \<lparr>asSlots = sls, asReservation = arReservation r\<rparr>)]"
    "assignedCount s' = assignedCount s + 1" "\<And>k. countAt (mem s) k sls = unitsAt w req k"
    "takes (pools s) (set (slotsOf (unackedSlots s))) (mem s) sls (mem s')"
proof -
  obtain cs n where c: "rankedCandidates (arItem r) labels a s = (cs, n)" by (metis prod.exhaust)
  have ne: "\<not> (cs = [] \<or> n = 0)" using w by (auto simp: tryOrder_def c split: if_splits)
  have dreq: "distinct_keys req" using req by (simp add: request_ok_def)
  note i = sched_invD[OF inv]
  obtain sls m' where t: "try_workers (poolsByWorker s) req now (tryOrder (arItem r) labels a s) (mem s) = Some (Some (sls, m'))"
    "takes (pools s) (set (slotsOf (unackedSlots s))) (mem s) sls m'"
    "\<And>k. countAt (mem s) k sls = unitsAt w req k" "\<And>sl. sl \<in> set sls \<Longrightarrow> fst (slotKey (mem s) sl) = w"
    using try_workers_hit[OF i(1,5) dreq w] by metis
  have order: "tryOrder (arItem r) labels a s = rotated (ringOffset a) n cs @ drop n cs"
    using ne by (simp add: tryOrder_def c)
  have nonempty: "sls \<noteq> []"
  proof
    assume "sls = []"
    then have z: "unitsAt w req k = 0" for k using t(3)[of k] by simp
    obtain ty u where tu: "(ty, u) \<in> set req" "0 < u" using req by (auto simp: request_ok_def)
    then have "mapCount req ty = u" using dreq by (simp add: mapCount_def distinct_keys_def)
    then show False using z[of "(w, ty)"] tu(2) by (simp add: unitsAt_def)
  qed
  let ?id = "assignedCount s + 1"
  let ?new = "(?id, \<lparr>asSlots = sls, asReservation = arReservation r\<rparr>)"
  let ?a = "a\<lparr>ringOffset := ringOffset a + 1\<rparr>"
  let ?acts = "AList.update actionId ?a (actions s)"
  define s' where "s' = s\<lparr>actions := ?acts, assignedCount := ?id, mem := m', unackedSlots := unackedSlots s @ [?new]\<rparr>"
  have fresh: "?id \<notin> fst ` set (unackedSlots s)" using i(4)[of ?id] by linarith
  have hd: "slotWorker (slotAt m' (hd sls)) = w"
    using t(4)[of "hd sls"] nonempty same_layoutD(1)[OF takesD(4)[OF t(2)]] by (metis fst_conv hd_in_set slotKey_def)
  have e: "assignSingleton actionId a r labels req now s =
      Some (r\<lparr>arAckId := ?id, arWorkerId := w, arSucceeded := True\<rparr>, s')"
  proof (cases "try_workers (poolsByWorker s) req now (rotated (ringOffset a) n cs) (mem s)")
    case None
    then show ?thesis using t(1) by (simp add: order try_workers_append)
  next
    case (Some x)
    then show ?thesis
      using t(1) ne nonempty fresh hd
      by (cases x) (auto simp: order try_workers_append assignSingleton_def Let_def c s'_def AList_update_new)
  qed
  have inv': "sched_inv s'"
    unfolding sched_inv_def
  proof (intro conjI)
    show "mem_ok (mem s') (pools s') (set (slotsOf (unackedSlots s')))"
      using takesD(1)[OF t(2)] by (simp add: s'_def)
    show "distinct (slotsOf (unackedSlots s'))"
      using takesD(2,3)[OF t(2)] i(2) by (auto simp: s'_def)
    show "distinct_keys (unackedSlots s')" using i(3) fresh by (simp add: s'_def distinct_keys_def)
    show "\<forall>x\<in>fst ` set (unackedSlots s'). x \<le> assignedCount s'" using i(4) by (force simp: s'_def)
  qed (use i in \<open>simp_all add: s'_def\<close>)
  have g: "grants s s'"
    unfolding grants_def
  proof (intro conjI exI[of _ "[?new]"])
    show "\<forall>k. freeAt (mem s') (pools s) k + countAt (mem s) k (slotsOf [?new]) = freeAt (mem s) (pools s) k"
      using takesD(5)[OF t(2)] by (simp add: s'_def)
    show "same_layout (mem s) (mem s')" using takesD(4)[OF t(2)] by (simp add: s'_def)
  qed (use inv' in \<open>auto simp: s'_def AList_update_keys\<close>)
  show thesis
    by (rule that[OF e g _ _ _ _ _ t(3)]) (use t(2) in \<open>simp_all add: s'_def AList_update_keys\<close>)
qed

section \<open>Assigning batches\<close>

lemma assignSingleton_ok:
  assumes "sched_inv s" "request_ok req"
  shows "\<exists>r' s'. assignSingleton actionId a r labels req now s = Some (r', s') \<and> grants s s' \<and>
    actionId \<in> fst ` set (actions s') \<and> batches s' = batches s \<and> afterReplenish s' = afterReplenish s"
proof (cases "find (fits (mem s) (poolsByWorker s) req now) (tryOrder (arItem r) labels a s)")
  case None
  then have "\<forall>w\<in>set (tryOrder (arItem r) labels a s). \<not> fits (mem s) (poolsByWorker s) req now w"
    by (simp add: find_None_iff)
  from assignSingleton_miss[OF assms(1) this, where actionId = actionId] show ?thesis by metis
next
  case (Some w)
  from assignSingleton_hit[OF assms Some, where actionId = actionId] show ?thesis by metis
qed

lemma requestsFor_ok: "batch_ok b \<Longrightarrow> request_ok (requestsFor b qi)"
  by (auto simp: requestsFor_def batch_ok_def request_ok_def split: option.splits dest!: map_of_SomeD)

lemma miss_loop_ok:
  "sched_inv s \<Longrightarrow> miss_loop b rs s = (rs', s') \<Longrightarrow> grants s s' \<and> batches s' = batches s \<and> afterReplenish s' = afterReplenish s"
proof (induction b rs s arbitrary: rs' s' rule: miss_loop.induct)
  case (1 b s)
  then show ?case by (simp add: grants_refl)
next
  case (2 b r rs s)
  show ?case
  proof (cases "arRateLimit r = None \<and> \<not> arToBatch r")
    case True
    let ?s1 = "lookupActionAndMarkStarved (baActionId b) (qiQueue (arItem r)) (requestsFor b (arItem r)) s"
    obtain rs2 s2 where l: "miss_loop b rs ?s1 = (rs2, s2)" by (metis prod.exhaust)
    have g: "grants s ?s1" by (rule lookupActionAndMarkStarved_grants[OF 2(3)])
    have f: "batches ?s1 = batches s" "afterReplenish ?s1 = afterReplenish s"
      by (simp_all add: lookupActionAndMarkStarved_def markActionStarved_eq split: option.split)
    have "s' = s2" using 2(4) True l by simp
    with 2(1)[OF True grantsD(1)[OF g] l] f show ?thesis using grants_trans[OF g] by simp
  next
    case False
    obtain rs2 s2 where l: "miss_loop b rs s = (rs2, s2)" by (metis prod.exhaust)
    have "s' = s2" using 2(4) False l by auto
    with 2(2)[OF False 2(3) l] show ?thesis by simp
  qed
qed

lemma assign_loop_ok:
  "sched_inv s \<Longrightarrow> batch_ok b \<Longrightarrow> baActionId b \<in> fst ` set (actions s) \<Longrightarrow>
   \<exists>rs' s'. assign_loop b now rs s = Some (rs', s') \<and> grants s s' \<and> batches s' = batches s \<and>
     afterReplenish s' = afterReplenish s"
proof (induction rs arbitrary: s)
  case Nil
  then show ?case by (simp add: grants_refl)
next
  case (Cons r rs)
  show ?case
  proof (cases "arToBatch r \<or> arRateLimit r \<noteq> None \<or> arSucceeded r")
    case True
    then show ?thesis using Cons.IH[OF Cons.prems] by auto
  next
    case False
    obtain a where a: "map_of (actions s) (baActionId b) = Some a"
      using Cons.prems(3) by (cases "map_of (actions s) (baActionId b)") (auto simp: map_of_eq_None_iff)
    obtain r1 s1 where one: "assignSingleton (baActionId b) a r (labelsFor b (arItem r))
        (requestsFor b (arItem r)) now s = Some (r1, s1)" "grants s s1" "baActionId b \<in> fst ` set (actions s1)"
      "batches s1 = batches s" "afterReplenish s1 = afterReplenish s"
      using assignSingleton_ok[OF Cons.prems(1) requestsFor_ok[OF Cons.prems(2)]] by metis
    obtain rs2 s2 where rest: "assign_loop b now rs s1 = Some (rs2, s2)" "grants s1 s2"
      "batches s2 = batches s1" "afterReplenish s2 = afterReplenish s1"
      using Cons.IH[OF grantsD(1)[OF one(2)] Cons.prems(2) one(3)] by metis
    have "assign_loop b now (r # rs) s = Some (r1 # rs2, s2)" using False a one(1) rest(1) by simp
    then show ?thesis using grants_trans[OF one(2) rest(2)] rest(3,4) one(4,5) by simp
  qed
qed

lemma handleAssignBatch_ok:
  assumes "sched_inv s" "batch_ok b"
  shows "\<exists>rs' s'. handleAssignBatch b now s = Some (rs', s') \<and> grants s s' \<and> batches s' = batches s \<and>
     afterReplenish s' = afterReplenish s"
proof (cases "map_of (actions s) (baActionId b)")
  case None
  then show ?thesis
    using miss_loop_ok[OF assms(1)] by (cases "miss_loop b (baRes b) s") (simp add: handleAssignBatch_def)
next
  case (Some a)
  then have "baActionId b \<in> fst ` set (actions s)" using map_of_SomeD[OF Some] by force
  from assign_loop_ok[OF assms this] miss_loop_ok[OF assms(1)] Some show ?thesis
    by (cases "miss_loop b (baRes b) s") (simp add: handleAssignBatch_def)
qed

lemma sched_inv_batches:
  assumes "sched_inv s" "\<And>i b. bs i = Some b \<Longrightarrow> batch_ok b"
  shows "sched_inv (s\<lparr>batches := bs, afterReplenish := ar\<rparr>)"
  using assms unfolding sched_inv_def by simp

lemma grants_batches:
  assumes "grants s s1" "\<And>i b. bs i = Some b \<Longrightarrow> batch_ok b"
  shows "grants s (s1\<lparr>batches := bs, afterReplenish := ar\<rparr>)"
  by (rule grants_frame[OF assms(1) sched_inv_batches[OF grantsD(1)[OF assms(1)] assms(2)]]) simp_all

lemma finishBatch_grants:
  assumes "grants s s1"
  shows "grants s (finishBatch i reason s1)"
proof (cases "\<exists>b. batches s1 i = Some b \<and> baFinished b = None")
  case False
  then show ?thesis using assms by (auto simp: finishBatch_def split: option.split)
next
  case True
  then obtain b where b: "batches s1 i = Some b" "baFinished b = None" by blast
  let ?bs = "(batches s1)(i \<mapsto> b\<lparr>baFinished := Some reason\<rparr>)"
  have "batch_ok b'" if "?bs j = Some b'" for j b'
    using that sched_invD(8)[OF grantsD(1)[OF assms] b(1)] sched_invD(8)[OF grantsD(1)[OF assms], of j]
    by (auto simp: batch_ok_def split: if_splits)
  then show ?thesis
    using grants_batches[OF assms, of ?bs "afterReplenish s1"] b by (simp add: finishBatch_def)
qed

lemma attempt_ok:
  assumes "sched_inv s"
  shows "\<exists>s'. attempt i isRetry now s = Some s' \<and> grants s s'"
proof (cases "batches s i")
  case None
  then show ?thesis using grants_refl[OF assms] by (simp add: attempt_def)
next
  case (Some b)
  have bok: "batch_ok b" by (rule sched_invD(8)[OF assms Some])
  obtain rs s1 where h: "handleAssignBatch b now s = Some (rs, s1)" "grants s s1" "batches s1 = batches s"
    "afterReplenish s1 = afterReplenish s"
    using handleAssignBatch_ok[OF assms bok, of now] by blast
  let ?bs = "(batches s1)(i \<mapsto> b\<lparr>baRes := rs\<rparr>)"
  have bs: "batch_ok b'" if "?bs j = Some b'" for j b'
    using that bok sched_invD(8)[OF grantsD(1)[OF h(2)], of j] by (auto simp: batch_ok_def split: if_splits)
  let ?s2 = "s1\<lparr>batches := ?bs\<rparr>"
  have g2: "grants s ?s2" using grants_batches[OF h(2), of ?bs "afterReplenish s1"] bs by simp
  have "grants s (?s2\<lparr>afterReplenish := ar\<rparr>)" for ar
    using grants_batches[OF h(2), of ?bs ar] bs by simp
  then show ?thesis
    using finishBatch_grants[OF g2] Some h(1) by (simp add: attempt_def Let_def)
qed

lemma retryParked_ok:
  assumes "sched_inv s"
  shows "\<exists>s'. retryParked i now s = Some s' \<and> grants s s'"
proof (cases "\<exists>b. batches s i = Some b \<and> baFinished b = None")
  case False
  then show ?thesis using grants_refl[OF assms] by (auto simp: retryParked_def split: option.split)
next
  case True
  then obtain b where b: "batches s i = Some b" "baFinished b = None" by blast
  let ?b = "b\<lparr>baRes := map (\<lambda>r. if isMiss r then r\<lparr>arNoSlots := False\<rparr> else r) (baRes b)\<rparr>"
  let ?bs = "(batches s)(i \<mapsto> ?b)"
  have bs: "batch_ok b'" if "?bs j = Some b'" for j b'
    using that sched_invD(8)[OF assms b(1)] sched_invD(8)[OF assms, of j] by (auto simp: batch_ok_def split: if_splits)
  have g: "grants s (s\<lparr>batches := ?bs\<rparr>)"
    using grants_batches[OF grants_refl[OF assms], of ?bs "afterReplenish s"] bs by simp
  from attempt_ok[OF grantsD(1)[OF g], of i True now] show ?thesis
    using grants_trans[OF g] b by (auto simp: retryParked_def)
qed

lemma retry_loop_ok: "sched_inv s \<Longrightarrow> \<exists>s'. retry_loop clock is s = Some s' \<and> grants s s'"
proof (induction "is" arbitrary: s)
  case Nil
  then show ?case by (simp add: grants_refl)
next
  case (Cons i "is")
  obtain s1 where s1: "retryParked i (clock i) s = Some s1" "grants s s1" using retryParked_ok[OF Cons.prems] by blast
  from Cons.IH[OF grantsD(1)[OF s1(2)]] show ?case using s1 grants_trans[OF s1(2)] by auto
qed

lemma endReplenishCycle_ok:
  assumes "sched_inv s"
  shows "\<exists>s'. endReplenishCycle clock s = Some s' \<and>
    grants (s\<lparr>replenishing := False, ackedDuringReplenish := None, afterReplenish := []\<rparr>) s'"
  unfolding endReplenishCycle_def
  by (rule retry_loop_ok) (use assms in \<open>simp add: sched_inv_def\<close>)

lemma tryAssignBatchQueueItem_ok:
  assumes "sched_inv s"
  shows "\<exists>r s'. tryAssignBatchQueueItem ctxErr running now item labels s = Some (r, s') \<and> grants s s'"
proof (cases item)
  case None
  then show ?thesis using grants_refl[OF assms] by (auto simp: tryAssignBatchQueueItem_def)
next
  case (Some qi)
  have d: "request_ok [(SlotTypeDefault, 1)]" by (simp add: request_ok_def)
  show ?thesis
  proof (cases "\<exists>a. map_of (actions s) (qiActionId qi) = Some a \<and> workerIds a \<noteq> []")
    case True
    then obtain a where a: "map_of (actions s) (qiActionId qi) = Some a" "workerIds a \<noteq> []" by blast
    obtain r s' where "assignSingleton (qiActionId qi) a (newSingleResult qi) labels [(SlotTypeDefault, 1)] now s = Some (r, s')"
      "grants s s'"
      using assignSingleton_ok[OF assms d] by blast
    then show ?thesis using Some a grants_refl[OF assms] by (auto simp: tryAssignBatchQueueItem_def Let_def)
  next
    case False
    then show ?thesis
      using Some grants_refl[OF assms] lookupActionAndMarkStarved_grants[OF assms]
      by (auto simp: tryAssignBatchQueueItem_def Let_def split: option.split)
  qed
qed

section \<open>Acknowledging\<close>

lemma AList_delete_filter: "AList.delete k xs = filter (\<lambda>(i, _). i \<noteq> k) xs"
  by (induction xs) auto

lemma countAt_filter_split:
  "countAt m k (slotsOf us) =
     countAt m k (slotsOf (filter (\<lambda>(i, _). P i) us)) + countAt m k (slotsOf (filter (\<lambda>(i, _). \<not> P i) us))"
  by (induction us) auto

text \<open>Without the entry of \<open>i\<close>, and with it alone.\<close>

lemma filter_entry:
  assumes "distinct_keys us" "map_of us i = Some a"
  shows "filter (\<lambda>(j, _). j = i) us = [(i, a)]"
  using assms
proof (induction us)
  case (Cons x us)
  obtain j b where x: "x = (j, b)" by (cases x)
  show ?case
  proof (cases "j = i")
    case True
    then have "filter (\<lambda>(j, _). j = i) us = []"
      using Cons.prems x by (force simp: filter_empty_conv)
    then show ?thesis using True Cons.prems x by simp
  next
    case False
    then show ?thesis using Cons x by simp
  qed
qed simp

definition ackedAt :: "scheduler \<Rightarrow> poolKey \<Rightarrow> int" where
  "ackedAt s k = (case ackedDuringReplenish s of None \<Rightarrow> 0 | Some m \<Rightarrow> mapCount m k)"

lemma count_acked_ok:
  "\<exists>m'. count_acked m sls (Some ac) = Some (Some m') \<and> (\<forall>k. mapCount m' k = mapCount ac k + int (countAt m k sls))"
proof (induction sls arbitrary: ac)
  case (Cons sl sls)
  let ?a = "AList.update (slotKey m sl) (mapCount ac (slotKey m sl) + 1) ac"
  have "mapCount ?a k = mapCount ac k + (if slotKey m sl = k then 1 else 0)" for k
    by (auto simp: mapCount_def)
  then show ?case using Cons[of ?a] by auto
qed simp

text \<open>Removing assignments keeps the invariant.\<close>

lemma slotsOf_filter_subset: "set (slotsOf (filter P us)) \<subseteq> set (slotsOf us)"
  by (auto simp: slotsOf_def)

lemma slotsOf_filter_distinct: "distinct (slotsOf us) \<Longrightarrow> distinct (slotsOf (filter P us))"
proof (induction us)
  case (Cons x us)
  then show ?case using slotsOf_filter_subset[of P us] by (cases x) auto
qed simp

lemma distinct_keys_filter: "distinct_keys us \<Longrightarrow> distinct_keys (filter P us)"
  by (simp add: distinct_keys_def distinct_map_filter)

lemma filter_not_Cons:
  "filter (\<lambda>(j, _). j \<notin> set ids) (AList.delete i us) = filter (\<lambda>(j, _). j \<notin> set (i # ids)) us"
  unfolding AList_delete_filter filter_filter by (rule filter_cong) auto

lemma count_remove_Cons:
  assumes "distinct_keys us" "map_of us i = Some a"
  shows "countAt m k (slotsOf (filter (\<lambda>(j, _). j \<in> set (i # ids)) us)) =
    countAt m k (asSlots a) + countAt m k (slotsOf (filter (\<lambda>(j, _). j \<in> set ids) (AList.delete i us)))"
proof -
  let ?us = "filter (\<lambda>(j, _). j \<in> set (i # ids)) us"
  have "filter (\<lambda>(j, _). j = i) ?us = filter (\<lambda>(j, _). j = i) us"
    "filter (\<lambda>(j, _). j \<noteq> i) ?us = filter (\<lambda>(j, _). j \<in> set ids) (AList.delete i us)"
    unfolding AList_delete_filter filter_filter by (rule filter_cong; auto)+
  then show ?thesis
    using countAt_filter_split[of m k ?us "\<lambda>j. j = i"] filter_entry[OF assms] by simp
qed

lemma remove_unacked_inv:
  assumes "sched_inv s" "mem_ok m' (pools s) (set (slotsOf (filter P (unackedSlots s))))"
    and "replenishing s \<Longrightarrow> ac \<noteq> None"
  shows "sched_inv (s\<lparr>mem := m', unackedSlots := filter P (unackedSlots s), ackedDuringReplenish := ac\<rparr>)"
proof -
  note i = sched_invD[OF assms(1)]
  show ?thesis
    unfolding sched_inv_def
  proof (intro conjI)
    show "distinct (slotsOf (unackedSlots (s\<lparr>mem := m', unackedSlots := filter P (unackedSlots s), ackedDuringReplenish := ac\<rparr>)))"
      using slotsOf_filter_distinct[OF i(2)] by simp
    show "distinct_keys (unackedSlots (s\<lparr>mem := m', unackedSlots := filter P (unackedSlots s), ackedDuringReplenish := ac\<rparr>))"
      using distinct_keys_filter[OF i(3)] by simp
  qed (use i assms in auto)
qed

text \<open>
  Acknowledged assignments leave the unacked ones; while a replenish cycle is in flight their
  slots are counted. The pools are not touched.
\<close>

lemma handleAck_ok:
  "sched_inv s \<Longrightarrow>
   \<exists>cbs ac. handleAck ids s = Some (cbs, s\<lparr>unackedSlots := filter (\<lambda>(i, _). i \<notin> set ids) (unackedSlots s),
                                        ackedDuringReplenish := ac\<rparr>) \<and>
     (replenishing s \<longrightarrow> ac \<noteq> None \<and>
        (\<forall>k. (case ac of None \<Rightarrow> 0 | Some m \<Rightarrow> mapCount m k) =
           ackedAt s k + int (countAt (mem s) k (slotsOf (filter (\<lambda>(i, _). i \<in> set ids) (unackedSlots s)))))) \<and>
     (\<not> replenishing s \<longrightarrow> ac = ackedDuringReplenish s) \<and>
     sched_inv (s\<lparr>unackedSlots := filter (\<lambda>(i, _). i \<notin> set ids) (unackedSlots s), ackedDuringReplenish := ac\<rparr>)"
proof (induction ids arbitrary: s)
  case Nil
  have "filter (\<lambda>(i, _). False) (unackedSlots s) = []" "filter (\<lambda>(i, _). True) (unackedSlots s) = unackedSlots s"
    by (simp_all add: case_prod_beta)
  then show ?case
    using Nil sched_invD(7)[OF Nil] by (intro exI[of _ "[]"] exI[of _ "ackedDuringReplenish s"]) (simp add: ackedAt_def)
next
  case (Cons i ids)
  show ?case
  proof (cases "map_of (unackedSlots s) i")
    case None
    then have "i \<notin> fst ` set (unackedSlots s)" by (simp add: map_of_eq_None_iff)
    then have "filter (\<lambda>(j, _). j \<notin> set (i # ids)) (unackedSlots s) = filter (\<lambda>(j, _). j \<notin> set ids) (unackedSlots s)"
      "filter (\<lambda>(j, _). j \<in> set (i # ids)) (unackedSlots s) = filter (\<lambda>(j, _). j \<in> set ids) (unackedSlots s)"
      by (intro filter_cong refl; force)+
    then show ?thesis using Cons.IH[OF Cons.prems] None by (simp only: handleAck.simps option.case)
  next
    case (Some a)
    note inv = sched_invD[OF Cons.prems]
    obtain ac where ac: "(if replenishing s then count_acked (mem s) (asSlots a) (ackedDuringReplenish s)
          else Some (ackedDuringReplenish s)) = Some ac"
      "replenishing s \<Longrightarrow> ac \<noteq> None"
      "replenishing s \<Longrightarrow> \<forall>k. (case ac of None \<Rightarrow> 0 | Some m \<Rightarrow> mapCount m k) = ackedAt s k + int (countAt (mem s) k (asSlots a))"
      "\<not> replenishing s \<Longrightarrow> ac = ackedDuringReplenish s"
    proof (cases "replenishing s")
      case True
      then obtain m0 where m0: "ackedDuringReplenish s = Some m0" using inv(7) by auto
      from count_acked_ok[of "mem s" "asSlots a" m0] obtain m' where
        "count_acked (mem s) (asSlots a) (Some m0) = Some (Some m')"
        "\<forall>k. mapCount m' k = mapCount m0 k + int (countAt (mem s) k (asSlots a))" by blast
      then show thesis using that[of "Some m'"] True m0 by (simp add: ackedAt_def)
    next
      case False
      then show thesis using that[of "ackedDuringReplenish s"] by simp
    qed
    let ?us = "AList.delete i (unackedSlots s)"
    define s1 where "s1 = s\<lparr>unackedSlots := ?us, ackedDuringReplenish := ac\<rparr>"
    have "sched_inv (s\<lparr>mem := mem s, unackedSlots := filter (\<lambda>(j, _). j \<noteq> i) (unackedSlots s), ackedDuringReplenish := ac\<rparr>)"
      by (rule remove_unacked_inv[OF Cons.prems mem_ok_mono[OF inv(1) slotsOf_filter_subset] ac(2)])
    then have inv1: "sched_inv s1" by (simp add: s1_def AList_delete_filter)
    from Cons.IH[OF inv1] obtain cbs ac' where
      r: "handleAck ids s1 = Some (cbs, s1\<lparr>unackedSlots := filter (\<lambda>(i, _). i \<notin> set ids) (unackedSlots s1),
                                        ackedDuringReplenish := ac'\<rparr>)"
      "replenishing s1 \<longrightarrow> ac' \<noteq> None \<and> (\<forall>k. (case ac' of None \<Rightarrow> 0 | Some m \<Rightarrow> mapCount m k) =
           ackedAt s1 k + int (countAt (mem s1) k (slotsOf (filter (\<lambda>(i, _). i \<in> set ids) (unackedSlots s1)))))"
      "\<not> replenishing s1 \<longrightarrow> ac' = ackedDuringReplenish s1"
      "sched_inv (s1\<lparr>unackedSlots := filter (\<lambda>(i, _). i \<notin> set ids) (unackedSlots s1), ackedDuringReplenish := ac'\<rparr>)"
      by blast
    have e: "s1\<lparr>unackedSlots := filter (\<lambda>(i, _). i \<notin> set ids) (unackedSlots s1), ackedDuringReplenish := ac'\<rparr> =
        s\<lparr>unackedSlots := filter (\<lambda>(j, _). j \<notin> set (i # ids)) (unackedSlots s), ackedDuringReplenish := ac'\<rparr>"
      unfolding s1_def using filter_not_Cons[of ids i "unackedSlots s"] by simp
    have "handleAck (i # ids) s = Some (asReservation a # cbs,
        s\<lparr>unackedSlots := filter (\<lambda>(j, _). j \<notin> set (i # ids)) (unackedSlots s), ackedDuringReplenish := ac'\<rparr>)"
      using Some ac(1) r(1) unfolding e by (simp add: s1_def)
    moreover have "replenishing s \<longrightarrow> ac' \<noteq> None \<and> (\<forall>k. (case ac' of None \<Rightarrow> 0 | Some m \<Rightarrow> mapCount m k) =
        ackedAt s k + int (countAt (mem s) k (slotsOf (filter (\<lambda>(j, _). j \<in> set (i # ids)) (unackedSlots s)))))"
    proof (intro impI conjI allI)
      fix k assume rep: "replenishing s"
      show "ac' \<noteq> None" using r(2) rep by (simp add: s1_def)
      have "ackedAt s1 k = ackedAt s k + int (countAt (mem s) k (asSlots a))"
        using ac(3)[OF rep, rule_format, of k] by (simp add: s1_def ackedAt_def)
      then show "(case ac' of None \<Rightarrow> 0 | Some m \<Rightarrow> mapCount m k) =
          ackedAt s k + int (countAt (mem s) k (slotsOf (filter (\<lambda>(j, _). j \<in> set (i # ids)) (unackedSlots s))))"
        using r(2)[rule_format, THEN conjunct2, THEN spec, of k] rep count_remove_Cons[OF inv(3) Some, of "mem s" k ids]
        by (simp add: s1_def)
    qed
    moreover have "\<not> replenishing s \<longrightarrow> ac' = ackedDuringReplenish s"
      using r(3) ac(4) by (simp add: s1_def)
    ultimately show ?thesis using r(4) unfolding e by blast
  qed
qed

text \<open>Nacked assignments leave the unacked ones and their slots return to the freelists of live pools.\<close>

definition liveAt :: "poolMem \<Rightarrow> (poolKey \<times> nat) list \<Rightarrow> poolKey \<Rightarrow> nat list \<Rightarrow> nat" where
  "liveAt m ps k sls = length (filter (\<lambda>sl. slotKey m sl = k \<and> livePools m ps sl) sls)"

lemma liveAt_le: "liveAt m ps k sls \<le> countAt m k sls"
  unfolding liveAt_def countAt_def by (induction sls) auto

lemma liveAt_append [simp]: "liveAt m ps k (xs @ ys) = liveAt m ps k xs + liveAt m ps k ys"
  by (simp add: liveAt_def)

lemma liveAt_filter_split:
  "liveAt m ps k (slotsOf us) =
     liveAt m ps k (slotsOf (filter (\<lambda>(i, _). P i) us)) + liveAt m ps k (slotsOf (filter (\<lambda>(i, _). \<not> P i) us))"
  by (induction us) (auto simp: liveAt_def)

lemma live_remove_Cons:
  assumes "distinct_keys us" "map_of us i = Some a"
  shows "liveAt m ps k (slotsOf (filter (\<lambda>(j, _). j \<in> set (i # ids)) us)) =
    liveAt m ps k (asSlots a) + liveAt m ps k (slotsOf (filter (\<lambda>(j, _). j \<in> set ids) (AList.delete i us)))"
proof -
  let ?us = "filter (\<lambda>(j, _). j \<in> set (i # ids)) us"
  have "filter (\<lambda>(j, _). j = i) ?us = filter (\<lambda>(j, _). j = i) us"
    "filter (\<lambda>(j, _). j \<noteq> i) ?us = filter (\<lambda>(j, _). j \<in> set ids) (AList.delete i us)"
    unfolding AList_delete_filter filter_filter by (rule filter_cong; auto)+
  then show ?thesis
    using liveAt_filter_split[of m ps k ?us "\<lambda>j. j = i"] filter_entry[OF assms] by (simp add: liveAt_def)
qed

lemma same_layout_live: "same_layout m m' \<Longrightarrow> liveAt m' ps k sls = liveAt m ps k sls"
  by (simp add: liveAt_def livePools_def same_layoutD(1)) (simp add: same_layout_def)

lemma slots_of_entry:
  assumes "distinct_keys us" "map_of us i = Some a" "distinct (slotsOf us)"
  shows "distinct (asSlots a)" "set (asSlots a) \<subseteq> set (slotsOf us)"
    "set (slotsOf us) - set (asSlots a) = set (slotsOf (AList.delete i us))"
  using assms
proof (induction us)
  case (Cons x us)
  obtain j b where x: "x = (j, b)" by (cases x)
  {
    case 1 then show ?case using Cons.IH(1) x by (auto split: if_splits)
  next
    case 2 then show ?case using Cons.IH(2) x by (auto split: if_splits)
  next
    case 3
    show ?case
    proof (cases "j = i")
      case True
      then have "AList.delete i us = us" using 3 x by (simp add: delete_id)
      then show ?thesis using True 3 x by auto
    next
      case False
      then have "set (slotsOf us) - set (asSlots a) = set (slotsOf (AList.delete i us))"
        "set (asSlots a) \<subseteq> set (slotsOf us)"
        using Cons.IH(2,3) 3 x by auto
      then show ?thesis using False 3 x by auto
    qed
  }
qed simp_all

lemma handleNack_ok:
  "sched_inv s \<Longrightarrow>
   \<exists>cbs m'. handleNack ids s = (cbs, s\<lparr>unackedSlots := filter (\<lambda>(i, _). i \<notin> set ids) (unackedSlots s), mem := m'\<rparr>) \<and>
     same_layout (mem s) m' \<and>
     (\<forall>k. freeAt m' (pools s) k = freeAt (mem s) (pools s) k +
        liveAt (mem s) (pools s) k (slotsOf (filter (\<lambda>(i, _). i \<in> set ids) (unackedSlots s)))) \<and>
     sched_inv (s\<lparr>unackedSlots := filter (\<lambda>(i, _). i \<notin> set ids) (unackedSlots s), mem := m'\<rparr>)"
proof (induction ids arbitrary: s)
  case Nil
  have "filter (\<lambda>(i, _). False) (unackedSlots s) = []" "filter (\<lambda>(i, _). True) (unackedSlots s) = unackedSlots s"
    by (simp_all add: case_prod_beta)
  then show ?case
    using Nil by (intro exI[of _ "[]"] exI[of _ "mem s"]) (simp add: liveAt_def)
next
  case (Cons i ids)
  show ?case
  proof (cases "map_of (unackedSlots s) i")
    case None
    then have "i \<notin> fst ` set (unackedSlots s)" by (simp add: map_of_eq_None_iff)
    then have "filter (\<lambda>(j, _). j \<notin> set (i # ids)) (unackedSlots s) = filter (\<lambda>(j, _). j \<notin> set ids) (unackedSlots s)"
      "filter (\<lambda>(j, _). j \<in> set (i # ids)) (unackedSlots s) = filter (\<lambda>(j, _). j \<in> set ids) (unackedSlots s)"
      by (intro filter_cong refl; force)+
    then show ?thesis using Cons.IH[OF Cons.prems] None by (simp only: handleNack.simps option.case)
  next
    case (Some a)
    note inv = sched_invD[OF Cons.prems]
    note sl = slots_of_entry[OF inv(3) Some inv(2)]
    let ?m = "release_slots (asSlots a) (mem s)"
    from release_slots_ok[OF inv(1) sl(1,2)] have
      m: "mem_ok ?m (pools s) (set (slotsOf (AList.delete i (unackedSlots s))))" "same_layout (mem s) ?m"
      "\<And>k. freeAt ?m (pools s) k = freeAt (mem s) (pools s) k + liveAt (mem s) (pools s) k (asSlots a)"
      unfolding sl(3) liveAt_def by blast+
    define s1 where "s1 = s\<lparr>unackedSlots := AList.delete i (unackedSlots s), mem := ?m\<rparr>"
    have "sched_inv (s\<lparr>mem := ?m, unackedSlots := filter (\<lambda>(j, _). j \<noteq> i) (unackedSlots s),
        ackedDuringReplenish := ackedDuringReplenish s\<rparr>)"
      by (rule remove_unacked_inv[OF Cons.prems _ inv(7)]) (use m(1) in \<open>simp_all add: AList_delete_filter\<close>)
    moreover have "s1 = s\<lparr>mem := ?m, unackedSlots := filter (\<lambda>(j, _). j \<noteq> i) (unackedSlots s),
        ackedDuringReplenish := ackedDuringReplenish s\<rparr>"
      by (cases s) (simp add: s1_def AList_delete_filter)
    ultimately have inv1: "sched_inv s1" by simp
    from Cons.IH[OF inv1] obtain cbs m' where
      r: "handleNack ids s1 = (cbs, s1\<lparr>unackedSlots := filter (\<lambda>(i, _). i \<notin> set ids) (unackedSlots s1), mem := m'\<rparr>)"
      "same_layout (mem s1) m'"
      "\<And>k. freeAt m' (pools s1) k = freeAt (mem s1) (pools s1) k +
        liveAt (mem s1) (pools s1) k (slotsOf (filter (\<lambda>(i, _). i \<in> set ids) (unackedSlots s1)))"
      "sched_inv (s1\<lparr>unackedSlots := filter (\<lambda>(i, _). i \<notin> set ids) (unackedSlots s1), mem := m'\<rparr>)"
      by blast
    have e: "s1\<lparr>unackedSlots := filter (\<lambda>(i, _). i \<notin> set ids) (unackedSlots s1), mem := m'\<rparr> =
        s\<lparr>unackedSlots := filter (\<lambda>(j, _). j \<notin> set (i # ids)) (unackedSlots s), mem := m'\<rparr>"
      unfolding s1_def using filter_not_Cons[of ids i "unackedSlots s"] by simp
    have "handleNack (i # ids) s = (asReservation a # cbs,
        s\<lparr>unackedSlots := filter (\<lambda>(j, _). j \<notin> set (i # ids)) (unackedSlots s), mem := m'\<rparr>)"
      using Some r(1) unfolding e by (simp add: s1_def)
    moreover have "freeAt m' (pools s) k = freeAt (mem s) (pools s) k +
        liveAt (mem s) (pools s) k (slotsOf (filter (\<lambda>(j, _). j \<in> set (i # ids)) (unackedSlots s)))" for k
      using r(3)[of k] m(3)[of k] live_remove_Cons[OF inv(3) Some, of "mem s" "pools s" k ids]
      by (simp add: s1_def same_layout_live[OF m(2)])
    moreover have "same_layout (mem s) m'" using same_layout_trans[OF m(2)] r(2) by (simp add: s1_def)
    ultimately show ?thesis using r(4) unfolding e by blast
  qed
qed

end
