(* ===== verification/Scheduler_Replenish.thy ===== *)
theory Scheduler_Replenish
  imports Scheduler_Capacity
begin

text \<open>
  The ops that change workers and the ops of a replenish cycle keep the invariant of the scheduler;
  what the rebuilt pools hold is computed exactly (\<open>replenish_apply_ok\<close>).
\<close>

text \<open>Workers come and go; the pools of a worker that leaves are dropped.\<close>

lemma foldl_delete_filter:
  "foldl (\<lambda>ps (t, _). AList.delete (w, t) ps) ps ts = filter (\<lambda>(k, _). \<not> (fst k = w \<and> snd k \<in> fst ` set ts)) ps"
proof (induction ts arbitrary: ps)
  case (Cons x ts)
  obtain t v where x: "x = (t, v)" by (cases x)
  have "foldl (\<lambda>ps (t, _). AList.delete (w, t) ps) ps (x # ts) =
      filter (\<lambda>(k, _). \<not> (fst k = w \<and> snd k \<in> fst ` set ts)) (filter (\<lambda>(k, _). k \<noteq> (w, t)) ps)"
    using Cons[of "AList.delete (w, t) ps"] by (simp add: x AList_delete_filter)
  also have "\<dots> = filter (\<lambda>(k, _). \<not> (fst k = w \<and> snd k \<in> fst ` set (x # ts))) ps"
    unfolding filter_filter by (rule filter_cong) (auto simp: x)
  finally show ?case .
qed (simp add: case_prod_beta)

lemma removeWorker_pools:
  assumes "sched_inv s"
  shows "pools (removeWorker w s) = filter (\<lambda>(k, _). fst k \<noteq> w) (pools s)"
proof -
  have "snd k \<in> fst ` set (typesOf w (poolsByWorker s))" if "(k, p) \<in> set (pools s)" "fst k = w" for k p
  proof -
    have "map_of (pools s) k = Some p"
      using that(1) sched_invD(1)[OF assms] by (simp add: mem_ok_def distinct_keys_def)
    then have "map_of (typesOf w (poolsByWorker s)) (snd k) = Some p"
      using sched_invD(5)[OF assms] that(2) unfolding pools_index_def by (metis prod.collapse)
    then show ?thesis by (force dest: map_of_SomeD)
  qed
  then show ?thesis
    unfolding removeWorker_def foldl_delete_filter markWorkerCapacityUpdated_def
    by (simp, intro filter_cong refl) force
qed

lemma mem_ok_filter: "mem_ok m ps U \<Longrightarrow> mem_ok m (filter P ps) U"
  unfolding mem_ok_def
  by (auto simp: distinct_keys_def distinct_map_filter)

lemma map_of_filter_worker:
  "map_of (filter (\<lambda>(k, _). fst k \<noteq> w) ps) k = (if fst k = w then None else map_of ps k)"
  by (induction ps) auto

lemma removeWorker_ok:
  assumes "sched_inv s"
  shows "sched_inv (removeWorker w s)"
    "freeAt (mem s) (pools (removeWorker w s)) k = (if fst k = w then 0 else freeAt (mem s) (pools s) k)"
    "mem (removeWorker w s) = mem s" "unackedSlots (removeWorker w s) = unackedSlots s"
    "replenishing (removeWorker w s) = replenishing s" "ackedDuringReplenish (removeWorker w s) = ackedDuringReplenish s"
proof -
  note i = sched_invD[OF assms]
  have f: "pools (removeWorker w s) = filter (\<lambda>(k, _). fst k \<noteq> w) (pools s)" by (rule removeWorker_pools[OF assms])
  have pi: "pools_index (pools (removeWorker w s)) (AList.delete w (poolsByWorker s))"
    unfolding pools_index_def
  proof (intro conjI allI)
    show "distinct_keys (AList.delete w (poolsByWorker s))" using i(5) by (simp add: pools_index_def)
    show "\<forall>(_, byType)\<in>set (AList.delete w (poolsByWorker s)). distinct_keys byType"
      using i(5) unfolding pools_index_def by (blast dest: set_AList_delete)
    show "map_of (pools (removeWorker w s)) (w', t) = map_of (typesOf w' (AList.delete w (poolsByWorker s))) t" for w' t
      using i(5) unfolding f map_of_filter_worker pools_index_def by (simp add: typesOf_def)
  qed
  have "mem_ok (mem s) (pools (removeWorker w s)) (set (slotsOf (unackedSlots s)))"
    unfolding f by (rule mem_ok_filter[OF i(1)])
  then show "sched_inv (removeWorker w s)"
    using assms pi unfolding sched_inv_def by (simp add: removeWorker_def markWorkerCapacityUpdated_def)
  show "freeAt (mem s) (pools (removeWorker w s)) k = (if fst k = w then 0 else freeAt (mem s) (pools s) k)"
    unfolding removeWorker_pools[OF assms] freeAt_def map_of_filter_worker by simp
qed (simp_all add: removeWorker_def markWorkerCapacityUpdated_def)

lemma workers_inv: "sched_inv (s\<lparr>workers := ws\<rparr>) = sched_inv s"
  by (simp add: sched_inv_def)

lemma setWorkers_inv: "sched_inv (setWorkers ws s) = sched_inv s"
  by (simp add: setWorkers_def workers_inv)

lemma addWorker_inv: "sched_inv (addWorker w s) = sched_inv s"
  by (simp add: addWorker_def workers_inv)

text \<open>The ops of a replenish cycle before the pools are rebuilt.\<close>

lemma replenish_begin_inv: "sched_inv s \<Longrightarrow> sched_inv (snd (replenish_begin s))"
  by (auto simp: replenish_begin_def sched_inv_def)

lemma replenish_resetAcks_inv: "sched_inv s \<Longrightarrow> sched_inv (replenish_resetAcks s)"
  by (auto simp: replenish_resetAcks_def sched_inv_def)

lemma replenish_scan_eq:
  "distinct_keys (actions s) \<Longrightarrow>
   \<exists>acts. snd (replenish_scan must now a2w s) = s\<lparr>actions := acts\<rparr> \<and> distinct_keys acts"
proof (induction must now a2w s rule: replenish_scan.induct)
  case (2 must now actionId wids rest s)
  let ?s1 = "if map_of (actions s) actionId = None
                then s\<lparr>actions := AList.update actionId newAction (actions s)\<rparr> else s"
  have "distinct_keys (actions ?s1)" using 2(2) by simp
  from 2(1)[OF refl this] obtain acts where
    "snd (replenish_scan must now rest ?s1) = ?s1\<lparr>actions := acts\<rparr>" "distinct_keys acts" by blast
  then show ?case by (auto simp: Let_def split: prod.split)
next
  case (1 must now s)
  then show ?case by (intro exI[of _ "actions s"]) simp
qed

lemma replenish_scan_ok:
  assumes "sched_inv s"
  shows "sched_inv (snd (replenish_scan must now a2w s))" "mem (snd (replenish_scan must now a2w s)) = mem s"
    "pools (snd (replenish_scan must now a2w s)) = pools s"
    "unackedSlots (snd (replenish_scan must now a2w s)) = unackedSlots s"
    "replenishing (snd (replenish_scan must now a2w s)) = replenishing s"
    "ackedDuringReplenish (snd (replenish_scan must now a2w s)) = ackedDuringReplenish s"
proof -
  obtain acts where a: "snd (replenish_scan must now a2w s) = s\<lparr>actions := acts\<rparr>" "distinct_keys acts"
    using replenish_scan_eq[OF sched_invD(6)[OF assms]] by blast
  show "sched_inv (snd (replenish_scan must now a2w s))"
    using assms a(2) unfolding a(1) sched_inv_def by simp
qed (use replenish_scan_eq[OF sched_invD(6)[OF assms], of must now a2w] in auto)

subsection \<open>Rebuilding the pools\<close>

lemma mapList_update [simp]: "mapList (AList.update k v m) k' = (if k' = k then v else mapList m k')"
  by (simp add: mapList_def)

lemma collect_slots_spec:
  "distinct (snd st) \<Longrightarrow>
   mapList (fst (collect_slots m sls st)) k = mapList (fst st) k @ filter (\<lambda>sl. slotKey m sl = k) sls \<and>
   set (snd (collect_slots m sls st)) = set (snd st) \<union> slotKey m ` set sls \<and> distinct (snd (collect_slots m sls st))"
proof (induction m sls st rule: collect_slots.induct)
  case (2 m sl sls byPool configured)
  have d: "distinct (add_key (slotKey m sl) configured)" using 2(2) by (simp add: add_key_def)
  show ?case using 2(1)[OF _] d by (auto simp: add_key_def)
qed simp

lemma collect_unacked_spec:
  "distinct (snd st) \<Longrightarrow>
   mapList (fst (collect_unacked m us st)) k = mapList (fst st) k @ filter (\<lambda>sl. slotKey m sl = k) (slotsOf us) \<and>
   set (snd (collect_unacked m us st)) = set (snd st) \<union> slotKey m ` set (slotsOf us) \<and>
   distinct (snd (collect_unacked m us st))"
proof (induction m us st rule: collect_unacked.induct)
  case (2 m i a rest st)
  then show ?case using collect_slots_spec[OF 2(2), of m "asSlots a"] by auto
qed simp

lemma alloc_slots_spec:
  "alloc_slots key n m = (sls, m') \<Longrightarrow>
   sls = [slotNext m..<slotNext m + n] \<and> slotNext m' = slotNext m + n \<and> poolAt m' = poolAt m \<and>
   poolNext m' = poolNext m \<and> (\<forall>x. x < slotNext m \<longrightarrow> slotAt m' x = slotAt m x) \<and>
   (\<forall>x\<in>set sls. slotKey m' x = key \<and> \<not> slotUsed (slotAt m' x))"
proof (induction key n m arbitrary: sls m' rule: alloc_slots.induct)
  case (2 key n m)
  let ?m1 = "m\<lparr>slotAt := (slotAt m)(slotNext m := \<lparr>slotWorker = fst key, slotPool = None, slotType = snd key,
                                             slotIdx = 0, slotUsed = False\<rparr>), slotNext := Suc (slotNext m)\<rparr>"
  obtain rest where r: "alloc_slots key n ?m1 = (rest, m')" and sls: "sls = slotNext m # rest"
    using 2(2) by (auto simp: Let_def split: prod.splits)
  note ih = 2(1)[OF refl refl r]
  have "slotAt m' (slotNext m) = slotAt ?m1 (slotNext m)" using ih by simp
  then show ?case using ih sls by (auto simp: slotKey_def upt_conv_Cons)
qed simp

lemma pool_for_spec:
  assumes "pool_for key old m = (p, m')" "\<And>q. map_of old key = Some q \<Longrightarrow> q < poolNext m"
  shows "p = (case map_of old key of Some q \<Rightarrow> q | None \<Rightarrow> poolNext m)" "slotAt m' = slotAt m" "slotNext m' = slotNext m"
    "poolNext m \<le> poolNext m'" "p < poolNext m'" "q \<noteq> p \<Longrightarrow> poolAt m' q = poolAt m q"
    "poolWorker (poolAt m' p) = fst key" "poolSlotType (poolAt m' p) = snd key"
  using assms by (auto simp: pool_for_def Let_def split: option.splits)

lemma slotKey_cong: "slotAt m' x = slotAt m x \<Longrightarrow> slotKey m' x = slotKey m x"
  by (simp add: slotKey_def)

lemma pool_reset_key [simp]: "slotKey (pool_reset p sls t m) x = slotKey m x"
  by (simp add: slotKey_def)

text \<open>
  Between two keys of the loop: the pools built so far are well formed, hold all unacked slots of
  their key and \<open>n\<close> free ones, and sit at the address of the old pool of the key or at a new one;
  slots that existed keep their key and stay used.
\<close>

definition rebuild_ok :: "scheduler \<Rightarrow> (poolKey \<Rightarrow> nat) \<Rightarrow> poolKey set \<Rightarrow> rebuild \<Rightarrow> bool" where
  "rebuild_ok s n D rb \<longleftrightarrow>
     (let m = rbMem rb; ps = rbPools rb; U = set (slotsOf (unackedSlots s)) in
       distinct_keys ps \<and> distinct (map snd ps) \<and>
       fst ` set ps = {k \<in> D. map_of (workers s) (fst k) \<noteq> None} \<and>
       (\<forall>(k, p)\<in>set ps. p < poolNext m \<and> pool_ok m p \<and> (poolWorker (poolAt m p), poolSlotType (poolAt m p)) = k \<and>
          (map_of (pools s) k = Some p \<or> poolNext (mem s) \<le> p) \<and>
          length (poolFree (poolAt m p)) = n k \<and> {sl \<in> U. slotKey (mem s) sl = k} \<subseteq> set (poolSlots (poolAt m p))) \<and>
       poolNext (mem s) \<le> poolNext m \<and> slotNext (mem s) \<le> slotNext m \<and>
       (\<forall>sl\<in>U. slotKey m sl = slotKey (mem s) sl \<and> slotUsed (slotAt m sl) \<and>
          (slotKey (mem s) sl \<notin> fst ` set ps \<longrightarrow> slotPool (slotAt m sl) = slotPool (slotAt (mem s) sl))) \<and>
       pools_index ps (rbByWorker rb))"

lemma rebuild_start:
  assumes "sched_inv s"
  shows "rebuild_ok s n {} \<lparr>rbMem = mem s, rbPools = [], rbByWorker = []\<rparr>"
  using sched_invD(1)[OF assms] by (auto simp: rebuild_ok_def mem_ok_def pools_index_def typesOf_def)

lemma rebuild_okD:
  assumes "rebuild_ok s n D rb"
  shows "distinct_keys (rbPools rb)" "distinct (map snd (rbPools rb))"
    "fst ` set (rbPools rb) = {k \<in> D. map_of (workers s) (fst k) \<noteq> None}"
    "(k, p) \<in> set (rbPools rb) \<Longrightarrow> p < poolNext (rbMem rb) \<and> pool_ok (rbMem rb) p \<and>
        poolWorker (poolAt (rbMem rb) p) = fst k \<and> poolSlotType (poolAt (rbMem rb) p) = snd k \<and>
        (map_of (pools s) k = Some p \<or> poolNext (mem s) \<le> p) \<and> length (poolFree (poolAt (rbMem rb) p)) = n k \<and>
        {sl \<in> set (slotsOf (unackedSlots s)). slotKey (mem s) sl = k} \<subseteq> set (poolSlots (poolAt (rbMem rb) p))"
    "poolNext (mem s) \<le> poolNext (rbMem rb)" "slotNext (mem s) \<le> slotNext (rbMem rb)"
    "sl \<in> set (slotsOf (unackedSlots s)) \<Longrightarrow> slotKey (rbMem rb) sl = slotKey (mem s) sl \<and> slotUsed (slotAt (rbMem rb) sl)"
    "sl \<in> set (slotsOf (unackedSlots s)) \<Longrightarrow> slotKey (mem s) sl \<notin> fst ` set (rbPools rb) \<Longrightarrow>
       slotPool (slotAt (rbMem rb) sl) = slotPool (slotAt (mem s) sl)"
    "pools_index (rbPools rb) (rbByWorker rb)"
  using assms unfolding rebuild_ok_def Let_def by (blast, blast, blast, force, blast, blast, blast, blast, blast)

lemma pool_ok_key:
  assumes "pool_ok m p" "sl \<in> set (poolSlots (poolAt m p))"
  shows "slotKey m sl = (poolWorker (poolAt m p), poolSlotType (poolAt m p))"
  using pool_slot_ref(5,6)[OF assms] by (simp add: slotKey_def)

lemma pools_index_add:
  assumes "pools_index ps pw" "k \<notin> fst ` set ps"
  shows "pools_index (AList.update k p ps)
    (AList.update (fst k) (AList.update (snd k) p (typesOf (fst k) pw)) pw)"
proof -
  have "distinct_keys (typesOf (fst k) pw)"
    using assms(1) by (auto simp: pools_index_def typesOf_def split: option.split dest: map_of_SomeD)
  then have "\<forall>(_, byType)\<in>set (AList.update (fst k) (AList.update (snd k) p (typesOf (fst k) pw)) pw). distinct_keys byType"
    using assms(1) by (auto simp: pools_index_def dest!: set_AList_update)
  then show ?thesis using assms(1) by (cases k) (auto simp: pools_index_def typesOf_def)
qed

lemma pool_ok_cong:
  assumes "pool_ok m q" "\<And>sl. sl \<in> set (poolSlots (poolAt m q)) \<Longrightarrow> slotAt m' sl = slotAt m sl"
    and "poolAt m' q = poolAt m q" "slotNext m \<le> slotNext m'"
  shows "pool_ok m' q"
proof -
  have "slotAt m' (poolSlots (poolAt m q) ! i) = slotAt m (poolSlots (poolAt m q) ! i)"
    if "i < length (poolSlots (poolAt m q))" for i
    using assms(2) that by simp
  then show ?thesis
    using assms(1,3,4) by (auto simp: pool_ok_def Let_def intro: less_le_trans)
qed

text \<open>Resetting a pool at an address no other pool has, with slots no other pool has.\<close>

lemma reset_keeps_pool:
  assumes "pool_ok m q" "q \<noteq> p" "slotAt m1 = slotAt m" "slotNext m1 = slotNext m" "poolAt m1 q = poolAt m q"
    and alloc: "alloc_slots key n m1 = (new, m2)"
    and kept: "\<forall>sl\<in>set kept. slotKey m sl \<noteq> (poolWorker (poolAt m q), poolSlotType (poolAt m q))"
  shows "pool_ok (pool_reset p (new @ kept) t m2) q" "poolAt (pool_reset p (new @ kept) t m2) q = poolAt m q"
proof -
  note a = alloc_slots_spec[OF alloc]
  have ok2: "pool_ok m2 q"
    by (rule pool_ok_cong[OF assms(1)]) (use a assms(3-5) pool_slot_ref(2)[OF assms(1)] in auto)
  show "pool_ok (pool_reset p (new @ kept) t m2) q"
  proof (rule pool_reset_other[OF ok2 assms(2)])
    have "sl \<notin> set kept \<and> sl \<notin> set new" if "sl \<in> set (poolSlots (poolAt m2 q))" for sl
    proof -
      have sl: "sl \<in> set (poolSlots (poolAt m q))" using that a assms(5) by simp
      show ?thesis using kept pool_ok_key[OF assms(1) sl] pool_slot_ref(2)[OF assms(1) sl] a assms(4) by auto
    qed
    then show "set (new @ kept) \<inter> set (poolSlots (poolAt m2 q)) = {}" by auto
  qed
  show "poolAt (pool_reset p (new @ kept) t m2) q = poolAt m q" using a assms(2,5) by simp
qed

lemma build_pool_ok:
  assumes inv: "sched_inv s" and rb: "rebuild_ok s n D rb" and key: "key \<notin> D"
    and kept: "mapList byPool key = filter (\<lambda>sl. slotKey (mem s) sl = key) (slotsOf (unackedSlots s))"
    and n: "n key = available_count (mapCount available key) (int (length (mapList byPool key))) (ackedAt s key)"
  shows "rebuild_ok s n (insert key D) (build_pool s byPool available t key rb)"
proof (cases "map_of (workers s) (fst key)")
  case None
  then have "{k \<in> insert key D. map_of (workers s) (fst k) \<noteq> None} = {k \<in> D. map_of (workers s) (fst k) \<noteq> None}"
    by auto
  then show ?thesis using rb None by (simp add: build_pool_def rebuild_ok_def)
next
  case (Some w)
  let ?U = "set (slotsOf (unackedSlots s))"
  let ?m = "rbMem rb"
  let ?kept = "mapList byPool key"
  note d = rebuild_okD[OF rb]
  note ok = sched_invD(1)[OF inv]
  obtain p m1 where pf: "pool_for key (pools s) ?m = (p, m1)" by (cases "pool_for key (pools s) ?m")
  obtain new m2 where al: "alloc_slots key (n key) m1 = (new, m2)" by (cases "alloc_slots key (n key) m1")
  have old: "q < poolNext ?m" if "map_of (pools s) key = Some q" for q
    using mem_ok_pool(2)[OF ok that] d(5) by simp
  note f = pool_for_spec[OF pf old] and a = alloc_slots_spec[OF al]
  let ?m3 = "pool_reset p (new @ ?kept) t m2"
  have build: "build_pool s byPool available t key rb =
      \<lparr>rbMem = ?m3, rbPools = AList.update key p (rbPools rb),
       rbByWorker = AList.update (fst key) (AList.update (snd key) p (typesOf (fst key) (rbByWorker rb))) (rbByWorker rb)\<rparr>"
    using Some pf al n by (simp add: build_pool_def ackedAt_def)
  have new_key: "key \<notin> fst ` set (rbPools rb)" using d(3) key by auto
  have p_new: "p \<noteq> q" if kq: "(k, q) \<in> set (rbPools rb)" for k q
  proof (cases "map_of (pools s) key")
    case None
    then show ?thesis using f(1) d(4)[OF kq] by auto
  next
    case (Some q')
    have pq: "p = q'" using Some f(1) by simp
    have "k \<noteq> key" using kq new_key by force
    then have "map_of (pools s) k \<noteq> Some p" using mem_ok_inj[OF ok Some] pq by metis
    moreover have "map_of (pools s) k = Some q \<or> poolNext (mem s) \<le> q" using d(4)[OF kq] by blast
    moreover have "p < poolNext (mem s)" using mem_ok_pool(2)[OF ok Some] pq by simp
    ultimately show ?thesis by auto
  qed
  have kU: "set ?kept = {sl \<in> ?U. slotKey (mem s) sl = key}" "distinct ?kept"
    using sched_invD(2)[OF inv] by (auto simp: kept)
  have lt: "sl < slotNext (mem s)" if "sl \<in> ?U" for sl using ok that by (auto simp: mem_ok_def)
  have slots: "slotAt m2 sl = slotAt ?m sl" if "sl \<in> ?U" for sl
    using a f(2,3) lt[OF that] d(6) by simp
  have other: "pool_ok ?m3 q \<and> poolAt ?m3 q = poolAt ?m q" if kq: "(k, q) \<in> set (rbPools rb)" for k q
  proof -
    have "k \<noteq> key" using kq new_key by force
    moreover have "(poolWorker (poolAt ?m q), poolSlotType (poolAt ?m q)) = k" using d(4)[OF kq] by simp
    moreover have "\<forall>sl\<in>set ?kept. slotKey ?m sl = key" using d(7) kU(1) by auto
    ultimately have "\<forall>sl\<in>set ?kept. slotKey ?m sl \<noteq> (poolWorker (poolAt ?m q), poolSlotType (poolAt ?m q))"
      by simp
    note kept' = this
    have qp: "q \<noteq> p" using p_new[OF kq] by simp
    have "pool_ok ?m q" using d(4)[OF kq] by blast
    note keep = reset_keeps_pool[OF this qp f(2,3) f(6)[OF _ qp] al kept']
    show ?thesis by (intro conjI keep old)
  qed
  have this_ok: "pool_ok ?m3 p"
  proof (rule pool_reset_ok)
    show "distinct (new @ ?kept)"
      using a kU lt d(6) f(3) by fastforce
    show "\<forall>sl\<in>set (new @ ?kept). sl < slotNext m2 \<and> slotWorker (slotAt m2 sl) = poolWorker (poolAt m2 p) \<and>
        slotType (slotAt m2 sl) = poolSlotType (poolAt m2 p)"
    proof
      fix sl assume "sl \<in> set (new @ ?kept)"
      then consider "sl \<in> set new" | "sl \<in> ?U" "slotKey (mem s) sl = key" using kU by auto
      then have "sl < slotNext m2 \<and> slotKey m2 sl = key"
      proof cases
        case 1 then show ?thesis using a by auto
      next
        case 2
        have "sl < slotNext m2" using lt[OF 2(1)] d(6) a f(3) by simp
        moreover have "slotKey m2 sl = key" using slotKey_cong[OF slots[OF 2(1)]] d(7)[OF 2(1)] 2(2) by simp
        ultimately show ?thesis by simp
      qed
      then show "sl < slotNext m2 \<and> slotWorker (slotAt m2 sl) = poolWorker (poolAt m2 p) \<and>
        slotType (slotAt m2 sl) = poolSlotType (poolAt m2 p)"
        using f(7,8) conjunct1[OF conjunct2[OF conjunct2[OF a]]] unfolding slotKey_def by auto
    qed
  qed
  have free: "length (poolFree (poolAt ?m3 p)) = n key"
  proof -
    have "filter (\<lambda>sl. \<not> slotUsed (slotAt m2 sl)) new = new" using a by simp
    moreover have "filter (\<lambda>sl. \<not> slotUsed (slotAt m2 sl)) ?kept = []" using kU slots d(7) by (auto simp: filter_empty_conv)
    ultimately show ?thesis using a by (simp add: pool_reset_free_count)
  qed
  let ?ps = "AList.update key p (rbPools rb)"
  have ps: "?ps = rbPools rb @ [(key, p)]" using new_key by (rule AList_update_new)
  have "p \<notin> snd ` set (rbPools rb)" using p_new by force
  then have "distinct (map snd ?ps)" using d(2) unfolding ps by simp
  moreover have "fst ` set ?ps = {k \<in> insert key D. map_of (workers s) (fst k) \<noteq> None}"
    using d(3) Some unfolding ps by auto
  moreover have "\<forall>(k, q)\<in>set ?ps. q < poolNext ?m3 \<and> pool_ok ?m3 q \<and>
      (poolWorker (poolAt ?m3 q), poolSlotType (poolAt ?m3 q)) = k \<and>
      (map_of (pools s) k = Some q \<or> poolNext (mem s) \<le> q) \<and> length (poolFree (poolAt ?m3 q)) = n k \<and>
      {sl \<in> ?U. slotKey (mem s) sl = k} \<subseteq> set (poolSlots (poolAt ?m3 q))"
  proof (intro ballI, clarify)
    fix w' t' q assume kq: "((w', t'), q) \<in> set ?ps"
    show "q < poolNext ?m3 \<and> pool_ok ?m3 q \<and> (poolWorker (poolAt ?m3 q), poolSlotType (poolAt ?m3 q)) = (w', t') \<and>
      (map_of (pools s) (w', t') = Some q \<or> poolNext (mem s) \<le> q) \<and> length (poolFree (poolAt ?m3 q)) = n (w', t') \<and>
      {sl \<in> ?U. slotKey (mem s) sl = (w', t')} \<subseteq> set (poolSlots (poolAt ?m3 q))"
    proof (cases "((w', t'), q) \<in> set (rbPools rb)")
      case True
      then show ?thesis using other[OF True] d(4)[OF True] f(4) a by simp
    next
      case False
      then have e: "key = (w', t')" "q = p" using kq ps by auto
      have "map_of (pools s) key = Some p \<or> poolNext (mem s) \<le> p"
        using f(1) d(5) by (auto split: option.splits)
      then show ?thesis using e this_ok free f(5,7,8) a kU by auto
    qed
  qed
  moreover have "\<forall>sl\<in>?U. slotKey ?m3 sl = slotKey (mem s) sl \<and> slotUsed (slotAt ?m3 sl) \<and>
      (slotKey (mem s) sl \<notin> fst ` set ?ps \<longrightarrow> slotPool (slotAt ?m3 sl) = slotPool (slotAt (mem s) sl))"
  proof (intro ballI conjI impI)
    fix sl assume sl: "sl \<in> ?U"
    show "slotKey ?m3 sl = slotKey (mem s) sl" "slotUsed (slotAt ?m3 sl)"
      using d(7)[OF sl] slots[OF sl] slotKey_cong[OF slots[OF sl]] by simp_all
    assume k: "slotKey (mem s) sl \<notin> fst ` set ?ps"
    then have "sl \<notin> set (new @ ?kept)" using kU a lt[OF sl] d(6) f(3) ps by auto
    then show "slotPool (slotAt ?m3 sl) = slotPool (slotAt (mem s) sl)"
      using slots[OF sl] d(8)[OF sl] k ps by simp
  qed
  ultimately show ?thesis
    unfolding build rebuild_ok_def Let_def rebuild.simps
    using d(1,5,6) f(3,4) a pools_index_add[OF d(9) new_key] by simp
qed

lemma build_pools_ok:
  assumes inv: "sched_inv s"
    and kept: "\<And>k. mapList byPool k = filter (\<lambda>sl. slotKey (mem s) sl = k) (slotsOf (unackedSlots s))"
    and n: "\<And>k. n k = available_count (mapCount available k) (int (length (mapList byPool k))) (ackedAt s k)"
  shows "rebuild_ok s n D rb \<Longrightarrow> distinct keys \<Longrightarrow> set keys \<inter> D = {} \<Longrightarrow>
    rebuild_ok s n (D \<union> set keys) (build_pools s byPool available t keys rb)"
proof (induction keys arbitrary: D rb)
  case (Cons key keys)
  have "rebuild_ok s n (insert key D) (build_pool s byPool available t key rb)"
    by (rule build_pool_ok[OF inv Cons.prems(1) _ kept n]) (use Cons.prems in auto)
  from Cons.IH[OF this] show ?case using Cons.prems by auto
qed simp

lemma rebuild_mem_ok:
  assumes inv: "sched_inv s" and rb: "rebuild_ok s n D rb" and D: "slotKey (mem s) ` set (slotsOf (unackedSlots s)) \<subseteq> D"
  shows "mem_ok (rbMem rb) (rbPools rb) (set (slotsOf (unackedSlots s)))"
proof -
  note d = rebuild_okD[OF rb]
  note ok = sched_invD(1)[OF inv]
  have 1: "sl \<in> set (poolSlots (poolAt (rbMem rb) p))" if sl: "sl \<in> set (slotsOf (unackedSlots s))"
    and p: "slotPool (slotAt (rbMem rb) sl) = Some p" and kp: "(k, p) \<in> set (rbPools rb)" for sl p k
  proof (cases "slotKey (mem s) sl \<in> fst ` set (rbPools rb)")
    case True
    then obtain q where q: "(slotKey (mem s) sl, q) \<in> set (rbPools rb)" by force
    have s: "sl \<in> set (poolSlots (poolAt (rbMem rb) q))" using d(4)[OF q] sl by blast
    then have "q = p" using pool_slot_ref(1)[OF _ s] d(4)[OF q] p by simp
    then show ?thesis using s by simp
  next
    case False
    then have pool: "slotPool (slotAt (mem s) sl) = Some p" using d(8)[OF sl] p by simp
    then have lt: "p < poolNext (mem s)" using ok sl by (auto simp: mem_ok_def)
    then have k: "map_of (pools s) k = Some p" using d(4)[OF kp] by auto
    have "map_of (pools s) (slotKey (mem s) sl) = Some p"
      by (rule unacked_slot_pool(2)[OF ok sl pool mem_ok_pool(5)[OF ok k]])
    then have "k = slotKey (mem s) sl" using mem_ok_inj[OF ok k] by simp
    then show ?thesis using False kp by force
  qed
  have 2: "p < poolNext (rbMem rb)" if sl: "sl \<in> set (slotsOf (unackedSlots s))"
    and p: "slotPool (slotAt (rbMem rb) sl) = Some p" for sl p
  proof (cases "slotKey (mem s) sl \<in> fst ` set (rbPools rb)")
    case True
    then obtain q where q: "(slotKey (mem s) sl, q) \<in> set (rbPools rb)" by force
    have s: "sl \<in> set (poolSlots (poolAt (rbMem rb) q))" using d(4)[OF q] sl by blast
    then show ?thesis using pool_slot_ref(1)[OF _ s] d(4)[OF q] p by simp
  next
    case False
    then have "slotPool (slotAt (mem s) sl) = Some p" using d(8)[OF sl] p by simp
    then show ?thesis using ok sl d(5) by (fastforce simp: mem_ok_def)
  qed
  have 3: "sl < slotNext (rbMem rb)" if "sl \<in> set (slotsOf (unackedSlots s))" for sl
    using ok that d(6) by (fastforce simp: mem_ok_def)
  have slots: "\<forall>sl\<in>set (slotsOf (unackedSlots s)). sl < slotNext (rbMem rb) \<and> slotUsed (slotAt (rbMem rb) sl) \<and>
      (\<forall>p. slotPool (slotAt (rbMem rb) sl) = Some p \<longrightarrow> p < poolNext (rbMem rb) \<and>
        (p \<in> snd ` set (rbPools rb) \<longrightarrow> sl \<in> set (poolSlots (poolAt (rbMem rb) p))))"
  proof (intro ballI conjI allI impI)
    fix sl p assume sl: "sl \<in> set (slotsOf (unackedSlots s))" and p: "slotPool (slotAt (rbMem rb) sl) = Some p"
    assume "p \<in> snd ` set (rbPools rb)"
    then obtain k where "(k, p) \<in> set (rbPools rb)" by force
    then show "sl \<in> set (poolSlots (poolAt (rbMem rb) p))" by (rule 1[OF sl p])
  qed (use 2 3 d(7) in blast)+
  have "\<forall>(k, p)\<in>set (rbPools rb). p < poolNext (rbMem rb) \<and> pool_ok (rbMem rb) p \<and>
      (poolWorker (poolAt (rbMem rb) p), poolSlotType (poolAt (rbMem rb) p)) = k"
  proof (intro ballI, clarify)
    fix w t p assume "((w, t), p) \<in> set (rbPools rb)"
    from d(4)[OF this] show "p < poolNext (rbMem rb) \<and> pool_ok (rbMem rb) p \<and>
      (poolWorker (poolAt (rbMem rb) p), poolSlotType (poolAt (rbMem rb) p)) = (w, t)" by simp
  qed
  then show ?thesis unfolding mem_ok_def by (intro conjI d(1,2) slots)
qed

lemma rebuild_free:
  assumes rb: "rebuild_ok s n D rb"
  shows "freeAt (rbMem rb) (rbPools rb) k = (if k \<in> D \<and> map_of (workers s) (fst k) \<noteq> None then n k else 0)"
proof (cases "map_of (rbPools rb) k")
  case None
  then have "k \<notin> fst ` set (rbPools rb)" by (simp add: map_of_eq_None_iff)
  then show ?thesis using None rebuild_okD(3)[OF rb] by (auto simp: freeAt_def)
next
  case (Some p)
  then have kp: "(k, p) \<in> set (rbPools rb)" by (rule map_of_SomeD)
  then have "k \<in> fst ` set (rbPools rb)" by force
  then show ?thesis using Some rebuild_okD(4)[OF rb kp] rebuild_okD(3)[OF rb] by (auto simp: freeAt_def)
qed

lemma reindex_keys:
  "fst ` set (snd (reindex_actions m ps a2w now acts)) \<subseteq> fst ` set acts"
proof (induction acts)
  case (Cons x acts)
  obtain queues rest where "reindex_actions m ps a2w now acts = (queues, rest)" by fastforce
  then show ?case using Cons by (cases x) (auto simp: Let_def split: prod.splits; force)
qed simp

lemma reindex_distinct:
  "distinct_keys acts \<Longrightarrow> distinct_keys (snd (reindex_actions m ps a2w now acts))"
proof (induction acts)
  case (Cons x acts)
  obtain queues rest where r: "reindex_actions m ps a2w now acts = (queues, rest)" by fastforce
  then have "fst ` set rest \<subseteq> fst ` set acts" using reindex_keys[of m ps a2w now acts] by simp
  then show ?case using Cons r by (cases x) (auto simp: Let_def split: prod.splits; force)
qed simp

text \<open>
  Applying a cycle: the pools are rebuilt from the availability read, less the unacked slots and
  the slots acked since the counter was reset; the parked batches then assign from the new pools.
  \<open>s1\<close> is the state before those retries.
\<close>

definition poolsRead :: "(poolKey \<times> int) list \<Rightarrow> scheduler \<Rightarrow> poolKey \<Rightarrow> nat" where
  "poolsRead available s k =
     available_count (mapCount available k) (int (countAt (mem s) k (slotsOf (unackedSlots s)))) (ackedAt s k)"

lemma replenish_apply_ok:
  assumes inv: "sched_inv s" and conf: "distinct configured"
  shows "\<exists>queues s1 s'.
    replenish_apply a2w configured available now clock s = Some (queues, s') \<and> grants s1 s' \<and> sched_inv s1 \<and>
    unackedSlots s1 = unackedSlots s \<and> assignedCount s1 = assignedCount s \<and> workers s1 = workers s \<and>
    \<not> replenishing s1 \<and> ackedDuringReplenish s1 = None \<and>
    (\<forall>sl\<in>set (slotsOf (unackedSlots s)). slotKey (mem s1) sl = slotKey (mem s) sl) \<and>
    (\<forall>k. freeAt (mem s1) (pools s1) k =
       (if (k \<in> set configured \<or> k \<in> slotKey (mem s) ` set (slotsOf (unackedSlots s))) \<and>
           map_of (workers s) (fst k) \<noteq> None
        then poolsRead available s k else 0))"
proof -
  obtain byPool keys where cu: "collect_unacked (mem s) (unackedSlots s) ([], configured) = (byPool, keys)"
    by fastforce
  have spec: "mapList byPool k = filter (\<lambda>sl. slotKey (mem s) sl = k) (slotsOf (unackedSlots s))"
    "set keys = set configured \<union> slotKey (mem s) ` set (slotsOf (unackedSlots s))" "distinct keys" for k
    using collect_unacked_spec[of "([], configured)" "mem s" "unackedSlots s" k] conf cu by (auto simp: mapList_def)
  have n: "poolsRead available s k = available_count (mapCount available k) (int (length (mapList byPool k))) (ackedAt s k)" for k
    by (simp add: spec(1) poolsRead_def countAt_def)
  define rb where "rb = build_pools s byPool available (now + defaultSlotExpiry) keys
                 \<lparr>rbMem = mem s, rbPools = [], rbByWorker = []\<rparr>"
  have rb: "rebuild_ok s (poolsRead available s) (set keys) rb"
    using build_pools_ok[OF inv spec(1) n rebuild_start[OF inv] spec(3), of "now + defaultSlotExpiry"]
    unfolding rb_def by simp
  let ?s1 = "markWorkerCapacityUpdated
                 (s\<lparr>mem := rbMem rb, pools := rbPools rb, poolsByWorker := rbByWorker rb\<rparr>)"
  obtain queues acts where ra: "reindex_actions (mem ?s1) (poolsByWorker ?s1) a2w now (actions ?s1) = (queues, acts)"
    by fastforce
  have acts: "distinct_keys acts"
    using reindex_distinct[of "actions ?s1" "mem ?s1" "poolsByWorker ?s1" a2w now] ra sched_invD(6)[OF inv]
    by (simp add: markWorkerCapacityUpdated_def)
  have m: "mem_ok (rbMem rb) (rbPools rb) (set (slotsOf (unackedSlots s)))"
    by (rule rebuild_mem_ok[OF inv rb]) (use spec(2) in simp)
  have inv1: "sched_inv (?s1\<lparr>actions := acts\<rparr>)"
    using inv m acts rebuild_okD(9)[OF rb] unfolding sched_inv_def
    by (simp add: markWorkerCapacityUpdated_def)
  define s1 where "s1 = ?s1\<lparr>actions := acts\<rparr>\<lparr>replenishing := False, ackedDuringReplenish := None, afterReplenish := []\<rparr>"
  obtain s' where s': "endReplenishCycle clock (?s1\<lparr>actions := acts\<rparr>) = Some s'" "grants s1 s'"
    using endReplenishCycle_ok[OF inv1] unfolding s1_def by blast
  have sel: "mem s1 = rbMem rb" "pools s1 = rbPools rb" "unackedSlots s1 = unackedSlots s" "workers s1 = workers s"
    "\<not> replenishing s1" "assignedCount s1 = assignedCount s" "ackedDuringReplenish s1 = None"
    by (simp_all add: s1_def markWorkerCapacityUpdated_def)
  have "replenish_apply a2w configured available now clock s = Some (queues, s')"
    unfolding replenish_apply_def cu Let_def prod.case rb_def[symmetric] ra s'(1) by simp
  moreover have "sched_inv s1" using inv1 unfolding s1_def sched_inv_def by simp
  moreover have "freeAt (mem s1) (pools s1) k =
       (if (k \<in> set configured \<or> k \<in> slotKey (mem s) ` set (slotsOf (unackedSlots s))) \<and>
           map_of (workers s) (fst k) \<noteq> None then poolsRead available s k else 0)" for k
    unfolding sel rebuild_free[OF rb] spec(2) by simp
  moreover have "\<forall>sl\<in>set (slotsOf (unackedSlots s)). slotKey (mem s1) sl = slotKey (mem s) sl"
    unfolding sel using rebuild_okD(7)[OF rb] by blast
  ultimately show ?thesis using s'(2) sel by blast
qed

end
