(* ===== verification/Cluster.thy ===== *)
theory Cluster
  imports Scheduler_Replenish
begin

text \<open>
  The scheduler together with the database it assigns against. The database is an environment: for
  each worker and slot type it holds the number of slots of committed tasks (\<open>clUsed\<close>), and it knows
  which unacked assignments have been committed (\<open>clFlushed\<close>). Every step is one op of the run loop
  or one action of the database, in any order the callers of the scheduler allow:
  an assignment is acked after it is committed and nacked only when it is not (\<open>flushToDatabase\<close>
  of \<open>queuer.go\<close>), tasks finish at any time, and a replenish cycle interleaves its reads with all of
  this. The availability read returns at most what is configured less what committed tasks hold
  (the query \<open>ListAvailableSlotsForWorkersAndTypes\<close>).

  Optimistic scheduling (\<open>flushToDatabaseOptimistic\<close>) acks inside a transaction that commits
  later; those steps are in the relation when its first argument is true.
\<close>

section \<open>Model\<close>

record cluster =
  clSched :: scheduler
  clUsed :: "poolKey \<Rightarrow> nat"
  clFlushed :: "int set"
  clRead :: "(poolKey list \<times> (poolKey \<times> int) list) option"
  clOpenTx :: "poolKey \<Rightarrow> nat"

definition unflushedAt :: "cluster \<Rightarrow> poolKey \<Rightarrow> nat" where
  "unflushedAt c k =
     countAt (mem (clSched c)) k (slotsOf (filter (\<lambda>(i, _). i \<notin> clFlushed c) (unackedSlots (clSched c))))"

definition flushedAt :: "cluster \<Rightarrow> poolKey \<Rightarrow> nat" where
  "flushedAt c k =
     countAt (mem (clSched c)) k (slotsOf (filter (\<lambda>(i, _). i \<in> clFlushed c) (unackedSlots (clSched c))))"

definition cl_free :: "cluster \<Rightarrow> poolKey \<Rightarrow> nat" where
  "cl_free c k = freeAt (mem (clSched c)) (pools (clSched c)) k"

definition cl_start :: "(poolKey \<Rightarrow> nat) \<Rightarrow> cluster" where
  "cl_start used = \<lparr>clSched = newScheduler, clUsed = used, clFlushed = {}, clRead = None, clOpenTx = (\<lambda>_. 0)\<rparr>"

inductive cl_step :: "bool \<Rightarrow> (poolKey \<Rightarrow> nat) \<Rightarrow> cluster \<Rightarrow> cluster \<Rightarrow> bool" for optimistic maxUnits where
  submit: "batches (clSched c) i = None \<Longrightarrow> batch_ok b \<Longrightarrow>
     cl_step optimistic maxUnits c (c\<lparr>clSched := (clSched c)\<lparr>batches := (batches (clSched c))(i \<mapsto> b)\<rparr>\<rparr>)"
| assign: "attempt i False now (clSched c) = Some s \<Longrightarrow> cl_step optimistic maxUnits c (c\<lparr>clSched := s\<rparr>)"
| assign_one: "tryAssignBatchQueueItem ctxErr running now item labels (clSched c) = Some (r, s) \<Longrightarrow>
     cl_step optimistic maxUnits c (c\<lparr>clSched := s\<rparr>)"
| timeout: "cl_step optimistic maxUnits c (c\<lparr>clSched := finishBatch i ''timeout'' (clSched c)\<rparr>)"
| commit: "map_of (unackedSlots (clSched c)) i = Some a \<Longrightarrow> i \<notin> clFlushed c \<Longrightarrow>
     cl_step optimistic maxUnits c (c\<lparr>clUsed := (\<lambda>k. clUsed c k + countAt (mem (clSched c)) k (asSlots a)),
                       clFlushed := insert i (clFlushed c)\<rparr>)"
| ack: "\<forall>i\<in>set ids. map_of (unackedSlots (clSched c)) i \<noteq> None \<longrightarrow> i \<in> clFlushed c \<Longrightarrow>
     handleAck ids (clSched c) = Some (callbacks, s) \<Longrightarrow> cl_step optimistic maxUnits c (c\<lparr>clSched := s\<rparr>)"
| nack: "\<forall>i\<in>set ids. i \<notin> clFlushed c \<Longrightarrow> handleNack ids (clSched c) = (callbacks, s) \<Longrightarrow>
     cl_step optimistic maxUnits c (c\<lparr>clSched := s\<rparr>)"
| finish: "\<forall>k. used k \<le> clUsed c k \<Longrightarrow> cl_step optimistic maxUnits c (c\<lparr>clUsed := used\<rparr>)"
| set_workers: "cl_step optimistic maxUnits c (c\<lparr>clSched := setWorkers ws (clSched c)\<rparr>)"
| add_worker: "cl_step optimistic maxUnits c (c\<lparr>clSched := addWorker w (clSched c)\<rparr>)"
| remove_worker: "cl_step optimistic maxUnits c (c\<lparr>clSched := removeWorker wid (clSched c)\<rparr>)"
| begin_cycle: "replenish_begin (clSched c) = (Some wids, s) \<Longrightarrow> cl_step optimistic maxUnits c (c\<lparr>clSched := s\<rparr>)"
| scan: "replenishing (clSched c) \<Longrightarrow>
     cl_step optimistic maxUnits c (c\<lparr>clSched := snd (replenish_scan must now a2w (clSched c))\<rparr>)"
| reset_acks: "replenishing (clSched c) \<Longrightarrow> clRead c = None \<Longrightarrow>
     cl_step optimistic maxUnits c (c\<lparr>clSched := replenish_resetAcks (clSched c)\<rparr>)"
| read_available: "replenishing (clSched c) \<Longrightarrow> clRead c = None \<Longrightarrow>
     \<forall>(k, n)\<in>set rows. n \<le> int (maxUnits k) - int (clUsed c k) \<Longrightarrow>
     cl_step optimistic maxUnits c (c\<lparr>clRead := Some (config, rows)\<rparr>)"
| apply_cycle: "clRead c = Some (config, rows) \<Longrightarrow>
     replenish_apply a2w (configured_pools config) (available_by_pool rows) now clock (clSched c) = Some (queues, s) \<Longrightarrow>
     cl_step optimistic maxUnits c (c\<lparr>clSched := s, clRead := None\<rparr>)"
| abort_cycle: "replenishing (clSched c) \<Longrightarrow> endReplenishCycle clock (clSched c) = Some s \<Longrightarrow>
     cl_step optimistic maxUnits c (c\<lparr>clSched := s, clRead := None\<rparr>)"
| ack_in_tx: "optimistic \<Longrightarrow> map_of (unackedSlots (clSched c)) i = Some a \<Longrightarrow> i \<notin> clFlushed c \<Longrightarrow>
     handleAck [i] (clSched c) = Some (callbacks, s) \<Longrightarrow>
     cl_step optimistic maxUnits c
       (c\<lparr>clSched := s, clOpenTx := (\<lambda>k. clOpenTx c k + countAt (mem (clSched c)) k (asSlots a))\<rparr>)"
| commit_tx: "optimistic \<Longrightarrow>
     cl_step optimistic maxUnits c (c\<lparr>clUsed := (\<lambda>k. clUsed c k + clOpenTx c k), clOpenTx := (\<lambda>_. 0)\<rparr>)"

inductive cl_reach :: "bool \<Rightarrow> (poolKey \<Rightarrow> nat) \<Rightarrow> cluster \<Rightarrow> bool" for optimistic maxUnits where
  start: "\<forall>k. used k \<le> maxUnits k \<Longrightarrow> cl_reach optimistic maxUnits (cl_start used)"
| step: "cl_reach optimistic maxUnits c \<Longrightarrow> cl_step optimistic maxUnits c c' \<Longrightarrow> cl_reach optimistic maxUnits c'"

section \<open>Invariant\<close>

text \<open>
  Committed, assigned and free slots together never exceed the configured ones. A read in flight may
  be outdated, but only by assignments committed since, and those are still unacked or counted.
\<close>

definition cl_inv :: "(poolKey \<Rightarrow> nat) \<Rightarrow> cluster \<Rightarrow> bool" where
  "cl_inv maxUnits c \<longleftrightarrow>
     sched_inv (clSched c) \<and> (\<forall>i\<in>clFlushed c. i \<le> assignedCount (clSched c)) \<and>
     (\<forall>k. clUsed c k + unflushedAt c k + cl_free c k \<le> maxUnits k) \<and>
     (\<forall>k. 0 \<le> ackedAt (clSched c) k) \<and>
     (\<forall>config rows. clRead c = Some (config, rows) \<longrightarrow>
        replenishing (clSched c) \<and>
        (\<forall>k. mapCount (available_by_pool rows) k \<le> 0 \<or>
           int (clUsed c k) + mapCount (available_by_pool rows) k \<le>
             int (maxUnits k) + int (flushedAt c k) + ackedAt (clSched c) k))"

lemma cl_invI:
  assumes "sched_inv (clSched c)" "\<And>i. i \<in> clFlushed c \<Longrightarrow> i \<le> assignedCount (clSched c)"
    and "\<And>k. clUsed c k + unflushedAt c k + cl_free c k \<le> maxUnits k"
    and "\<And>config rows. clRead c = Some (config, rows) \<Longrightarrow> replenishing (clSched c)"
    and "\<And>config rows k. clRead c = Some (config, rows) \<Longrightarrow> 0 < mapCount (available_by_pool rows) k \<Longrightarrow>
      int (clUsed c k) + mapCount (available_by_pool rows) k \<le> int (maxUnits k) + int (flushedAt c k) + ackedAt (clSched c) k"
    and "\<And>k. 0 \<le> ackedAt (clSched c) k"
  shows "cl_inv maxUnits c"
  unfolding cl_inv_def using assms by (meson not_le)

lemma cl_invD:
  assumes "cl_inv maxUnits c"
  shows "sched_inv (clSched c)" "i \<in> clFlushed c \<Longrightarrow> i \<le> assignedCount (clSched c)"
    "clUsed c k + unflushedAt c k + cl_free c k \<le> maxUnits k"
    "clRead c = Some (config, rows) \<Longrightarrow> replenishing (clSched c)"
    "clRead c = Some (config, rows) \<Longrightarrow> 0 < mapCount (available_by_pool rows) k \<Longrightarrow>
      int (clUsed c k) + mapCount (available_by_pool rows) k \<le> int (maxUnits k) + int (flushedAt c k) + ackedAt (clSched c) k"
    "0 \<le> ackedAt (clSched c) k"
  using assms unfolding cl_inv_def by (blast, blast, blast, blast, metis not_le, blast)

lemma cl_start_inv:
  assumes "\<forall>k. used k \<le> maxUnits k"
  shows "cl_inv maxUnits (cl_start used)"
  using assms newScheduler_inv
  by (intro cl_invI) (auto simp: cl_start_def ackedAt_def unflushedAt_def cl_free_def freeAt_def newScheduler_def)

text \<open>A step that only changes parts of the scheduler the invariant does not count.\<close>

lemma cl_inv_frame:
  assumes inv: "cl_inv maxUnits c" and s: "sched_inv s" "mem s = mem (clSched c)" "unackedSlots s = unackedSlots (clSched c)"
    and more: "assignedCount (clSched c) \<le> assignedCount s" "\<And>k. freeAt (mem s) (pools s) k \<le> cl_free c k"
    and ac: "\<And>k. 0 \<le> ackedAt s k"
    and rep: "clRead c \<noteq> None \<Longrightarrow> replenishing s = replenishing (clSched c) \<and> ackedDuringReplenish s = ackedDuringReplenish (clSched c)"
  shows "cl_inv maxUnits (c\<lparr>clSched := s\<rparr>)"
proof (rule cl_invI)
  let ?c = "c\<lparr>clSched := s\<rparr>"
  have u: "unflushedAt ?c k = unflushedAt c k" "flushedAt ?c k = flushedAt c k" for k
    using s by (simp_all add: unflushedAt_def flushedAt_def)
  show "clUsed ?c k + unflushedAt ?c k + cl_free ?c k \<le> maxUnits k" for k
    using cl_invD(3)[OF inv, of k] more(2)[of k] unfolding u by (simp add: cl_free_def)
  show "i \<le> assignedCount (clSched ?c)" if "i \<in> clFlushed ?c" for i
    using cl_invD(2)[OF inv, of i] that more(1) by simp
  show "int (clUsed ?c k) + mapCount (available_by_pool rows) k \<le>
      int (maxUnits k) + int (flushedAt ?c k) + ackedAt (clSched ?c) k"
    if "clRead ?c = Some (config, rows)" "0 < mapCount (available_by_pool rows) k" for config rows k
    using cl_invD(5)[OF inv, of config rows k] that rep unfolding u by (simp add: ackedAt_def)
qed (use s cl_invD(4)[OF inv] rep ac in auto)

text \<open>A step that assigns: what leaves the freelists is assigned and not committed yet.\<close>

lemma cl_inv_grants:
  assumes inv: "cl_inv maxUnits c" and g: "grants (clSched c) s"
  shows "cl_inv maxUnits (c\<lparr>clSched := s\<rparr>)"
proof -
  let ?c = "c\<lparr>clSched := s\<rparr>"
  obtain new where new: "unackedSlots s = unackedSlots (clSched c) @ new"
    "\<And>i. i \<in> fst ` set new \<Longrightarrow> assignedCount (clSched c) < i"
    "\<And>k. freeAt (mem s) (pools (clSched c)) k + countAt (mem (clSched c)) k (slotsOf new) =
          freeAt (mem (clSched c)) (pools (clSched c)) k"
    using grants_new[OF g] by blast
  have "i \<notin> clFlushed c" if "i \<in> fst ` set new" for i
    using new(2)[OF that] cl_invD(2)[OF inv, of i] by auto
  then have f: "filter (\<lambda>(i, _). i \<notin> clFlushed c) new = new" "filter (\<lambda>(i, _). i \<in> clFlushed c) new = []"
    by (auto simp: filter_id_conv filter_empty_conv; force)+
  note lay = same_layoutD(2)[OF grantsD(7)[OF g]]
  have u: "unflushedAt ?c k = unflushedAt c k + countAt (mem (clSched c)) k (slotsOf new)"
    "flushedAt ?c k = flushedAt c k" for k
    by (simp_all add: unflushedAt_def flushedAt_def new(1) f lay)
  show ?thesis
  proof (rule cl_invI)
    show "clUsed ?c k + unflushedAt ?c k + cl_free ?c k \<le> maxUnits k" for k
      using cl_invD(3)[OF inv, of k] new(3)[of k] grantsD(2)[OF g] unfolding u by (simp add: cl_free_def)
    show "i \<le> assignedCount (clSched ?c)" if "i \<in> clFlushed ?c" for i
      using cl_invD(2)[OF inv, of i] that grantsD(9)[OF g] by simp
    show "int (clUsed ?c k) + mapCount (available_by_pool rows) k \<le>
        int (maxUnits k) + int (flushedAt ?c k) + ackedAt (clSched ?c) k"
      if "clRead ?c = Some (config, rows)" "0 < mapCount (available_by_pool rows) k" for config rows k
      using cl_invD(5)[OF inv, of config rows k] that grantsD(6)[OF g] unfolding u by (simp add: ackedAt_def)
  qed (use grantsD[OF g] cl_invD(4,6)[OF inv] in \<open>auto simp: ackedAt_def\<close>)
qed

lemma filter_insert_id:
  assumes "distinct_keys us" "map_of us i = Some a" "i \<notin> F"
  shows "countAt m k (slotsOf (filter (\<lambda>(j, _). j \<notin> F) us)) =
      countAt m k (slotsOf (filter (\<lambda>(j, _). j \<notin> insert i F) us)) + countAt m k (asSlots a)"
    "countAt m k (slotsOf (filter (\<lambda>(j, _). j \<in> insert i F) us)) =
      countAt m k (slotsOf (filter (\<lambda>(j, _). j \<in> F) us)) + countAt m k (asSlots a)"
proof -
  let ?u = "filter (\<lambda>(j, _). j \<notin> F) us"
  let ?v = "filter (\<lambda>(j, _). j \<in> insert i F) us"
  have e: "filter (\<lambda>(j, _). j = i) ?u = filter (\<lambda>(j, _). j = i) us"
    "filter (\<lambda>(j, _). j \<noteq> i) ?u = filter (\<lambda>(j, _). j \<notin> insert i F) us"
    "filter (\<lambda>(j, _). j = i) ?v = filter (\<lambda>(j, _). j = i) us"
    "filter (\<lambda>(j, _). j \<noteq> i) ?v = filter (\<lambda>(j, _). j \<in> F) us"
    unfolding filter_filter using assms(3) by (intro filter_cong refl; auto)+
  show "countAt m k (slotsOf ?u) =
      countAt m k (slotsOf (filter (\<lambda>(j, _). j \<notin> insert i F) us)) + countAt m k (asSlots a)"
    using countAt_filter_split[of m k ?u "\<lambda>j. j = i"] filter_entry[OF assms(1,2)] unfolding e by simp
  show "countAt m k (slotsOf ?v) =
      countAt m k (slotsOf (filter (\<lambda>(j, _). j \<in> F) us)) + countAt m k (asSlots a)"
    using countAt_filter_split[of m k ?v "\<lambda>j. j = i"] filter_entry[OF assms(1,2)] unfolding e by simp
qed

lemma cl_inv_commit:
  assumes inv: "cl_inv maxUnits c" and a: "map_of (unackedSlots (clSched c)) i = Some a" "i \<notin> clFlushed c"
  shows "cl_inv maxUnits (c\<lparr>clUsed := (\<lambda>k. clUsed c k + countAt (mem (clSched c)) k (asSlots a)),
                       clFlushed := insert i (clFlushed c)\<rparr>)" (is "cl_inv maxUnits ?c")
proof (rule cl_invI)
  note sinv = cl_invD(1)[OF inv]
  note f = filter_insert_id[OF sched_invD(3)[OF sinv] a]
  have u: "unflushedAt c k = unflushedAt ?c k + countAt (mem (clSched c)) k (asSlots a)"
    "flushedAt ?c k = flushedAt c k + countAt (mem (clSched c)) k (asSlots a)" for k
    using f[of "mem (clSched c)" k] by (simp_all add: unflushedAt_def flushedAt_def)
  show "clUsed ?c k + unflushedAt ?c k + cl_free ?c k \<le> maxUnits k" for k
    using cl_invD(3)[OF inv, of k] u(1)[of k] by (simp add: cl_free_def)
  show "int (clUsed ?c k) + mapCount (available_by_pool rows) k \<le>
      int (maxUnits k) + int (flushedAt ?c k) + ackedAt (clSched ?c) k"
    if "clRead ?c = Some (config, rows)" "0 < mapCount (available_by_pool rows) k" for config rows k
    using cl_invD(5)[OF inv, of config rows k] that u(2)[of k] by simp
  show "j \<le> assignedCount (clSched ?c)" if "j \<in> clFlushed ?c" for j
    using that cl_invD(2)[OF inv] sched_invD(4)[OF sinv, of i] a(1) by (force dest: map_of_SomeD)
qed (use cl_invD(1,4,6)[OF inv] in auto)

lemma filter_swap: "filter P (filter Q xs) = filter Q (filter P xs)"
  unfolding filter_filter by (rule filter_cong) auto

lemma cl_inv_ack:
  assumes inv: "cl_inv maxUnits c" and ids: "\<forall>i\<in>set ids. map_of (unackedSlots (clSched c)) i \<noteq> None \<longrightarrow> i \<in> clFlushed c"
    and ack: "handleAck ids (clSched c) = Some (callbacks, s)"
  shows "cl_inv maxUnits (c\<lparr>clSched := s\<rparr>)" (is "cl_inv maxUnits ?c")
proof -
  let ?us = "unackedSlots (clSched c)" and ?m = "mem (clSched c)"
  obtain ac where s: "s = (clSched c)\<lparr>unackedSlots := filter (\<lambda>(i, _). i \<notin> set ids) ?us, ackedDuringReplenish := ac\<rparr>"
    and acked: "replenishing (clSched c) \<Longrightarrow> ackedAt s k = ackedAt (clSched c) k +
        int (countAt ?m k (slotsOf (filter (\<lambda>(i, _). i \<in> set ids) ?us)))"
    and same_acked: "\<not> replenishing (clSched c) \<Longrightarrow> ackedDuringReplenish s = ackedDuringReplenish (clSched c)"
    and sinv: "sched_inv s" for k
    using handleAck_ok[OF cl_invD(1)[OF inv], of ids] ack by (auto simp: ackedAt_def)
  have fl: "i \<in> clFlushed c" if "(i, a) \<in> set ?us" "i \<in> set ids" for i a
    using ids that weak_map_of_SomeI[OF that(1)] by auto
  have "filter (\<lambda>(i, _). i \<notin> clFlushed c) (filter (\<lambda>(i, _). i \<notin> set ids) ?us) = filter (\<lambda>(i, _). i \<notin> clFlushed c) ?us"
    unfolding filter_filter using fl by (intro filter_cong refl) auto
  then have u: "unflushedAt ?c k = unflushedAt c k" for k by (simp add: unflushedAt_def s)
  have "filter (\<lambda>(i, _). i \<in> set ids) (filter (\<lambda>(i, _). i \<in> clFlushed c) ?us) = filter (\<lambda>(i, _). i \<in> set ids) ?us"
    "filter (\<lambda>(i, _). i \<notin> set ids) (filter (\<lambda>(i, _). i \<in> clFlushed c) ?us) =
      filter (\<lambda>(i, _). i \<in> clFlushed c) (filter (\<lambda>(i, _). i \<notin> set ids) ?us)"
    unfolding filter_filter using fl by (intro filter_cong refl; auto)+
  then have v: "flushedAt c k = flushedAt ?c k + countAt ?m k (slotsOf (filter (\<lambda>(i, _). i \<in> set ids) ?us))" for k
    using countAt_filter_split[of ?m k "filter (\<lambda>(i, _). i \<in> clFlushed c) ?us" "\<lambda>i. i \<in> set ids"]
    by (simp add: flushedAt_def s)
  show ?thesis
  proof (rule cl_invI)
    show "clUsed ?c k + unflushedAt ?c k + cl_free ?c k \<le> maxUnits k" for k
      using cl_invD(3)[OF inv, of k] unfolding u by (simp add: cl_free_def s)
    show "int (clUsed ?c k) + mapCount (available_by_pool rows) k \<le>
        int (maxUnits k) + int (flushedAt ?c k) + ackedAt (clSched ?c) k"
      if "clRead ?c = Some (config, rows)" "0 < mapCount (available_by_pool rows) k" for config rows k
      using cl_invD(5)[OF inv, of config rows k] cl_invD(4)[OF inv, of config rows] that v[of k] acked[of k] by simp
    show "0 \<le> ackedAt (clSched ?c) k" for k
      using cl_invD(6)[OF inv, of k] acked[of k] same_acked by (cases "replenishing (clSched c)") (auto simp: ackedAt_def)
  qed (use sinv cl_invD(2,4)[OF inv] in \<open>auto simp: s\<close>)
qed

lemma cl_inv_nack:
  assumes inv: "cl_inv maxUnits c" and ids: "\<forall>i\<in>set ids. i \<notin> clFlushed c"
    and nack: "handleNack ids (clSched c) = (callbacks, s)"
  shows "cl_inv maxUnits (c\<lparr>clSched := s\<rparr>)" (is "cl_inv maxUnits ?c")
proof -
  let ?us = "unackedSlots (clSched c)" and ?m = "mem (clSched c)" and ?ps = "pools (clSched c)"
  let ?gone = "slotsOf (filter (\<lambda>(i, _). i \<in> set ids) ?us)"
  obtain m' where s: "s = (clSched c)\<lparr>unackedSlots := filter (\<lambda>(i, _). i \<notin> set ids) ?us, mem := m'\<rparr>"
    and lay: "same_layout ?m m'" and free: "\<And>k. freeAt m' ?ps k = freeAt ?m ?ps k + liveAt ?m ?ps k ?gone"
    and sinv: "sched_inv s"
    using handleNack_ok[OF cl_invD(1)[OF inv], of ids] nack by auto
  have "filter (\<lambda>(i, _). i \<in> clFlushed c) (filter (\<lambda>(i, _). i \<notin> set ids) ?us) = filter (\<lambda>(i, _). i \<in> clFlushed c) ?us"
    unfolding filter_filter using ids by (intro filter_cong refl) auto
  then have v: "flushedAt ?c k = flushedAt c k" for k by (simp add: flushedAt_def s same_layoutD(2)[OF lay])
  have "filter (\<lambda>(i, _). i \<in> set ids) (filter (\<lambda>(i, _). i \<notin> clFlushed c) ?us) = filter (\<lambda>(i, _). i \<in> set ids) ?us"
    "filter (\<lambda>(i, _). i \<notin> set ids) (filter (\<lambda>(i, _). i \<notin> clFlushed c) ?us) =
      filter (\<lambda>(i, _). i \<notin> clFlushed c) (filter (\<lambda>(i, _). i \<notin> set ids) ?us)"
    unfolding filter_filter using ids by (intro filter_cong refl; auto)+
  then have u: "unflushedAt c k = unflushedAt ?c k + countAt ?m k ?gone" for k
    using countAt_filter_split[of ?m k "filter (\<lambda>(i, _). i \<notin> clFlushed c) ?us" "\<lambda>i. i \<in> set ids"]
    by (simp add: unflushedAt_def s same_layoutD(2)[OF lay])
  show ?thesis
  proof (rule cl_invI)
    show "clUsed ?c k + unflushedAt ?c k + cl_free ?c k \<le> maxUnits k" for k
      using cl_invD(3)[OF inv, of k] u[of k] free[of k] liveAt_le[of ?m ?ps k ?gone] by (simp add: cl_free_def s)
    show "int (clUsed ?c k) + mapCount (available_by_pool rows) k \<le>
        int (maxUnits k) + int (flushedAt ?c k) + ackedAt (clSched ?c) k"
      if "clRead ?c = Some (config, rows)" "0 < mapCount (available_by_pool rows) k" for config rows k
      using cl_invD(5)[OF inv, of config rows k] that unfolding v by (simp add: s ackedAt_def)
  qed (use sinv cl_invD(2,4,6)[OF inv] in \<open>auto simp: s ackedAt_def\<close>)
qed

lemma configured_pools_distinct: "distinct (configured_pools rows)"
proof -
  have "distinct ks \<Longrightarrow> distinct (foldl (\<lambda>ks k. add_key k ks) ks rows)" for ks
    by (induction rows arbitrary: ks) (auto simp: add_key_def)
  then show ?thesis by (simp add: configured_pools_def)
qed

lemma mapCount_available:
  "mapCount (available_by_pool rows) k = 0 \<or> (k, mapCount (available_by_pool rows) k) \<in> set rows"
proof -
  have "mapCount (foldl (\<lambda>m (k, n). AList.update k n m) m rows) k = mapCount m k \<or>
      (k, mapCount (foldl (\<lambda>m (k, n). AList.update k n m) m rows) k) \<in> set rows" for m
  proof (induction rows arbitrary: m)
    case (Cons x rows)
    obtain k' n where x: "x = (k', n)" by (cases x)
    then show ?case using Cons[of "AList.update k' n m"] by (cases "k = k'") (auto simp: mapCount_def)
  qed simp
  from this[of "[]"] show ?thesis by (simp add: available_by_pool_def mapCount_def)
qed

lemma countAt_cong:
  "(\<And>sl. sl \<in> set sls \<Longrightarrow> slotKey m' sl = slotKey m sl) \<Longrightarrow> countAt m' k sls = countAt m k sls"
  unfolding countAt_def by (rule arg_cong[where f = length], rule filter_cong) auto

text \<open>The rebuilt pools hold no slot that a committed or an assigned task has.\<close>

lemma cl_inv_apply:
  assumes inv: "cl_inv maxUnits c" and read: "clRead c = Some (config, rows)"
    and app: "replenish_apply a2w (configured_pools config) (available_by_pool rows) now clock (clSched c) = Some (queues, s)"
  shows "cl_inv maxUnits (c\<lparr>clSched := s, clRead := None\<rparr>)"
proof -
  let ?s = "clSched c"
  let ?us = "unackedSlots ?s"
  note sinv = cl_invD(1)[OF inv]
  obtain s1 where g: "grants s1 s" and inv1: "sched_inv s1" and un: "unackedSlots s1 = ?us"
    and cnt: "assignedCount s1 = assignedCount ?s"
    and key: "\<And>sl. sl \<in> set (slotsOf ?us) \<Longrightarrow> slotKey (mem s1) sl = slotKey (mem ?s) sl"
    and free: "\<And>k. freeAt (mem s1) (pools s1) k \<le> poolsRead (available_by_pool rows) ?s k"
    and ac: "ackedDuringReplenish s1 = None"
    using replenish_apply_ok[OF sinv configured_pools_distinct[of config], of a2w "available_by_pool rows" now clock] app
    by auto
  define c1 where "c1 = c\<lparr>clSched := s1, clRead := None\<rparr>"
  have sub: "countAt (mem s1) k (slotsOf (filter P ?us)) = countAt (mem ?s) k (slotsOf (filter P ?us))" for k P
    using key slotsOf_filter_subset[of P ?us] by (intro countAt_cong) auto
  have u: "unflushedAt c1 k = unflushedAt c k" for k
    by (simp add: unflushedAt_def c1_def un sub)
  have split: "countAt (mem ?s) k (slotsOf ?us) = flushedAt c k + unflushedAt c k" for k
    using countAt_filter_split[of "mem ?s" k ?us "\<lambda>i. i \<in> clFlushed c"] by (simp add: flushedAt_def unflushedAt_def)
  have inv_c1: "cl_inv maxUnits c1"
  proof (rule cl_invI)
    show "clUsed c1 k + unflushedAt c1 k + cl_free c1 k \<le> maxUnits k" for k
    proof (cases "poolsRead (available_by_pool rows) ?s k = 0")
      case True
      then show ?thesis using free[of k] cl_invD(3)[OF inv, of k] unfolding u by (simp add: c1_def cl_free_def)
    next
      case False
      let ?av = "mapCount (available_by_pool rows) k"
      have n: "int (poolsRead (available_by_pool rows) ?s k) = ?av - int (countAt (mem ?s) k (slotsOf ?us)) - ackedAt ?s k"
        using False by (auto simp: poolsRead_def available_count_def Let_def split: if_splits)
      have "0 < ?av" using n False cl_invD(6)[OF inv, of k] by linarith
      from cl_invD(5)[OF inv read this] show ?thesis
        using free[of k] n split[of k] unfolding u by (simp add: c1_def cl_free_def)
    qed
  qed (use inv1 cl_invD(2)[OF inv] cnt ac in \<open>auto simp: c1_def ackedAt_def\<close>)
  have "cl_inv maxUnits (c1\<lparr>clSched := s\<rparr>)" by (rule cl_inv_grants[OF inv_c1]) (simp add: c1_def g)
  moreover have "c1\<lparr>clSched := s\<rparr> = c\<lparr>clSched := s, clRead := None\<rparr>" by (cases c) (simp add: c1_def)
  ultimately show ?thesis by simp
qed

lemma sched_inv_submit:
  "sched_inv s \<Longrightarrow> batch_ok b \<Longrightarrow> sched_inv (s\<lparr>batches := (batches s)(i \<mapsto> b)\<rparr>)"
  unfolding sched_inv_def by auto

lemma cl_inv_abort:
  assumes inv: "cl_inv maxUnits c" and e: "endReplenishCycle clock (clSched c) = Some s"
  shows "cl_inv maxUnits (c\<lparr>clSched := s, clRead := None\<rparr>)"
proof -
  let ?s1 = "(clSched c)\<lparr>replenishing := False, ackedDuringReplenish := None, afterReplenish := []\<rparr>"
  have g: "grants ?s1 s" using endReplenishCycle_ok[OF cl_invD(1)[OF inv], of clock] e by auto
  have "cl_inv maxUnits (c\<lparr>clSched := ?s1, clRead := None\<rparr>)"
    by (rule cl_invI)
      (use cl_invD[OF inv] in \<open>auto simp: sched_inv_def unflushedAt_def cl_free_def ackedAt_def\<close>)
  from cl_inv_grants[OF this, of s] have "cl_inv maxUnits (c\<lparr>clSched := ?s1, clRead := None\<rparr>\<lparr>clSched := s\<rparr>)"
    using g by simp
  moreover have "c\<lparr>clSched := ?s1, clRead := None\<rparr>\<lparr>clSched := s\<rparr> = c\<lparr>clSched := s, clRead := None\<rparr>" by (cases c) simp
  ultimately show ?thesis by simp
qed

lemma cl_step_inv: "cl_step False maxUnits c c' \<Longrightarrow> cl_inv maxUnits c \<Longrightarrow> cl_inv maxUnits c'"
proof (induction rule: cl_step.induct)
  case (submit c i b)
  then show ?case
    by (intro cl_inv_frame sched_inv_submit cl_invD(1)) (auto simp: cl_free_def ackedAt_def cl_invD(6)[unfolded ackedAt_def])
next
  case (assign i now c s)
  then show ?case using attempt_ok[OF cl_invD(1)[OF assign(2)], of i False now] by (auto intro: cl_inv_grants)
next
  case (assign_one ctxErr running now item labels c r s)
  then show ?case
    using tryAssignBatchQueueItem_ok[OF cl_invD(1)[OF assign_one(2)], of ctxErr running now item labels]
    by (auto intro: cl_inv_grants)
next
  case (timeout c i)
  then show ?case by (intro cl_inv_grants finishBatch_grants grants_refl cl_invD(1))
next
  case (commit c i a)
  then show ?case by (intro cl_inv_commit)
next
  case (ack ids c callbacks s)
  then show ?case by (intro cl_inv_ack)
next
  case (nack ids c callbacks s)
  then show ?case by (intro cl_inv_nack)
next
  case (finish used c)
  have "cl_inv maxUnits (c\<lparr>clUsed := used\<rparr>)"
  proof (rule cl_invI)
    fix k
    show "clUsed (c\<lparr>clUsed := used\<rparr>) k + unflushedAt (c\<lparr>clUsed := used\<rparr>) k + cl_free (c\<lparr>clUsed := used\<rparr>) k \<le> maxUnits k"
      using cl_invD(3)[OF finish(2), of k] finish(1)[rule_format, of k] by (simp add: unflushedAt_def cl_free_def)
    fix config rows
    assume "clRead (c\<lparr>clUsed := used\<rparr>) = Some (config, rows)" "0 < mapCount (available_by_pool rows) k"
    then show "int (clUsed (c\<lparr>clUsed := used\<rparr>) k) + mapCount (available_by_pool rows) k \<le>
        int (maxUnits k) + int (flushedAt (c\<lparr>clUsed := used\<rparr>) k) + ackedAt (clSched (c\<lparr>clUsed := used\<rparr>)) k"
      using cl_invD(5)[OF finish(2), of config rows k] finish(1)[rule_format, of k] by (simp add: flushedAt_def)
  qed (use cl_invD[OF finish(2)] in auto)
  then show ?case .
next
  case (set_workers c ws)
  then show ?case
    by (intro cl_inv_frame) (auto simp: setWorkers_inv cl_invD(1), auto simp: setWorkers_def cl_free_def ackedAt_def cl_invD(6)[unfolded ackedAt_def])
next
  case (add_worker c w)
  then show ?case
    by (intro cl_inv_frame) (auto simp: addWorker_inv cl_invD(1), auto simp: addWorker_def cl_free_def ackedAt_def cl_invD(6)[unfolded ackedAt_def])
next
  case (remove_worker c wid)
  note r = removeWorker_ok[OF cl_invD(1)[OF remove_worker]]
  show ?case
  proof (rule cl_inv_frame[OF remove_worker r(1,3,4)])
    show "freeAt (mem (removeWorker wid (clSched c))) (pools (removeWorker wid (clSched c))) k \<le> cl_free c k" for k
      unfolding r(3) by (simp add: r(2) cl_free_def)
    show "0 \<le> ackedAt (removeWorker wid (clSched c)) k" for k
      using cl_invD(6)[OF remove_worker, of k] r(6) by (simp add: ackedAt_def)
  qed (simp_all add: r(5,6), simp add: removeWorker_def markWorkerCapacityUpdated_def)
next
  case (begin_cycle c wids s)
  then have nr: "\<not> replenishing (clSched c)" and s: "s = (clSched c)\<lparr>replenishing := True, ackedDuringReplenish := Some []\<rparr>"
    by (auto simp: replenish_begin_def split: if_splits)
  have none: "clRead c = None" using cl_invD(4)[OF begin_cycle(2)] nr by (cases "clRead c") auto
  have "sched_inv s" using replenish_begin_inv[OF cl_invD(1)[OF begin_cycle(2)]] begin_cycle(1) by simp
  then show ?case
    by (intro cl_inv_frame[OF begin_cycle(2)]) (auto simp: s none cl_free_def ackedAt_def mapCount_def)
next
  case (scan c must now a2w)
  note r = replenish_scan_ok[OF cl_invD(1)[OF scan(2)], of must now a2w]
  obtain acts where a: "snd (replenish_scan must now a2w (clSched c)) = (clSched c)\<lparr>actions := acts\<rparr>"
    using replenish_scan_eq[OF sched_invD(6)[OF cl_invD(1)[OF scan(2)]]] by blast
  show ?case
    by (rule cl_inv_frame[OF scan(2) r(1,2,4)])
      (use cl_invD(6)[OF scan(2)] in \<open>auto simp: a cl_free_def ackedAt_def\<close>)
next
  case (reset_acks c)
  then show ?case
    by (intro cl_inv_frame replenish_resetAcks_inv cl_invD(1))
      (auto simp: replenish_resetAcks_def cl_free_def ackedAt_def mapCount_def)
next
  case (read_available c rows config)
  have "cl_inv maxUnits (c\<lparr>clRead := Some (config, rows)\<rparr>)"
  proof (rule cl_invI)
    fix k config' rows'
    assume "clRead (c\<lparr>clRead := Some (config, rows)\<rparr>) = Some (config', rows')" and pos: "0 < mapCount (available_by_pool rows') k"
    then have "rows' = rows" by simp
    then have "(k, mapCount (available_by_pool rows') k) \<in> set rows" using mapCount_available[of rows k] pos by auto
    then show "int (clUsed (c\<lparr>clRead := Some (config, rows)\<rparr>) k) + mapCount (available_by_pool rows') k \<le>
        int (maxUnits k) + int (flushedAt (c\<lparr>clRead := Some (config, rows)\<rparr>) k) +
        ackedAt (clSched (c\<lparr>clRead := Some (config, rows)\<rparr>)) k"
      using read_available(3) cl_invD(6)[OF read_available(4), of k] by fastforce
  qed (use cl_invD[OF read_available(4)] read_available(1) in \<open>auto simp: unflushedAt_def cl_free_def\<close>)
  then show ?case .
next
  case (apply_cycle c config rows a2w now clock queues s)
  then show ?case by (intro cl_inv_apply)
next
  case (abort_cycle c clock s)
  then show ?case by (intro cl_inv_abort)
qed simp_all

lemma cl_reach_inv: "cl_reach False maxUnits c \<Longrightarrow> cl_inv maxUnits c"
  by (induction rule: cl_reach.induct) (auto intro: cl_start_inv cl_step_inv)

text \<open>The state of the scheduler stays well formed with and without optimistic scheduling.\<close>

lemma cl_step_sched_inv:
  "cl_step optimistic maxUnits c c' \<Longrightarrow> sched_inv (clSched c) \<Longrightarrow> sched_inv (clSched c')"
proof (induction rule: cl_step.induct)
  case (assign i now c s)
  then show ?case using attempt_ok[OF assign(2), of i False now] by (auto dest: grantsD(1))
next
  case (assign_one ctxErr running now item labels c r s)
  then show ?case
    using tryAssignBatchQueueItem_ok[OF assign_one(2), of ctxErr running now item labels] by (auto dest: grantsD(1))
next
  case (timeout c i)
  then show ?case using grantsD(1)[OF finishBatch_grants[OF grants_refl]] by simp
next
  case (ack ids c callbacks s)
  then show ?case using handleAck_ok[OF ack(3), of ids] by auto
next
  case (nack ids c callbacks s)
  then show ?case using handleNack_ok[OF nack(3), of ids] by auto
next
  case (begin_cycle c wids s)
  then show ?case using replenish_begin_inv[OF begin_cycle(2)] by simp
next
  case (apply_cycle c config rows a2w now clock queues s)
  then show ?case
    using replenish_apply_ok[OF apply_cycle(3) configured_pools_distinct, of a2w config "available_by_pool rows" now clock]
    by (auto dest: grantsD(1))
next
  case (abort_cycle c clock s)
  then show ?case using endReplenishCycle_ok[OF abort_cycle(3), of clock] by (auto dest: grantsD(1))
next
  case (ack_in_tx c i a callbacks s)
  then show ?case using handleAck_ok[OF ack_in_tx(5), of "[i]"] by auto
qed (auto simp: sched_inv_submit setWorkers_inv addWorker_inv removeWorker_ok(1) replenish_scan_ok(1) replenish_resetAcks_inv)

lemma cl_reach_sched_inv: "cl_reach optimistic maxUnits c \<Longrightarrow> sched_inv (clSched c)"
  by (induction rule: cl_reach.induct) (auto simp: cl_start_def newScheduler_inv intro: cl_step_sched_inv)

text \<open>Since no op panics, an op can be run from every reachable state.\<close>

lemma reach_assign:
  assumes "cl_reach optimistic maxUnits c"
  shows "cl_reach optimistic maxUnits (c\<lparr>clSched := the (attempt i False now (clSched c))\<rparr>)"
proof -
  obtain s where s: "attempt i False now (clSched c) = Some s"
    using attempt_ok[OF cl_reach_sched_inv[OF assms]] by blast
  show ?thesis using cl_reach.step[OF assms cl_step.assign[OF s]] s by simp
qed

lemma reach_apply:
  assumes "cl_reach optimistic maxUnits c" "clRead c = Some (config, rows)"
  shows "cl_reach optimistic maxUnits (c\<lparr>clSched := snd (the (replenish_apply a2w (configured_pools config)
    (available_by_pool rows) now clock (clSched c))), clRead := None\<rparr>)"
proof -
  obtain queues s where "replenish_apply a2w (configured_pools config) (available_by_pool rows) now clock (clSched c) = Some (queues, s)"
    using replenish_apply_ok[OF cl_reach_sched_inv[OF assms(1)] configured_pools_distinct] by blast
  note s = this
  show ?thesis using cl_reach.step[OF assms(1) cl_step.apply_cycle[OF assms(2) s]] s by simp
qed

lemma reach_begin:
  assumes "cl_reach optimistic maxUnits c" "\<not> replenishing (clSched c)"
  shows "cl_reach optimistic maxUnits (c\<lparr>clSched := snd (replenish_begin (clSched c))\<rparr>)"
proof -
  have b: "replenish_begin (clSched c) = (Some (map fst (workers (clSched c))), snd (replenish_begin (clSched c)))"
    using assms(2) by (simp add: replenish_begin_def)
  show ?thesis by (rule cl_reach.step[OF assms(1) cl_step.begin_cycle[OF b]])
qed

lemma reach_ack_in_tx:
  assumes "cl_reach True maxUnits c" "map_of (unackedSlots (clSched c)) i = Some a" "i \<notin> clFlushed c"
  shows "cl_reach True maxUnits (c\<lparr>clSched := snd (the (handleAck [i] (clSched c))),
    clOpenTx := (\<lambda>k. clOpenTx c k + countAt (mem (clSched c)) k (asSlots a))\<rparr>)"
proof -
  obtain cbs s where s: "handleAck [i] (clSched c) = Some (cbs, s)"
    using handleAck_ok[OF cl_reach_sched_inv[OF assms(1)]] by blast
  show ?thesis using cl_reach.step[OF assms(1) cl_step.ack_in_tx[OF TrueI assms(2,3) s]] s by simp
qed

section \<open>Properties\<close>

text \<open>
  A run with one worker that has one default slot, used by the witnesses: \<open>sys_sched old n used ack
  un epoch bs\<close> is the scheduler whose pool holds the slot \<open>n\<close>, after \<open>ack\<close> assignments.
\<close>

definition sys_key :: poolKey where
  "sys_key = (1, ''default'')"

definition sys_units :: "poolKey \<Rightarrow> nat" where
  "sys_units k = (if k = sys_key then 1 else 0)"

definition sys_mem :: "nat list \<Rightarrow> nat \<Rightarrow> bool \<Rightarrow> poolMem" where
  "sys_mem old n used = emptyMem\<lparr>slotAt := (\<lambda>sl.
       if sl = n then \<lparr>slotWorker = 1, slotPool = Some 0, slotType = ''default'', slotIdx = 0, slotUsed = used\<rparr>
       else if sl \<in> set old then \<lparr>slotWorker = 1, slotPool = Some 0, slotType = ''default'', slotIdx = 0, slotUsed = True\<rparr>
       else slotAt emptyMem sl),
     slotNext := Suc n,
     poolAt := (poolAt emptyMem)(0 := \<lparr>poolWorker = 1, poolSlotType = ''default'', poolExpiresAt = defaultSlotExpiry,
        poolSlots = [n], poolFree = (if used then [] else [0])\<rparr>), poolNext := 1\<rparr>"

definition sys_sched ::
  "nat list \<Rightarrow> nat \<Rightarrow> bool \<Rightarrow> int \<Rightarrow> (int \<times> assignedSlots) list \<Rightarrow> 64 word \<Rightarrow> (nat \<Rightarrow> assignBatch option) \<Rightarrow> scheduler" where
  "sys_sched old n used ack un epoch bs =
     newScheduler\<lparr>mem := sys_mem old n used,
       actions := [(''a'', \<lparr>lastReplenishedSlotCount = 1, lastReplenishedWorkerCount = 1, workerIds = [1],
                           ringOffset = ack, starved = []\<rparr>)],
       pools := [(sys_key, 0)], poolsByWorker := [(1, [(''default'', 0)])], workers := [(1, example_worker 1 0)],
       unackedSlots := un, assignedCount := ack, capacityEpoch := epoch, batches := bs\<rparr>"

definition sys_batch :: "int \<Rightarrow> assignBatch" where
  "sys_batch task = \<lparr>baActionId = ''a'', baRes = [newSingleResult (example_item task STICKY_NONE None)], baLabels = [],
     baRequests = [], baOverrides = [], baFinished = None\<rparr>"

definition sys_done :: "int \<Rightarrow> int \<Rightarrow> assignBatch" where
  "sys_done task ack = (sys_batch task)\<lparr>baRes := [(newSingleResult (example_item task STICKY_NONE None))
     \<lparr>arAckId := ack, arWorkerId := 1, arSucceeded := True\<rparr>], baFinished := Some ''first-attempt''\<rparr>"

definition sys_refilled :: "scheduler \<Rightarrow> scheduler" where
  "sys_refilled s =
     snd (the (replenish_apply [(''a'', [1])] (configured_pools [sys_key]) (available_by_pool [(sys_key, 1)]) 0
       (\<lambda>_. 0) (snd (replenish_scan True 0 [(''a'', [1])] (snd (replenish_begin s))))))"

lemmas sys_defs = sys_sched_def newScheduler_def addWorker_def sys_key_def sys_mem_def emptyMem_def example_worker_def
  mapCount_def typesOf_def setFree_def setUsed_def

lemmas sys_refill_defs = sys_refilled_def replenish_begin_def scan_one_def replenish_apply_def configured_pools_def
  add_key_def available_by_pool_def build_pool_def pool_for_def available_count_def mapList_def pool_reset_def
  markWorkerCapacityUpdated_def total_slots_def IsStarved_def endReplenishCycle_def newAction_def

lemmas sys_assign_defs = attempt_def handleAssignBatch_def assignSingleton_def rankedCandidates_def rotated_def
  selectSlotsFromPools_def requestsFor_def labelsFor_def finishBatch_def SlotTypeDefault_def freeCountAt_def staleAt_def
  defaultSlotExpiry_def example_item_def newSingleResult_def sys_batch_def sys_done_def batchHasMisses_def isMiss_def Let_def

lemma sys_first_refill:
  "sys_refilled (addWorker (example_worker 1 0) newScheduler) = sys_sched [] 0 False 0 [] 1 (\<lambda>_. None)"
  by (simp add: sys_refill_defs sys_defs) (auto simp: fun_eq_iff emptyMem_def)

lemma sys_second_refill: "sys_refilled (sys_sched [] 0 True 1 [] 1 bs) = sys_sched [0] 1 False 1 [] 2 bs"
  by (simp add: sys_refill_defs sys_defs) (auto simp: fun_eq_iff emptyMem_def)

lemma sys_attempt:
  "bs i = Some (sys_batch task) \<Longrightarrow>
   attempt i False 0 (sys_sched old n False ack un epoch bs) =
     Some (sys_sched old n True (ack + 1) (AList.update (ack + 1) \<lparr>asSlots = [n], asReservation = None\<rparr> un) epoch
       (bs(i \<mapsto> sys_done task (ack + 1))))"
  by (simp add: sys_defs sys_assign_defs) (auto simp: fun_eq_iff emptyMem_def)

lemma sys_sched_sel [simp]:
  "unackedSlots (sys_sched old n used ack un epoch bs) = un" "batches (sys_sched old n used ack un epoch bs) = bs"
  "\<not> replenishing (sys_sched old n used ack un epoch bs)" "mem (sys_sched old n used ack un epoch bs) = sys_mem old n used"
  "pools (sys_sched old n used ack un epoch bs) = [(sys_key, 0)]"
  "(sys_sched old n used ack un epoch bs)\<lparr>unackedSlots := un'\<rparr> = sys_sched old n used ack un' epoch bs"
  "ackedDuringReplenish (sys_sched old n used ack un epoch bs) = None"
  "(sys_sched old n used ack un epoch bs)\<lparr>ackedDuringReplenish := None\<rparr> = sys_sched old n used ack un epoch bs"
  by (simp_all add: sys_sched_def newScheduler_def)

lemma sys_mem_key: "sl = n \<or> sl \<in> set old \<Longrightarrow> slotKey (sys_mem old n used) sl = sys_key"
  by (auto simp: slotKey_def sys_mem_def sys_key_def)

lemma sys_refill_reach:
  assumes c: "cl_reach optimistic sys_units c" "\<not> replenishing (clSched c)" "clRead c = None" "clUsed c sys_key = 0"
  shows "cl_reach optimistic sys_units (c\<lparr>clSched := sys_refilled (clSched c)\<rparr>)"
proof -
  let ?s1 = "snd (replenish_begin (clSched c))"
  let ?s2 = "snd (replenish_scan True 0 [(''a'', [1])] ?s1)"
  have r1: "replenishing ?s1" using c(2) by (simp add: replenish_begin_def)
  have c1: "cl_reach optimistic sys_units (c\<lparr>clSched := ?s1\<rparr>)" by (rule reach_begin[OF c(1,2)])
  have c2: "cl_reach optimistic sys_units (c\<lparr>clSched := ?s2\<rparr>)"
    using cl_reach.step[OF c1 cl_step.scan[of "c\<lparr>clSched := ?s1\<rparr>" optimistic sys_units True 0 "[(''a'', [1])]"]] r1 by simp
  have "replenishing ?s2" using replenish_scan_ok(5)[OF cl_reach_sched_inv[OF c1]] r1 by simp
  then have c3: "cl_reach optimistic sys_units (c\<lparr>clSched := ?s2, clRead := Some ([sys_key], [(sys_key, 1)])\<rparr>)"
    using cl_reach.step[OF c2 cl_step.read_available[of "c\<lparr>clSched := ?s2\<rparr>" "[(sys_key, 1)]" sys_units optimistic "[sys_key]"]]
      c(3,4) by (simp add: sys_units_def)
  have e: "c\<lparr>clSched := s, clRead := None\<rparr> = c\<lparr>clSched := s\<rparr>" for s using c(3) by (cases c) simp
  show ?thesis using reach_apply[OF c3, of "[sys_key]" "[(sys_key, 1)]" "[(''a'', [1])]" 0 "\<lambda>_. 0"]
    by (simp add: sys_refilled_def e)
qed

lemma sys_assign_reach:
  assumes c: "cl_reach optimistic sys_units c" "clSched c = sys_sched old n False ack un epoch bs" "bs i = None"
  shows "cl_reach optimistic sys_units (c\<lparr>clSched := sys_sched old n True (ack + 1)
    (AList.update (ack + 1) \<lparr>asSlots = [n], asReservation = None\<rparr> un) epoch (bs(i \<mapsto> sys_done task (ack + 1)))\<rparr>)"
proof -
  have "batch_ok (sys_batch task)" by (simp add: batch_ok_def sys_batch_def)
  with c have "cl_reach optimistic sys_units (c\<lparr>clSched := (clSched c)\<lparr>batches := bs(i \<mapsto> sys_batch task)\<rparr>\<rparr>)"
    using cl_reach.step[OF c(1) cl_step.submit[of c i "sys_batch task" optimistic sys_units]] by simp
  moreover have "(clSched c)\<lparr>batches := bs(i \<mapsto> sys_batch task)\<rparr> = sys_sched old n False ack un epoch (bs(i \<mapsto> sys_batch task))"
    by (simp add: c(2) sys_sched_def)
  ultimately show ?thesis
    using reach_assign[of optimistic sys_units "c\<lparr>clSched := sys_sched old n False ack un epoch (bs(i \<mapsto> sys_batch task))\<rparr>" i 0]
    by (simp add: sys_attempt)
qed

definition sys_cluster :: "scheduler \<Rightarrow> cluster" where
  "sys_cluster s = (cl_start (\<lambda>_. 0))\<lparr>clSched := s\<rparr>"

lemma sys_cluster_sel [simp]:
  "clSched (sys_cluster s) = s" "(sys_cluster s)\<lparr>clSched := s'\<rparr> = sys_cluster s'" "clUsed (sys_cluster s) = (\<lambda>_. 0)"
  "clFlushed (sys_cluster s) = {}" "clRead (sys_cluster s) = None" "clOpenTx (sys_cluster s) = (\<lambda>_. 0)"
  by (simp_all add: sys_cluster_def cl_start_def)

definition sys_ready :: cluster where
  "sys_ready = sys_cluster (sys_sched [] 0 False 0 [] 1 (\<lambda>_. None))"

definition sys_one :: cluster where
  "sys_one = sys_cluster (sys_sched [] 0 True 1 [(1, \<lparr>asSlots = [0], asReservation = None\<rparr>)] 1 [0 \<mapsto> sys_done 0 1])"

lemma sys_ready_reach: "cl_reach optimistic sys_units sys_ready"
proof -
  let ?s = "addWorker (example_worker 1 0) newScheduler"
  have "cl_reach optimistic sys_units (cl_start (\<lambda>_. 0))" by (rule cl_reach.start) simp
  from cl_reach.step[OF this cl_step.add_worker] have "cl_reach optimistic sys_units (sys_cluster ?s)"
    by (simp add: sys_cluster_def cl_start_def)
  moreover have "\<not> replenishing ?s" by (simp add: addWorker_def newScheduler_def)
  ultimately show ?thesis
    using sys_refill_reach[of optimistic "sys_cluster ?s"] unfolding sys_cluster_sel sys_first_refill sys_ready_def by simp
qed

lemma sys_one_reach: "cl_reach optimistic sys_units sys_one"
  using sys_assign_reach[OF sys_ready_reach, where old = "[]" and n = 0 and ack = 0 and un = "[]" and epoch = 1 and
      bs = "\<lambda>_. None" and i = 0 and task = 0]
  by (simp add: sys_ready_def sys_one_def)

text \<open>
  C1. In every state the scheduler and its database can reach, for each worker and slot type, the
  slots of committed tasks, the slots of assignments that are not committed yet and the free slots
  of the pools together never exceed the slots the worker is configured with: no interleaving of
  assignments, acks, nacks, finishing tasks, worker changes and replenish cycles hands a slot out
  twice. The steps are those of the regular flush, which acks an assignment after it is committed.
\<close>

theorem no_overcommit:
  assumes "cl_reach False maxUnits c"
  shows "clUsed c k + unflushedAt c k + cl_free c k \<le> maxUnits k"
  by (rule cl_invD(3)[OF cl_reach_inv[OF assms]])

theorem no_overcommit_witness:
  "clUsed sys_one sys_key + unflushedAt sys_one sys_key + cl_free sys_one sys_key \<le> sys_units sys_key \<and>
   unflushedAt sys_one sys_key = 1"
proof
  show "clUsed sys_one sys_key + unflushedAt sys_one sys_key + cl_free sys_one sys_key \<le> sys_units sys_key"
    by (rule no_overcommit[OF sys_one_reach])
  show "unflushedAt sys_one sys_key = 1" by (simp add: unflushedAt_def sys_one_def sys_mem_key)
qed

text \<open>The optimistic run: an ack inside an open transaction, a replenish cycle, a second assignment.\<close>

definition sys_two :: cluster where
  "sys_two = (sys_cluster (sys_sched [0] 1 True 2 [(2, \<lparr>asSlots = [1], asReservation = None\<rparr>)] 2
     [0 \<mapsto> sys_done 0 1, 1 \<mapsto> sys_done 1 2]))\<lparr>clOpenTx := sys_units\<rparr>"

lemma sys_two_reach: "cl_reach True sys_units sys_two"
proof -
  let ?bs = "[0 \<mapsto> sys_done 0 1]"
  let ?tx = "\<lambda>s. (sys_cluster s)\<lparr>clOpenTx := sys_units\<rparr>"
  have "(\<lambda>k. countAt (mem (clSched sys_one)) k [0]) = sys_units"
    by (auto simp: fun_eq_iff sys_one_def sys_mem_key sys_units_def)
  moreover have "map_of (unackedSlots (clSched sys_one)) 1 = Some \<lparr>asSlots = [0], asReservation = None\<rparr>" "1 \<notin> clFlushed sys_one"
    by (simp_all add: sys_one_def)
  ultimately have tx: "cl_reach True sys_units (?tx (sys_sched [] 0 True 1 [] 1 ?bs))"
    using reach_ack_in_tx[OF sys_one_reach, of 1] by (simp add: sys_one_def)
  have sel: "clSched (?tx s) = s" "(?tx s)\<lparr>clSched := s'\<rparr> = ?tx s'" for s s' by (simp_all add: sys_cluster_def)
  from sys_refill_reach[OF tx] have "cl_reach True sys_units (?tx (sys_sched [0] 1 False 1 [] 2 ?bs))"
    unfolding sel sys_second_refill by simp
  from sys_assign_reach[OF this sel(1), of 1 1] show ?thesis unfolding sel sys_two_def by simp
qed

text \<open>
  C31. Optimistic scheduling breaks the bound. \<open>flushToDatabaseOptimistic\<close> acks the assignments of
  its transaction before the transaction commits; a replenish cycle whose availability read falls
  between the two sees neither an unacked assignment, nor a counted ack, nor a committed task, and
  frees the slot again. A run with one worker and one slot ends with two committed tasks on it.
\<close>

theorem optimistic_ack_overcommits:
  "\<exists>c. cl_reach True sys_units c \<and> sys_units sys_key < clUsed c sys_key"
proof -
  have a: "map_of (unackedSlots (clSched sys_two)) 2 = Some \<lparr>asSlots = [1], asReservation = None\<rparr>" "2 \<notin> clFlushed sys_two"
    by (simp_all add: sys_two_def sys_cluster_def cl_start_def)
  let ?c = "sys_two\<lparr>clUsed := (\<lambda>k. clUsed sys_two k + countAt (mem (clSched sys_two)) k [1]),
                    clFlushed := insert 2 (clFlushed sys_two)\<rparr>"
  have "cl_reach True sys_units ?c"
    using cl_reach.step[OF sys_two_reach cl_step.commit[OF a]] by simp
  from cl_reach.step[OF this cl_step.commit_tx[OF TrueI]]
  have r: "cl_reach True sys_units (?c\<lparr>clUsed := (\<lambda>k. clUsed ?c k + clOpenTx ?c k), clOpenTx := (\<lambda>_. 0)\<rparr>)" (is "cl_reach _ _ ?d") .
  have "clUsed sys_two sys_key + countAt (mem (clSched sys_two)) sys_key [1] + clOpenTx sys_two sys_key = 2"
    by (simp add: sys_two_def sys_cluster_def cl_start_def sys_mem_key sys_units_def)
  then have "sys_units sys_key < clUsed ?d sys_key" by (simp add: sys_units_def)
  with r show ?thesis by blast
qed

text \<open>
  C16. No op of the run loop panics in a reachable state, whatever batch, item, ids, rows and clock
  readings it is called with: no write to a nil map, no index out of range, no nil pool or slot.
\<close>

theorem reachable_ops_return:
  assumes "cl_reach optimistic maxUnits c"
  shows "attempt i isRetry now (clSched c) \<noteq> None \<and>
    tryAssignBatchQueueItem ctxErr running now item labels (clSched c) \<noteq> None \<and>
    handleAck ids (clSched c) \<noteq> None \<and> endReplenishCycle clock (clSched c) \<noteq> None \<and>
    replenish_apply a2w (configured_pools config) available now clock (clSched c) \<noteq> None"
proof (intro conjI)
  note inv = cl_reach_sched_inv[OF assms]
  show "attempt i isRetry now (clSched c) \<noteq> None" using attempt_ok[OF inv, of i isRetry now] by auto
  show "tryAssignBatchQueueItem ctxErr running now item labels (clSched c) \<noteq> None"
    using tryAssignBatchQueueItem_ok[OF inv, of ctxErr running now item labels] by auto
  show "handleAck ids (clSched c) \<noteq> None" using handleAck_ok[OF inv, of ids] by auto
  show "endReplenishCycle clock (clSched c) \<noteq> None" using endReplenishCycle_ok[OF inv, of clock] by auto
  show "replenish_apply a2w (configured_pools config) available now clock (clSched c) \<noteq> None"
    using replenish_apply_ok[OF inv configured_pools_distinct, of a2w config available now clock] by auto
qed

theorem reachable_ops_return_witness:
  "handleAck [1, 7] (clSched sys_one) \<noteq> None \<and> attempt 3 False 5 (clSched sys_one) \<noteq> None"
  using reachable_ops_return[OF sys_one_reach] by blast

text \<open>
  C15. In a reachable state no slot is held by two assignments that are not acknowledged, none of
  them holds a slot twice, and no held slot is on the freelist of a pool in use.
\<close>

theorem held_slots_exclusive:
  assumes "cl_reach optimistic maxUnits c"
  shows "distinct (slotsOf (unackedSlots (clSched c))) \<and>
    (map_of (pools (clSched c)) k = Some p \<longrightarrow> i \<in> set (poolFree (poolAt (mem (clSched c)) p)) \<longrightarrow>
      poolSlots (poolAt (mem (clSched c)) p) ! i \<notin> set (slotsOf (unackedSlots (clSched c))))"
proof (intro conjI impI)
  note inv = sched_invD[OF cl_reach_sched_inv[OF assms]]
  show "distinct (slotsOf (unackedSlots (clSched c)))" by (rule inv(2))
  assume p: "map_of (pools (clSched c)) k = Some p" and i: "i \<in> set (poolFree (poolAt (mem (clSched c)) p))"
  have "\<not> slotUsed (slotAt (mem (clSched c)) (poolSlots (poolAt (mem (clSched c)) p) ! i))"
    using mem_ok_pool(1)[OF inv(1) p] i by (auto simp: pool_ok_def Let_def)
  then show "poolSlots (poolAt (mem (clSched c)) p) ! i \<notin> set (slotsOf (unackedSlots (clSched c)))"
    using inv(1) by (auto simp: mem_ok_def)
qed

theorem held_slots_exclusive_witness:
  "distinct (slotsOf (unackedSlots (clSched sys_ready))) \<and>
   poolSlots (poolAt (mem (clSched sys_ready)) 0) ! 0 \<notin> set (slotsOf (unackedSlots (clSched sys_ready)))"
  using held_slots_exclusive[OF sys_ready_reach, of sys_key 0 0] by (simp add: sys_ready_def sys_mem_def)

end
