(* ===== verification/Scheduler_Assign.thy ===== *)
theory Scheduler_Assign
  imports Cluster
begin

text \<open>
  What single ops of the scheduler compute: which worker an item is assigned to, when a miss counts
  as starvation, what a rebuild of the pools leaves free, and what it forgets.
\<close>

section \<open>The starvation predicate\<close>

lemma freeCountAt_nonneg: "0 \<le> freeCountAt now p"
  by (simp add: freeCountAt_def split: option.split)

lemma poolOf_typesOf: "poolOf m pw w t = map_option (poolAt m) (map_of (typesOf w pw) t)"
  by (simp add: poolOf_def typesOf_def split: option.split)

lemma single_unit_miss:
  assumes "isSingleUnitRequest req" "\<not> fits m pw req now w"
  shows "\<not> list_all (\<lambda>(t, _). freeCountAt now (poolOf m pw w t) \<noteq> 0) req"
proof -
  obtain t units where t: "(t, units) \<in> set req" "0 < units" "\<not> units \<le> freeCountAt now (poolOf m pw w t)"
    using assms(2) unfolding fits_def poolOf_typesOf by auto
  moreover have "units \<le> 1" using assms(1) t(1) by (auto simp: isSingleUnitRequest_def list_all_iff)
  ultimately have "freeCountAt now (poolOf m pw w t) = 0"
    using freeCountAt_nonneg[of now "poolOf m pw w t"] by linarith
  then show ?thesis using t(1) by (auto simp: list_all_iff)
qed

lemma rankedCandidates_mset:
  obtains P where "mset (fst (rankedCandidates qi labels a s)) = filter_mset P (mset (workerIds a))"
proof (cases "qiSticky qi \<noteq> STICKY_NONE \<or> labels \<noteq> []")
  case True
  then have "mset (fst (rankedCandidates qi labels a s)) =
      mset (map fst (rank_loop (workers s) qi labels (workerIds a)))"
    by (simp add: rankedCandidates_def rankWorkerIds_eq Let_def ranked_workers_def)
  also have "\<dots> = filter_mset (\<lambda>w. workerRank (workers s) qi labels w \<noteq> None) (mset (workerIds a))"
    by (simp add: rank_loop_eq comp_def)
  finally show thesis by (rule that)
next
  case False
  then show thesis using that[of "\<lambda>_. True"] by (simp add: rankedCandidates_def)
qed

lemma unfiltered_candidates:
  assumes "length (fst (rankedCandidates qi labels a s)) = length (workerIds a)"
  shows "set (fst (rankedCandidates qi labels a s)) = set (workerIds a)"
proof -
  obtain P where P: "mset (fst (rankedCandidates qi labels a s)) = filter_mset P (mset (workerIds a))"
    by (rule rankedCandidates_mset)
  have "filter_mset P (mset (workerIds a)) = mset (workerIds a)"
    using assms P by (metis multiset_filter_subset size_mset subset_mset.nless_le mset_subset_size nat_less_le)
  then show ?thesis using P by (metis set_mset_mset)
qed

lemma tryOrder_candidates:
  assumes "rankedCandidates qi labels a s = (cs, n)" "cs \<noteq> []" "n \<noteq> 0"
  shows "set (tryOrder qi labels a s) = set cs"
proof -
  have n: "n \<le> length cs" using rankedCandidates_bound[OF assms(1)] .
  have "set (tryOrder qi labels a s) = set (take n cs) \<union> set (drop n cs)"
    using assms n by (simp add: tryOrder_def rotated_set)
  then show ?thesis by (metis append_take_drop_id set_append)
qed

section \<open>What a rebuild forgets\<close>

text \<open>The workers whose pools a rebuild counts for an action.\<close>

abbreviation action_workers :: "(string \<times> uuid list) list \<Rightarrow> string \<Rightarrow> uuid list" where
  "action_workers a2w actionId \<equiv> remdups_adj (sort (mapList a2w actionId))"

lemma reindex_lookup:
  "distinct_keys acts \<Longrightarrow> total_slots m ps (action_workers a2w actionId) = 0 \<Longrightarrow>
   actionId \<notin> fst ` set (snd (reindex_actions m ps a2w now acts))"
proof (induction acts)
  case (Cons x acts)
  obtain i a where x: "x = (i, a)" by (cases x)
  obtain queues rest where r: "reindex_actions m ps a2w now acts = (queues, rest)" by fastforce
  show ?case
  proof (cases "i = actionId")
    case True
    then show ?thesis using Cons r x by (simp add: Let_def)
  next
    case False
    then show ?thesis using Cons r x by (auto simp: Let_def split: prod.splits)
  qed
qed simp

lemma restore_loop_known: "set (fst (restore_loop free st)) \<subseteq> fst ` set st"
  by (auto simp: restore_loop_queues)

text \<open>A rebuild wakes only queues with an entry under an action that has slots.\<close>

lemma reindex_queues:
  "q \<in> set (fst (reindex_actions m ps a2w now acts)) \<Longrightarrow>
   \<exists>(i, a)\<in>set acts. q \<in> fst ` set (starved a) \<and> total_slots m ps (action_workers a2w i) \<noteq> 0"
proof (induction acts)
  case (Cons x acts)
  obtain i a where x: "x = (i, a)" by (cases x)
  obtain queues rest where r: "reindex_actions m ps a2w now acts = (queues, rest)" by fastforce
  let ?ws = "action_workers a2w i"
  show ?case
  proof (cases "q \<in> set queues")
    case True
    then show ?thesis using Cons.IH r by auto
  next
    case False
    then have n: "total_slots m ps ?ws \<noteq> 0" and "IsStarved a" and "q \<in> set (fst (RestoreStarved m ps ?ws now a))"
      using Cons.prems r x by (auto simp: Let_def split: prod.splits if_splits)
    then have "q \<in> fst ` set (starved a)"
      using restore_loop_known[of "\<lambda>ts. hasFreeSlotOfEachTypeIn m ps ?ws ts now" "starved a"]
      by (auto simp: RestoreStarved_def split: prod.splits)
    then show ?thesis using n x by auto
  qed
qed simp

lemma markActionStarved_notified:
  "notifyReplenishCh s \<Longrightarrow> notifyReplenishCh (markActionStarved actionId a queue request s)"
  by (simp add: markActionStarved_def notifyReplenish_def Let_def split: prod.splits)

lemma miss_loop_notified: "notifyReplenishCh s \<Longrightarrow> notifyReplenishCh (snd (miss_loop b rs s))"
proof (induction rs arbitrary: s)
  case (Cons r rs)
  have "notifyReplenishCh (lookupActionAndMarkStarved (baActionId b) (qiQueue (arItem r)) (requestsFor b (arItem r)) s)"
    using Cons.prems by (auto simp: lookupActionAndMarkStarved_def intro!: markActionStarved_notified split: option.splits)
  then show ?case using Cons.IH Cons.prems by (auto split: prod.splits) (metis snd_conv)+
qed simp

text \<open>A miss under an action the scheduler does not know is always a new entry.\<close>

lemma unknown_action_notifies:
  assumes "map_of (actions s) actionId = None" "slotTypeSetOf request \<noteq> None"
  shows "notifyReplenishCh (lookupActionAndMarkStarved actionId queue request s)"
  using assms by (auto simp: lookupActionAndMarkStarved_def markActionStarved_def MarkStarved_def entries_of_def
      newAction_def notifyReplenish_def)

lemma replenish_apply_unparked:
  assumes "afterReplenish s = []" "replenish_apply a2w configured available now clock s = Some (queues, s')"
  shows "(queues, actions s') = reindex_actions (mem s') (poolsByWorker s') a2w now (actions s)"
  using assms by (auto simp: replenish_apply_def endReplenishCycle_def markWorkerCapacityUpdated_def Let_def
      split: prod.splits)

section \<open>Properties\<close>

text \<open>
  C8. \<open>assignSingleton\<close> assigns an item to the first worker, in the order it tries them (the tied
  group of highest rank from the ring offset on, then the lower ranks), that has the requested
  units of every slot type free in fresh pools; it takes exactly those units from that worker and
  records one assignment. When no worker fits, the item is a miss and no slot moves.
\<close>

theorem assignSingleton_first_fit:
  assumes "sched_inv s" "request_ok req"
  shows "case find (fits (mem s) (poolsByWorker s) req now) (tryOrder (arItem r) labels a s) of
      None \<Rightarrow> \<exists>s'. assignSingleton actionId a r labels req now s = Some (r\<lparr>arNoSlots := True\<rparr>, s') \<and>
        mem s' = mem s \<and> unackedSlots s' = unackedSlots s
    | Some w \<Rightarrow> \<exists>s' sls. assignSingleton actionId a r labels req now s =
          Some (r\<lparr>arAckId := assignedCount s + 1, arWorkerId := w, arSucceeded := True\<rparr>, s') \<and>
        unackedSlots s' =
          unackedSlots s @ [(assignedCount s + 1, \<lparr>asSlots = sls, asReservation = arReservation r\<rparr>)] \<and>
        (\<forall>k. countAt (mem s) k sls = unitsAt w req k \<and>
             freeAt (mem s') (pools s) k + unitsAt w req k = freeAt (mem s) (pools s) k)"
proof (cases "find (fits (mem s) (poolsByWorker s) req now) (tryOrder (arItem r) labels a s)")
  case None
  then have "\<forall>w\<in>set (tryOrder (arItem r) labels a s). \<not> fits (mem s) (poolsByWorker s) req now w"
    by (simp add: find_None_iff)
  from assignSingleton_miss[OF assms(1) this, of actionId] None show ?thesis by auto
next
  case (Some w)
  obtain s' sls where h: "assignSingleton actionId a r labels req now s =
      Some (r\<lparr>arAckId := assignedCount s + 1, arWorkerId := w, arSucceeded := True\<rparr>, s')"
    "unackedSlots s' = unackedSlots s @ [(assignedCount s + 1, \<lparr>asSlots = sls, asReservation = arReservation r\<rparr>)]"
    "\<And>k. countAt (mem s) k sls = unitsAt w req k"
    "takes (pools s) (set (slotsOf (unackedSlots s))) (mem s) sls (mem s')"
    using assignSingleton_hit[OF assms Some, of actionId] by metis
  have "\<forall>k. countAt (mem s) k sls = unitsAt w req k \<and>
      freeAt (mem s') (pools s) k + unitsAt w req k = freeAt (mem s) (pools s) k"
    using takesD(5)[OF h(4)] h(3) by simp
  then show ?thesis using Some h(1,2) by auto
qed

theorem assignSingleton_first_fit_witness:
  "\<exists>s' sls. assignSingleton ''a'' (the (map_of (actions (clSched sys_ready)) ''a''))
      (newSingleResult (example_item 5 STICKY_NONE None)) [] [(''default'', 1)] 0 (clSched sys_ready) =
    Some ((newSingleResult (example_item 5 STICKY_NONE None))
      \<lparr>arAckId := 1, arWorkerId := 1, arSucceeded := True\<rparr>, s') \<and>
    countAt (mem (clSched sys_ready)) sys_key sls = 1"
proof -
  let ?s = "clSched sys_ready" and ?r = "newSingleResult (example_item 5 STICKY_NONE None)"
  let ?a = "the (map_of (actions ?s) ''a'')"
  have "request_ok [(''default'', 1)]" by (simp add: request_ok_def)
  note p = assignSingleton_first_fit[OF cl_reach_sched_inv[OF sys_ready_reach] this, where now = 0 and r = ?r and labels = "[]" and
      a = ?a and actionId = "''a''"]
  have "find (fits (mem ?s) (poolsByWorker ?s) [(''default'', 1)] 0) (tryOrder (arItem ?r) [] ?a ?s) = Some 1"
    by code_simp
  moreover have "assignedCount ?s = 0" "unitsAt 1 [(''default'', 1)] sys_key = 1"
    by (simp_all add: sys_ready_def sys_sched_def unitsAt_def sys_key_def mapCount_def)
  ultimately show ?thesis using p by (simp only: option.case) (metis add_0)
qed

text \<open>
  A miss marks the action starved exactly when no worker of the action, including those the
  ranking dropped, has a free slot of every requested type. The shortcut that skips this scan, when
  ranking dropped nobody and every unit count is at most one, never changes the outcome.
\<close>

theorem miss_marks_iff_drained:
  assumes "sched_inv s" "request_ok req"
    and "rankedCandidates (arItem r) labels a s = (cs, n)" "cs \<noteq> []" "n \<noteq> 0"
    and "\<forall>w\<in>set (tryOrder (arItem r) labels a s). \<not> fits (mem s) (poolsByWorker s) req now w"
  shows "let a1 = a\<lparr>ringOffset := ringOffset a + 1\<rparr>; s1 = s\<lparr>actions := AList.update actionId a1 (actions s)\<rparr>
    in assignSingleton actionId a r labels req now s =
      Some (r\<lparr>arNoSlots := True\<rparr>,
        if hasFreeSlotOfEachType (mem s) (poolsByWorker s) (workerIds a) req now then s1
        else markActionStarved actionId a1 (qiQueue (arItem r)) req s1)"
proof -
  have "\<not> hasFreeSlotOfEachType (mem s) (poolsByWorker s) (workerIds a) req now"
    if "length cs = length (workerIds a)" "isSingleUnitRequest req"
  proof -
    have "set (tryOrder (arItem r) labels a s) = set (workerIds a)"
      using tryOrder_candidates[OF assms(3-5)] unfiltered_candidates[of "arItem r" labels a s] that(1) assms(3) by simp
    then show ?thesis
      using assms(6) single_unit_miss[OF that(2)] by (auto simp: hasFreeSlotOfEachType_def list_ex_iff)
  qed
  moreover have "try_workers (poolsByWorker s) req now (rotated (ringOffset a) n cs) (mem s) = Some None"
    "try_workers (poolsByWorker s) req now (drop n cs) (mem s) = Some None"
    using assms(3-6) by (intro try_workers_miss; auto simp: tryOrder_def)+
  ultimately show ?thesis
    using assms(3-5) by (auto simp: assignSingleton_def Let_def)
qed

theorem miss_marks_iff_drained_witness:
  "\<not> hasFreeSlotOfEachType (mem (clSched sys_one)) (poolsByWorker (clSched sys_one)) [1] [(''default'', 1)] 0 \<and>
   (\<exists>s'. assignSingleton ''a'' (the (map_of (actions (clSched sys_one)) ''a''))
      (newSingleResult (example_item 5 STICKY_NONE None)) [] [(''default'', 1)] 0 (clSched sys_one) =
      Some ((newSingleResult (example_item 5 STICKY_NONE None))\<lparr>arNoSlots := True\<rparr>, s') \<and> notifyReplenishCh s')"
proof -
  let ?s = "clSched sys_one" and ?r = "newSingleResult (example_item 5 STICKY_NONE None)"
  let ?a = "the (map_of (actions ?s) ''a'')"
  have drained: "\<not> hasFreeSlotOfEachType (mem ?s) (poolsByWorker ?s) [1] [(''default'', 1)] 0"
    and order: "\<forall>w\<in>set (tryOrder (arItem ?r) [] ?a ?s). \<not> fits (mem ?s) (poolsByWorker ?s) [(''default'', 1)] 0 w"
    by code_simp+
  have rank: "rankedCandidates (arItem ?r) [] ?a ?s = ([1], 1)" and a: "?a = \<lparr>lastReplenishedSlotCount = 1,
      lastReplenishedWorkerCount = 1, workerIds = [1], ringOffset = 1, starved = []\<rparr>"
    by (simp_all add: sys_one_def sys_sched_def rankedCandidates_def newSingleResult_def example_item_def)
  have "request_ok [(''default'', 1)]" by (simp add: request_ok_def)
  from miss_marks_iff_drained[OF cl_reach_sched_inv[OF sys_one_reach] this rank _ _ order, of "''a''"] drained
  show ?thesis
    by (simp add: a Let_def markActionStarved_eq MarkStarved_def slotTypeSetOf_def entries_of_def)
qed

text \<open>
  C17. After a replenish cycle is applied, the slots a pool has free together with those the parked
  batches took from it are exactly the availability read less the unacked slots and the slots acked
  since the counter was reset, and never negative; a pool that is not configured and holds no
  unacked slot, or whose worker has left, has none.
\<close>

theorem replenish_capacity_exact:
  assumes "sched_inv s" "distinct configured"
    and "replenish_apply a2w configured available now clock s = Some (queues, s')"
  shows "\<exists>new. unackedSlots s' = unackedSlots s @ new \<and>
    (\<forall>k. int (freeAt (mem s') (pools s') k) + int (countAt (mem s') k (slotsOf new)) =
      (if (k \<in> set configured \<or> k \<in> slotKey (mem s) ` set (slotsOf (unackedSlots s))) \<and>
          map_of (workers s) (fst k) \<noteq> None
       then max 0 (mapCount available k - int (countAt (mem s) k (slotsOf (unackedSlots s))) - ackedAt s k)
       else 0))"
proof -
  obtain s1 where g: "grants s1 s'" and un: "unackedSlots s1 = unackedSlots s"
    and free: "\<forall>k. freeAt (mem s1) (pools s1) k =
       (if (k \<in> set configured \<or> k \<in> slotKey (mem s) ` set (slotsOf (unackedSlots s))) \<and>
           map_of (workers s) (fst k) \<noteq> None
        then poolsRead available s k else 0)"
    using replenish_apply_ok[OF assms(1,2), of a2w available now clock] assms(3) by auto
  obtain new where new: "unackedSlots s' = unackedSlots s1 @ new"
    "\<And>k. freeAt (mem s') (pools s1) k + countAt (mem s1) k (slotsOf new) = freeAt (mem s1) (pools s1) k"
    using grants_new[OF g] by metis
  have n: "int (poolsRead available s k) =
      max 0 (mapCount available k - int (countAt (mem s) k (slotsOf (unackedSlots s))) - ackedAt s k)" for k
    by (simp add: poolsRead_def available_count_def Let_def)
  have "int (freeAt (mem s') (pools s') k) + int (countAt (mem s') k (slotsOf new)) = int (freeAt (mem s1) (pools s1) k)" for k
    using new(2)[of k] grantsD(2)[OF g] same_layoutD(2)[OF grantsD(7)[OF g]] by simp
  then show ?thesis using new(1) un free n by (intro exI[of _ new]) simp
qed

theorem replenish_capacity_exact_witness:
  "\<exists>queues s' new. replenish_apply [] [sys_key] [(sys_key, 3)] 0 (\<lambda>_. 0) (clSched sys_one) = Some (queues, s') \<and>
     unackedSlots s' = unackedSlots (clSched sys_one) @ new \<and>
     int (freeAt (mem s') (pools s') sys_key) + int (countAt (mem s') sys_key (slotsOf new)) = 2"
proof -
  let ?s = "clSched sys_one"
  have inv: "sched_inv ?s" by (rule cl_reach_sched_inv[OF sys_one_reach])
  obtain queues s' where r: "replenish_apply [] [sys_key] [(sys_key, 3)] 0 (\<lambda>_. 0) ?s = Some (queues, s')"
    using replenish_apply_ok[OF inv, of "[sys_key]" "[]" "[(sys_key, 3)]" 0 "\<lambda>_. 0"] by auto
  have "map_of (workers ?s) (fst sys_key) \<noteq> None" "countAt (mem ?s) sys_key (slotsOf (unackedSlots ?s)) = 1" "ackedAt ?s sys_key = 0"
    by (simp_all add: sys_one_def sys_mem_key ackedAt_def) (simp add: sys_sched_def sys_key_def)
  moreover have "distinct [sys_key]" by simp
  from replenish_capacity_exact[OF inv this r] obtain new where "unackedSlots s' = unackedSlots ?s @ new"
    and "int (freeAt (mem s') (pools s') sys_key) + int (countAt (mem s') sys_key (slotsOf new)) =
      (if (sys_key \<in> set [sys_key] \<or> sys_key \<in> slotKey (mem ?s) ` set (slotsOf (unackedSlots ?s))) \<and>
          map_of (workers ?s) (fst sys_key) \<noteq> None
       then max 0 (mapCount [(sys_key, 3)] sys_key - int (countAt (mem ?s) sys_key (slotsOf (unackedSlots ?s))) - ackedAt ?s sys_key)
       else 0)" by blast
  ultimately show ?thesis using r by (simp add: mapCount_def)
qed

text \<open>
  C40. A rebuild that finds no slot of an action forgets its starvation. When a replenish cycle is
  applied with no batch parked and the pools it rebuilds for the workers of the action hold no slot
  (each is taken by a task the database already knows), the action is deleted with all its entries.
  The cycle wakes only queues that have an entry under another action. And the next batch of the
  action requests a replenish again, whichever queue and slot types its first item has: the entry
  did not outlive the fruitless rebuild.
\<close>

theorem saturated_action_forgotten:
  assumes "distinct_keys (actions s)" "afterReplenish s = []"
    and "replenish_apply a2w configured available now clock s = Some (queues, s')"
    and "total_slots (mem s') (poolsByWorker s') (action_workers a2w actionId) = 0"
  shows "map_of (actions s') actionId = None \<and>
    (\<forall>q\<in>set queues. \<exists>(i, a)\<in>set (actions s). i \<noteq> actionId \<and> q \<in> fst ` set (starved a)) \<and>
    (\<forall>b r rs now'. baActionId b = actionId \<and> baRes b = r # rs \<and> arRateLimit r = None \<and> \<not> arToBatch r \<and>
       slotTypeSetOf (requestsFor b (arItem r)) \<noteq> None \<longrightarrow>
       (\<exists>rs' s2. handleAssignBatch b now' (s'\<lparr>notifyReplenishCh := False\<rparr>) = Some (rs', s2) \<and> notifyReplenishCh s2))"
proof (intro conjI)
  note acts = replenish_apply_unparked[OF assms(2,3)]
  show gone: "map_of (actions s') actionId = None"
    using reindex_lookup[OF assms(1,4), of now] acts by (metis map_of_eq_None_iff snd_conv)
  show "\<forall>q\<in>set queues. \<exists>(i, a)\<in>set (actions s). i \<noteq> actionId \<and> q \<in> fst ` set (starved a)"
    using reindex_queues[of _ "mem s'" "poolsByWorker s'" a2w now "actions s"] acts assms(4)
    by (metis (mono_tags, lifting) case_prod_conv case_prod_beta fst_conv)
  show "\<forall>b r rs now'. baActionId b = actionId \<and> baRes b = r # rs \<and> arRateLimit r = None \<and> \<not> arToBatch r \<and>
       slotTypeSetOf (requestsFor b (arItem r)) \<noteq> None \<longrightarrow>
       (\<exists>rs' s2. handleAssignBatch b now' (s'\<lparr>notifyReplenishCh := False\<rparr>) = Some (rs', s2) \<and> notifyReplenishCh s2)"
  proof (intro allI impI, elim conjE)
    fix b r rs now'
    assume b: "baActionId b = actionId" "baRes b = r # rs" "arRateLimit r = None" "\<not> arToBatch r"
      "slotTypeSetOf (requestsFor b (arItem r)) \<noteq> None"
    let ?s = "s'\<lparr>notifyReplenishCh := False\<rparr>"
    have "notifyReplenishCh (lookupActionAndMarkStarved actionId (qiQueue (arItem r)) (requestsFor b (arItem r)) ?s)"
      by (rule unknown_action_notifies) (use gone b(5) in simp_all)
    from miss_loop_notified[OF this, of b rs] b gone
    show "\<exists>rs' s2. handleAssignBatch b now' ?s = Some (rs', s2) \<and> notifyReplenishCh s2"
      by (auto simp: handleAssignBatch_def split: prod.splits)
  qed
qed

text \<open>The example scheduler with a recorded miss of queue \<open>q\<close>, and the next batch of that queue.\<close>

definition example_starved :: scheduler where
  "example_starved = (clSched sys_ready)\<lparr>actions :=
     [(''a'', newAction\<lparr>workerIds := [1], starved := [(''q'', [''default''])]\<rparr>)]\<rparr>"

definition example_missed :: assignBatch where
  "example_missed = \<lparr>baActionId = ''a'', baRes = [newSingleResult (example_item 5 STICKY_NONE None)],
     baLabels = [], baRequests = [], baOverrides = [], baFinished = None\<rparr>"

theorem saturated_action_forgotten_witness:
  "\<exists>queues s' rs s2. replenish_apply [(''a'', [1])] [sys_key] [] 0 (\<lambda>_. 0) example_starved = Some (queues, s') \<and>
     map_of (actions s') ''a'' = None \<and>
     handleAssignBatch example_missed 0 (s'\<lparr>notifyReplenishCh := False\<rparr>) = Some (rs, s2) \<and> notifyReplenishCh s2"
proof -
  have "map_option (\<lambda>(queues, s'). total_slots (mem s') (poolsByWorker s') (action_workers [(''a'', [1])] ''a''))
      (replenish_apply [(''a'', [1])] [sys_key] [] 0 (\<lambda>_. 0) example_starved) = Some 0"
    by code_simp
  then obtain queues s' where r: "replenish_apply [(''a'', [1])] [sys_key] [] 0 (\<lambda>_. 0) example_starved = Some (queues, s')"
    and none: "total_slots (mem s') (poolsByWorker s') (action_workers [(''a'', [1])] ''a'') = 0"
    by auto
  have "distinct_keys (actions example_starved)" "afterReplenish example_starved = []"
    by (simp_all add: example_starved_def sys_ready_def sys_sched_def newScheduler_def)
  from saturated_action_forgotten[OF this r none] r show ?thesis
    by (auto simp: example_missed_def newSingleResult_def requestsFor_def slotTypeSetOf_def SlotTypeDefault_def)
qed

end
