(* ===== verification/Try_Assign.thy ===== *)
theory Try_Assign
  imports Scheduler_Assign
begin

text \<open>
  The assignment of a list of queue items: \<open>tryAssignBatch\<close> checks the rate limits of a batch and
  hands it to the run loop, \<open>tryAssign\<close> (\<open>src/pkg/scheduling/v1/scheduler.go\<close>) splits the items of
  a queue by action into batches and sorts the outcomes into buckets; \<open>BatchLinear\<close> and
  \<open>BatchConcurrent\<close> (\<open>src/internal/queueutils/batch.go\<close>) cut a slice into groups.
\<close>

section \<open>Model\<close>

subsection \<open>Cutting a slice into groups\<close>

text \<open>One iteration of the loops: the group \<open>things[i:upTo]\<close>.\<close>

definition batch_group :: "int \<Rightarrow> 'a list \<Rightarrow> int \<Rightarrow> 'a list" where
  "batch_group batchSize things i =
     (let upTo = (if i + batchSize > int (length things) then int (length things) else i + batchSize)
      in take (nat (upTo - i)) (drop (nat i) things))"

function BatchLinear_loop ::
  "int \<Rightarrow> 'a list \<Rightarrow> ('a list \<Rightarrow> 's \<Rightarrow> 'e option \<times> 's) \<Rightarrow> int \<Rightarrow> 'e list \<Rightarrow> 's \<Rightarrow> 'e list \<times> 's" where
  "BatchLinear_loop batchSize things fn i errs s =
     (if i < int (length things) \<and> 0 < batchSize
      then (case fn (batch_group batchSize things i) s of
              (err, s') \<Rightarrow>
                BatchLinear_loop batchSize things fn (i + batchSize)
                  (case err of None \<Rightarrow> errs | Some e \<Rightarrow> errs @ [e]) s')
      else (errs, s))"
  by pat_completeness auto
termination
  by (relation "measure (\<lambda>(batchSize, things, fn, i, errs, s). nat (int (length things) - i))") auto

text \<open>The list of errors is the \<open>multierror\<close> of the source, empty for nil.\<close>

definition BatchLinear ::
  "int \<Rightarrow> 'a list \<Rightarrow> ('a list \<Rightarrow> 's \<Rightarrow> 'e option \<times> 's) \<Rightarrow> 's \<Rightarrow> 'e list \<times> 's" where
  "BatchLinear batchSize things fn s =
     (if batchSize \<le> 0 then ([], s) else BatchLinear_loop batchSize things fn 0 [] s)"

function BatchConcurrent_loop :: "int \<Rightarrow> 'a list \<Rightarrow> int \<Rightarrow> 'a list list" where
  "BatchConcurrent_loop batchSize things i =
     (if i < int (length things) \<and> 0 < batchSize
      then batch_group batchSize things i # BatchConcurrent_loop batchSize things (i + batchSize)
      else [])"
  by pat_completeness auto
termination
  by (relation "measure (\<lambda>(batchSize, things, i). nat (int (length things) - i))") auto

text \<open>The groups the concurrent version starts a goroutine for.\<close>

definition BatchConcurrent :: "int \<Rightarrow> 'a list \<Rightarrow> 'a list list" where
  "BatchConcurrent batchSize things =
     (if batchSize \<le> 0 then [] else BatchConcurrent_loop batchSize things 0)"

declare BatchLinear_loop.simps [simp del] BatchConcurrent_loop.simps [simp del]

subsection \<open>One batch\<close>

definition rateLimitedRequeueAfterThreshold :: int where
  "rateLimitedRequeueAfterThreshold = 2 * 1000000000"

definition shouldRemoveFromQueue :: "int \<Rightarrow> rateLimitResult option \<Rightarrow> bool" where
  "shouldRemoveFromQueue now res =
     (case res of
        None \<Rightarrow> False
      | Some r \<Rightarrow>
          if resPausedUntil r \<noteq> None then True
          else (case resNextRefillAt r of
                  None \<Rightarrow> False
                | Some t \<Rightarrow> t > now + rateLimitedRequeueAfterThreshold))"

text \<open>The loop that asks the rate limiter; \<open>env\<close> holds the database and the clock of each call.\<close>

fun rate_limit_loop ::
  "(nat \<Rightarrow> 'e useEnv) \<Rightarrow> (int \<times> rateLimitUnits) list \<Rightarrow> nat \<Rightarrow> assignSingleResult list \<Rightarrow> rateLimiter \<Rightarrow>
    assignSingleResult list \<times> rateLimiter" where
  "rate_limit_loop env taskIdsToRateLimits i [] rl = ([], rl)"
| "rate_limit_loop env taskIdsToRateLimits i (r # rs) rl =
     (let task = qiTaskId (arItem r);
          rls = (case map_of taskIdsToRateLimits task of None \<Rightarrow> [] | Some units \<Rightarrow> units);
          (r', rl') = (if rls \<noteq> []
                       then (case rl_use (env i) task rls rl of
                               (res, rl1) \<Rightarrow>
                                 (if \<not> rlSucceeded res then r\<lparr>arRateLimit := Some res\<rparr>
                                  else r\<lparr>arReservation := rlCallbacks res\<rparr>, rl1))
                       else (r, rl))
      in case rate_limit_loop env taskIdsToRateLimits (Suc i) rs rl' of (rs', rl'') \<Rightarrow> (r' # rs', rl''))"

definition mark_toBatch :: "(uuid \<times> bool) list \<Rightarrow> assignSingleResult \<Rightarrow> assignSingleResult" where
  "mark_toBatch stepIdsToBatchConfig r =
     (if map_of stepIdsToBatchConfig (qiStepId (arItem r)) = Some True then r\<lparr>arToBatch := True\<rparr> else r)"

text \<open>What \<open>tryAssignBatch\<close> does before it hands the batch to the run loop.\<close>

definition tryAssignBatch_prepare ::
  "(nat \<Rightarrow> 'e useEnv) \<Rightarrow> (int \<times> rateLimitUnits) list \<Rightarrow> (uuid \<times> bool) list \<Rightarrow> queueItem list \<Rightarrow> rateLimiter \<Rightarrow>
    assignSingleResult list \<times> rateLimiter" where
  "tryAssignBatch_prepare env taskIdsToRateLimits stepIdsToBatchConfig qis rl =
     (case rate_limit_loop env taskIdsToRateLimits 0 (map newSingleResult qis) rl of
        (res, rl') \<Rightarrow> (map (mark_toBatch stepIdsToBatchConfig) res, rl'))"

text \<open>Releasing the reservations of the items that did not get assigned.\<close>

fun release_loop :: "assignSingleResult list \<Rightarrow> rateLimiter \<Rightarrow> rateLimiter" where
  "release_loop [] rl = rl"
| "release_loop (r # rs) rl =
     release_loop rs
       (if arRateLimit r = None \<and> \<not> arSucceeded r \<and> \<not> arToBatch r
        then (case arReservation r of None \<Rightarrow> rl | Some task \<Rightarrow> rl_nack task rl)
        else rl)"

text \<open>What it does after the wait: \<open>assigned\<close> is false when the scheduler shut down before.\<close>

definition tryAssignBatch_collect ::
  "bool \<Rightarrow> assignSingleResult list \<Rightarrow> rateLimiter \<Rightarrow> assignSingleResult list \<times> rateLimiter" where
  "tryAssignBatch_collect assigned res rl =
     (let res' = (if assigned then res
                  else map (\<lambda>r. if isMiss r then r\<lparr>arNoSlots := True\<rparr> else r) res)
      in (res', release_loop res' rl))"

text \<open>
  A whole call. \<open>aeEnqueued\<close> tells whether the op reached the loop. When the first attempt parks the
  batch, the loop runs other ops (\<open>aeMeanwhile\<close>) until the replenish cycle ends, the timeout of the
  parked batch fires, or the scheduler shuts down.
\<close>

datatype wake = CycleEnds | ParkTimeout | Shutdown

record 'e assignEnv =
  aeUse :: "nat \<Rightarrow> 'e useEnv"
  aeLimits :: "(int \<times> rateLimitUnits) list"
  aeBatchConfig :: "(uuid \<times> bool) list"
  aeLabels :: "(uuid \<times> desiredLabel list) list"
  aeRequests :: "(uuid \<times> slotRequest) list"
  aeOverrides :: "(int \<times> desiredLabel list) list"
  aeEnqueued :: bool
  aeNow :: int
  aeMeanwhile :: "scheduler \<Rightarrow> scheduler"
  aeWake :: wake
  aeClock :: "nat \<Rightarrow> int"

definition wakeParked :: "'e assignEnv \<Rightarrow> nat \<Rightarrow> scheduler \<Rightarrow> (bool \<times> scheduler) option" where
  "wakeParked env i s =
     (case aeWake env of
        CycleEnds \<Rightarrow> map_option (Pair True) (endReplenishCycle (aeClock env) (aeMeanwhile env s))
      | ParkTimeout \<Rightarrow> Some (True, finishBatch i ''timeout'' (aeMeanwhile env s))
      | Shutdown \<Rightarrow> Some (False, s))"

definition tryAssignBatch ::
  "'e assignEnv \<Rightarrow> nat \<Rightarrow> string \<Rightarrow> queueItem list \<Rightarrow> rateLimiter \<times> scheduler \<Rightarrow>
    (assignSingleResult list \<times> rateLimiter \<times> scheduler) option" where
  "tryAssignBatch env i actionId qis st =
     (case st of (rl, s) \<Rightarrow>
       (case tryAssignBatch_prepare (aeUse env) (aeLimits env) (aeBatchConfig env) qis rl of
          (res, rl1) \<Rightarrow>
            if \<not> aeEnqueued env
            then (case tryAssignBatch_collect False res rl1 of (res', rl2) \<Rightarrow> Some (res', rl2, s))
            else
              do {
                s1 \<leftarrow> attempt i False (aeNow env)
                        (s\<lparr>batches := (batches s)(i \<mapsto>
                             \<lparr>baActionId = actionId, baRes = res, baLabels = aeLabels env,
                              baRequests = aeRequests env, baOverrides = aeOverrides env, baFinished = None\<rparr>)\<rparr>);
                b1 \<leftarrow> batches s1 i;
                (assigned, s2) \<leftarrow> (if baFinished b1 \<noteq> None then Some (True, s1) else wakeParked env i s1);
                b2 \<leftarrow> batches s2 i;
                (case tryAssignBatch_collect assigned (baRes b2) rl1 of (res', rl2) \<Rightarrow> Some (res', rl2, s2))
              }))"

subsection \<open>All items of a queue\<close>

record assignedQueueItem =
  aqAckId :: int
  aqWorkerId :: uuid
  aqItem :: queueItem

record batchedQueueItemResult =
  bqItem :: queueItem
  bqReservation :: "int option"

record scheduleRateLimitResult =
  srResult :: rateLimitResult
  srItem :: queueItem

record assignResults =
  asgAssigned :: "assignedQueueItem list"
  asgBuffered :: "assignedQueueItem list"
  asgBatched :: "batchedQueueItemResult list"
  asgUnassigned :: "queueItem list"
  asgTimedOut :: "queueItem list"
  asgRateLimited :: "scheduleRateLimitResult list"
  asgRateLimitedToMove :: "scheduleRateLimitResult list"

definition noResults :: assignResults where
  "noResults = \<lparr>asgAssigned = [], asgBuffered = [], asgBatched = [], asgUnassigned = [], asgTimedOut = [],
     asgRateLimited = [], asgRateLimitedToMove = []\<rparr>"

text \<open>One iteration of the loop that sorts the results of a batch into buckets.\<close>

definition sort_result :: "(queueItem \<Rightarrow> int) \<Rightarrow> assignSingleResult \<Rightarrow> assignResults \<Rightarrow> assignResults" where
  "sort_result now r out =
     (if arToBatch r
      then out\<lparr>asgBatched := asgBatched out @ [\<lparr>bqItem = arItem r, bqReservation = arReservation r\<rparr>]\<rparr>
      else if \<not> arSucceeded r
      then (case arRateLimit r of
              Some res \<Rightarrow>
                let sr = \<lparr>srResult = res, srItem = arItem r\<rparr>
                in if shouldRemoveFromQueue (now (arItem r)) (Some res)
                   then out\<lparr>asgRateLimitedToMove := asgRateLimitedToMove out @ [sr]\<rparr>
                   else out\<lparr>asgRateLimited := asgRateLimited out @ [sr]\<rparr>
            | None \<Rightarrow> out\<lparr>asgUnassigned := asgUnassigned out @ [arItem r]\<rparr>)
      else out\<lparr>asgAssigned := asgAssigned out @
                 [\<lparr>aqAckId = arAckId r, aqWorkerId = arWorkerId r, aqItem = arItem r\<rparr>]\<rparr>)"

definition sort_results :: "(queueItem \<Rightarrow> int) \<Rightarrow> assignSingleResult list \<Rightarrow> assignResults" where
  "sort_results now res = foldl (\<lambda>out r. sort_result now r out) noResults res"

text \<open>The items by action.\<close>

fun group_items :: "queueItem list \<Rightarrow> (string \<times> queueItem list) list \<Rightarrow> (string \<times> queueItem list) list" where
  "group_items [] acc = acc"
| "group_items (qi # qis) acc =
     group_items qis (AList.update (qiActionId qi) (mapList acc (qiActionId qi) @ [qi]) acc)"

text \<open>
  The goroutine of one action: the items that timed out are sent first, then one result per batch of
  fifty. \<open>run\<close> is the call of \<open>tryAssignBatch\<close>, which never returns an error, and \<open>now\<close> the clock
  reading at the check of an item. The channel is the list of results sent; \<open>None\<close> is a panic.
\<close>

definition tryAssign_action ::
  "(string \<Rightarrow> queueItem list \<Rightarrow> 's \<Rightarrow> (assignSingleResult list \<times> 's) option) \<Rightarrow> (queueItem \<Rightarrow> int) \<Rightarrow> string \<Rightarrow>
    queueItem list \<Rightarrow> assignResults list \<times> 's \<Rightarrow> (assignResults list \<times> 's) option" where
  "tryAssign_action run now actionId qis st =
     (case st of (sent, s) \<Rightarrow>
        let timedOut = filter (\<lambda>qi. isTimedOut (now qi) qi) qis;
            batched = filter (\<lambda>qi. \<not> isTimedOut (now qi) qi) qis
        in snd (BatchLinear 50 batched
             (\<lambda>group st. (None :: unit option,
                do { (sent, s) \<leftarrow> st;
                     (res, s') \<leftarrow> run actionId group s;
                     Some (sent @ [sort_results now res], s') }))
             (Some (sent @ [noResults\<lparr>asgTimedOut := timedOut\<rparr>], s))))"

text \<open>All actions; the goroutines are run one after the other in the order of the list.\<close>

fun tryAssign_groups ::
  "(string \<Rightarrow> queueItem list \<Rightarrow> 's \<Rightarrow> (assignSingleResult list \<times> 's) option) \<Rightarrow> (queueItem \<Rightarrow> int) \<Rightarrow>
    (string \<times> queueItem list) list \<Rightarrow> assignResults list \<times> 's \<Rightarrow> (assignResults list \<times> 's) option" where
  "tryAssign_groups run now [] st = Some st"
| "tryAssign_groups run now ((actionId, qis) # groups) st =
     do { st' \<leftarrow> tryAssign_action run now actionId qis st; tryAssign_groups run now groups st' }"

text \<open>\<open>order\<close> is the order in which the map of the groups is iterated.\<close>

definition tryAssign ::
  "(string \<Rightarrow> queueItem list \<Rightarrow> 's \<Rightarrow> (assignSingleResult list \<times> 's) option) \<Rightarrow> (queueItem \<Rightarrow> int) \<Rightarrow>
    ((string \<times> queueItem list) list \<Rightarrow> (string \<times> queueItem list) list) \<Rightarrow> queueItem list \<Rightarrow> 's \<Rightarrow>
    (assignResults list \<times> 's) option" where
  "tryAssign run now order qis s = tryAssign_groups run now (order (group_items qis [])) ([], s)"

text \<open>The calls \<open>tryAssign\<close> makes: each batch gets a number and an environment of its own.\<close>

definition runBatch ::
  "(nat \<Rightarrow> 'e assignEnv) \<Rightarrow> string \<Rightarrow> queueItem list \<Rightarrow> nat \<times> rateLimiter \<times> scheduler \<Rightarrow>
    (assignSingleResult list \<times> nat \<times> rateLimiter \<times> scheduler) option" where
  "runBatch env actionId qis st =
     (case st of (i, rl, s) \<Rightarrow>
        do { (res, rl', s') \<leftarrow> tryAssignBatch (env i) i actionId qis (rl, s); Some (res, Suc i, rl', s') })"

text \<open>\<open>HasUnassignedStepRuns\<close> of the input for the scheduling extensions.\<close>

definition getExtensionInput :: "assignResults list \<Rightarrow> bool" where
  "getExtensionInput results \<longleftrightarrow> length (concat (map asgUnassigned results)) > 0"

section \<open>Groups of a slice\<close>

lemma batch_group_append:
  assumes "0 \<le> i" "i < int (length things)" "0 < batchSize"
  shows "batch_group batchSize things i @ drop (nat (i + batchSize)) things = drop (nat i) things"
proof (cases "i + batchSize > int (length things)")
  case True
  then have "drop (nat (i + batchSize)) things = []" "nat (int (length things) - i) = length (drop (nat i) things)"
    using assms by simp_all
  then show ?thesis using True by (simp add: batch_group_def)
next
  case False
  have "nat (i + batchSize) = nat batchSize + nat i" using assms by simp
  then have "drop (nat (i + batchSize)) things = drop (nat batchSize) (drop (nat i) things)"
    by (simp only: drop_drop)
  moreover have "batch_group batchSize things i = take (nat batchSize) (drop (nat i) things)"
    using False by (simp add: batch_group_def)
  ultimately show ?thesis by (simp only: append_take_drop_id)
qed

lemma BatchConcurrent_loop_concat:
  "0 < batchSize \<Longrightarrow> 0 \<le> i \<Longrightarrow> concat (BatchConcurrent_loop batchSize things i) = drop (nat i) things"
proof (induction batchSize things i rule: BatchConcurrent_loop.induct)
  case (1 batchSize things i)
  show ?case
  proof (cases "i < int (length things)")
    case True
    then have "BatchConcurrent_loop batchSize things i =
        batch_group batchSize things i # BatchConcurrent_loop batchSize things (i + batchSize)"
      using 1(2) by (subst BatchConcurrent_loop.simps) simp
    then show ?thesis using 1 True batch_group_append[OF 1(3) True 1(2)] by simp
  next
    case False
    then have "BatchConcurrent_loop batchSize things i = []" by (subst BatchConcurrent_loop.simps) simp
    then show ?thesis using False 1(3) by simp
  qed
qed

lemma BatchLinear_loop_fold:
  "BatchLinear_loop batchSize things fn i errs s =
     foldl (\<lambda>(errs, s) group. case fn group s of
              (err, s') \<Rightarrow> ((case err of None \<Rightarrow> errs | Some e \<Rightarrow> errs @ [e]), s'))
       (errs, s) (BatchConcurrent_loop batchSize things i)"
proof (induction batchSize things fn i errs s rule: BatchLinear_loop.induct)
  case (1 batchSize things fn i errs s)
  show ?case
  proof (cases "i < int (length things) \<and> 0 < batchSize")
    case True
    obtain err s' where f: "fn (batch_group batchSize things i) s = (err, s')" by fastforce
    have "BatchLinear_loop batchSize things fn i errs s =
        BatchLinear_loop batchSize things fn (i + batchSize) (case err of None \<Rightarrow> errs | Some e \<Rightarrow> errs @ [e]) s'"
      using True f by (subst BatchLinear_loop.simps) simp
    also have "\<dots> = foldl (\<lambda>(errs, s) group. case fn group s of
              (err, s') \<Rightarrow> ((case err of None \<Rightarrow> errs | Some e \<Rightarrow> errs @ [e]), s'))
       ((case err of None \<Rightarrow> errs | Some e \<Rightarrow> errs @ [e]), s') (BatchConcurrent_loop batchSize things (i + batchSize))"
      by (rule 1[OF True f[symmetric]])
    finally show ?thesis using True f by (subst BatchConcurrent_loop.simps) simp
  next
    case False
    then show ?thesis by (subst BatchLinear_loop.simps, subst BatchConcurrent_loop.simps) auto
  qed
qed

lemma BatchLinear_fold:
  "BatchLinear batchSize things fn s =
     foldl (\<lambda>(errs, s) group. case fn group s of
              (err, s') \<Rightarrow> ((case err of None \<Rightarrow> errs | Some e \<Rightarrow> errs @ [e]), s'))
       ([], s) (BatchConcurrent batchSize things)"
  by (simp add: BatchLinear_def BatchConcurrent_def BatchLinear_loop_fold)

lemma BatchConcurrent_concat: "0 < batchSize \<Longrightarrow> concat (BatchConcurrent batchSize things) = things"
  by (simp add: BatchConcurrent_def BatchConcurrent_loop_concat)

lemma batch_group_size:
  assumes "0 \<le> i" "i < int (length things)" "0 < batchSize"
  shows "batch_group batchSize things i \<noteq> [] \<and> int (length (batch_group batchSize things i)) \<le> batchSize"
  using assms by (auto simp: batch_group_def Let_def)

lemma BatchConcurrent_loop_sizes:
  "0 < batchSize \<Longrightarrow> 0 \<le> i \<Longrightarrow>
   (\<forall>g\<in>set (BatchConcurrent_loop batchSize things i). g \<noteq> [] \<and> int (length g) \<le> batchSize) \<and>
   length (BatchConcurrent_loop batchSize things i) = nat ((int (length things) - i + batchSize - 1) div batchSize)"
proof (induction batchSize things i rule: BatchConcurrent_loop.induct)
  case (1 batchSize things i)
  show ?case
  proof (cases "i < int (length things)")
    case True
    have eq: "BatchConcurrent_loop batchSize things i =
        batch_group batchSize things i # BatchConcurrent_loop batchSize things (i + batchSize)"
      using True 1(2) by (subst BatchConcurrent_loop.simps) simp
    let ?n = "int (length things) - i - 1"
    have "(int (length things) - i + batchSize - 1) div batchSize = (?n + batchSize) div batchSize"
      by (simp add: algebra_simps)
    also have "\<dots> = ?n div batchSize + 1" by (rule div_add_self2) (use 1(2) in simp)
    finally have "nat ((int (length things) - i + batchSize - 1) div batchSize) = Suc (nat (?n div batchSize))"
      using True 1(2) by (simp add: pos_imp_zdiv_nonneg_iff Suc_nat_eq_nat_zadd1)
    moreover have "int (length things) - (i + batchSize) + batchSize - 1 = ?n" by simp
    ultimately show ?thesis using 1 True batch_group_size[OF 1(3) True 1(2)] by (simp add: eq)
  next
    case False
    then have "(int (length things) - i + batchSize - 1) div batchSize \<le> 0"
      using zdiv_mono1[of "int (length things) - i + batchSize - 1" "batchSize - 1" batchSize] 1(2)
      by (simp add: div_pos_pos_trivial)
    moreover have "BatchConcurrent_loop batchSize things i = []" using False by (subst BatchConcurrent_loop.simps) simp
    ultimately show ?thesis by simp
  qed
qed

section \<open>Buckets\<close>

definition result_items :: "assignResults \<Rightarrow> queueItem list" where
  "result_items r = map aqItem (asgAssigned r) @ map aqItem (asgBuffered r) @ map bqItem (asgBatched r) @
     asgUnassigned r @ asgTimedOut r @ map srItem (asgRateLimited r) @ map srItem (asgRateLimitedToMove r)"

lemma sort_result_items: "mset (result_items (sort_result now r out)) = mset (result_items out) + {#arItem r#}"
  by (auto simp: sort_result_def result_items_def Let_def split: option.split)

lemma sort_results_items: "mset (result_items (sort_results now res)) = mset (map arItem res)"
proof -
  have "mset (result_items (foldl (\<lambda>out r. sort_result now r out) out res)) = mset (result_items out) + mset (map arItem res)" for out
    by (induction res arbitrary: out) (simp_all add: sort_result_items)
  from this[of noResults] show ?thesis by (simp add: sort_results_def) (simp add: result_items_def noResults_def)
qed

lemma mset_concat_update:
  "distinct_keys acc \<Longrightarrow> mset (concat (map snd (AList.update k (mapList acc k @ [x]) acc))) = mset (concat (map snd acc)) + {#x#}"
proof (induction acc)
  case Nil
  then show ?case by (simp add: mapList_def)
next
  case (Cons y acc)
  obtain k' vs where y: "y = (k', vs)" by (cases y)
  show ?case
  proof (cases "k' = k")
    case True
    then show ?thesis using y by (simp add: mapList_def)
  next
    case False
    then have "mapList (y # acc) k = mapList acc k" using y by (simp add: mapList_def)
    then show ?thesis using Cons False y by simp
  qed
qed

lemma group_items_mset:
  "distinct_keys acc \<Longrightarrow> mset (concat (map snd (group_items qis acc))) = mset (concat (map snd acc)) + mset qis"
proof (induction qis acc rule: group_items.induct)
  case (2 qi qis acc)
  have d: "distinct_keys (AList.update (qiActionId qi) (mapList acc (qiActionId qi) @ [qi]) acc)" using 2(2) by simp
  show ?case using 2(1)[OF d] mset_concat_update[OF 2(2)] by simp
qed simp

lemma mset_concat_cong: "mset xss = mset yss \<Longrightarrow> mset (concat xss) = mset (concat yss)"
  by (simp only: mset_concat mset_map sum_mset_sum_list[symmetric])

text \<open>
  What \<open>tryAssign\<close> needs of the assignment of one batch: it returns in every state it may be called
  in, with one result per item, in order.
\<close>

locale batch_runner =
  fixes run :: "string \<Rightarrow> queueItem list \<Rightarrow> 's \<Rightarrow> (assignSingleResult list \<times> 's) option"
    and ok :: "'s \<Rightarrow> bool"
  assumes run_items: "ok s \<Longrightarrow> \<exists>res s'. run actionId qis s = Some (res, s') \<and> map arItem res = qis \<and> ok s'"
begin

lemma run_groups:
  "ok s \<Longrightarrow> \<exists>sent' s'. foldl (\<lambda>(errs :: unit list, st) group. (errs,
      do { (sent, s) \<leftarrow> st; (res, s') \<leftarrow> run actionId group s; Some (sent @ [sort_results now res], s') }))
      (errs, Some (sent, s)) groups = (errs, Some (sent', s')) \<and>
    mset (concat (map result_items sent')) = mset (concat (map result_items sent)) + mset (concat groups) \<and> ok s'"
proof (induction groups arbitrary: sent s)
  case (Cons g groups)
  obtain res s1 where r: "run actionId g s = Some (res, s1)" "map arItem res = g" "ok s1"
    using run_items[OF Cons.prems] by blast
  have "mset (result_items (sort_results now res)) = mset g" using sort_results_items[of now res] r(2) by simp
  then show ?case using Cons.IH[OF r(3), of "sent @ [sort_results now res]"] r(1) by (auto simp: ac_simps)
qed simp

lemma action_items:
  assumes "ok s"
  shows "\<exists>sent' s'. tryAssign_action run now actionId qis (sent, s) = Some (sent', s') \<and>
    mset (concat (map result_items sent')) = mset (concat (map result_items sent)) + mset qis \<and> ok s'"
proof -
  let ?t = "filter (\<lambda>qi. isTimedOut (now qi) qi) qis" and ?b = "filter (\<lambda>qi. \<not> isTimedOut (now qi) qi) qis"
  let ?sent = "sent @ [noResults\<lparr>asgTimedOut := ?t\<rparr>]"
  let ?fn = "\<lambda>group st. (None :: unit option,
      do { (sent, s) \<leftarrow> st; (res, s') \<leftarrow> run actionId group s; Some (sent @ [sort_results now res], s') })"
  let ?step = "\<lambda>(errs :: unit list, st) group. (errs,
      do { (sent, s) \<leftarrow> st; (res, s') \<leftarrow> run actionId group s; Some (sent @ [sort_results now res], s') })"
  obtain sent' s' where r: "foldl ?step ([], Some (?sent, s)) (BatchConcurrent 50 ?b) = ([], Some (sent', s'))"
    "mset (concat (map result_items sent')) = mset (concat (map result_items ?sent)) + mset (concat (BatchConcurrent 50 ?b))"
    "ok s'" using run_groups[OF assms] by blast
  have "snd (BatchLinear 50 ?b ?fn (Some (?sent, s))) = Some (sent', s')"
    unfolding BatchLinear_fold using r(1) by simp
  then have t: "tryAssign_action run now actionId qis (sent, s) = Some (sent', s')"
    by (simp add: tryAssign_action_def Let_def)
  have "mset ?t + mset ?b = mset qis" by (metis mset_filter multiset_partition)
  moreover have "mset (result_items (noResults\<lparr>asgTimedOut := ?t\<rparr>)) = mset ?t"
    by (simp add: result_items_def noResults_def)
  ultimately have "mset (concat (map result_items sent')) = mset (concat (map result_items sent)) + mset qis"
    using r(2) by (simp add: BatchConcurrent_concat)
  then show ?thesis using t r(3) by blast
qed

lemma groups_items:
  "ok s \<Longrightarrow> \<exists>sent' s'. tryAssign_groups run now groups (sent, s) = Some (sent', s') \<and>
    mset (concat (map result_items sent')) = mset (concat (map result_items sent)) + mset (concat (map snd groups)) \<and> ok s'"
proof (induction groups arbitrary: sent s)
  case (Cons g groups)
  obtain actionId qis where g: "g = (actionId, qis)" by (cases g)
  obtain sent1 s1 where a: "tryAssign_action run now actionId qis (sent, s) = Some (sent1, s1)"
    "mset (concat (map result_items sent1)) = mset (concat (map result_items sent)) + mset qis" "ok s1"
    using action_items[OF Cons.prems] by blast
  obtain sent2 s2 where b: "tryAssign_groups run now groups (sent1, s1) = Some (sent2, s2)"
    "mset (concat (map result_items sent2)) = mset (concat (map result_items sent1)) + mset (concat (map snd groups))" "ok s2"
    using Cons.IH[OF a(3)] by blast
  show ?case
    by (rule exI[of _ sent2], rule exI[of _ s2]) (simp add: g a(1,2) b)
qed simp

lemma tryAssign_items:
  assumes "ok s" "mset (order (group_items qis [])) = mset (group_items qis [])"
  shows "\<exists>sent s'. tryAssign run now order qis s = Some (sent, s') \<and>
    mset (concat (map result_items sent)) = mset qis \<and> ok s'"
proof -
  have "mset (concat (map snd (order (group_items qis [])))) = mset (concat (map snd (group_items qis [])))"
    by (rule mset_concat_cong) (simp add: assms(2))
  also have "\<dots> = mset qis" using group_items_mset[of "[]" qis] by simp
  finally have q: "mset (concat (map snd (order (group_items qis [])))) = mset qis" .
  obtain sent s' where "tryAssign_groups run now (order (group_items qis [])) ([], s) = Some (sent, s')"
    "mset (concat (map result_items sent)) = mset (concat (map result_items [])) + mset (concat (map snd (order (group_items qis []))))"
    "ok s'" using groups_items[OF assms(1)] by blast
  then show ?thesis unfolding tryAssign_def q by simp
qed

end

section \<open>What the run loop leaves of the results of a batch\<close>

definition outline :: "assignSingleResult \<Rightarrow> queueItem \<times> rateLimitResult option \<times> bool \<times> int option" where
  "outline r = (arItem r, arRateLimit r, arToBatch r, arReservation r)"

definition outlines :: "scheduler \<Rightarrow> nat \<Rightarrow> (queueItem \<times> rateLimitResult option \<times> bool \<times> int option) list option" where
  "outlines s i = map_option (\<lambda>b. map outline (baRes b)) (batches s i)"

lemma outline_simps [simp]:
  "outline (r\<lparr>arNoSlots := x\<rparr>) = outline r"
  "outline (r\<lparr>arAckId := k, arWorkerId := w, arSucceeded := y\<rparr>) = outline r"
  by (simp_all add: outline_def)

lemma assignSingleton_outline:
  "assignSingleton actionId a r labels req now s = Some (r', s') \<Longrightarrow> outline r' = outline r"
  by (auto simp: assignSingleton_def Let_def split: prod.splits if_splits option.splits Option.bind_splits)

lemma miss_loop_outline: "miss_loop b rs s = (rs', s') \<Longrightarrow> map outline rs' = map outline rs"
  by (induction b rs s arbitrary: rs' s' rule: miss_loop.induct) (auto split: prod.splits if_splits)

lemma assign_loop_outline: "assign_loop b now rs s = Some (rs', s') \<Longrightarrow> map outline rs' = map outline rs"
proof (induction rs arbitrary: rs' s s')
  case (Cons r rs)
  show ?case
  proof (cases "arToBatch r \<or> arRateLimit r \<noteq> None \<or> arSucceeded r")
    case True
    then obtain rs1 where "assign_loop b now rs s = Some (rs1, s')" "rs' = r # rs1"
      using Cons.prems by (auto simp: bind_eq_Some_conv)
    then show ?thesis using Cons.IH by simp
  next
    case False
    then obtain a r1 s1 rs1 where "assignSingleton (baActionId b) a r (labelsFor b (arItem r))
        (requestsFor b (arItem r)) now s = Some (r1, s1)" "assign_loop b now rs s1 = Some (rs1, s')" "rs' = r1 # rs1"
      using Cons.prems by (auto simp: bind_eq_Some_conv split: option.splits)
    then show ?thesis using Cons.IH assignSingleton_outline by simp
  qed
qed simp

lemma handleAssignBatch_outline:
  "handleAssignBatch b now s = Some (rs, s') \<Longrightarrow> map outline rs = map outline (baRes b)"
  unfolding handleAssignBatch_def
  by (auto split: option.splits if_splits dest: assign_loop_outline miss_loop_outline[OF sym[OF sym]])

lemma finishBatch_outlines [simp]: "outlines (finishBatch i reason s) = outlines s"
  by (auto simp: outlines_def finishBatch_def fun_eq_iff split: option.split)

lemma attempt_outlines:
  assumes "sched_inv s" "attempt i isRetry now s = Some s'"
  shows "outlines s' = outlines s"
proof (cases "batches s i")
  case None
  then show ?thesis using assms(2) by (simp add: attempt_def)
next
  case (Some b)
  obtain rs s1 where h: "handleAssignBatch b now s = Some (rs, s1)" "batches s1 = batches s"
    using handleAssignBatch_ok[OF assms(1) sched_invD(8)[OF assms(1) Some]] by blast
  have "outlines (s1\<lparr>batches := (batches s)(i \<mapsto> b\<lparr>baRes := rs\<rparr>), afterReplenish := ar\<rparr>) = outlines s"
    and "outlines (s1\<lparr>batches := (batches s)(i \<mapsto> b\<lparr>baRes := rs\<rparr>)\<rparr>) = outlines s" for ar
    using handleAssignBatch_outline[OF h(1)] Some by (auto simp: outlines_def fun_eq_iff)
  then show ?thesis using assms(2) h Some
    by (auto simp: attempt_def Let_def split: if_splits)
qed

lemma retryParked_outlines:
  assumes "sched_inv s" "retryParked i now s = Some s'"
  shows "outlines s' = outlines s"
proof (cases "\<exists>b. batches s i = Some b \<and> baFinished b = None")
  case False
  then show ?thesis using assms(2) by (auto simp: retryParked_def split: option.splits if_splits)
next
  case True
  then obtain b where b: "batches s i = Some b" "baFinished b = None" by blast
  let ?b = "b\<lparr>baRes := map (\<lambda>r. if isMiss r then r\<lparr>arNoSlots := False\<rparr> else r) (baRes b)\<rparr>"
  let ?s = "s\<lparr>batches := (batches s)(i \<mapsto> ?b)\<rparr>"
  have "batch_ok b'" if "batches ?s j = Some b'" for j b'
    using that sched_invD(8)[OF assms(1) b(1)] sched_invD(8)[OF assms(1), of j b']
    by (auto simp: batch_ok_def split: if_splits)
  then have "sched_inv ?s" using sched_inv_batches[OF assms(1), of "batches ?s" "afterReplenish s"] by simp
  moreover have "attempt i True now ?s = Some s'" using assms(2) b by (simp add: retryParked_def)
  ultimately have "outlines s' = outlines ?s" by (rule attempt_outlines)
  moreover have "outlines ?s = outlines s" using b by (auto simp: outlines_def fun_eq_iff)
  ultimately show ?thesis by simp
qed

lemma retry_loop_outlines:
  "sched_inv s \<Longrightarrow> retry_loop clock is s = Some s' \<Longrightarrow> outlines s' = outlines s"
proof (induction "is" arbitrary: s)
  case (Cons i "is")
  obtain s1 where s1: "retryParked i (clock i) s = Some s1" "retry_loop clock is s1 = Some s'"
    using Cons.prems(2) by (auto simp: bind_eq_Some_conv)
  then have "sched_inv s1" using retryParked_ok[OF Cons.prems(1), of i "clock i"] grantsD(1) by fastforce
  then show ?case using Cons.IH s1 retryParked_outlines[OF Cons.prems(1) s1(1)] by metis
qed simp

lemma endReplenishCycle_outlines:
  assumes "sched_inv s" "endReplenishCycle clock s = Some s'"
  shows "outlines s' = outlines s"
proof -
  let ?s = "s\<lparr>replenishing := False, ackedDuringReplenish := None, afterReplenish := []\<rparr>"
  have "sched_inv ?s" using assms(1) unfolding sched_inv_def by simp
  then have "outlines s' = outlines ?s" using assms(2) unfolding endReplenishCycle_def by (rule retry_loop_outlines)
  then show ?thesis by (simp add: outlines_def fun_eq_iff)
qed

section \<open>One batch\<close>

text \<open>
  An environment keeps the contract when the requests read from the database ask for something and
  what the loop runs while a batch is parked keeps the invariant and the results of the batches.
\<close>

definition env_ok :: "'e assignEnv \<Rightarrow> bool" where
  "env_ok env \<longleftrightarrow> (\<forall>(_, req)\<in>set (aeRequests env). req = [] \<or> request_ok req) \<and>
     (\<forall>s. sched_inv s \<longrightarrow> sched_inv (aeMeanwhile env s) \<and> outlines (aeMeanwhile env s) = outlines s)"

lemma rate_limit_loop_items: "map arItem (fst (rate_limit_loop env limits i rs rl)) = map arItem rs"
  by (induction rs arbitrary: i rl) (simp_all add: Let_def case_prod_beta)

lemma prepare_items: "map arItem (fst (tryAssignBatch_prepare env limits config qis rl)) = qis"
proof -
  have m: "arItem (mark_toBatch config r) = arItem r" for r by (simp add: mark_toBatch_def)
  have n: "arItem (newSingleResult qi) = qi" for qi by (simp add: newSingleResult_def)
  show ?thesis
    using rate_limit_loop_items[of env limits 0 "map newSingleResult qis" rl]
    by (simp add: tryAssignBatch_prepare_def comp_def m n case_prod_beta)
qed

lemma collect_outline: "map outline (fst (tryAssignBatch_collect assigned res rl)) = map outline res"
  by (auto simp: tryAssignBatch_collect_def Let_def)

lemma outline_items: "map outline xs = map outline ys \<Longrightarrow> map arItem xs = map arItem ys"
proof -
  have "map arItem zs = map fst (map outline zs)" for zs by (simp add: outline_def)
  then show "map outline xs = map outline ys \<Longrightarrow> map arItem xs = map arItem ys" by metis
qed

lemma wakeParked_ok:
  assumes "env_ok env" "sched_inv s"
  shows "\<exists>assigned s'. wakeParked env i s = Some (assigned, s') \<and> sched_inv s' \<and> outlines s' = outlines s"
proof -
  have m: "sched_inv (aeMeanwhile env s)" "outlines (aeMeanwhile env s) = outlines s"
    using assms unfolding env_ok_def by blast+
  obtain s1 where e: "endReplenishCycle (aeClock env) (aeMeanwhile env s) = Some s1"
    "grants ((aeMeanwhile env s)\<lparr>replenishing := False, ackedDuringReplenish := None, afterReplenish := []\<rparr>) s1"
    using endReplenishCycle_ok[OF m(1), of "aeClock env"] by blast
  have "sched_inv s1" "outlines s1 = outlines s"
    using grantsD(1)[OF e(2)] endReplenishCycle_outlines[OF m(1) e(1)] m(2) by simp_all
  moreover have "sched_inv (finishBatch i ''timeout'' (aeMeanwhile env s))"
    using grantsD(1)[OF finishBatch_grants[OF grants_refl[OF m(1)]]] .
  ultimately show ?thesis using e(1) m(2) assms(2) by (cases "aeWake env") (auto simp: wakeParked_def)
qed

lemma tryAssignBatch_ok:
  assumes env: "env_ok env" and inv: "sched_inv s"
  shows "\<exists>res rl' s'. tryAssignBatch env i actionId qis (rl, s) = Some (res, rl', s') \<and>
    map outline res = map outline (fst (tryAssignBatch_prepare (aeUse env) (aeLimits env) (aeBatchConfig env) qis rl)) \<and>
    rl' = release_loop res (snd (tryAssignBatch_prepare (aeUse env) (aeLimits env) (aeBatchConfig env) qis rl)) \<and>
    sched_inv s'"
proof -
  obtain res0 rl1 where p: "tryAssignBatch_prepare (aeUse env) (aeLimits env) (aeBatchConfig env) qis rl = (res0, rl1)"
    by fastforce
  have c: "map outline (fst (tryAssignBatch_collect b res rl1)) = map outline res"
    "snd (tryAssignBatch_collect b res rl1) = release_loop (fst (tryAssignBatch_collect b res rl1)) rl1" for b res
    by (rule collect_outline) (simp add: tryAssignBatch_collect_def Let_def)
  show ?thesis
  proof (cases "aeEnqueued env")
    case False
    then show ?thesis using p c[of False res0] inv by (cases "tryAssignBatch_collect False res0 rl1") (simp add: tryAssignBatch_def)
  next
    case True
    let ?b = "\<lparr>baActionId = actionId, baRes = res0, baLabels = aeLabels env,
      baRequests = aeRequests env, baOverrides = aeOverrides env, baFinished = None\<rparr>"
    let ?s = "s\<lparr>batches := (batches s)(i \<mapsto> ?b)\<rparr>"
    have "batch_ok ?b" using env unfolding batch_ok_def env_ok_def by simp
    then have "batch_ok b'" if "batches ?s j = Some b'" for j b'
      using that sched_invD(8)[OF inv, of j b'] by (simp split: if_splits)
    then have inv1: "sched_inv ?s" using sched_inv_batches[OF inv, of "batches ?s" "afterReplenish s"] by simp
    obtain s1 where a: "attempt i False (aeNow env) ?s = Some s1" "grants ?s s1" using attempt_ok[OF inv1] by blast
    note inv2 = grantsD(1)[OF a(2)]
    have o1: "outlines s1 i = Some (map outline res0)"
      using attempt_outlines[OF inv1 a(1)] by (simp add: outlines_def)
    then obtain b1 where b1: "batches s1 i = Some b1" by (auto simp: outlines_def)
    obtain assigned s2 where w: "(if baFinished b1 \<noteq> None then Some (True, s1) else wakeParked env i s1) = Some (assigned, s2)"
      "sched_inv s2" "outlines s2 = outlines s1"
      using wakeParked_ok[OF env inv2, of i] inv2 by (cases "baFinished b1 \<noteq> None") auto
    obtain b2 where b2: "batches s2 i = Some b2" "map outline (baRes b2) = map outline res0"
      using o1[folded w(3)] by (auto simp: outlines_def)
    obtain res rl2 where r: "tryAssignBatch_collect assigned (baRes b2) rl1 = (res, rl2)" by fastforce
    have "tryAssignBatch env i actionId qis (rl, s) = Some (res, rl2, s2)"
      unfolding tryAssignBatch_def prod.case p using True a(1) b1 w(1) b2(1) r by simp
    moreover have "map outline res = map outline res0" "rl2 = release_loop res rl1"
      using c[of assigned "baRes b2"] r b2(2) by simp_all
    ultimately show ?thesis using p w(2) by simp
  qed
qed

definition runner_ok :: "(nat \<Rightarrow> 'e assignEnv) \<Rightarrow> nat \<times> rateLimiter \<times> scheduler \<Rightarrow> bool" where
  "runner_ok env st \<longleftrightarrow> (\<forall>i. env_ok (env i)) \<and> sched_inv (snd (snd st))"

interpretation batch_calls: batch_runner "runBatch env" "runner_ok env"
proof
  fix actionId qis and st :: "nat \<times> rateLimiter \<times> scheduler"
  assume ok: "runner_ok env st"
  obtain i rl s where st: "st = (i, rl, s)" by (cases st)
  have "env_ok (env i)" "sched_inv s" using ok st by (simp_all add: runner_ok_def)
  then obtain res rl' s' where t: "tryAssignBatch (env i) i actionId qis (rl, s) = Some (res, rl', s')"
    "map outline res = map outline (fst (tryAssignBatch_prepare (aeUse (env i)) (aeLimits (env i)) (aeBatchConfig (env i)) qis rl))"
    "sched_inv s'" using tryAssignBatch_ok by blast
  have "map arItem res = qis" using outline_items[OF t(2)] by (simp add: prepare_items)
  then show "\<exists>res s'. runBatch env actionId qis st = Some (res, s') \<and> map arItem res = qis \<and> runner_ok env s'"
    using t(1,3) ok st by (simp add: runBatch_def runner_ok_def)
qed

section \<open>Reservations of a batch\<close>

lemma flush_unacked: "unacked (snd (flush db clk st r)) = unacked r"
proof -
  obtain err r' where f: "flush db clk st r = (err, r')" by fastforce
  then have "unacked r' = unacked r" by (cases rule: flush_cases) simp_all
  then show ?thesis using f by simp
qed

lemma use_sync_unacked:
  "use_sync env rls r = Inl r1 \<Longrightarrow> unacked r1 = unacked r" "use_sync env rls r = Inr r1 \<Longrightarrow> unacked r1 = unacked r"
  using flush_unacked[of "envFlush env" "envFlushClock env" None r]
  by (auto simp: use_sync_def rl_flushToDatabase_def split: if_splits prod.splits option.splits)

lemma use_refresh_unacked:
  "use_refresh env rls r = Inl r1 \<Longrightarrow> unacked r1 = unacked r" "use_refresh env rls r = Inr r1 \<Longrightarrow> unacked r1 = unacked r"
  using flush_unacked[of "envRefresh env" "envRefreshClock env" _ r]
  by (auto simp: use_refresh_def rl_refresh_def split: option.splits prod.splits) (metis snd_conv)+

lemma addToUnacked_dom: "rls \<noteq> [] \<Longrightarrow> dom (map_of (unacked (addToUnacked task rls r))) = insert task (dom (map_of (unacked r)))"
proof (induction task rls r rule: addToUnacked.induct)
  case (2 task k v rls r)
  then show ?case by (cases "rls = []") (auto simp: Let_def)
qed simp

lemma use_unacked:
  assumes "rl_use env task rls r = (res, r')" "rls \<noteq> []"
  shows "if rlSucceeded res
         then rlCallbacks res = Some task \<and> dom (map_of (unacked r')) = insert task (dom (map_of (unacked r)))
         else unacked r' = unacked r"
proof (cases "use_sync env rls r")
  case (Inl r1)
  then show ?thesis using assms(1) use_sync_unacked(1)[OF Inl] by (auto simp: rl_use_def emptyResult_def)
next
  case r1: (Inr r1)
  show ?thesis
  proof (cases "use_refresh env rls r1")
    case (Inl r2)
    then show ?thesis using assms(1) r1 use_sync_unacked(2)[OF r1] use_refresh_unacked(1)[OF Inl]
      by (auto simp: rl_use_def emptyResult_def)
  next
    case (Inr r2)
    have u: "unacked r2 = unacked r" using use_sync_unacked(2)[OF r1] use_refresh_unacked(2)[OF Inr] by simp
    show ?thesis
    proof (cases "use_check (envNow env) task rls r2")
      case None
      then show ?thesis using assms r1 Inr u addToUnacked_dom[OF assms(2), of task r2]
        by (auto simp: rl_use_def use_granted_def)
    next
      case (Some x)
      then show ?thesis using assms r1 Inr u use_check_refuses[OF Some] by (auto simp: rl_use_def)
    qed
  qed
qed

text \<open>The reservations that the results of a batch carry.\<close>

definition reservedBy :: "assignSingleResult list \<Rightarrow> int set" where
  "reservedBy rs = {t. \<exists>r\<in>set rs. arReservation r = Some t}"

definition limits_of :: "(int \<times> rateLimitUnits) list \<Rightarrow> queueItem \<Rightarrow> rateLimitUnits" where
  "limits_of limits qi = (case map_of limits (qiTaskId qi) of None \<Rightarrow> [] | Some units \<Rightarrow> units)"

lemma reservedBy_simps [simp]:
  "reservedBy [] = {}" "reservedBy (r # rs) = set_option (arReservation r) \<union> reservedBy rs"
  by (auto simp: reservedBy_def)

text \<open>An item was refused, or holds a reservation exactly when it has limits.\<close>

definition priced :: "(int \<times> rateLimitUnits) list \<Rightarrow> assignSingleResult \<Rightarrow> bool" where
  "priced limits r \<longleftrightarrow> (case arRateLimit r of
     None \<Rightarrow> arReservation r = (if limits_of limits (arItem r) = [] then None else Some (qiTaskId (arItem r)))
   | Some _ \<Rightarrow> arReservation r = None \<and> limits_of limits (arItem r) \<noteq> [])"

lemma rate_limit_loop_priced:
  "\<forall>r\<in>set rs. arReservation r = None \<and> arRateLimit r = None \<Longrightarrow> rate_limit_loop env limits i rs rl = (rs', rl') \<Longrightarrow>
   dom (map_of (unacked rl')) = dom (map_of (unacked rl)) \<union> reservedBy rs' \<and> (\<forall>r\<in>set rs'. priced limits r)"
proof (induction rs arbitrary: i rl rs' rl')
  case (Cons r rs)
  have fresh: "arReservation r = None" "arRateLimit r = None" using Cons.prems(1) by simp_all
  let ?l = "limits_of limits (arItem r)"
  obtain res rl0 where u: "rl_use (env i) (qiTaskId (arItem r)) ?l rl = (res, rl0)" by fastforce
  define r1 where "r1 = (if ?l = [] then r else if rlSucceeded res then r\<lparr>arReservation := rlCallbacks res\<rparr> else r\<lparr>arRateLimit := Some res\<rparr>)"
  define rl1 where "rl1 = (if ?l = [] then rl else rl0)"
  obtain rs2 rl2 where l: "rate_limit_loop env limits (Suc i) rs rl1 = (rs2, rl2)" by fastforce
  have eq: "rs' = r1 # rs2" "rl' = rl2"
    using Cons.prems(2) u l by (auto simp: limits_of_def[symmetric] Let_def r1_def rl1_def split: if_splits)
  have "dom (map_of (unacked rl2)) = dom (map_of (unacked rl1)) \<union> reservedBy rs2" "\<forall>r\<in>set rs2. priced limits r"
    using Cons.IH[OF _ l] Cons.prems(1) by simp_all
  moreover have "dom (map_of (unacked rl1)) = dom (map_of (unacked rl)) \<union> set_option (arReservation r1)"
    using use_unacked[OF u] fresh by (auto simp: rl1_def r1_def split: if_splits)
  moreover have "priced limits r1"
    using use_unacked[OF u] fresh by (auto simp: r1_def priced_def split: if_splits)
  ultimately show ?case by (auto simp: eq)
qed simp

lemma release_loop_dom:
  "dom (map_of (unacked (release_loop rs rl))) = dom (map_of (unacked rl)) - reservedBy (filter isMiss rs)"
proof (induction rs arbitrary: rl)
  case (Cons r rs)
  have "dom (map_of (unacked (rl_nack t rl))) = dom (map_of (unacked rl)) - {t}" for t rl
    by (auto simp: rl_nack_def)
  then show ?case using Cons.IH by (auto simp: isMiss_def split: option.split)
qed simp

lemma priced_outline: "outline r = outline r' \<Longrightarrow> priced limits r = priced limits r'"
  by (auto simp: outline_def priced_def split: option.split)

lemma priced_map: "map outline xs = map outline ys \<Longrightarrow> \<forall>r\<in>set ys. priced limits r \<Longrightarrow> \<forall>r\<in>set xs. priced limits r"
proof (induction xs arbitrary: ys)
  case (Cons x xs)
  then obtain y zs where "ys = y # zs" "outline x = outline y" "map outline xs = map outline zs" by (cases ys) auto
  then show ?case using Cons.IH[of zs] Cons.prems(2) priced_outline[of x y] by simp
qed simp

lemma reservedBy_map: "map outline xs = map outline ys \<Longrightarrow> reservedBy xs = reservedBy ys"
proof (induction xs arbitrary: ys)
  case (Cons x xs)
  then obtain y zs where "ys = y # zs" "outline x = outline y" "map outline xs = map outline zs" by (cases ys) auto
  moreover have "arReservation x = arReservation y" using \<open>outline x = outline y\<close> by (simp add: outline_def)
  ultimately show ?case using Cons.IH[of zs] by simp
qed simp

lemma priced_own:
  "\<forall>r\<in>set rs. priced limits r \<Longrightarrow> r \<in> set rs \<Longrightarrow> arReservation r = Some t \<Longrightarrow> t = qiTaskId (arItem r)"
  by (auto simp: priced_def split: option.splits if_splits)

lemma reservedBy_kept:
  assumes inj: "inj_on (\<lambda>r. qiTaskId (arItem r)) (set rs)" and pr: "\<forall>r\<in>set rs. priced limits r"
  shows "reservedBy rs - reservedBy (filter isMiss rs) =
    {t. \<exists>r\<in>set rs. arReservation r = Some t \<and> (arSucceeded r \<or> arToBatch r)}"
proof -
  have "t \<notin> reservedBy (filter isMiss rs) \<longleftrightarrow> arSucceeded r \<or> arToBatch r"
    if r: "r \<in> set rs" "arReservation r = Some t" for r t
  proof -
    have "t \<in> reservedBy (filter isMiss rs) \<longleftrightarrow> isMiss r"
    proof
      assume "t \<in> reservedBy (filter isMiss rs)"
      then obtain r' where r': "r' \<in> set rs" "isMiss r'" "arReservation r' = Some t" by (auto simp: reservedBy_def)
      then show "isMiss r" using inj_onD[OF inj _ r'(1) r(1)] priced_own[OF pr r'(1,3)] priced_own[OF pr r] by simp
    next
      assume "isMiss r"
      then show "t \<in> reservedBy (filter isMiss rs)" using r by (auto simp: reservedBy_def)
    qed
    moreover have "isMiss r \<longleftrightarrow> \<not> (arSucceeded r \<or> arToBatch r)"
      using pr r by (auto simp: isMiss_def priced_def split: option.splits)
    ultimately show ?thesis by simp
  qed
  then show ?thesis unfolding reservedBy_def[of rs] by blast
qed

lemma sort_result_batched: "set (asgBatched out) \<subseteq> set (asgBatched (sort_result now r out))"
  by (auto simp: sort_result_def Let_def split: option.split)

lemma sort_results_batched:
  assumes "r \<in> set res" "arToBatch r"
  shows "\<lparr>bqItem = arItem r, bqReservation = arReservation r\<rparr> \<in> set (asgBatched (sort_results now res))"
proof -
  let ?b = "\<lparr>bqItem = arItem r, bqReservation = arReservation r\<rparr>" and ?f = "foldl (\<lambda>out r. sort_result now r out)"
  have kept: "?b \<in> set (asgBatched out) \<Longrightarrow> ?b \<in> set (asgBatched (?f out rs))" for out rs
  proof (induction rs arbitrary: out)
    case (Cons x rs)
    then show ?case using sort_result_batched[of out now x] Cons.IH[of "sort_result now x out"] by auto
  qed simp
  have "r \<in> set rs \<Longrightarrow> ?b \<in> set (asgBatched (?f out rs))" for rs out
  proof (induction rs arbitrary: out)
    case (Cons x rs)
    have "?b \<in> set (asgBatched (sort_result now r out))" using assms(2) by (simp add: sort_result_def)
    then show ?case using kept[of "sort_result now r out" rs] Cons by auto
  qed simp
  then show ?thesis using assms(1) by (simp add: sort_results_def)
qed

lemma prepare_priced:
  assumes "tryAssignBatch_prepare env limits config qis rl = (res, rl')"
  shows "dom (map_of (unacked rl')) = dom (map_of (unacked rl)) \<union> reservedBy res" "\<forall>r\<in>set res. priced limits r"
    "\<forall>r\<in>set res. arToBatch r \<longleftrightarrow> map_of config (qiStepId (arItem r)) = Some True"
proof -
  obtain rs where l: "rate_limit_loop env limits 0 (map newSingleResult qis) rl = (rs, rl')"
    and res: "res = map (mark_toBatch config) rs"
    using assms by (auto simp: tryAssignBatch_prepare_def split: prod.splits)
  have p: "priced limits (mark_toBatch config r) = priced limits r" for r
    by (simp add: priced_def mark_toBatch_def split: option.split)
  have m: "arReservation (mark_toBatch config r) = arReservation r" for r by (simp add: mark_toBatch_def)
  have "reservedBy res = reservedBy rs" unfolding res by (induction rs) (simp_all add: m)
  then show "dom (map_of (unacked rl')) = dom (map_of (unacked rl)) \<union> reservedBy res" "\<forall>r\<in>set res. priced limits r"
    using rate_limit_loop_priced[OF _ l] res p by (auto simp: newSingleResult_def)
  have "\<forall>r\<in>set rs. \<not> arToBatch r"
  proof -
    have "\<forall>r\<in>set rs. \<not> arToBatch r \<Longrightarrow> \<forall>r\<in>set (fst (rate_limit_loop env limits i rs rl)). \<not> arToBatch r" for i rs rl
      by (induction rs arbitrary: i rl) (simp_all add: Let_def case_prod_beta)
    from this[of "map newSingleResult qis" 0 rl] show ?thesis using l by (simp add: newSingleResult_def)
  qed
  then show "\<forall>r\<in>set res. arToBatch r \<longleftrightarrow> map_of config (qiStepId (arItem r)) = Some True"
    by (auto simp: res mark_toBatch_def)
qed

section \<open>Properties\<close>

text \<open>
  \<open>BatchLinear\<close> ends: for a positive size it calls the function on as many groups as the
  length divided by the size, rounded up, one after the other and whatever it returns; no group is
  empty or longer than the size, and together they are the slice in its order. The groups are those
  \<open>BatchConcurrent\<close> starts. For a size that is not positive neither calls the function.
\<close>

theorem BatchLinear_visits_groups:
  assumes "groups = BatchConcurrent batchSize things"
  shows "BatchLinear batchSize things fn s = foldl (\<lambda>(errs, s) group. case fn group s of
        (err, s') \<Rightarrow> ((case err of None \<Rightarrow> errs | Some e \<Rightarrow> errs @ [e]), s')) ([], s) groups \<and>
    (if batchSize \<le> 0 then groups = []
     else concat groups = things \<and> (\<forall>g\<in>set groups. g \<noteq> [] \<and> int (length g) \<le> batchSize) \<and>
       int (length groups) = (int (length things) + batchSize - 1) div batchSize)"
proof (cases "batchSize \<le> 0")
  case True
  then show ?thesis using assms by (simp add: BatchLinear_fold BatchConcurrent_def)
next
  case False
  then have "0 \<le> (int (length things) + batchSize - 1) div batchSize" by (simp add: pos_imp_zdiv_nonneg_iff)
  then show ?thesis
    using assms False BatchConcurrent_loop_sizes[of batchSize 0 things] BatchConcurrent_concat[of batchSize things]
    by (simp add: BatchLinear_fold) (simp add: BatchConcurrent_def)
qed

theorem BatchLinear_visits_groups_witness:
  "concat (BatchConcurrent 2 [1, 2, 3, 4, 5 :: nat]) = [1, 2, 3, 4, 5] \<and> length (BatchConcurrent 2 [1, 2, 3, 4, 5 :: nat]) = 3"
  using BatchLinear_visits_groups[OF refl, of 2 "[1, 2, 3, 4, 5 :: nat]" "\<lambda>_ s. (None :: unit option, s)" "()"] by simp

text \<open>The environment of the witnesses: the limiter of the examples, one step that is batched.\<close>

definition try_env :: "(uuid \<times> bool) list \<Rightarrow> int \<Rightarrow> unit assignEnv" where
  "try_env config units = \<lparr>aeUse = (\<lambda>_. example_env 3 None 2), aeLimits = [(1, [(''api'', units)])],
     aeBatchConfig = config, aeLabels = [], aeRequests = [], aeOverrides = [], aeEnqueued = True, aeNow = 0,
     aeMeanwhile = id, aeWake = CycleEnds, aeClock = (\<lambda>_. 0)\<rparr>"

lemma try_env_ok: "env_ok (try_env config units)"
  by (simp add: env_ok_def try_env_def)

abbreviation try_item :: "int \<Rightarrow> queueItem" where
  "try_item task \<equiv> example_item task STICKY_NONE None"

abbreviation try_sched :: scheduler where
  "try_sched \<equiv> sys_sched [] 0 False 0 [] 1 (\<lambda>_. None)"

lemma try_sched_inv: "sched_inv try_sched"
  by (simp add: sched_inv_def sys_sched_def newScheduler_def mem_ok_def pools_index_def typesOf_def sys_mem_def sys_key_def
      slotsOf_def emptyMem_def pool_ok_def)

text \<open>
  C6. Assigning the items of a queue loses none and duplicates none: \<open>tryAssign\<close> returns, and the
  buckets of all results it sends, put together, hold exactly the items it was given, however the
  actions are ordered, whatever the rate limiter and the database answer, and whether the batches are
  assigned at once, parked, timed out or cut off by a shutdown.
\<close>

theorem tryAssign_partitions:
  assumes "\<And>j. env_ok (env j)" "sched_inv s" "mset (order (group_items qis [])) = mset (group_items qis [])"
  shows "\<exists>sent i' rl' s'. tryAssign (runBatch env) now order qis (i, rl, s) = Some (sent, i', rl', s') \<and>
    mset (concat (map result_items sent)) = mset qis \<and> sched_inv s'"
proof -
  have "runner_ok env (i, rl, s)" using assms(1,2) by (simp add: runner_ok_def)
  from batch_calls.tryAssign_items[where order = order and qis = qis and now = now, OF this assms(3)]
  obtain sent st' where t: "tryAssign (runBatch env) now order qis (i, rl, s) = Some (sent, st')"
    "mset (concat (map result_items sent)) = mset qis" "runner_ok env st'" by blast
  obtain i' rl' s' where "st' = (i', rl', s')" by (cases st')
  then show ?thesis using t by (auto simp: runner_ok_def)
qed

theorem tryAssign_partitions_witness:
  "\<exists>sent i' rl' s'. tryAssign (runBatch (\<lambda>_. try_env [] 2)) (\<lambda>_. 0) rev [try_item 1, try_item 2]
       (0, example_limiter, try_sched) = Some (sent, i', rl', s') \<and>
     mset (concat (map result_items sent)) = {#try_item 1, try_item 2#} \<and> sched_inv s'"
  using tryAssign_partitions[of "\<lambda>_. try_env [] 2" try_sched rev "[try_item 1, try_item 2]" "\<lambda>_. 0" 0 example_limiter]
    try_env_ok[of "[]" 2] try_sched_inv by simp


text \<open>
  C35. A batched step is not held back by its rate limits: an item whose step is configured for
  batching lands among the items to move to the batched queue even when the limiter refused it, and
  it does so without a reservation, so its units are never charged.
\<close>

theorem batch_item_bypasses_rate_limit:
  assumes "env_ok env" "sched_inv s" "tryAssignBatch env i actionId qis (rl, s) = Some (res, rl', s')"
    and "r \<in> set res" "arRateLimit r \<noteq> None" "map_of (aeBatchConfig env) (qiStepId (arItem r)) = Some True"
  shows "\<lparr>bqItem = arItem r, bqReservation = None\<rparr> \<in> set (asgBatched (sort_results now res))"
proof -
  obtain res0 rl1 where p: "tryAssignBatch_prepare (aeUse env) (aeLimits env) (aeBatchConfig env) qis rl = (res0, rl1)"
    by fastforce
  have o: "map outline res = map outline res0"
    using tryAssignBatch_ok[OF assms(1,2), of i actionId qis rl] assms(3) p by simp
  obtain r0 where r0: "r0 \<in> set res0" "outline r0 = outline r"
    using assms(4) o by (metis (no_types) image_iff list.set_map)
  have "arToBatch r0" "priced (aeLimits env) r0"
    using prepare_priced(2,3)[OF p] r0 assms(6) by (auto simp: outline_def)
  then have r: "arToBatch r" "arReservation r = None"
    using r0(2) assms(5) by (auto simp: outline_def priced_def split: option.splits)
  then show ?thesis using sort_results_batched[OF assms(4) r(1), of now] by simp
qed

lemma try_prepare_refused:
  "\<exists>r. tryAssignBatch_prepare (aeUse (try_env [(1, True)] 5)) [(1, [(''api'', 5)])] [(1, True)] [try_item 1] example_limiter =
       ([r], example_limiter) \<and> arItem r = try_item 1 \<and> arRateLimit r \<noteq> None"
  by (simp add: tryAssignBatch_prepare_def newSingleResult_def example_item_def try_env_def mark_toBatch_def
      example_limiter_eq example_limiter_defs)

lemma try_prepare_granted:
  "\<exists>r. tryAssignBatch_prepare (aeUse (try_env [(1, True)] 2)) [(1, [(''api'', 2)])] [(1, True)] [try_item 1] example_limiter =
       ([r], addToUnacked 1 [(''api'', 2)] example_limiter) \<and> arReservation r = Some 1 \<and> arToBatch r"
  by (simp add: tryAssignBatch_prepare_def newSingleResult_def example_item_def try_env_def mark_toBatch_def
      example_limiter_eq example_limiter_defs)

lemma try_batch:
  assumes "tryAssignBatch_prepare (aeUse env) (aeLimits env) (aeBatchConfig env) qis rl = ([r0], rl1)" "env_ok env"
  shows "\<exists>r rl' s'. tryAssignBatch env 0 ''a'' qis (rl, try_sched) = Some ([r], rl', s') \<and> outline r = outline r0"
  using tryAssignBatch_ok[OF assms(2) try_sched_inv, of 0 "''a''" qis rl] assms(1) by auto


theorem batch_item_bypasses_rate_limit_witness:
  "\<exists>r rl' s'. tryAssignBatch (try_env [(1, True)] 5) 0 ''a'' [try_item 1] (example_limiter, try_sched) = Some ([r], rl', s') \<and>
     arRateLimit r \<noteq> None \<and> \<lparr>bqItem = try_item 1, bqReservation = None\<rparr> \<in> set (asgBatched (sort_results (\<lambda>_. 0) [r]))"
proof -
  let ?env = "try_env [(1, True)] 5"
  obtain r0 where r0: "tryAssignBatch_prepare (aeUse ?env) (aeLimits ?env) (aeBatchConfig ?env) [try_item 1] example_limiter =
      ([r0], example_limiter)" "arItem r0 = try_item 1" "arRateLimit r0 \<noteq> None"
    using try_prepare_refused by (auto simp: try_env_def)
  obtain r rl' s' where t: "tryAssignBatch ?env 0 ''a'' [try_item 1] (example_limiter, try_sched) = Some ([r], rl', s')"
    "outline r = outline r0" using try_batch[OF r0(1) try_env_ok] by blast
  have r: "arItem r = try_item 1" "arRateLimit r \<noteq> None" using t(2) r0(2,3) by (simp_all add: outline_def)
  have "map_of (aeBatchConfig ?env) (qiStepId (arItem r)) = Some True" by (simp add: r try_env_def example_item_def)
  then show ?thesis
    using batch_item_bypasses_rate_limit[OF try_env_ok try_sched_inv t(1) _ r(2), of "\<lambda>_. 0"] t(1) r by auto
qed

end
