(* ===== verification/Queue_Repository.thy ===== *)
theory Queue_Repository
  imports Try_Assign
begin

text \<open>
  Writing the outcome of an assignment to the database: \<open>MarkQueueItemsProcessed\<close> and
  \<open>markQueueItemsProcessed\<close> of \<open>src/pkg/repository/scheduler_queue.go\<close>. The SQL statements and the
  parser of step timeouts are the fields of a record of parameters.
\<close>

section \<open>Model\<close>

record rateLimitReport =
  rrItem :: queueItem
  rrExceededKey :: string
  rrExceededUnits :: int
  rrExceededVal :: int
  rrNextRefillAt :: "int option"
  rrPausedUntil :: "int option"
  rrTaskId :: int
  rrTaskInsertedAt :: "int option"
  rrRetryCount :: int

type_synonym taskIdRetryCount = "int \<times> int"

record assignedItem =
  aiWorkerId :: uuid
  aiItem :: queueItem
  aiIsAssignedLocally :: bool
  aiIsDurable :: bool

record assignOpts =
  aoAssigned :: "assignedItem list"
  aoBuffered :: "assignedItem list"
  aoBatched :: "queueItem list"
  aoUnassigned :: "queueItem list"
  aoTimedOut :: "queueItem list"
  aoRateLimited :: "rateLimitReport list"
  aoRateLimitedToMove :: "rateLimitReport list"

text \<open>A task as the statements get it: id, insertion time and retry count.\<close>

type_synonym taskKey = "int \<times> int option \<times> int"

record flushRow =
  frTaskId :: int
  frTaskInsertedAt :: "int option"
  frRetryCount :: int
  frWorkerId :: "uuid option"
  frIsDurable :: "bool option"

record 'e markQueries =
  mqParseTimeout :: "string \<Rightarrow> bool"
  mqFlushAssigned :: "(taskKey \<times> uuid) list \<Rightarrow> taskKey list \<Rightarrow> int option \<Rightarrow> 'e + flushRow list"
  mqMoveBatched :: "int list \<Rightarrow> 'e option"
  mqMoveRateLimited :: "(int \<times> int) list \<Rightarrow> 'e option"
  mqHoldPaused :: "taskKey list \<Rightarrow> 'e option"
  mqRelease :: "taskKey list \<Rightarrow> 'e option"
  mqInsertBuffered :: "taskKey list \<Rightarrow> 'e option"
  mqIncrement :: "(int \<times> int option) list \<Rightarrow> 'e option"

definition task_key :: "queueItem \<Rightarrow> taskKey" where
  "task_key qi = (qiTaskId qi, qiTaskInsertedAt qi, qiRetryCount qi)"

definition retry_key :: "queueItem \<Rightarrow> taskIdRetryCount" where
  "retry_key qi = (qiTaskId qi, qiRetryCount qi)"

text \<open>
  The loop over the assigned items: the map of the first copies, in the order in which the arrays of
  the statement are filled, and the items that fail at once.
\<close>

fun mark_assigned ::
  "(string \<Rightarrow> bool) \<Rightarrow> assignedItem list \<Rightarrow> (taskIdRetryCount \<times> assignedItem) list \<Rightarrow> assignedItem list \<Rightarrow>
    (taskIdRetryCount \<times> assignedItem) list \<times> assignedItem list" where
  "mark_assigned parses [] seen failed = (seen, failed)"
| "mark_assigned parses (a # as) seen failed =
     (if map_of seen (retry_key (aiItem a)) \<noteq> None then mark_assigned parses as seen (failed @ [a])
      else if \<not> parses (qiStepTimeout (aiItem a)) then mark_assigned parses as seen (failed @ [a])
      else mark_assigned parses as (seen @ [(retry_key (aiItem a), a)]) failed)"

fun min_inserted_at :: "int option \<Rightarrow> queueItem list \<Rightarrow> int option" where
  "min_inserted_at m [] = m"
| "min_inserted_at m (qi # qis) =
     min_inserted_at
       (case (qiTaskInsertedAt qi, m) of
          (Some t, None) \<Rightarrow> Some t
        | (Some t, Some t0) \<Rightarrow> if t < t0 then Some t else m
        | (None, _) \<Rightarrow> m) qis"

text \<open>The loop over the rows that came back.\<close>

record flushOutcome =
  foSucceeded :: "assignedItem list"
  foPending :: "(taskIdRetryCount \<times> assignedItem) list"
  foDeleted :: "taskIdRetryCount list"
  foIncrement :: "(int \<times> int option) list"

definition flushed_row :: "flushRow \<Rightarrow> flushOutcome \<Rightarrow> flushOutcome" where
  "flushed_row row out =
     (let key = (frTaskId row, frRetryCount row);
          out1 = out\<lparr>foDeleted := foDeleted out @ [key]\<rparr>
      in if frWorkerId row = None then out1
         else (case map_of (foPending out1) key of
                 None \<Rightarrow> out1
               | Some a \<Rightarrow>
                   let a1 = (case frIsDurable row of None \<Rightarrow> a | Some d \<Rightarrow> a\<lparr>aiIsDurable := d\<rparr>);
                       incr = (if frIsDurable row = Some True then [(frTaskId row, frTaskInsertedAt row)] else [])
                   in out1\<lparr>foSucceeded := foSucceeded out1 @ [a1],
                           foPending := AList.delete key (foPending out1),
                           foIncrement := foIncrement out1 @ incr\<rparr>))"

text \<open>
  The items to move to the table of rate limited items, with their refill times, and the tasks to
  hold until a pause ends. \<open>None\<close> is the nil dereference of a missing refill time.
\<close>

fun split_rate_limited :: "rateLimitReport list \<Rightarrow> ((int \<times> int) list \<times> taskKey list) option" where
  "split_rate_limited [] = Some ([], [])"
| "split_rate_limited (row # rows) =
     (if rrPausedUntil row \<noteq> None
      then do { (moved, held) \<leftarrow> split_rate_limited rows;
                Some (moved, (qiTaskId (rrItem row), rrTaskInsertedAt row, rrRetryCount row) # held) }
      else do { t \<leftarrow> rrNextRefillAt row; (moved, held) \<leftarrow> split_rate_limited rows;
                Some ((qiId (rrItem row), t) # moved, held) })"

text \<open>A statement that is run only when it has something to do.\<close>

definition unless_empty :: "('a list \<Rightarrow> 'e option) \<Rightarrow> 'a list \<Rightarrow> 'e option" where
  "unless_empty query xs = (if xs = [] then None else query xs)"

text \<open>Runs statements in order until one fails.\<close>

fun first_error :: "(unit \<Rightarrow> 'e option) list \<Rightarrow> 'e option" where
  "first_error [] = None"
| "first_error (query # queries) = (case query () of None \<Rightarrow> first_error queries | Some e \<Rightarrow> Some e)"

text \<open>The statements after the rows of the flush have been read.\<close>

definition mark_rest :: "'e markQueries \<Rightarrow> assignOpts \<Rightarrow> flushOutcome \<Rightarrow> 'e option option" where
  "mark_rest mq r out =
     (case unless_empty (mqMoveBatched mq) (map qiId (aoBatched r)) of
        Some e \<Rightarrow> Some (Some e)
      | None \<Rightarrow>
          do {
            (moved, held) \<leftarrow> split_rate_limited (aoRateLimitedToMove r);
            let buffered = filter (\<lambda>qi. retry_key qi \<in> set (foDeleted out)) (map aiItem (aoBuffered r));
            Some (first_error
              [\<lambda>_. unless_empty (mqMoveRateLimited mq) moved,
               \<lambda>_. mqHoldPaused mq held,
               \<lambda>_. unless_empty (mqRelease mq) (map task_key (aoTimedOut r)),
               \<lambda>_. unless_empty (mqInsertBuffered mq) (map task_key buffered),
               \<lambda>_. unless_empty (mqIncrement mq) (foIncrement out)])
          })"

definition markQueueItemsProcessed ::
  "'e markQueries \<Rightarrow> assignOpts \<Rightarrow> ('e + assignedItem list \<times> assignedItem list) option" where
  "markQueueItemsProcessed mq r =
     (case mark_assigned (mqParseTimeout mq) (aoAssigned r) [] [] of
        (seen, failed) \<Rightarrow>
          let assign = map (\<lambda>(_, a). (task_key (aiItem a), aiWorkerId a)) seen;
              remove = map task_key (aoTimedOut r) @ map (\<lambda>a. task_key (aiItem a)) (aoBuffered r);
              oldest = min_inserted_at None (map (\<lambda>(_, a). aiItem a) seen)
          in case (if assign = [] \<and> remove = [] then Inr []
                   else mqFlushAssigned mq assign remove oldest) of
               Inl e \<Rightarrow> Some (Inl e)
             | Inr rows \<Rightarrow>
                 let out = foldl (\<lambda>out row. flushed_row row out)
                             \<lparr>foSucceeded = [], foPending = seen, foDeleted = [], foIncrement = []\<rparr> rows
                 in do { err \<leftarrow> mark_rest mq r out;
                         Some (case err of
                                 Some e \<Rightarrow> Inl e
                               | None \<Rightarrow> Inr (foSucceeded out, failed @ map snd (foPending out))) })"

text \<open>In a transaction of its own; \<open>begin\<close> and \<open>commit\<close> are the errors of the two calls.\<close>

definition MarkQueueItemsProcessed ::
  "'e option \<Rightarrow> 'e option \<Rightarrow> 'e markQueries \<Rightarrow> assignOpts \<Rightarrow> ('e + assignedItem list \<times> assignedItem list) option" where
  "MarkQueueItemsProcessed beginErr commitErr mq r =
     (case beginErr of
        Some e \<Rightarrow> Some (Inl e)
      | None \<Rightarrow>
          do { res \<leftarrow> markQueueItemsProcessed mq r;
               Some (case res of
                       Inl e \<Rightarrow> Inl e
                     | Inr ok \<Rightarrow> (case commitErr of Some e \<Rightarrow> Inl e | None \<Rightarrow> Inr ok)) })"

section \<open>Every assigned item is reported once\<close>

definition plain :: "assignedItem \<Rightarrow> assignedItem" where
  "plain a = a\<lparr>aiIsDurable := False\<rparr>"

lemma plain_simps [simp]:
  "plain (a\<lparr>aiIsDurable := d\<rparr>) = plain a" "aiItem (plain a) = aiItem a" "aiWorkerId (plain a) = aiWorkerId a"
  by (simp_all add: plain_def)

lemma mark_assigned_mset:
  "mark_assigned parses as seen failed = (seen', failed') \<Longrightarrow>
   mset (map snd seen') + mset failed' = mset (map snd seen) + mset failed + mset as"
  by (induction parses as seen failed arbitrary: seen' failed' rule: mark_assigned.induct) (auto split: if_splits)

lemma mark_assigned_keys:
  "mark_assigned parses as seen failed = (seen', failed') \<Longrightarrow> distinct_keys seen \<Longrightarrow>
   \<forall>(k, a)\<in>set seen. k = retry_key (aiItem a) \<Longrightarrow>
   distinct_keys seen' \<and> (\<forall>(k, a)\<in>set seen'. k = retry_key (aiItem a))"
proof (induction parses as seen failed arbitrary: seen' failed' rule: mark_assigned.induct)
  case (2 parses a as seen failed)
  show ?case
  proof (cases "map_of seen (retry_key (aiItem a)) \<noteq> None \<or> \<not> parses (qiStepTimeout (aiItem a))")
    case True
    then show ?thesis using 2 by (auto split: if_splits)
  next
    case False
    then have "distinct_keys (seen @ [(retry_key (aiItem a), a)])"
      using 2(5) by (auto simp: distinct_keys_def map_of_eq_None_iff)
    then show ?thesis using 2(3)[of seen' failed'] 2(4,6) False by auto
  qed
qed simp

text \<open>What the loop over the rows keeps.\<close>

definition outcome_ok :: "assignedItem multiset \<Rightarrow> flushOutcome \<Rightarrow> bool" where
  "outcome_ok items out \<longleftrightarrow> distinct_keys (foPending out) \<and>
     (\<forall>(k, a)\<in>set (foPending out). k = retry_key (aiItem a)) \<and>
     image_mset plain (mset (foSucceeded out)) + image_mset plain (mset (map snd (foPending out))) = items \<and>
     distinct (map (\<lambda>a. retry_key (aiItem a)) (foSucceeded out)) \<and>
     (\<forall>a\<in>set (foSucceeded out). retry_key (aiItem a) \<notin> fst ` set (foPending out))"

lemma mset_delete:
  "distinct_keys m \<Longrightarrow> map_of m k = Some v \<Longrightarrow> mset (map snd m) = add_mset v (mset (map snd (AList.delete k m)))"
proof (induction m)
  case (Cons x m)
  obtain k' v' where x: "x = (k', v')" by (cases x)
  show ?case
  proof (cases "k' = k")
    case True
    then have "AList.delete k m = m" using Cons.prems(1) x by (simp add: delete_id)
    then show ?thesis using True x Cons.prems(2) by simp
  next
    case False
    then show ?thesis using Cons x by simp
  qed
qed simp

lemma flushed_row_ok: "outcome_ok items out \<Longrightarrow> outcome_ok items (flushed_row row out)"
proof -
  assume ok: "outcome_ok items out"
  let ?key = "(frTaskId row, frRetryCount row)"
  show ?thesis
  proof (cases "frWorkerId row = None \<or> map_of (foPending out) ?key = None")
    case True
    then have "foSucceeded (flushed_row row out) = foSucceeded out" "foPending (flushed_row row out) = foPending out"
      by (auto simp: flushed_row_def Let_def)
    then show ?thesis using ok by (simp add: outcome_ok_def)
  next
    case False
    then obtain a where a: "map_of (foPending out) ?key = Some a" and w: "frWorkerId row \<noteq> None" by auto
    define a1 where "a1 = (case frIsDurable row of None \<Rightarrow> a | Some d \<Rightarrow> a\<lparr>aiIsDurable := d\<rparr>)"
    have a1: "plain a1 = plain a" "aiItem a1 = aiItem a" by (simp_all add: a1_def split: option.split)
    have d: "distinct_keys (foPending out)" using ok by (simp add: outcome_ok_def)
    have k: "retry_key (aiItem a) = ?key" using ok map_of_SomeD[OF a] by (fastforce simp: outcome_ok_def)
    have key: "?key \<in> fst ` set (foPending out)" using map_of_SomeD[OF a] by force
    have s: "foSucceeded (flushed_row row out) = foSucceeded out @ [a1]"
      "foPending (flushed_row row out) = AList.delete ?key (foPending out)"
      using w a by (auto simp: flushed_row_def a1_def Let_def)
    have sub: "set (AList.delete ?key (foPending out)) \<subseteq> set (foPending out)" by (simp add: AList.delete_eq)
    show ?thesis
      unfolding outcome_ok_def s
    proof (intro conjI)
      show "distinct_keys (AList.delete ?key (foPending out))" using d by simp
      show "\<forall>(k, a)\<in>set (AList.delete ?key (foPending out)). k = retry_key (aiItem a)"
        using ok sub by (auto simp: outcome_ok_def)
      show "image_mset plain (mset (foSucceeded out @ [a1])) +
          image_mset plain (mset (map snd (AList.delete ?key (foPending out)))) = items"
        using ok mset_delete[OF d a] a1(1) by (simp add: outcome_ok_def)
      show "distinct (map (\<lambda>a. retry_key (aiItem a)) (foSucceeded out @ [a1]))"
        using ok key by (force simp: outcome_ok_def a1(2) k)
      show "\<forall>a\<in>set (foSucceeded out @ [a1]). retry_key (aiItem a) \<notin> fst ` set (AList.delete ?key (foPending out))"
        using ok sub by (auto simp: outcome_ok_def a1(2) k AList.delete_eq)
    qed
  qed
qed

lemma flushed_rows_ok: "outcome_ok items out \<Longrightarrow> outcome_ok items (foldl (\<lambda>out row. flushed_row row out) out rows)"
  by (induction rows arbitrary: out) (simp_all add: flushed_row_ok)

lemma split_rate_limited_returns:
  "\<forall>row\<in>set rows. rrPausedUntil row \<noteq> None \<or> rrNextRefillAt row \<noteq> None \<Longrightarrow> split_rate_limited rows \<noteq> None"
  by (induction rows) auto

lemma markQueueItemsProcessed_reports:
  assumes "markQueueItemsProcessed mq r = Some (Inr (succeeded, failed))"
  shows "mset (map plain succeeded) + mset (map plain failed) = mset (map plain (aoAssigned r)) \<and>
    distinct (map (\<lambda>a. retry_key (aiItem a)) succeeded)"
proof -
  obtain seen failed0 where m: "mark_assigned (mqParseTimeout mq) (aoAssigned r) [] [] = (seen, failed0)" by fastforce
  let ?out = "\<lambda>rows. foldl (\<lambda>out row. flushed_row row out) \<lparr>foSucceeded = [], foPending = seen, foDeleted = [], foIncrement = []\<rparr> rows"
  obtain rows where r: "succeeded = foSucceeded (?out rows)" "failed = failed0 @ map snd (foPending (?out rows))"
    using assms m by (auto simp: markQueueItemsProcessed_def Let_def bind_eq_Some_conv split: sum.splits option.splits)
  have "outcome_ok (image_mset plain (mset (map snd seen)))
      \<lparr>foSucceeded = [], foPending = seen, foDeleted = [], foIncrement = []\<rparr>"
    using mark_assigned_keys[OF m] by (simp add: outcome_ok_def)
  then have "outcome_ok (image_mset plain (mset (map snd seen))) (?out rows)" by (rule flushed_rows_ok)
  then have o: "image_mset plain (mset succeeded) + image_mset plain (mset (map snd (foPending (?out rows)))) =
      image_mset plain (mset (map snd seen))" "distinct (map (\<lambda>a. retry_key (aiItem a)) succeeded)"
    by (simp_all add: outcome_ok_def r(1))
  let ?P = "image_mset plain (mset (map snd (foPending (?out rows))))"
  have all: "image_mset plain (mset (map snd seen)) + image_mset plain (mset failed0) = mset (map plain (aoAssigned r))"
    using arg_cong[OF mark_assigned_mset[OF m], of "image_mset plain"] by simp
  have "mset (map plain succeeded) + mset (map plain failed) =
      image_mset plain (mset succeeded) + ?P + image_mset plain (mset failed0)"
    unfolding r(2) map_append mset_append mset_map by (simp only: ac_simps)
  also have "\<dots> = mset (map plain (aoAssigned r))" unfolding o(1) by (rule all)
  finally show ?thesis using o(2) by blast
qed

lemma MarkQueueItemsProcessed_reports:
  assumes "MarkQueueItemsProcessed beginErr commitErr mq r = Some (Inr (succeeded, failed))"
  shows "mset (map plain succeeded) + mset (map plain failed) = mset (map plain (aoAssigned r)) \<and>
    distinct (map (\<lambda>a. retry_key (aiItem a)) succeeded)"
proof (rule markQueueItemsProcessed_reports)
  show "markQueueItemsProcessed mq r = Some (Inr (succeeded, failed))"
    using assms
    by (cases beginErr; cases commitErr; cases "markQueueItemsProcessed mq r")
      (auto simp: MarkQueueItemsProcessed_def split: sum.splits)
qed

lemma mark_rest_returns:
  "\<forall>row\<in>set (aoRateLimitedToMove r). rrPausedUntil row \<noteq> None \<or> rrNextRefillAt row \<noteq> None \<Longrightarrow> mark_rest mq r out \<noteq> None"
  using split_rate_limited_returns[of "aoRateLimitedToMove r"]
  by (auto simp: mark_rest_def split: option.split)

lemma bind_Some_None [simp]: "Option.bind x (\<lambda>y. Some (f y)) = None \<longleftrightarrow> x = None"
  by (cases x) simp_all

lemma MarkQueueItemsProcessed_returns:
  assumes "\<forall>row\<in>set (aoRateLimitedToMove r). rrPausedUntil row \<noteq> None \<or> rrNextRefillAt row \<noteq> None"
  shows "MarkQueueItemsProcessed beginErr commitErr mq r \<noteq> None"
proof -
  have "markQueueItemsProcessed mq r \<noteq> None"
    using mark_rest_returns[OF assms]
    by (simp add: markQueueItemsProcessed_def Let_def del: not_None_eq split: prod.split sum.split) blast
  then show ?thesis by (simp add: MarkQueueItemsProcessed_def del: not_None_eq split: option.split)
qed

end
