(* ===== verification/Queuer.thy ===== *)
theory Queuer
  imports Queue_Repository "HOL-Library.Product_Lexorder"
begin

text \<open>
  The loop of one queue (\<open>src/pkg/scheduling/v1/queuer.go\<close>): its poll timer, the refill from the
  database, the items it has handed out and not got back, the assignment of a refill by the
  scheduler and the flush of the outcome, in the loop and inside an optimistic transaction. The
  loop is modelled by its ticks; its goroutines that flush run one after the other, in the order of
  the results. Times are in nanoseconds. Telemetry, metrics and logging are left out.
\<close>

section \<open>Model\<close>

subsection \<open>State\<close>

definition queuePollInterval :: int where
  "queuePollInterval = 1 * 1000000000"

definition emptyPollsBeforeBackoff :: int where
  "emptyPollsBeforeBackoff = 3"

definition maxQueuePollInterval :: int where
  "maxQueuePollInterval = 30 * 1000000000"

text \<open>
  \<open>quNotify\<close> is the buffer of one of \<open>notifyQueueCh\<close>, \<open>quTimer\<close> the duration the timer was last set
  to.
\<close>

record queuer =
  quLimit :: int
  quLastReplenished :: "int option"
  quNextRateLimitRequeueAt :: int
  quNotify :: bool
  quUnacked :: "int set"
  quUnassigned :: "(int \<times> queueItem) list"
  quConsecutiveEmptyPolls :: int
  quTimer :: int

definition newQueuer :: "int \<Rightarrow> queuer" where
  "newQueuer singleQueueLimit =
     \<lparr>quLimit = (if singleQueueLimit > 0 then singleQueueLimit else 100), quLastReplenished = None,
      quNextRateLimitRequeueAt = 0, quNotify = False, quUnacked = {}, quUnassigned = [],
      quConsecutiveEmptyPolls = 0, quTimer = 0\<rparr>"

text \<open>\<open>rnd\<close> is \<open>rand.N\<close>.\<close>

definition nextPollInterval :: "(int \<Rightarrow> int) \<Rightarrow> queuer \<Rightarrow> int" where
  "nextPollInterval rnd q =
     (let interval =
            (if quConsecutiveEmptyPolls q > emptyPollsBeforeBackoff
             then (let shift = quConsecutiveEmptyPolls q - emptyPollsBeforeBackoff;
                       shift = (if shift > 5 then 5 else shift);
                       interval = push_bit (nat shift) queuePollInterval
                   in if interval > maxQueuePollInterval then maxQueuePollInterval else interval)
             else queuePollInterval)
      in interval + rnd (interval div 2))"

definition resetTimer :: "(int \<Rightarrow> int) \<Rightarrow> queuer \<Rightarrow> queuer" where
  "resetTimer rnd q = q\<lparr>quTimer := nextPollInterval rnd q\<rparr>"

definition q_queue :: "queuer \<Rightarrow> queuer" where
  "q_queue q = q\<lparr>quNotify := True\<rparr>"

text \<open>\<open>requeued\<close> is the answer of \<open>RequeueRateLimitedItems\<close>.\<close>

definition requeueRateLimitedItems :: "int \<Rightarrow> 'f + int option \<Rightarrow> queuer \<Rightarrow> queuer" where
  "requeueRateLimitedItems now requeued q =
     (if now < quNextRateLimitRequeueAt q then q
      else
        let nxt = now + queuePollInterval
        in q\<lparr>quNextRateLimitRequeueAt :=
               (case requeued of
                  Inl _ \<Rightarrow> nxt
                | Inr None \<Rightarrow> nxt
                | Inr (Some t) \<Rightarrow> if t < nxt then t else nxt)\<rparr>)"

text \<open>
  \<open>since\<close> and \<open>now\<close> are two readings of the clock, \<open>list\<close> is \<open>ListQueueItems\<close>. The order is by
  falling priority, then by id.
\<close>

definition refillQueue ::
  "int \<Rightarrow> int \<Rightarrow> (int \<Rightarrow> 'f + queueItem list) \<Rightarrow> queuer \<Rightarrow> ('f + queueItem list) \<times> queuer" where
  "refillQueue since now list q =
     (let cached = map snd (quUnassigned q);
          replenish = (if int (length cached) < quLimit q then True
                       else (case quLastReplenished q of
                               None \<Rightarrow> False
                             | Some t \<Rightarrow> since - t > 990 * 1000000));
          q1 = (if replenish then q\<lparr>quLastReplenished := Some now\<rparr> else q)
      in case (if replenish then list (2 * quLimit q) else Inr cached) of
           Inl e \<Rightarrow> (Inl e, q1)
         | Inr items \<Rightarrow>
             let newCurr = filter (\<lambda>qi. qiId qi \<notin> quUnacked q1) items
             in (Inr (sort_key (\<lambda>qi. (- qiPriority qi, qiId qi)) newCurr),
                 q1\<lparr>quUnacked := quUnacked q1 \<union> set (map qiId newCurr)\<rparr>))"

definition q_drop :: "queueItem \<Rightarrow> queuer \<Rightarrow> queuer" where
  "q_drop qi q = q\<lparr>quUnacked := quUnacked q - {qiId qi}, quUnassigned := AList.delete (qiId qi) (quUnassigned q)\<rparr>"

definition q_keep :: "queueItem \<Rightarrow> queuer \<Rightarrow> queuer" where
  "q_keep qi q = q\<lparr>quUnacked := quUnacked q - {qiId qi}, quUnassigned := AList.update (qiId qi) qi (quUnassigned q)\<rparr>"

definition q_ack :: "assignResults \<Rightarrow> queuer \<Rightarrow> queuer" where
  "q_ack r q =
     fold q_keep (map srItem (asgRateLimited r))
      (fold q_drop (map srItem (asgRateLimitedToMove r))
       (fold q_drop (asgTimedOut r)
        (fold q_keep (asgUnassigned r)
         (fold q_drop (map bqItem (asgBatched r))
          (fold q_drop (map aqItem (asgBuffered r))
           (fold q_drop (map aqItem (asgAssigned r)) q))))))"

definition unackedToUnassigned :: "queueItem list \<Rightarrow> queuer \<Rightarrow> queuer" where
  "unackedToUnassigned items q = fold q_keep items q"

subsection \<open>Acks and nacks of the scheduler\<close>

text \<open>The ops run on the loop of a running scheduler; the callbacks to the rate limiter run after them.\<close>

definition sched_ack :: "int list \<Rightarrow> rateLimiter \<times> scheduler \<Rightarrow> (rateLimiter \<times> scheduler) option" where
  "sched_ack ids st =
     (case st of (rl, s) \<Rightarrow>
        do { (callbacks, s') \<leftarrow> handleAck ids s;
             Some (fold (\<lambda>cb rl. case cb of None \<Rightarrow> rl | Some task \<Rightarrow> rl_ack task rl) callbacks rl, s') })"

definition sched_nack :: "int list \<Rightarrow> rateLimiter \<times> scheduler \<Rightarrow> rateLimiter \<times> scheduler" where
  "sched_nack ids st =
     (case st of (rl, s) \<Rightarrow>
        (case handleNack ids s of
           (callbacks, s') \<Rightarrow>
             (fold (\<lambda>cb rl. case cb of None \<Rightarrow> rl | Some task \<Rightarrow> rl_nack task rl) callbacks rl, s')))"

subsection \<open>Flushing\<close>

record queueResults =
  qrAssigned :: "assignedItem list"
  qrBuffered :: "assignedItem list"
  qrUnassigned :: "queueItem list"
  qrTimedOut :: "queueItem list"
  qrRateLimited :: "rateLimitReport list"

text \<open>The state a tick works on; \<open>fsBatch\<close> numbers the batches handed to the scheduler.\<close>

record flushState =
  fsQueuer :: queuer
  fsLimiter :: rateLimiter
  fsSched :: scheduler
  fsResults :: "queueResults list"
  fsBatch :: nat

definition report_of :: "scheduleRateLimitResult \<Rightarrow> rateLimitReport" where
  "report_of x =
     \<lparr>rrItem = srItem x, rrExceededKey = exceededKey (srResult x), rrExceededUnits = exceededUnits (srResult x),
      rrExceededVal = exceededVal (srResult x), rrNextRefillAt = resNextRefillAt (srResult x),
      rrPausedUntil = resPausedUntil (srResult x), rrTaskId = qiTaskId (srItem x),
      rrTaskInsertedAt = qiTaskInsertedAt (srItem x), rrRetryCount = qiRetryCount (srItem x)\<rparr>"

definition assigned_item :: "assignedQueueItem \<Rightarrow> assignedItem" where
  "assigned_item a = \<lparr>aiWorkerId = aqWorkerId a, aiItem = aqItem a, aiIsAssignedLocally = False, aiIsDurable = False\<rparr>"

definition flush_opts :: "assignResults \<Rightarrow> assignOpts" where
  "flush_opts r =
     \<lparr>aoAssigned = map assigned_item (asgAssigned r), aoBuffered = map assigned_item (asgBuffered r),
      aoBatched = map bqItem (asgBatched r), aoUnassigned = asgUnassigned r, aoTimedOut = asgTimedOut r,
      aoRateLimited = map report_of (asgRateLimited r), aoRateLimitedToMove = map report_of (asgRateLimitedToMove r)\<rparr>"

text \<open>The ack ids by task; reading a missing key gives zero.\<close>

definition stepRunIdsToAcks :: "assignedQueueItem list \<Rightarrow> (int \<times> int) list" where
  "stepRunIdsToAcks as = foldl (\<lambda>m a. AList.update (qiTaskId (aqItem a)) (aqAckId a) m) [] as"

definition ack_id :: "(int \<times> int) list \<Rightarrow> assignedItem \<Rightarrow> int" where
  "ack_id acks a = mapCount acks (qiTaskId (aiItem a))"

text \<open>Ending the reservations of the batched items.\<close>

definition end_reservations ::
  "(int \<Rightarrow> rateLimiter \<Rightarrow> rateLimiter) \<Rightarrow> batchedQueueItemResult list \<Rightarrow> rateLimiter \<Rightarrow> rateLimiter" where
  "end_reservations finish bs rl =
     fold (\<lambda>b rl. case bqReservation b of None \<Rightarrow> rl | Some task \<Rightarrow> finish task rl) bs rl"

type_synonym 'e markCall = "assignOpts \<Rightarrow> ('e + assignedItem list \<times> assignedItem list) option"

text \<open>The first component is the number of items flushed.\<close>

definition q_flushToDatabase :: "'e markCall \<Rightarrow> assignResults \<Rightarrow> flushState \<Rightarrow> (int \<times> flushState) option" where
  "q_flushToDatabase mark r st =
     (if asgAssigned r = [] \<and> asgBuffered r = [] \<and> asgBatched r = [] \<and> asgUnassigned r = [] \<and>
         asgTimedOut r = [] \<and> asgRateLimited r = [] \<and> asgRateLimitedToMove r = []
      then Some (0, st\<lparr>fsQueuer := q_ack r (fsQueuer st)\<rparr>)
      else
        let opts = flush_opts r; acks = stepRunIdsToAcks (asgAssigned r)
        in do {
             marked \<leftarrow> mark opts;
             (case marked of
                Inl e \<Rightarrow>
                  (case sched_nack (map aqAckId (asgAssigned r))
                          (end_reservations rl_nack (asgBatched r) (fsLimiter st), fsSched st) of
                     (rl, s) \<Rightarrow>
                       Some (0, st\<lparr>fsQueuer := q_ack r (fsQueuer st), fsLimiter := rl, fsSched := s\<rparr>))
              | Inr (succeeded, failed) \<Rightarrow>
                  do {
                    (rl, s) \<leftarrow> sched_ack (map (ack_id acks) succeeded)
                                (sched_nack (map (ack_id acks) failed)
                                   (end_reservations rl_ack (asgBatched r) (fsLimiter st), fsSched st));
                    Some (int (length succeeded + length (asgBuffered r) + length (asgBatched r) + length (asgTimedOut r)),
                          st\<lparr>fsQueuer := q_ack r (fsQueuer st), fsLimiter := rl, fsSched := s,
                             fsResults := fsResults st @
                               [\<lparr>qrAssigned = succeeded, qrBuffered = aoBuffered opts, qrUnassigned = asgUnassigned r,
                                 qrTimedOut = asgTimedOut r,
                                 qrRateLimited = aoRateLimited opts @ aoRateLimitedToMove opts\<rparr>]\<rparr>)
                  })
           })"

text \<open>
  Inside the transaction of an optimistic trigger: the results are returned, and the items are not
  those of the queuer. The buffered items are not part of the options.
\<close>

definition flushToDatabaseOptimistic ::
  "'e markCall \<Rightarrow> uuid list \<Rightarrow> assignResults \<Rightarrow> flushState \<Rightarrow>
    (('e + assignedItem list \<times> queueResults option) \<times> flushState) option" where
  "flushToDatabaseOptimistic mark localWorkerIds r st =
     (if asgAssigned r = [] \<and> asgUnassigned r = [] \<and> asgTimedOut r = [] \<and> asgRateLimited r = [] \<and>
         asgRateLimitedToMove r = [] \<and> asgBatched r = []
      then Some (Inr ([], None), st)
      else
        let opts = (flush_opts r)\<lparr>aoBuffered := []\<rparr>; acks = stepRunIdsToAcks (asgAssigned r)
        in do {
             marked \<leftarrow> mark opts;
             (case marked of
                Inl e \<Rightarrow>
                  (case sched_nack (map aqAckId (asgAssigned r)) (fsLimiter st, fsSched st) of
                     (rl, s) \<Rightarrow> Some (Inl e, st\<lparr>fsLimiter := rl, fsSched := s\<rparr>))
              | Inr (succeeded, failed) \<Rightarrow>
                  do {
                    (rl, s) \<leftarrow> sched_ack (map (ack_id acks) succeeded)
                                (sched_nack (map (ack_id acks) failed) (fsLimiter st, fsSched st));
                    let here = map (\<lambda>a. if aiWorkerId a \<in> set localWorkerIds then a\<lparr>aiIsAssignedLocally := True\<rparr> else a) succeeded;
                    Some (Inr (filter (\<lambda>a. aiWorkerId a \<in> set localWorkerIds) here,
                               Some \<lparr>qrAssigned = here, qrBuffered = [], qrUnassigned = asgUnassigned r,
                                     qrTimedOut = asgTimedOut r,
                                     qrRateLimited = aoRateLimited opts @ aoRateLimitedToMove opts\<rparr>),
                          st\<lparr>fsLimiter := rl, fsSched := s\<rparr>)
                  })
           })"

subsection \<open>What a tick reads\<close>

definition and_then :: "'e + 'a \<Rightarrow> ('a \<Rightarrow> 'e + 'b) \<Rightarrow> 'e + 'b" where
  "and_then x f = (case x of Inl e \<Rightarrow> Inl e | Inr a \<Rightarrow> f a)"

record 'f queueReads =
  rdRateLimits :: "queueItem list \<Rightarrow> 'f + (int \<times> rateLimitUnits) list \<times> (string \<times> rateLimitDefinition) list"
  rdLabels :: "uuid list \<Rightarrow> 'f + (uuid \<times> desiredLabel list) list"
  rdBatchConfigs :: "uuid list \<Rightarrow> 'f + (uuid \<times> bool) list"
  rdRequests :: "uuid list \<Rightarrow> 'f + (uuid \<times> slotRequest) list"
  rdUnmarshal :: "string \<Rightarrow> desiredLabel list"

record tickInputs =
  tiLimits :: "(int \<times> rateLimitUnits) list"
  tiLabels :: "(uuid \<times> desiredLabel list) list"
  tiBatchConfigs :: "(uuid \<times> bool) list"
  tiRequests :: "(uuid \<times> slotRequest) list"
  tiOverrides :: "(int \<times> desiredLabel list) list"

definition label_overrides :: "(string \<Rightarrow> desiredLabel list) \<Rightarrow> queueItem list \<Rightarrow> (int \<times> desiredLabel list) list" where
  "label_overrides unmarshal qis =
     foldl (\<lambda>m qi. if qiDesiredWorkerLabel qi \<noteq> []
                   then AList.update (qiTaskId qi) (unmarshal (qiDesiredWorkerLabel qi)) m else m) [] qis"

text \<open>The limiter of a scheduler is never nil.\<close>

definition add_definitions :: "(string \<times> rateLimitDefinition) list \<Rightarrow> rateLimiter \<Rightarrow> rateLimiter" where
  "add_definitions defs rl = (case addDefinitions defs (Some rl) of None \<Rightarrow> rl | Some rl' \<Rightarrow> rl')"

definition tick_inputs :: "'f queueReads \<Rightarrow> queueItem list \<Rightarrow> rateLimiter \<Rightarrow> ('f + tickInputs) \<times> rateLimiter" where
  "tick_inputs rd qis rl =
     (case rdRateLimits rd qis of
        Inl e \<Rightarrow> (Inl e, rl)
      | Inr (limits, defs) \<Rightarrow>
          (let stepIds = map qiStepId qis
           in and_then (rdLabels rd stepIds) (\<lambda>labels.
                and_then (rdBatchConfigs rd stepIds) (\<lambda>configs.
                  and_then (rdRequests rd stepIds) (\<lambda>requests.
                    Inr \<lparr>tiLimits = limits, tiLabels = labels, tiBatchConfigs = configs, tiRequests = requests,
                         tiOverrides = label_overrides (rdUnmarshal rd) qis\<rparr>))),
           add_definitions defs rl))"

text \<open>The optimistic queue reads the batch configurations first.\<close>

definition optimistic_inputs :: "'f queueReads \<Rightarrow> queueItem list \<Rightarrow> rateLimiter \<Rightarrow> ('f + tickInputs) \<times> rateLimiter" where
  "optimistic_inputs rd qis rl =
     (case rdRateLimits rd qis of
        Inl e \<Rightarrow> (Inl e, rl)
      | Inr (limits, defs) \<Rightarrow>
          (let stepIds = map qiStepId qis
           in and_then (rdBatchConfigs rd stepIds) (\<lambda>configs.
                and_then (rdLabels rd stepIds) (\<lambda>labels.
                  and_then (rdRequests rd stepIds) (\<lambda>requests.
                    Inr \<lparr>tiLimits = limits, tiLabels = labels, tiBatchConfigs = configs, tiRequests = requests,
                         tiOverrides = label_overrides (rdUnmarshal rd) qis\<rparr>))),
           add_definitions defs rl))"

definition with_inputs :: "tickInputs \<Rightarrow> 'e assignEnv \<Rightarrow> 'e assignEnv" where
  "with_inputs inp env =
     env\<lparr>aeLimits := tiLimits inp, aeBatchConfig := tiBatchConfigs inp, aeLabels := tiLabels inp,
         aeRequests := tiRequests inp, aeOverrides := tiOverrides inp\<rparr>"

subsection \<open>A tick of the loop\<close>

record ('e, 'f) tickEnv =
  teWoken :: bool
  teRnd :: "int \<Rightarrow> int"
  teRequeueNow :: int
  teRequeue :: "'f + int option"
  teSince :: int
  teNow :: int
  teList :: "int \<Rightarrow> 'f + queueItem list"
  teReads :: "'f queueReads"
  teBatchEnv :: "nat \<Rightarrow> 'e assignEnv"
  teItemNow :: "queueItem \<Rightarrow> int"
  teOrder :: "(string \<times> queueItem list) list \<Rightarrow> (string \<times> queueItem list) list"
  teMark :: "'f markCall"

text \<open>The three counters of a tick: items flushed, items returned unassigned, items processed.\<close>

fun flush_all ::
  "'e markCall \<Rightarrow> assignResults list \<Rightarrow> int \<times> int \<times> int \<Rightarrow> flushState \<Rightarrow> ((int \<times> int \<times> int) \<times> flushState) option" where
  "flush_all mark [] counts st = Some (counts, st)"
| "flush_all mark (r # rs) (flushed, returned, processed) st =
     do { (n, st') \<leftarrow> q_flushToDatabase mark r st;
          flush_all mark rs
            (flushed + n, returned + int (length (asgUnassigned r)),
             processed + int (length (asgAssigned r) + length (asgBuffered r) + length (asgBatched r) +
               length (asgUnassigned r) + length (asgTimedOut r) + length (asgRateLimited r) +
               length (asgRateLimitedToMove r))) st' }"

text \<open>
  The last two items tell whether the loop logs that the numbers of items started and processed
  differ, and the state.
\<close>

definition loopQueue_tick :: "('e, 'f) tickEnv \<Rightarrow> flushState \<Rightarrow> (bool \<times> flushState) option" where
  "loopQueue_tick env st =
     (let prevEpoch = capacityEpochNow (fsSched st);
          q0 = (if teWoken env then (fsQueuer st)\<lparr>quNotify := False\<rparr> else fsQueuer st);
          q1 = requeueRateLimitedItems (teRequeueNow env) (teRequeue env) (resetTimer (teRnd env) q0)
      in case refillQueue (teSince env) (teNow env) (teList env) q1 of
           (Inl e, q2) \<Rightarrow> Some (False, st\<lparr>fsQueuer := q2\<rparr>)
         | (Inr qis, q2) \<Rightarrow>
             let q3 = resetTimer (teRnd env)
                        (q2\<lparr>quConsecutiveEmptyPolls := (if qis = [] then quConsecutiveEmptyPolls q2 + 1 else 0)\<rparr>)
             in case tick_inputs (teReads env) qis (fsLimiter st) of
                  (Inl e, rl) \<Rightarrow> Some (False, st\<lparr>fsQueuer := unackedToUnassigned qis q3, fsLimiter := rl\<rparr>)
                | (Inr inp, rl) \<Rightarrow>
                    do {
                      (sent, i, rl1, s1) \<leftarrow> tryAssign (runBatch (\<lambda>j. with_inputs inp (teBatchEnv env j)))
                         (teItemNow env) (teOrder env) qis (fsBatch st, rl, fsSched st);
                      ((flushed, returned, processed), st1) \<leftarrow> flush_all (teMark env) sent (0, 0, 0)
                         (st\<lparr>fsQueuer := q3, fsLimiter := rl1, fsSched := s1, fsBatch := i\<rparr>);
                      Some (int (length qis) \<noteq> processed,
                            if length qis > 0 \<and> flushed = int (length qis) \<or>
                               returned > 0 \<and> isWorkerCapacityUpdated prevEpoch (fsSched st1)
                            then st1\<lparr>fsQueuer := q_queue (fsQueuer st1)\<rparr> else st1)
                    })"

subsection \<open>The optimistic queue\<close>

fun flush_optimistic ::
  "'e markCall \<Rightarrow> uuid list \<Rightarrow> assignResults list \<Rightarrow> flushState \<Rightarrow>
    (('e + assignedItem list \<times> queueResults option list) \<times> flushState) option" where
  "flush_optimistic mark localWorkerIds [] st = Some (Inr ([], []), st)"
| "flush_optimistic mark localWorkerIds (r # rs) st =
     do { (res, st1) \<leftarrow> flushToDatabaseOptimistic mark localWorkerIds r st;
          (case res of
             Inl e \<Rightarrow> Some (Inl e, st1)
           | Inr (here, qr) \<Rightarrow>
               do { (res', st2) \<leftarrow> flush_optimistic mark localWorkerIds rs st1;
                    Some (and_then res' (\<lambda>(heres, qrs). Inr (here @ heres, qr # qrs)), st2) }) }"

definition runOptimisticQueue ::
  "('e, 'f) tickEnv \<Rightarrow> uuid list \<Rightarrow> queueItem list \<Rightarrow> flushState \<Rightarrow>
    (('f + assignedItem list \<times> queueResults option list) \<times> flushState) option" where
  "runOptimisticQueue env localWorkerIds qis st =
     (case optimistic_inputs (teReads env) qis (fsLimiter st) of
        (Inl e, rl) \<Rightarrow> Some (Inl e, st\<lparr>fsLimiter := rl\<rparr>)
      | (Inr inp, rl) \<Rightarrow>
          do {
            (sent, i, rl1, s1) \<leftarrow> tryAssign (runBatch (\<lambda>j. with_inputs inp (teBatchEnv env j)))
               (teItemNow env) (teOrder env) qis (fsBatch st, rl, fsSched st);
            flush_optimistic (teMark env) localWorkerIds sent
              (st\<lparr>fsLimiter := rl1, fsSched := s1, fsBatch := i\<rparr>)
          })"

section \<open>Items handed out\<close>

text \<open>The cache of unassigned items is a map by item id.\<close>

definition queuer_ok :: "queuer \<Rightarrow> bool" where
  "queuer_ok q \<longleftrightarrow> distinct_keys (quUnassigned q) \<and> (\<forall>(k, qi)\<in>set (quUnassigned q). k = qiId qi)"

lemma newQueuer_ok: "queuer_ok (newQueuer n)"
  by (simp add: queuer_ok_def newQueuer_def)

lemma q_drop_unacked: "quUnacked (fold q_drop qis q) = quUnacked q - qiId ` set qis"
  by (induction qis arbitrary: q) (auto simp: q_drop_def)

lemma q_keep_unacked: "quUnacked (fold q_keep qis q) = quUnacked q - qiId ` set qis"
  by (induction qis arbitrary: q) (auto simp: q_keep_def)

lemma q_drop_one_ok: "queuer_ok q \<Longrightarrow> queuer_ok (q_drop qi q)"
  unfolding queuer_ok_def q_drop_def by (simp add: AList.delete_eq distinct_keys_def distinct_map_filter)

lemma q_drop_ok: "queuer_ok q \<Longrightarrow> queuer_ok (fold q_drop qis q)"
  by (induction qis arbitrary: q) (simp_all add: q_drop_one_ok)

lemma q_keep_one_ok: "queuer_ok q \<Longrightarrow> queuer_ok (q_keep qi q)"
  unfolding queuer_ok_def q_keep_def by (auto dest!: set_AList_update)

lemma q_keep_ok: "queuer_ok q \<Longrightarrow> queuer_ok (fold q_keep qis q)"
  by (induction qis arbitrary: q) (simp_all add: q_keep_one_ok)

lemma q_ack_unacked: "quUnacked (q_ack r q) = quUnacked q - qiId ` set (result_items r)"
  by (auto simp: q_ack_def q_drop_unacked q_keep_unacked result_items_def)

lemma q_ack_ok: "queuer_ok q \<Longrightarrow> queuer_ok (q_ack r q)"
  by (simp add: q_ack_def q_drop_ok q_keep_ok)

lemma unackedToUnassigned_unacked:
  "quUnacked (unackedToUnassigned qis q) = quUnacked q - qiId ` set qis"
  "queuer_ok q \<Longrightarrow> queuer_ok (unackedToUnassigned qis q)"
  by (simp_all add: unackedToUnassigned_def q_keep_unacked q_keep_ok)

text \<open>A listing of queue items names each of them once: the id is the primary key of the table.\<close>

definition lists_once :: "(int \<Rightarrow> 'f + queueItem list) \<Rightarrow> bool" where
  "lists_once list \<longleftrightarrow> (\<forall>n items. list n = Inr items \<longrightarrow> distinct (map qiId items))"

lemma queuer_ok_ids: "queuer_ok q \<Longrightarrow> distinct (map qiId (map snd (quUnassigned q)))"
proof -
  assume "queuer_ok q"
  then have "distinct (map fst (quUnassigned q))" "\<forall>(k, qi)\<in>set (quUnassigned q). k = qiId qi"
    by (simp_all add: queuer_ok_def distinct_keys_def)
  moreover from this(2) have "map fst (quUnassigned q) = map qiId (map snd (quUnassigned q))" by auto
  ultimately show ?thesis by simp
qed

lemma refillQueue_Inr:
  assumes "queuer_ok q" "lists_once list" "refillQueue since now list q = (Inr qis, q')"
  shows "distinct (map qiId qis) \<and> qiId ` set qis \<inter> quUnacked q = {} \<and> quUnacked q' = quUnacked q \<union> qiId ` set qis \<and>
    sorted (map (\<lambda>qi. (- qiPriority qi, qiId qi)) qis) \<and> queuer_ok q'"
proof -
  define replenish where "replenish \<longleftrightarrow> (if int (length (quUnassigned q)) < quLimit q then True
    else (case quLastReplenished q of None \<Rightarrow> False | Some t \<Rightarrow> since - t > 990 * 1000000))"
  obtain items where it: "(if replenish then list (2 * quLimit q) else Inr (map snd (quUnassigned q))) = Inr items"
    using assms(3) by (cases "if replenish then list (2 * quLimit q) else Inr (map snd (quUnassigned q))")
      (auto simp: refillQueue_def Let_def replenish_def)
  have i1: "distinct (map qiId items)"
    using it assms(2) queuer_ok_ids[OF assms(1)] by (auto simp: lists_once_def split: if_splits)
  have "refillQueue since now list q =
      (Inr (sort_key (\<lambda>qi. (- qiPriority qi, qiId qi)) (filter (\<lambda>qi. qiId qi \<notin> quUnacked q) items)),
       (if replenish then q\<lparr>quLastReplenished := Some now\<rparr> else q)\<lparr>quUnacked := quUnacked q \<union> qiId ` {qi \<in> set items. qiId qi \<notin> quUnacked q}\<rparr>)"
    unfolding refillQueue_def Let_def length_map replenish_def[symmetric] it by simp
  then have i: "qis = sort_key (\<lambda>qi. (- qiPriority qi, qiId qi)) (filter (\<lambda>qi. qiId qi \<notin> quUnacked q) items)"
    "q' = (if replenish then q\<lparr>quLastReplenished := Some now\<rparr> else q)\<lparr>quUnacked := quUnacked q \<union> qiId ` {qi \<in> set items. qiId qi \<notin> quUnacked q}\<rparr>"
    using assms(3) by simp_all
  have "set qis = {qi \<in> set items. qiId qi \<notin> quUnacked q}" by (auto simp: i(1))
  moreover have "distinct (map qiId qis)"
  proof -
    have "distinct (map qiId (filter (\<lambda>qi. qiId qi \<notin> quUnacked q) items))" by (rule distinct_map_filter[OF i1])
    moreover have "mset (map qiId qis) = mset (map qiId (filter (\<lambda>qi. qiId qi \<notin> quUnacked q) items))" by (simp add: i(1))
    ultimately show ?thesis by (metis mset_eq_imp_distinct_iff)
  qed
  ultimately show ?thesis using assms(1) by (auto simp: i queuer_ok_def)
qed

lemma refillQueue_Inl:
  "refillQueue since now list q = (Inl e, q') \<Longrightarrow> quUnacked q' = quUnacked q \<and> (queuer_ok q \<longrightarrow> queuer_ok q')"
  by (auto simp: refillQueue_def Let_def queuer_ok_def split: if_splits sum.splits option.splits)

text \<open>
  The queuer with the items it has handed out and not got back: refills, flushes of results and
  returns after a failed read, in any order. The flushes of one tick may overlap later ticks. Errors are
  strings.
\<close>

inductive q_reach :: "queuer \<Rightarrow> queueItem list \<Rightarrow> bool" where
  start: "q_reach (newQueuer n) []"
| refill: "q_reach q fl \<Longrightarrow> lists_once list \<Longrightarrow> refillQueue since now list q = ((Inr qis :: string + queueItem list), q') \<Longrightarrow>
    q_reach q' (fl @ qis)"
| refill_error: "q_reach q fl \<Longrightarrow> refillQueue since now list q = ((Inl e :: string + queueItem list), q') \<Longrightarrow> q_reach q' fl"
| flushed: "q_reach q fl \<Longrightarrow> mset fl = mset fl' + mset (result_items r) \<Longrightarrow> q_reach (q_ack r q) fl'"
| returned: "q_reach q fl \<Longrightarrow> mset fl = mset fl' + mset qis \<Longrightarrow> q_reach (unackedToUnassigned qis q) fl'"
| other: "q_reach q fl \<Longrightarrow> quUnacked q' = quUnacked q \<Longrightarrow> quUnassigned q' = quUnassigned q \<Longrightarrow> q_reach q' fl"

lemma in_flight_split:
  assumes "distinct (map qiId fl)" "mset fl = mset fl' + mset qis"
  shows "distinct (map qiId fl') \<and> qiId ` set fl - qiId ` set qis = qiId ` set fl'"
proof -
  have "mset (map qiId fl) = mset (map qiId (fl' @ qis))" using assms(2) by simp
  then have d: "distinct (map qiId (fl' @ qis))" using assms(1) by (metis mset_eq_imp_distinct_iff)
  have "set fl = set fl' \<union> set qis" using arg_cong[OF assms(2), of set_mset] by simp
  then show ?thesis using d by auto
qed

lemma q_reach_inv:
  "q_reach q fl \<Longrightarrow> queuer_ok q \<and> distinct (map qiId fl) \<and> quUnacked q = qiId ` set fl"
proof (induction rule: q_reach.induct)
  case (start n)
  show ?case by (simp add: newQueuer_ok) (simp add: newQueuer_def)
next
  case (refill q fl list since now qis q')
  then show ?case using refillQueue_Inr[of q list since now qis q'] by auto
next
  case (refill_error q fl since now list e q')
  then show ?case using refillQueue_Inl[of since now list q e q'] by auto
next
  case (flushed q fl fl' r)
  then show ?case using in_flight_split[of fl fl' "result_items r"] by (simp add: q_ack_ok q_ack_unacked)
next
  case (returned q fl fl' qis)
  then show ?case using in_flight_split[of fl fl' qis] by (simp add: unackedToUnassigned_unacked)
next
  case (other q fl q')
  then show ?case by (simp add: queuer_ok_def)
qed

section \<open>Acks, nacks and flushes\<close>

text \<open>Removing the assignments with the given ids.\<close>

abbreviation settled :: "int set \<Rightarrow> (int \<times> assignedSlots) list \<Rightarrow> (int \<times> assignedSlots) list" where
  "settled ids us \<equiv> filter (\<lambda>(i, _). i \<notin> ids) us"

lemma settled_settled: "settled A (settled B us) = settled (A \<union> B) us"
  by (induction us) auto

lemma sched_nack_ok:
  assumes "sched_inv s"
  shows "\<exists>rl' s'. sched_nack ids (rl, s) = (rl', s') \<and> sched_inv s' \<and> unackedSlots s' = settled (set ids) (unackedSlots s)"
  using handleNack_ok[OF assms, of ids] by (auto simp: sched_nack_def)

lemma sched_ack_ok:
  assumes "sched_inv s"
  shows "\<exists>rl' s'. sched_ack ids (rl, s) = Some (rl', s') \<and> sched_inv s' \<and> unackedSlots s' = settled (set ids) (unackedSlots s)"
  using handleAck_ok[OF assms, of ids] by (auto simp: sched_ack_def)

lemma stepRunIdsToAcks_map: "map_of (stepRunIdsToAcks as) = map_of (rev (map (\<lambda>a. (qiTaskId (aqItem a), aqAckId a)) as))"
proof -
  have "map_of (foldl (\<lambda>m a. AList.update (qiTaskId (aqItem a)) (aqAckId a) m) m as) =
      map_of m ++ map_of (rev (map (\<lambda>a. (qiTaskId (aqItem a), aqAckId a)) as))" for m
    by (induction as arbitrary: m) (simp_all add: update_conv')
  then show ?thesis by (simp add: stepRunIdsToAcks_def)
qed

text \<open>The ids that the flush of a result settles: for each task, the last ack id.\<close>

definition last_acks :: "assignResults \<Rightarrow> int set" where
  "last_acks r = (\<lambda>a. mapCount (stepRunIdsToAcks (asgAssigned r)) (qiTaskId (aqItem a))) ` set (asgAssigned r)"

lemma ack_ids_reported:
  assumes "mset (map plain succeeded) + mset (map plain failed) = mset (map plain (aoAssigned (flush_opts r)))"
  shows "set (map (ack_id (stepRunIdsToAcks (asgAssigned r))) succeeded) \<union>
    set (map (ack_id (stepRunIdsToAcks (asgAssigned r))) failed) = last_acks r"
proof -
  let ?f = "ack_id (stepRunIdsToAcks (asgAssigned r))"
  have p: "?f (plain a) = ?f a" for a by (simp add: ack_id_def)
  have "plain ` set succeeded \<union> plain ` set failed = plain ` set (aoAssigned (flush_opts r))"
    using arg_cong[OF assms, of set_mset] by simp
  then have "?f ` (plain ` set succeeded \<union> plain ` set failed) = ?f ` (plain ` set (aoAssigned (flush_opts r)))" by simp
  then show ?thesis
    by (simp add: image_Un image_image p) (simp add: last_acks_def flush_opts_def image_image ack_id_def assigned_item_def)
qed

lemma last_acks_distinct:
  assumes "distinct (map (\<lambda>a. qiTaskId (aqItem a)) (asgAssigned r))"
  shows "last_acks r = aqAckId ` set (asgAssigned r)"
proof -
  have "mapCount (stepRunIdsToAcks (asgAssigned r)) (qiTaskId (aqItem a)) = aqAckId a" if "a \<in> set (asgAssigned r)" for a
  proof -
    have "map_of (rev (map (\<lambda>a. (qiTaskId (aqItem a), aqAckId a)) (asgAssigned r))) (qiTaskId (aqItem a)) = Some (aqAckId a)"
      using assms that by (intro map_of_is_SomeI) (auto simp: comp_def rev_map[symmetric])
    then show ?thesis by (simp add: mapCount_def stepRunIdsToAcks_map)
  qed
  then show ?thesis by (auto simp: last_acks_def)
qed

end
