(* ===== verification/Queuer_Tick.thy ===== *)
theory Queuer_Tick
  imports Queuer
begin

text \<open>
  Properties of the queuer: the flush of a result through the repository settles its assignments, a
  tick of the loop gives every item back, no item is handed out twice, and what the flush inside an
  optimistic transaction leaves behind. The repository is the interface \<open>queue_marker\<close>, interpreted
  on \<open>MarkQueueItemsProcessed\<close>.
\<close>

section \<open>Results with a time to come back\<close>

text \<open>An item that is moved out of the queue is paused or has a refill time.\<close>

definition result_timed :: "assignResults \<Rightarrow> bool" where
  "result_timed r \<longleftrightarrow> (\<forall>x\<in>set (asgRateLimitedToMove r). resPausedUntil (srResult x) \<noteq> None \<or> resNextRefillAt (srResult x) \<noteq> None)"

lemma sort_result_timed: "result_timed out \<Longrightarrow> result_timed (sort_result now r out)"
  by (auto simp: sort_result_def result_timed_def shouldRemoveFromQueue_def Let_def split: option.splits if_splits)

lemma sort_results_timed: "result_timed (sort_results now res)"
proof -
  have "result_timed out \<Longrightarrow> result_timed (foldl (\<lambda>out r. sort_result now r out) out res)" for out
    by (induction res arbitrary: out) (simp_all add: sort_result_timed)
  moreover have "result_timed noResults" by (simp add: result_timed_def noResults_def)
  ultimately show ?thesis by (simp add: sort_results_def)
qed

lemma run_groups_timed:
  assumes "foldl (\<lambda>(errs :: unit list, st) group. (errs,
      do { (sent, s) \<leftarrow> st; (res, s') \<leftarrow> run actionId group s; Some (sent @ [sort_results now res], s') }))
      (errs, st) groups = (errs', Some (sent', s'))"
    and "\<forall>sent s. st = Some (sent, s) \<longrightarrow> (\<forall>r\<in>set sent. result_timed r)"
  shows "\<forall>r\<in>set sent'. result_timed r"
  using assms
proof (induction groups arbitrary: errs st)
  case (Cons g groups)
  let ?st = "do { (sent, s) \<leftarrow> st; (res, s') \<leftarrow> run actionId g s; Some (sent @ [sort_results now res], s') }"
  have "\<forall>sent s. ?st = Some (sent, s) \<longrightarrow> (\<forall>r\<in>set sent. result_timed r)"
    using Cons.prems(2) by (auto simp: bind_eq_Some_conv sort_results_timed)
  then show ?case using Cons.IH[of errs ?st] Cons.prems(1) by simp
qed simp

lemma action_timed:
  assumes "tryAssign_action run now actionId qis (sent, s) = Some (sent', s')" "\<forall>r\<in>set sent. result_timed r"
  shows "\<forall>r\<in>set sent'. result_timed r"
proof -
  let ?sent = "sent @ [noResults\<lparr>asgTimedOut := filter (\<lambda>qi. isTimedOut (now qi) qi) qis\<rparr>]"
  let ?groups = "BatchConcurrent 50 (filter (\<lambda>qi. \<not> isTimedOut (now qi) qi) qis)"
  let ?fold = "foldl (\<lambda>(errs :: unit list, st) group. (errs,
      do { (sent, s) \<leftarrow> st; (res, s') \<leftarrow> run actionId group s; Some (sent @ [sort_results now res], s') }))
      ([], Some (?sent, s)) ?groups"
  have "snd ?fold = Some (sent', s')" using assms(1) by (simp add: tryAssign_action_def Let_def BatchLinear_fold)
  then have "?fold = (fst ?fold, Some (sent', s'))" by (simp add: prod_eq_iff)
  then show ?thesis
    by (rule run_groups_timed) (use assms(2) in \<open>simp add: result_timed_def noResults_def\<close>)
qed

lemma groups_timed:
  "tryAssign_groups run now groups (sent, s) = Some (sent', s') \<Longrightarrow> \<forall>r\<in>set sent. result_timed r \<Longrightarrow> \<forall>r\<in>set sent'. result_timed r"
proof (induction groups arbitrary: sent s)
  case (Cons g groups)
  obtain actionId qis where g: "g = (actionId, qis)" by (cases g)
  obtain sent1 s1 where a: "tryAssign_action run now actionId qis (sent, s) = Some (sent1, s1)"
    "tryAssign_groups run now groups (sent1, s1) = Some (sent', s')"
    using Cons.prems(1) by (auto simp: g bind_eq_Some_conv)
  show ?case by (rule Cons.IH[OF a(2) action_timed[OF a(1) Cons.prems(2)]])
qed simp

lemma tryAssign_timed: "tryAssign run now order qis s = Some (sent, s') \<Longrightarrow> \<forall>r\<in>set sent. result_timed r"
  unfolding tryAssign_def by (erule groups_timed) simp

section \<open>Flushing through a repository\<close>

text \<open>
  What the queuer relies on: the call that marks queue items returns when every item to move has a
  time, and on success reports each assigned item once, as succeeded or as failed.
\<close>

locale queue_marker =
  fixes mark :: "'e markCall"
  assumes returns: "\<forall>row\<in>set (aoRateLimitedToMove opts). rrPausedUntil row \<noteq> None \<or> rrNextRefillAt row \<noteq> None \<Longrightarrow>
      mark opts \<noteq> None"
    and reports: "mark opts = Some (Inr (succeeded, failed)) \<Longrightarrow>
      mset (map plain succeeded) + mset (map plain failed) = mset (map plain (aoAssigned opts))"
begin

lemma mark_returns: "result_timed r \<Longrightarrow> mark (flush_opts r) \<noteq> None"
  by (rule returns) (auto simp: flush_opts_def report_of_def result_timed_def)

lemma flush_settles:
  assumes "sched_inv (fsSched st)" "result_timed r"
  shows "\<exists>n st'. q_flushToDatabase mark r st = Some (n, st') \<and> sched_inv (fsSched st') \<and>
    fsQueuer st' = q_ack r (fsQueuer st) \<and> fsBatch st' = fsBatch st \<and>
    unackedSlots (fsSched st') =
      settled (if \<exists>e. mark (flush_opts r) = Some (Inl e) then aqAckId ` set (asgAssigned r) else last_acks r)
        (unackedSlots (fsSched st))"
proof (cases "asgAssigned r = [] \<and> asgBuffered r = [] \<and> asgBatched r = [] \<and> asgUnassigned r = [] \<and>
         asgTimedOut r = [] \<and> asgRateLimited r = [] \<and> asgRateLimitedToMove r = []")
  case True
  then show ?thesis using assms(1) by (simp add: q_flushToDatabase_def last_acks_def case_prod_beta)
next
  case False
  let ?acks = "stepRunIdsToAcks (asgAssigned r)"
  obtain marked where m: "mark (flush_opts r) = Some marked" using mark_returns[OF assms(2)] by blast
  show ?thesis
  proof (cases marked)
    case (Inl e)
    obtain rl' s' where n: "sched_nack (map aqAckId (asgAssigned r))
        (end_reservations rl_nack (asgBatched r) (fsLimiter st), fsSched st) = (rl', s')"
      "sched_inv s'" "unackedSlots s' = settled (set (map aqAckId (asgAssigned r))) (unackedSlots (fsSched st))"
      using sched_nack_ok[OF assms(1)] by blast
    have "q_flushToDatabase mark r st =
        Some (0, st\<lparr>fsQueuer := q_ack r (fsQueuer st), fsLimiter := rl', fsSched := s'\<rparr>)"
      unfolding q_flushToDatabase_def if_not_P[OF False] Let_def m Inl by (simp add: n(1))
    then show ?thesis using n(2,3) m Inl by simp
  next
    case (Inr p)
    obtain succeeded failed where p: "p = (succeeded, failed)" by (cases p)
    obtain rl1 s1 where n: "sched_nack (map (ack_id ?acks) failed)
        (end_reservations rl_ack (asgBatched r) (fsLimiter st), fsSched st) = (rl1, s1)"
      "sched_inv s1" "unackedSlots s1 = settled (set (map (ack_id ?acks) failed)) (unackedSlots (fsSched st))"
      using sched_nack_ok[OF assms(1)] by blast
    obtain rl2 s2 where a: "sched_ack (map (ack_id ?acks) succeeded) (rl1, s1) = Some (rl2, s2)"
      "sched_inv s2" "unackedSlots s2 = settled (set (map (ack_id ?acks) succeeded)) (unackedSlots s1)"
      using sched_ack_ok[OF n(2)] by blast
    have "last_acks r = set (map (ack_id ?acks) succeeded) \<union> set (map (ack_id ?acks) failed)"
      using ack_ids_reported[OF reports, of r succeeded failed] m Inr p by simp
    then have "unackedSlots s2 = settled (last_acks r) (unackedSlots (fsSched st))"
      using a(3) n(3) by (simp only: settled_settled)
    moreover obtain n' res where "q_flushToDatabase mark r st = Some (n', st\<lparr>fsQueuer := q_ack r (fsQueuer st), fsLimiter := rl2,
        fsSched := s2, fsResults := res\<rparr>)"
      unfolding q_flushToDatabase_def if_not_P[OF False] Let_def m Inr p by (simp add: n(1) a(1))
    ultimately show ?thesis using a(2) m Inr by simp
  qed
qed

lemma flush_all_ok:
  "sched_inv (fsSched st) \<Longrightarrow> \<forall>r\<in>set rs. result_timed r \<Longrightarrow>
   \<exists>flushed' returned' st'. flush_all mark rs (flushed, returned, processed) st =
       Some ((flushed', returned', processed + int (length (concat (map result_items rs)))), st') \<and>
     sched_inv (fsSched st') \<and> quUnacked (fsQueuer st') = quUnacked (fsQueuer st) - qiId ` set (concat (map result_items rs)) \<and>
     (queuer_ok (fsQueuer st) \<longrightarrow> queuer_ok (fsQueuer st'))"
proof (induction rs arbitrary: flushed returned processed st)
  case (Cons r rs)
  obtain n st1 where f: "q_flushToDatabase mark r st = Some (n, st1)" "sched_inv (fsSched st1)"
    "fsQueuer st1 = q_ack r (fsQueuer st)"
    using flush_settles[OF Cons.prems(1), of r] Cons.prems(2) by auto
  define processed1 where "processed1 = processed + int (length (asgAssigned r) + length (asgBuffered r) + length (asgBatched r) +
      length (asgUnassigned r) + length (asgTimedOut r) + length (asgRateLimited r) + length (asgRateLimitedToMove r))"
  have p: "processed1 = processed + int (length (result_items r))" by (simp add: processed1_def result_items_def)
  obtain flushed' returned' st' where a: "flush_all mark rs (flushed + n, returned + int (length (asgUnassigned r)), processed1) st1 =
      Some ((flushed', returned', processed1 + int (length (concat (map result_items rs)))), st')"
    "sched_inv (fsSched st')" "quUnacked (fsQueuer st') = quUnacked (fsQueuer st1) - qiId ` set (concat (map result_items rs))"
    "queuer_ok (fsQueuer st1) \<longrightarrow> queuer_ok (fsQueuer st')"
    using Cons.IH[OF f(2), of "flushed + n" "returned + int (length (asgUnassigned r))" processed1] Cons.prems(2) by auto
  have "flush_all mark (r # rs) (flushed, returned, processed) st =
      Some ((flushed', returned', processed + int (length (concat (map result_items (r # rs))))), st')"
    using f(1) a(1) p by (simp add: processed1_def)
  moreover have "quUnacked (fsQueuer st') = quUnacked (fsQueuer st) - qiId ` set (concat (map result_items (r # rs)))"
    by (auto simp: a(3) f(3) q_ack_unacked)
  ultimately show ?case using a(2,4) by (metis f(3) q_ack_ok)
qed simp

end

interpretation repository_marker: queue_marker "MarkQueueItemsProcessed beginErr commitErr mq"
  using MarkQueueItemsProcessed_returns MarkQueueItemsProcessed_reports by unfold_locales blast+

lemma handleAck_callbacks:
  "handleAck ids s = Some (cbs, s') \<Longrightarrow> set cbs \<subseteq> (asReservation \<circ> snd) ` set (unackedSlots s)"
proof (induction ids arbitrary: s cbs s')
  case (Cons i ids)
  show ?case
  proof (cases "map_of (unackedSlots s) i")
    case None
    then show ?thesis using Cons by simp
  next
    case (Some a)
    then obtain acked cbs1 where c: "handleAck ids (s\<lparr>unackedSlots := AList.delete i (unackedSlots s), ackedDuringReplenish := acked\<rparr>) =
        Some (cbs1, s')" "cbs = asReservation a # cbs1"
      using Cons.prems by (auto simp: bind_eq_Some_conv)
    have "set cbs1 \<subseteq> (asReservation \<circ> snd) ` set (unackedSlots s)"
      using Cons.IH[OF c(1)] by (auto simp: AList.delete_eq)
    moreover have "asReservation a \<in> (asReservation \<circ> snd) ` set (unackedSlots s)"
      using map_of_SomeD[OF Some] by force
    ultimately show ?thesis using c(2) by simp
  qed
qed simp

lemma handleNack_callbacks:
  "handleNack ids s = (cbs, s') \<Longrightarrow> set cbs \<subseteq> (asReservation \<circ> snd) ` set (unackedSlots s)"
proof (induction ids arbitrary: s cbs s')
  case (Cons i ids)
  show ?case
  proof (cases "map_of (unackedSlots s) i")
    case None
    then show ?thesis using Cons by simp
  next
    case (Some a)
    obtain cbs1 where c: "handleNack ids (s\<lparr>unackedSlots := AList.delete i (unackedSlots s),
        mem := release_slots (asSlots a) (mem s)\<rparr>) = (cbs1, s')" "cbs = asReservation a # cbs1"
      using Cons.prems Some by (auto split: prod.splits)
    have "set cbs1 \<subseteq> (asReservation \<circ> snd) ` set (unackedSlots s)"
      using Cons.IH[OF c(1)] by (auto simp: AList.delete_eq)
    moreover have "asReservation a \<in> (asReservation \<circ> snd) ` set (unackedSlots s)"
      using map_of_SomeD[OF Some] by force
    ultimately show ?thesis using c(2) by simp
  qed
qed simp

text \<open>What ending reservations does to the entry of one task.\<close>

lemma end_one:
  "map_of (unacked (rl_ack u rl)) t = (if u = t then None else map_of (unacked rl) t)"
  "map_of (unacked (rl_nack u rl)) t = (if u = t then None else map_of (unacked rl) t)"
  by (auto simp: rl_ack_def rl_nack_def split: option.split)

lemma callbacks_end:
  assumes "\<And>u rl. map_of (unacked (finish u rl)) t = (if u = t then None else map_of (unacked rl) t)"
  shows "map_of (unacked (fold (\<lambda>cb rl. case cb of None \<Rightarrow> rl | Some u \<Rightarrow> finish u rl) cbs rl)) t =
    (if Some t \<in> set cbs then None else map_of (unacked rl) t)"
  by (induction cbs arbitrary: rl) (auto simp: assms split: option.split)

lemma end_reservations_end:
  assumes "\<And>u rl. map_of (unacked (finish u rl)) t = (if u = t then None else map_of (unacked rl) t)"
  shows "map_of (unacked (end_reservations finish bs rl)) t =
    (if Some t \<in> bqReservation ` set bs then None else map_of (unacked rl) t)"
  unfolding end_reservations_def
  by (induction bs arbitrary: rl) (auto simp: assms split: option.split)

lemma sched_nack_reservation:
  assumes "sched_nack ids (rl, s) = (rl', s')"
  shows "map_of (unacked rl) t = None \<Longrightarrow> map_of (unacked rl') t = None"
    and "Some t \<notin> (asReservation \<circ> snd) ` set (unackedSlots s) \<Longrightarrow> map_of (unacked rl') t = map_of (unacked rl) t"
  using assms handleNack_callbacks[of ids s]
  by (auto simp: sched_nack_def callbacks_end end_one split: prod.splits)

lemma sched_ack_reservation:
  assumes "sched_ack ids (rl, s) = Some (rl', s')"
  shows "map_of (unacked rl) t = None \<Longrightarrow> map_of (unacked rl') t = None"
    and "Some t \<notin> (asReservation \<circ> snd) ` set (unackedSlots s) \<Longrightarrow> map_of (unacked rl') t = map_of (unacked rl) t"
  using assms handleAck_callbacks[of ids s]
  by (auto simp: sched_ack_def callbacks_end end_one bind_eq_Some_conv)

section \<open>A whole tick\<close>

definition reads_ok :: "'f queueReads \<Rightarrow> bool" where
  "reads_ok rd \<longleftrightarrow> (\<forall>ids reqs. rdRequests rd ids = Inr reqs \<longrightarrow> (\<forall>(_, req)\<in>set reqs. req = [] \<or> request_ok req))"

definition tick_env_ok :: "('e, 'f) tickEnv \<Rightarrow> bool" where
  "tick_env_ok env \<longleftrightarrow> lists_once (teList env) \<and> reads_ok (teReads env) \<and> (\<forall>j. env_ok (teBatchEnv env j)) \<and>
     (\<forall>gs. mset (teOrder env gs) = mset gs)"

lemma tick_inputs_ok:
  assumes "reads_ok rd" "tick_inputs rd qis rl = (Inr inp, rl')" "env_ok env"
  shows "env_ok (with_inputs inp env)"
proof -
  have "rdRequests rd (map qiStepId qis) = Inr (tiRequests inp)"
    using assms(2) by (auto simp: tick_inputs_def Let_def and_then_def split: sum.splits)
  then have "\<forall>(_, req)\<in>set (tiRequests inp). req = [] \<or> request_ok req"
    using assms(1) unfolding reads_ok_def by blast
  then show ?thesis using assms(3) unfolding env_ok_def with_inputs_def by simp
qed

lemma resetTimer_sel [simp]:
  "quUnacked (resetTimer rnd q) = quUnacked q" "quUnassigned (resetTimer rnd q) = quUnassigned q"
  by (simp_all add: resetTimer_def)

lemma requeue_sel [simp]:
  "quUnacked (requeueRateLimitedItems now res q) = quUnacked q"
  "quUnassigned (requeueRateLimitedItems now res q) = quUnassigned q"
  by (simp_all add: requeueRateLimitedItems_def Let_def)

context queue_marker
begin

lemma tick_returns:
  assumes inv: "queuer_ok (fsQueuer st)" "sched_inv (fsSched st)" and env: "tick_env_ok env" and mk: "teMark env = mark"
  shows "\<exists>st'. loopQueue_tick env st = Some (False, st') \<and> quUnacked (fsQueuer st') = quUnacked (fsQueuer st) \<and>
    sched_inv (fsSched st') \<and> queuer_ok (fsQueuer st')"
proof -
  define q0 where "q0 = (if teWoken env then (fsQueuer st)\<lparr>quNotify := False\<rparr> else fsQueuer st)"
  define q1 where "q1 = requeueRateLimitedItems (teRequeueNow env) (teRequeue env) (resetTimer (teRnd env) q0)"
  have q1: "queuer_ok q1" "quUnacked q1 = quUnacked (fsQueuer st)" using inv(1) by (simp_all add: q1_def q0_def queuer_ok_def)
  obtain res q2 where r: "refillQueue (teSince env) (teNow env) (teList env) q1 = (res, q2)" by fastforce
  note unfold = loopQueue_tick_def Let_def q0_def[symmetric] q1_def[symmetric] r
  show ?thesis
  proof (cases res)
    case (Inl e)
    then show ?thesis using refillQueue_Inl[of "teSince env" "teNow env" "teList env" q1 e q2] r q1 inv(2)
      unfolding unfold by simp
  next
    case (Inr qis)
    have rf: "distinct (map qiId qis)" "qiId ` set qis \<inter> quUnacked q1 = {}" "quUnacked q2 = quUnacked q1 \<union> qiId ` set qis" "queuer_ok q2"
      using refillQueue_Inr[OF q1(1), of "teList env" "teSince env" "teNow env" qis q2] env r Inr by (simp_all add: tick_env_ok_def)
    define q3 where "q3 = resetTimer (teRnd env)
        (q2\<lparr>quConsecutiveEmptyPolls := (if qis = [] then quConsecutiveEmptyPolls q2 + 1 else 0)\<rparr>)"
    have q3: "queuer_ok q3" "quUnacked q3 - qiId ` set qis = quUnacked (fsQueuer st)"
      using rf(2,3,4) q1(2) by (auto simp: q3_def queuer_ok_def)
    obtain inputs rl where ti: "tick_inputs (teReads env) qis (fsLimiter st) = (inputs, rl)" by fastforce
    show ?thesis
    proof (cases inputs)
      case (Inl e)
      then show ?thesis using Inr q3 inv(2) ti unfolding unfold
        by (simp add: q3_def[symmetric] unackedToUnassigned_unacked)
    next
      case inp: (Inr inp)
      let ?env = "\<lambda>j. with_inputs inp (teBatchEnv env j)"
      have "env_ok (?env j)" for j
        by (rule tick_inputs_ok[of "teReads env" qis "fsLimiter st" inp rl])
          (use env ti inp in \<open>simp_all add: tick_env_ok_def\<close>)
      then have run: "runner_ok ?env (fsBatch st, rl, fsSched st)" using inv(2) by (simp add: runner_ok_def)
      have "mset (teOrder env (group_items qis [])) = mset (group_items qis [])" using env by (simp add: tick_env_ok_def)
      then obtain sent i rl1 s1 where t: "tryAssign (runBatch ?env) (teItemNow env) (teOrder env) qis (fsBatch st, rl, fsSched st) =
          Some (sent, i, rl1, s1)" "mset (concat (map result_items sent)) = mset qis" "sched_inv s1"
        using batch_calls.tryAssign_items[where order = "teOrder env" and qis = qis and now = "teItemNow env", OF run]
        by (auto simp: runner_ok_def)
      let ?st = "st\<lparr>fsQueuer := q3, fsLimiter := rl1, fsSched := s1, fsBatch := i\<rparr>"
      have len: "length (concat (map result_items sent)) = length qis" "set (concat (map result_items sent)) = set qis"
        using arg_cong[OF t(2), of size] arg_cong[OF t(2), of set_mset] by simp_all
      obtain flushed returned st1 where f: "flush_all mark sent (0, 0, 0) ?st = Some ((flushed, returned, int (length qis)), st1)"
        "sched_inv (fsSched st1)" "quUnacked (fsQueuer st1) = quUnacked (fsQueuer st)" "queuer_ok (fsQueuer st1)"
        using flush_all_ok[of ?st sent 0 0 0] tryAssign_timed[OF t(1)] t(3) q3 unfolding len by auto
      then show ?thesis
        unfolding unfold Inr by (simp add: q3_def[symmetric] ti inp t(1) mk q_queue_def queuer_ok_def)
    qed
  qed
qed

end

lemma q_flushToDatabase_cases:
  assumes "q_flushToDatabase mark r st = Some (n, st')"
  obtains
    (Empty) "asgBatched r = []"
  | (Failed) "sched_nack (map aqAckId (asgAssigned r)) (end_reservations rl_nack (asgBatched r) (fsLimiter st), fsSched st) =
      (fsLimiter st', fsSched st')"
  | (Marked) ids ids' where
      "sched_ack ids (sched_nack ids' (end_reservations rl_ack (asgBatched r) (fsLimiter st), fsSched st)) =
        Some (fsLimiter st', fsSched st')"
proof (cases "asgBatched r = []")
  case False
  obtain marked where m: "mark (flush_opts r) = Some marked"
    using assms False by (auto simp: q_flushToDatabase_def Let_def bind_eq_Some_conv)
  show thesis
  proof (cases marked)
    case (Inl e)
    then show thesis using assms False m by (intro Failed) (auto simp: q_flushToDatabase_def Let_def split: prod.splits)
  next
    case (Inr p)
    obtain succeeded failed where "p = (succeeded, failed)" by (cases p)
    then show thesis using assms False m Inr
      by (intro Marked[of "map (ack_id (stepRunIdsToAcks (asgAssigned r))) succeeded" "map (ack_id (stepRunIdsToAcks (asgAssigned r))) failed"])
        (auto simp: q_flushToDatabase_def Let_def bind_eq_Some_conv)
  qed
qed (rule Empty)

lemma flushToDatabaseOptimistic_cases:
  assumes "flushToDatabaseOptimistic mark localWorkerIds r st = Some (res, st')"
  obtains
    (Empty) "asgBatched r = []"
  | (Failed) "sched_nack (map aqAckId (asgAssigned r)) (fsLimiter st, fsSched st) = (fsLimiter st', fsSched st')"
  | (Marked) ids ids' where
      "sched_ack ids (sched_nack ids' (fsLimiter st, fsSched st)) = Some (fsLimiter st', fsSched st')"
proof (cases "asgBatched r = []")
  case False
  obtain marked where m: "mark ((flush_opts r)\<lparr>aoBuffered := []\<rparr>) = Some marked"
    using assms False by (auto simp: flushToDatabaseOptimistic_def Let_def bind_eq_Some_conv)
  show thesis
  proof (cases marked)
    case (Inl e)
    then show thesis using assms False m by (intro Failed) (auto simp: flushToDatabaseOptimistic_def Let_def split: prod.splits)
  next
    case (Inr p)
    obtain succeeded failed where "p = (succeeded, failed)" by (cases p)
    then show thesis using assms False m Inr
      by (intro Marked[of "map (ack_id (stepRunIdsToAcks (asgAssigned r))) succeeded" "map (ack_id (stepRunIdsToAcks (asgAssigned r))) failed"])
        (auto simp: flushToDatabaseOptimistic_def Let_def bind_eq_Some_conv)
  qed
qed (rule Empty)

section \<open>Properties\<close>

text \<open>A database that accepts everything, and a tick on it, for the witnesses.\<close>

definition accept_row :: "taskKey \<times> uuid \<Rightarrow> flushRow" where
  "accept_row a = (case a of ((t, ins, rc), w) \<Rightarrow>
     \<lparr>frTaskId = t, frTaskInsertedAt = ins, frRetryCount = rc, frWorkerId = Some w, frIsDurable = None\<rparr>)"

definition accept_queries :: "string markQueries" where
  "accept_queries = \<lparr>mqParseTimeout = (\<lambda>_. True), mqFlushAssigned = (\<lambda>assign _ _. Inr (map accept_row assign)),
     mqMoveBatched = (\<lambda>_. None), mqMoveRateLimited = (\<lambda>_. None), mqHoldPaused = (\<lambda>_. None),
     mqRelease = (\<lambda>_. None), mqInsertBuffered = (\<lambda>_. None), mqIncrement = (\<lambda>_. None)\<rparr>"

definition tick_env :: "(unit, string) tickEnv" where
  "tick_env = \<lparr>teWoken = True, teRnd = (\<lambda>_. 0), teRequeueNow = 0, teRequeue = Inr None, teSince = 0, teNow = 0,
     teList = (\<lambda>_. Inr [try_item 1, try_item 2]),
     teReads = \<lparr>rdRateLimits = (\<lambda>_. Inr ([(1, [(''api'', 2)])], [])), rdLabels = (\<lambda>_. Inr []),
       rdBatchConfigs = (\<lambda>_. Inr []), rdRequests = (\<lambda>_. Inr [(1, [(''default'', 1)])]), rdUnmarshal = (\<lambda>_. [])\<rparr>,
     teBatchEnv = (\<lambda>_. try_env [] 2), teItemNow = (\<lambda>_. 0), teOrder = rev,
     teMark = MarkQueueItemsProcessed None None accept_queries\<rparr>"

lemma tick_env_fits: "tick_env_ok tick_env"
  by (simp add: tick_env_ok_def tick_env_def lists_once_def reads_ok_def try_env_ok example_item_def)
    (simp add: request_ok_def)

definition tick_state :: flushState where
  "tick_state = \<lparr>fsQueuer = newQueuer 0, fsLimiter = example_limiter, fsSched = try_sched, fsResults = [], fsBatch = 0\<rparr>"

text \<open>
  C5. A tick of the loop ends and gives every item back: whether the refill, one of the reads or the
  write to the database fails, whether items are assigned, rate limited, timed out, batched or find
  no slot, and however the actions are ordered, the tick returns without a panic, the items it took
  out are no longer marked as handed out, so that later ticks can take them up again, and the counts
  of items started and processed agree.
\<close>

theorem tick_gives_items_back:
  assumes "queuer_ok (fsQueuer st)" "sched_inv (fsSched st)" "tick_env_ok env"
    and "teMark env = MarkQueueItemsProcessed beginErr commitErr mq"
  shows "\<exists>st'. loopQueue_tick env st = Some (False, st') \<and> quUnacked (fsQueuer st') = quUnacked (fsQueuer st) \<and>
    sched_inv (fsSched st') \<and> queuer_ok (fsQueuer st')"
  using assms by (rule repository_marker.tick_returns)

theorem tick_gives_items_back_witness:
  "\<exists>st'. loopQueue_tick tick_env tick_state = Some (False, st') \<and> quUnacked (fsQueuer st') = {}"
  using tick_gives_items_back[of tick_state tick_env None None accept_queries]
    newQueuer_ok[of 0] try_sched_inv tick_env_fits
  by (simp add: tick_state_def) (auto simp: tick_env_def newQueuer_def)

text \<open>
  C10. No queue item is handed out twice: in every reachable state of the queuer, with the flushes of
  earlier ticks still in flight, a refill returns items that differ from each other and from all
  items in flight, by falling priority and then by rising id.
\<close>

theorem items_handed_out_once:
  assumes "q_reach q fl" "lists_once list" "refillQueue since now list q = ((Inr qis :: string + queueItem list), q')"
  shows "distinct (map qiId (fl @ qis)) \<and>
    sorted_wrt (\<lambda>a b. qiPriority a > qiPriority b \<or> qiPriority a = qiPriority b \<and> qiId a \<le> qiId b) qis"
proof -
  have inv: "queuer_ok q" "distinct (map qiId fl)" "quUnacked q = qiId ` set fl" using q_reach_inv[OF assms(1)] by simp_all
  note r = refillQueue_Inr[OF inv(1) assms(2,3)]
  have "sorted_wrt (\<lambda>a b. (- qiPriority a, qiId a) \<le> (- qiPriority b, qiId b)) qis"
    using r by (simp add: sorted_map)
  then have "sorted_wrt (\<lambda>a b. qiPriority a > qiPriority b \<or> qiPriority a = qiPriority b \<and> qiId a \<le> qiId b) qis"
    by (rule sorted_wrt_mono_rel[rotated]) auto
  then show ?thesis using r inv(2,3) by auto
qed

theorem items_handed_out_once_witness:
  "\<exists>qis q'. refillQueue 0 0 (\<lambda>_. Inr [try_item 2, try_item 1]) (newQueuer 0) = ((Inr qis :: string + queueItem list), q') \<and>
     qis = [try_item 1, try_item 2] \<and> distinct (map qiId ([] @ qis))"
proof -
  let ?list = "\<lambda>_. Inr [try_item 2, try_item 1] :: string + queueItem list"
  have l: "lists_once ?list" by (simp add: lists_once_def example_item_def)
  obtain qis q' where r: "refillQueue 0 0 ?list (newQueuer 0) = (Inr qis, q')" "qis = [try_item 1, try_item 2]"
    by (simp add: refillQueue_def newQueuer_def example_item_def)
  then show ?thesis using items_handed_out_once[OF q_reach.start l r(1)] by blast
qed

text \<open>
  C9. A flush settles every assignment of its result: when the tasks of the assigned items differ, it
  returns, and afterwards none of their slots is held by an unacknowledged assignment, whether the
  write failed as a whole, for some items or not at all; other assignments are untouched, and no
  item of the result is marked as handed out.
\<close>

theorem flush_settles_result:
  assumes "sched_inv (fsSched st)" "result_timed r"
    and "distinct (map (\<lambda>a. qiTaskId (aqItem a)) (asgAssigned r))"
  shows "\<exists>n st'. q_flushToDatabase (MarkQueueItemsProcessed beginErr commitErr mq) r st = Some (n, st') \<and>
    sched_inv (fsSched st') \<and>
    unackedSlots (fsSched st') = filter (\<lambda>(i, _). i \<notin> aqAckId ` set (asgAssigned r)) (unackedSlots (fsSched st)) \<and>
    quUnacked (fsQueuer st') = quUnacked (fsQueuer st) - qiId ` set (result_items r)"
proof -
  obtain n st' where f: "q_flushToDatabase (MarkQueueItemsProcessed beginErr commitErr mq) r st = Some (n, st')"
    "sched_inv (fsSched st')" "fsQueuer st' = q_ack r (fsQueuer st)"
    "unackedSlots (fsSched st') = settled (if \<exists>e. MarkQueueItemsProcessed beginErr commitErr mq (flush_opts r) = Some (Inl e)
       then aqAckId ` set (asgAssigned r) else last_acks r) (unackedSlots (fsSched st))"
    using repository_marker.flush_settles[OF assms(1,2)] by blast
  moreover have "last_acks r = aqAckId ` set (asgAssigned r)" by (rule last_acks_distinct[OF assms(3)])
  ultimately show ?thesis by (simp add: q_ack_unacked)
qed

definition one_assigned :: assignResults where
  "one_assigned = noResults\<lparr>asgAssigned := [\<lparr>aqAckId = 1, aqWorkerId = 1, aqItem = try_item 0\<rparr>]\<rparr>"

definition sys_state :: flushState where
  "sys_state = \<lparr>fsQueuer = newQueuer 0, fsLimiter = example_limiter, fsSched = clSched sys_one, fsResults = [], fsBatch = 1\<rparr>"

lemma sys_state_inv: "sched_inv (fsSched sys_state)"
  using cl_reach_sched_inv[OF sys_one_reach] by (simp add: sys_state_def)

lemma sys_state_held: "map_of (unackedSlots (fsSched sys_state)) 1 = Some \<lparr>asSlots = [0], asReservation = None\<rparr>"
  by (simp add: sys_state_def sys_one_def)

theorem flush_settles_result_witness:
  "map_of (unackedSlots (fsSched sys_state)) 1 \<noteq> None \<and>
   (\<exists>n st'. q_flushToDatabase (MarkQueueItemsProcessed None None accept_queries) one_assigned sys_state = Some (n, st') \<and>
      map_of (unackedSlots (fsSched st')) 1 = None)"
proof -
  have "result_timed one_assigned" "distinct (map (\<lambda>a. qiTaskId (aqItem a)) (asgAssigned one_assigned))"
    by (simp_all add: result_timed_def one_assigned_def noResults_def)
  from flush_settles_result[OF sys_state_inv this]
  obtain n st' where "q_flushToDatabase (MarkQueueItemsProcessed None None accept_queries) one_assigned sys_state = Some (n, st')"
    "unackedSlots (fsSched st') = filter (\<lambda>(i, _). i \<notin> aqAckId ` set (asgAssigned one_assigned)) (unackedSlots (fsSched sys_state))"
    by blast
  moreover have "map_of (filter (\<lambda>(i, _). i \<notin> aqAckId ` set (asgAssigned one_assigned)) (unackedSlots (fsSched sys_state))) 1 = None"
    by (auto simp: map_of_eq_None_iff one_assigned_def)
  ultimately show ?thesis using sys_state_held by auto
qed

text \<open>
  C32. A task that is assigned twice leaks a slot. The ack ids are kept by task, so when a result holds
  two copies of a queue item of one task, the id of the first copy is overwritten: the flush acks or
  nacks the later one for both, and the slot of the first copy is still held after it.
\<close>

theorem duplicate_task_leaks_slot:
  assumes "sched_inv (fsSched st)" "result_timed r"
    and "MarkQueueItemsProcessed beginErr commitErr mq (flush_opts r) = Some (Inr (succeeded, failed))"
    and "asgAssigned r = xs @ x # ys" "y \<in> set ys" "qiTaskId (aqItem y) = qiTaskId (aqItem x)"
    and "aqAckId x \<notin> aqAckId ` (set xs \<union> set ys)"
    and "map_of (unackedSlots (fsSched st)) (aqAckId x) = Some a"
  shows "\<exists>n st'. q_flushToDatabase (MarkQueueItemsProcessed beginErr commitErr mq) r st = Some (n, st') \<and>
    map_of (unackedSlots (fsSched st')) (aqAckId x) = Some a"
proof -
  let ?p = "\<lambda>a. (qiTaskId (aqItem a), aqAckId a)"
  have other: "mapCount (stepRunIdsToAcks (asgAssigned r)) (qiTaskId (aqItem b)) \<noteq> aqAckId x" if "b \<in> set (asgAssigned r)" for b
  proof -
    have "qiTaskId (aqItem b) \<in> fst ` set (rev (map ?p (asgAssigned r)))" using that by force
    then obtain v where v: "map_of (rev (map ?p (asgAssigned r))) (qiTaskId (aqItem b)) = Some v"
      by (metis map_of_eq_None_iff not_None_eq)
    have "v \<in> aqAckId ` (set xs \<union> set ys)"
    proof (cases "qiTaskId (aqItem b) = qiTaskId (aqItem x)")
      case True
      have "qiTaskId (aqItem x) \<in> fst ` set (rev (map ?p ys))" using imageI[OF assms(5), of "\<lambda>a. qiTaskId (aqItem a)"] assms(6) by (simp add: image_image)
      then obtain v' where v': "map_of (rev (map ?p ys)) (qiTaskId (aqItem x)) = Some v'"
        by (metis map_of_eq_None_iff not_None_eq)
      then have "v = v'" using v True by (simp add: assms(4))
      then show ?thesis using map_of_SomeD[OF v'] by auto
    next
      case False
      then show ?thesis using map_of_SomeD[OF v] by (auto simp: assms(4))
    qed
    then have "v \<noteq> aqAckId x" using assms(7) by metis
    then show ?thesis using v by (simp add: mapCount_def stepRunIdsToAcks_map)
  qed
  have kept: "aqAckId x \<notin> last_acks r"
  proof
    assume "aqAckId x \<in> last_acks r"
    then obtain b where b: "b \<in> set (asgAssigned r)"
      "aqAckId x = mapCount (stepRunIdsToAcks (asgAssigned r)) (qiTaskId (aqItem b))" by (auto simp: last_acks_def)
    show False using other[OF b(1)] b(2) by simp
  qed
  obtain n st' where f: "q_flushToDatabase (MarkQueueItemsProcessed beginErr commitErr mq) r st = Some (n, st')"
    "unackedSlots (fsSched st') = settled (last_acks r) (unackedSlots (fsSched st))"
    using repository_marker.flush_settles[OF assms(1,2), of beginErr commitErr mq] assms(3) by auto
  have "map_of (settled (last_acks r) us) (aqAckId x) = map_of us (aqAckId x)" for us
    using kept by (induction us) auto
  then show ?thesis using f assms(8) by auto
qed

definition two_copies :: assignResults where
  "two_copies = noResults\<lparr>asgAssigned := [\<lparr>aqAckId = 1, aqWorkerId = 1, aqItem = try_item 0\<rparr>,
     \<lparr>aqAckId = 2, aqWorkerId = 1, aqItem = (try_item 0)\<lparr>qiId := 9\<rparr>\<rparr>]\<rparr>"

theorem duplicate_task_leaks_slot_witness:
  "\<exists>n st'. q_flushToDatabase (MarkQueueItemsProcessed None None accept_queries) two_copies sys_state = Some (n, st') \<and>
     map_of (unackedSlots (fsSched st')) 1 = Some \<lparr>asSlots = [0], asReservation = None\<rparr>"
proof -
  let ?a = "\<lparr>aqAckId = 1, aqWorkerId = 1, aqItem = try_item 0\<rparr>" and ?b = "\<lparr>aqAckId = 2, aqWorkerId = 1, aqItem = (try_item 0)\<lparr>qiId := 9\<rparr>\<rparr>"
  have t: "result_timed two_copies" by (simp add: result_timed_def two_copies_def noResults_def)
  obtain succeeded failed where m: "MarkQueueItemsProcessed None None accept_queries (flush_opts two_copies) = Some (Inr (succeeded, failed))"
    by (simp add: MarkQueueItemsProcessed_def markQueueItemsProcessed_def two_copies_def noResults_def flush_opts_def
        assigned_item_def accept_queries_def accept_row_def retry_key_def task_key_def example_item_def flushed_row_def mark_rest_def
        unless_empty_def Let_def)
  have "asgAssigned two_copies = [] @ ?a # [?b]" by (simp add: two_copies_def)
  from duplicate_task_leaks_slot[OF sys_state_inv t m this, of ?b] show ?thesis
    using sys_state_held by (simp add: example_item_def)
qed

text \<open>
  C37. A batched item of an optimistic trigger keeps its rate limit units for good: the optimistic
  flush never ends the reservation of a batched item, whatever the database answers, while the
  regular flush of the same result does.
\<close>

theorem optimistic_flush_keeps_reservation:
  assumes "sched_inv (fsSched st)" "b \<in> set (asgBatched r)" "bqReservation b = Some t"
    and "\<forall>(_, a)\<in>set (unackedSlots (fsSched st)). asReservation a \<noteq> Some t"
  shows "(\<forall>res st'. flushToDatabaseOptimistic mark localWorkerIds r st = Some (res, st') \<longrightarrow>
      map_of (unacked (fsLimiter st')) t = map_of (unacked (fsLimiter st)) t) \<and>
    (\<forall>n st'. q_flushToDatabase mark r st = Some (n, st') \<longrightarrow> map_of (unacked (fsLimiter st')) t = None)"
proof (intro conjI allI impI)
  have ne: "asgBatched r \<noteq> []" using assms(2) by auto
  have free: "Some t \<notin> (asReservation \<circ> snd) ` set (unackedSlots (fsSched st))" using assms(4) by force
  fix res st' assume f: "flushToDatabaseOptimistic mark localWorkerIds r st = Some (res, st')"
  show "map_of (unacked (fsLimiter st')) t = map_of (unacked (fsLimiter st)) t"
    using f
  proof (cases rule: flushToDatabaseOptimistic_cases)
    case Failed
    then show ?thesis using sched_nack_reservation(2)[OF _ free] by metis
  next
    case (Marked ids ids')
    obtain rl1 s1 where n: "sched_nack ids' (fsLimiter st, fsSched st) = (rl1, s1)" by fastforce
    have "Some t \<notin> (asReservation \<circ> snd) ` set (unackedSlots s1)"
      using sched_nack_ok[OF assms(1), of ids' "fsLimiter st"] n free by auto
    then show ?thesis
      using sched_ack_reservation(2)[of ids rl1 s1] sched_nack_reservation(2)[OF n free] Marked n by simp
  qed (use ne in simp)
next
  fix n st' assume f: "q_flushToDatabase mark r st = Some (n, st')"
  have e: "map_of (unacked (end_reservations rl_ack (asgBatched r) (fsLimiter st))) t = None"
    "map_of (unacked (end_reservations rl_nack (asgBatched r) (fsLimiter st))) t = None"
    using assms(2,3) by (force simp: end_reservations_end end_one)+
  have ne: "asgBatched r \<noteq> []" using assms(2) by auto
  show "map_of (unacked (fsLimiter st')) t = None"
    using f
  proof (cases rule: q_flushToDatabase_cases)
    case Failed
    then show ?thesis using sched_nack_reservation(1)[OF _ e(2)] by metis
  next
    case (Marked ids ids')
    obtain rl1 s1 where "sched_nack ids' (end_reservations rl_ack (asgBatched r) (fsLimiter st), fsSched st) = (rl1, s1)"
      by fastforce
    then show ?thesis using sched_ack_reservation(1)[of ids rl1 s1] sched_nack_reservation(1)[OF _ e(1)] Marked by simp
  qed (use ne in simp)
qed

definition one_batched :: assignResults where
  "one_batched = noResults\<lparr>asgBatched := [\<lparr>bqItem = try_item 5, bqReservation = Some 5\<rparr>]\<rparr>"

theorem optimistic_flush_keeps_reservation_witness:
  "\<exists>res st' n st''. let st = sys_state\<lparr>fsLimiter := addToUnacked 5 [(''api'', 2)] example_limiter\<rparr> in
     flushToDatabaseOptimistic (MarkQueueItemsProcessed None None accept_queries) [] one_batched st = Some (res, st') \<and>
     q_flushToDatabase (MarkQueueItemsProcessed None None accept_queries) one_batched st = Some (n, st'') \<and>
     map_of (unacked (fsLimiter st')) 5 \<noteq> None \<and> map_of (unacked (fsLimiter st'')) 5 = None"
proof -
  let ?st = "sys_state\<lparr>fsLimiter := addToUnacked 5 [(''api'', 2)] example_limiter\<rparr>"
  let ?mark = "MarkQueueItemsProcessed None None accept_queries"
  have inv: "sched_inv (fsSched ?st)" using sys_state_inv by simp
  have t: "result_timed one_batched" by (simp add: result_timed_def one_batched_def noResults_def)
  obtain n st'' where r: "q_flushToDatabase ?mark one_batched ?st = Some (n, st'')"
    using repository_marker.flush_settles[OF inv t] by blast
  have "?mark ((flush_opts one_batched)\<lparr>aoBuffered := []\<rparr>) = Some (Inr ([], []))"
    by (simp add: MarkQueueItemsProcessed_def markQueueItemsProcessed_def one_batched_def noResults_def flush_opts_def
        accept_queries_def mark_rest_def unless_empty_def Let_def)
  then obtain res st' where o: "flushToDatabaseOptimistic ?mark [] one_batched ?st = Some (res, st')"
    by (simp add: flushToDatabaseOptimistic_def one_batched_def sched_nack_def sched_ack_def Let_def)
  have b: "\<lparr>bqItem = try_item 5, bqReservation = Some 5\<rparr> \<in> set (asgBatched one_batched)" by (simp add: one_batched_def)
  have free: "\<forall>(_, a)\<in>set (unackedSlots (fsSched ?st)). asReservation a \<noteq> Some 5" by (simp add: sys_state_def sys_one_def)
  have "map_of (unacked (fsLimiter ?st)) 5 \<noteq> None" by (simp add: example_limiter_eq newRateLimiter_def)
  then show ?thesis
    using optimistic_flush_keeps_reservation[OF inv b _ free, of ?mark "[]"] r o unfolding Let_def by fastforce
qed

text \<open>
  C36. An optimistic trigger that fails strands assignments: when the write of one result fails, the
  results that follow are not looked at, and the slots assigned to their items stay held by
  assignments that nothing will ever ack or nack.
\<close>

theorem optimistic_failure_strands_slots:
  assumes "sched_inv (fsSched st)" "asgAssigned r \<noteq> []"
    and "mark ((flush_opts r)\<lparr>aoBuffered := []\<rparr>) = Some (Inl e)"
    and "r' \<in> set rs" "a \<in> set (asgAssigned r')" "aqAckId a \<notin> aqAckId ` set (asgAssigned r)"
    and "map_of (unackedSlots (fsSched st)) (aqAckId a) = Some held"
  shows "\<exists>st'. flush_optimistic mark localWorkerIds (r # rs) st = Some (Inl e, st') \<and>
    map_of (unackedSlots (fsSched st')) (aqAckId a) = Some held"
proof -
  obtain rl' s' where n: "sched_nack (map aqAckId (asgAssigned r)) (fsLimiter st, fsSched st) = (rl', s')"
    "unackedSlots s' = settled (set (map aqAckId (asgAssigned r))) (unackedSlots (fsSched st))"
    using sched_nack_ok[OF assms(1)] by blast
  have "map_of (settled (set (map aqAckId (asgAssigned r))) us) (aqAckId a) = map_of us (aqAckId a)" for us
    using assms(6) by (induction us) auto
  then show ?thesis using assms(2,3,7) n by (simp add: flushToDatabaseOptimistic_def Let_def)
qed

theorem optimistic_failure_strands_slots_witness:
  "\<exists>st'. flush_optimistic (\<lambda>_. Some (Inl ''deadlock'')) []
       [noResults\<lparr>asgAssigned := [\<lparr>aqAckId = 7, aqWorkerId = 1, aqItem = try_item 3\<rparr>]\<rparr>, one_assigned] sys_state =
         Some (Inl ''deadlock'', st') \<and>
     map_of (unackedSlots (fsSched st')) 1 = Some \<lparr>asSlots = [0], asReservation = None\<rparr>"
  using optimistic_failure_strands_slots[OF sys_state_inv, of
      "noResults\<lparr>asgAssigned := [\<lparr>aqAckId = 7, aqWorkerId = 1, aqItem = try_item 3\<rparr>]\<rparr>" "\<lambda>_. Some (Inl ''deadlock'')" "''deadlock''"
      one_assigned "[one_assigned]" "\<lparr>aqAckId = 1, aqWorkerId = 1, aqItem = try_item 0\<rparr>" "\<lparr>asSlots = [0], asReservation = None\<rparr>" "[]"]
    sys_state_held by (simp add: one_assigned_def)

text \<open>
  The poll interval: one second for each of the first three empty polls in a row, then doubled
  with every further one up to thirty seconds, plus a jitter below half of that. It is never
  shorter than a second, and below forty-five seconds however long the queue stays empty.
\<close>

theorem poll_interval_bounds:
  assumes "\<And>n. 0 < n \<Longrightarrow> 0 \<le> rnd n \<and> rnd n < n"
  defines "base q \<equiv> min (1000000000 * 2 ^ nat (quConsecutiveEmptyPolls q - 3)) (30 * 1000000000)"
  shows "base q \<le> nextPollInterval rnd q \<and> nextPollInterval rnd q < base q + base q div 2 \<and>
    1000000000 \<le> nextPollInterval rnd q \<and> nextPollInterval rnd q < 45 * 1000000000"
proof -
  let ?k = "nat (quConsecutiveEmptyPolls q - 3)"
  have big: "30 \<le> (2 :: int) ^ ?k" if "5 \<le> ?k"
    using power_increasing[OF that, of "2 :: int"] by simp
  have base: "1000000000 \<le> base q" "base q \<le> 30000000000" by (simp_all add: base_def)
  have "(if quConsecutiveEmptyPolls q > emptyPollsBeforeBackoff
      then (let shift = quConsecutiveEmptyPolls q - emptyPollsBeforeBackoff;
                shift = (if shift > 5 then 5 else shift);
                interval = push_bit (nat shift) queuePollInterval
            in if interval > maxQueuePollInterval then maxQueuePollInterval else interval)
      else queuePollInterval) = base q"
  proof (cases "quConsecutiveEmptyPolls q - 3 > 5")
    case True
    then have "30 \<le> (2 :: int) ^ ?k" by (intro big) simp
    then show ?thesis using True
      by (auto simp: base_def queuePollInterval_def maxQueuePollInterval_def emptyPollsBeforeBackoff_def push_bit_eq_mult min_def)
  next
    case False
    then show ?thesis
      by (simp add: base_def queuePollInterval_def maxQueuePollInterval_def emptyPollsBeforeBackoff_def push_bit_eq_mult min_def)
  qed
  then have "nextPollInterval rnd q = base q + rnd (base q div 2)" by (simp add: nextPollInterval_def Let_def)
  moreover have "0 \<le> rnd (base q div 2)" "rnd (base q div 2) < base q div 2" using assms(1)[of "base q div 2"] base(1) by simp_all
  ultimately show ?thesis using base by linarith
qed

theorem poll_interval_bounds_witness:
  "1000000000 \<le> nextPollInterval (\<lambda>n. n - 1) (newQueuer 0) \<and> nextPollInterval (\<lambda>n. n - 1) (newQueuer 0) < 45 * 1000000000"
  using poll_interval_bounds[of "\<lambda>n. n - 1" "newQueuer 0"] by simp

end
