(* ===== verification/Batch_Repository.thy ===== *)
theory Batch_Repository
  imports Queuer
begin

text \<open>
  Committing a batch run to the database: \<open>ReserveAndCommitBatchRun\<close>, \<open>CommitAssignments\<close>,
  \<open>commitAssignmentsTx\<close> and \<open>applyBatchMetadataTx\<close> of \<open>src/pkg/repository/scheduler_queue.go\<close>. The
  SQL statements and the parser of uuids are the fields of a record of parameters; the rows they
  return are not nil. \<open>None\<close> is a panic.
\<close>

section \<open>Model\<close>

text \<open>Strings hold code points up to 255; these are the ones Go counts as white space.\<close>

definition isSpace :: "char \<Rightarrow> bool" where
  "isSpace c \<longleftrightarrow> of_char c \<in> {9, 10, 11, 12, 13, 32, 133, 160 :: nat}"

definition TrimSpace :: "string \<Rightarrow> string" where
  "TrimSpace s = rev (dropWhile isSpace (rev (dropWhile isSpace s)))"

record batchAssignment =
  btItemId :: int
  btTaskId :: int
  btTaskInsertedAt :: "int option"
  btRetryCount :: int
  btWorkerId :: uuid
  btBatchId :: string
  btStepId :: uuid
  btActionId :: string
  btBatchKey :: string

text \<open>The parameters of \<open>UpdateTaskBatchMetadata\<close>; each task comes with its index in the batch.\<close>

record taskBatchMetadata =
  tmBatchId :: uuid
  tmBatchSize :: int
  tmWorkerId :: uuid
  tmBatchKey :: string
  tmTasks :: "(int \<times> int option \<times> int) list"

record 'e batchQueries =
  cqParseUuid :: "string \<Rightarrow> uuid option"
  cqBegin :: "'e option"
  cqCommit :: "'e option"
  cqLock :: "'e option"
  cqReserve :: "uuid \<Rightarrow> string \<Rightarrow> string \<Rightarrow> uuid \<Rightarrow> int \<Rightarrow> 'e + bool"
  cqDelete :: "int list \<Rightarrow> 'e option"
  cqUpdate :: "(taskKey \<times> uuid) list \<Rightarrow> int option \<Rightarrow> 'e + taskIdRetryCount list"
  cqMetadata :: "taskBatchMetadata \<Rightarrow> 'e option"

definition batch_key_of :: "batchAssignment \<Rightarrow> taskIdRetryCount" where
  "batch_key_of a = (btTaskId a, btRetryCount a)"

text \<open>The map \<open>groups\<close> in the order of the slice \<open>order\<close>.\<close>

definition group_batches :: "batchAssignment list \<Rightarrow> (string \<times> batchAssignment list) list" where
  "group_batches as =
     foldl (\<lambda>m a. if TrimSpace (btBatchId a) = [] then m
                  else AList.update (btBatchId a) (mapList m (btBatchId a) @ [a]) m) [] as"

definition index_tasks :: "batchAssignment list \<Rightarrow> (int \<times> int option \<times> int) list" where
  "index_tasks g = map (\<lambda>(i, a). (btTaskId a, btTaskInsertedAt a, int32 (int i))) (enumerate 0 g)"

fun apply_batches :: "'e batchQueries \<Rightarrow> (string \<times> batchAssignment list) list \<Rightarrow> 'e option option" where
  "apply_batches cq [] = Some None"
| "apply_batches cq ((batchID, g) # gs) =
     do { u \<leftarrow> cqParseUuid cq batchID;
          a \<leftarrow> (case g of [] \<Rightarrow> None | a # _ \<Rightarrow> Some a);
          (case cqMetadata cq \<lparr>tmBatchId = u, tmBatchSize = int32 (int (length g)), tmWorkerId = btWorkerId a,
                               tmBatchKey = btBatchKey a, tmTasks = index_tasks g\<rparr> of
             Some e \<Rightarrow> Some (Some e)
           | None \<Rightarrow> apply_batches cq gs) }"

definition applyBatchMetadataTx :: "'e batchQueries \<Rightarrow> batchAssignment list \<Rightarrow> 'e option option" where
  "applyBatchMetadataTx cq as = apply_batches cq (group_batches as)"

fun min_task_inserted_at :: "int option \<Rightarrow> batchAssignment list \<Rightarrow> int option" where
  "min_task_inserted_at m [] = m"
| "min_task_inserted_at m (a # as) =
     min_task_inserted_at
       (case (btTaskInsertedAt a, m) of
          (Some t, None) \<Rightarrow> Some t
        | (Some t, Some t0) \<Rightarrow> if t < t0 then Some t else m
        | (None, _) \<Rightarrow> m) as"

definition commitAssignmentsTx :: "'e batchQueries \<Rightarrow> batchAssignment list \<Rightarrow> ('e + batchAssignment list) option" where
  "commitAssignmentsTx cq as =
     (if as = [] then Some (Inr [])
      else
        (case cqDelete cq (map btItemId as) of
           Some e \<Rightarrow> Some (Inl e)
         | None \<Rightarrow>
             (case cqUpdate cq (map (\<lambda>a. ((btTaskId a, btTaskInsertedAt a, btRetryCount a), btWorkerId a)) as)
                     (min_task_inserted_at None as) of
                Inl e \<Rightarrow> Some (Inl e)
              | Inr updated \<Rightarrow>
                  let succeeded = filter (\<lambda>a. batch_key_of a \<in> set updated) as
                  in do { err \<leftarrow> applyBatchMetadataTx cq succeeded;
                          Some (case err of Some e \<Rightarrow> Inl e | None \<Rightarrow> Inr succeeded) })))"

definition committed :: "'e option \<Rightarrow> 'e + 'a \<Rightarrow> 'e + 'a" where
  "committed commitErr res = and_then res (\<lambda>x. case commitErr of Some e \<Rightarrow> Inl e | None \<Rightarrow> Inr x)"

definition CommitAssignments :: "'e batchQueries \<Rightarrow> batchAssignment list \<Rightarrow> ('e + batchAssignment list) option" where
  "CommitAssignments cq as =
     (if as = [] then Some (Inr [])
      else (case cqBegin cq of
              Some e \<Rightarrow> Some (Inl e)
            | None \<Rightarrow> do { res \<leftarrow> commitAssignmentsTx cq as; Some (committed (cqCommit cq) res) }))"

text \<open>On success: whether the run was reserved, and the assignments that were committed.\<close>

definition ReserveAndCommitBatchRun ::
  "'e batchQueries \<Rightarrow> uuid \<Rightarrow> string \<Rightarrow> string \<Rightarrow> string \<Rightarrow> int \<Rightarrow> batchAssignment list \<Rightarrow>
    ('e + bool \<times> batchAssignment list) option" where
  "ReserveAndCommitBatchRun cq stepId actionId batchKey batchId maxRuns as =
     (if maxRuns \<le> 0 \<or> TrimSpace batchKey = []
      then do { res \<leftarrow> CommitAssignments cq as; Some (and_then res (\<lambda>succeeded. Inr (True, succeeded))) }
      else
        (case cqBegin cq of
           Some e \<Rightarrow> Some (Inl e)
         | None \<Rightarrow>
             (case cqLock cq of
                Some e \<Rightarrow> Some (Inl e)
              | None \<Rightarrow>
                  do {
                    u \<leftarrow> cqParseUuid cq batchId;
                    (case cqReserve cq stepId batchKey actionId u (int32 maxRuns) of
                       Inl e \<Rightarrow> Some (Inl e)
                     | Inr False \<Rightarrow> Some (committed (cqCommit cq) (Inr (False, [])))
                     | Inr True \<Rightarrow>
                         do { res \<leftarrow> commitAssignmentsTx cq as;
                              Some (committed (cqCommit cq) (and_then res (\<lambda>succeeded. Inr (True, succeeded)))) })
                  })))"

section \<open>What is committed\<close>

lemma group_batches_snoc:
  "group_batches (as @ [a]) =
     (if TrimSpace (btBatchId a) = [] then group_batches as
      else AList.update (btBatchId a) (mapList (group_batches as) (btBatchId a) @ [a]) (group_batches as))"
  by (simp add: group_batches_def)

lemma group_batches_map:
  "map_of (group_batches as) b =
     (let g = filter (\<lambda>a. btBatchId a = b) as in if TrimSpace b = [] \<or> g = [] then None else Some g)"
proof (induction as rule: rev_induct)
  case Nil
  then show ?case by (simp add: group_batches_def)
next
  case (snoc a as)
  show ?case
  proof (cases "TrimSpace (btBatchId a) = [] \<or> btBatchId a \<noteq> b")
    case True
    then show ?thesis using snoc by (auto simp: group_batches_snoc Let_def)
  next
    case False
    then show ?thesis using snoc by (auto simp: group_batches_snoc Let_def mapList_def split: option.splits if_splits)
  qed
qed

lemma group_batches_distinct: "distinct_keys (group_batches as)"
  by (induction as rule: rev_induct) (auto simp: group_batches_def)

lemma group_batches_mem:
  assumes "(b, g) \<in> set (group_batches as)"
  shows "g = filter (\<lambda>a. btBatchId a = b) as" "g \<noteq> []" "TrimSpace b \<noteq> []"
proof -
  have "map_of (group_batches as) b = Some g"
    using assms group_batches_distinct[of as] by (simp add: distinct_keys_def)
  then show "g = filter (\<lambda>a. btBatchId a = b) as" "g \<noteq> []" "TrimSpace b \<noteq> []"
    by (auto simp: group_batches_map Let_def split: if_splits)
qed

lemma bind_returns: "x \<noteq> None \<Longrightarrow> (\<And>y. f y \<noteq> None) \<Longrightarrow> x \<bind> f \<noteq> None"
  by (cases x) simp_all

lemma apply_batches_returns:
  "(\<And>b g. (b, g) \<in> set gs \<Longrightarrow> cqParseUuid cq b \<noteq> None \<and> g \<noteq> []) \<Longrightarrow> apply_batches cq gs \<noteq> None"
proof (induction gs)
  case (Cons p gs)
  obtain b g where p: "p = (b, g)" by (cases p)
  obtain u where u: "cqParseUuid cq b = Some u" using Cons.prems[of b g] p by auto
  obtain a g' where g: "g = a # g'" using Cons.prems[of b g] p by (cases g) auto
  have "apply_batches cq gs \<noteq> None" by (rule Cons.IH) (rule Cons.prems, simp)
  then show ?case by (simp add: p u g split: option.split)
qed simp

lemma applyBatchMetadataTx_returns:
  assumes "\<And>a. a \<in> set as \<Longrightarrow> cqParseUuid cq (btBatchId a) \<noteq> None"
  shows "applyBatchMetadataTx cq as \<noteq> None"
  unfolding applyBatchMetadataTx_def
proof (rule apply_batches_returns)
  fix b g assume m: "(b, g) \<in> set (group_batches as)"
  then obtain a where "a \<in> set g" using group_batches_mem(2)[OF m] by (cases g) auto
  then have "a \<in> set as" "btBatchId a = b" using group_batches_mem(1)[OF m] by auto
  then show "cqParseUuid cq b \<noteq> None \<and> g \<noteq> []" using assms group_batches_mem(2)[OF m] by blast
qed

lemma commitAssignmentsTx_returns:
  assumes "\<And>a. a \<in> set as \<Longrightarrow> cqParseUuid cq (btBatchId a) \<noteq> None"
  shows "commitAssignmentsTx cq as \<noteq> None"
proof -
  have "applyBatchMetadataTx cq (filter P as) \<noteq> None" for P
    by (rule applyBatchMetadataTx_returns) (use assms in auto)
  then have "applyBatchMetadataTx cq (filter P as) \<bind> (\<lambda>err. Some (f err)) \<noteq> None"
    for P and f :: "'a option \<Rightarrow> 'a + batchAssignment list"
    by (rule bind_returns) simp
  then show ?thesis
    unfolding commitAssignmentsTx_def Let_def by (simp split: option.split sum.split del: not_None_eq)
qed

lemma commitAssignmentsTx_succeeded:
  "commitAssignmentsTx cq as = Some (Inr succeeded) \<Longrightarrow> \<exists>P. succeeded = filter P as"
  by (auto simp: commitAssignmentsTx_def Let_def bind_eq_Some_conv split: if_splits option.splits sum.splits)

lemma committed_Inr [simp]: "committed e res = Inr x \<longleftrightarrow> res = Inr x \<and> e = None"
  by (auto simp: committed_def and_then_def split: sum.splits option.splits)

lemma and_then_Inr: "and_then res f = Inr y \<longleftrightarrow> (\<exists>x. res = Inr x \<and> f x = Inr y)"
  by (cases res) (auto simp: and_then_def)

lemma CommitAssignments_succeeded:
  "CommitAssignments cq as = Some (Inr succeeded) \<Longrightarrow> \<exists>P. succeeded = filter P as"
  using commitAssignmentsTx_succeeded[of cq as]
  by (auto simp: CommitAssignments_def bind_eq_Some_conv split: if_splits option.splits)

lemma CommitAssignments_returns:
  assumes "\<And>a. a \<in> set as \<Longrightarrow> cqParseUuid cq (btBatchId a) \<noteq> None"
  shows "CommitAssignments cq as \<noteq> None"
proof -
  have "commitAssignmentsTx cq as \<bind> (\<lambda>res. Some (committed (cqCommit cq) res)) \<noteq> None"
    by (rule bind_returns[OF commitAssignmentsTx_returns]) (use assms in simp_all)
  then show ?thesis unfolding CommitAssignments_def by (simp split: option.split del: not_None_eq)
qed

lemma ReserveAndCommitBatchRun_returns:
  assumes "cqParseUuid cq batchId \<noteq> None" "\<And>a. a \<in> set as \<Longrightarrow> btBatchId a = batchId"
  shows "ReserveAndCommitBatchRun cq stepId actionId batchKey batchId maxRuns as \<noteq> None"
proof -
  have p: "\<And>a. a \<in> set as \<Longrightarrow> cqParseUuid cq (btBatchId a) \<noteq> None" using assms by metis
  have "CommitAssignments cq as \<bind> (\<lambda>res. Some (f res)) \<noteq> None"
    "commitAssignmentsTx cq as \<bind> (\<lambda>res. Some (f res)) \<noteq> None"
    for f :: "'a + batchAssignment list \<Rightarrow> 'a + bool \<times> batchAssignment list"
    by (rule bind_returns[OF CommitAssignments_returns[OF p]]; simp)
      (rule bind_returns[OF commitAssignmentsTx_returns[OF p]]; simp)
  moreover obtain u where "cqParseUuid cq batchId = Some u" using assms(1) by blast
  ultimately show ?thesis
    unfolding ReserveAndCommitBatchRun_def
    by (simp split: option.split sum.split bool.split del: not_None_eq)
qed

lemma filter_none: "\<exists>P. [] = filter P xs"
  by (rule exI[of _ "\<lambda>_. False"]) simp

lemma ReserveAndCommitBatchRun_succeeded:
  assumes "ReserveAndCommitBatchRun cq stepId actionId batchKey batchId maxRuns as = Some (Inr (granted, succeeded))"
  shows "(\<exists>P. succeeded = filter P as) \<and> (\<not> granted \<longrightarrow> succeeded = [])"
proof (cases "maxRuns \<le> 0 \<or> TrimSpace batchKey = []")
  case True
  then have "CommitAssignments cq as = Some (Inr succeeded)" "granted"
    using assms by (auto simp: ReserveAndCommitBatchRun_def bind_eq_Some_conv and_then_Inr)
  then show ?thesis using CommitAssignments_succeeded by blast
next
  case False
  let ?res = "\<lambda>u. cqReserve cq stepId batchKey actionId u (int32 maxRuns)"
  have b: "cqBegin cq = None" "cqLock cq = None"
    using assms unfolding ReserveAndCommitBatchRun_def if_not_P[OF False] by (simp_all split: option.splits)
  then obtain u where "(case ?res u of Inl e \<Rightarrow> Some (Inl e)
      | Inr False \<Rightarrow> Some (committed (cqCommit cq) (Inr (False, [])))
      | Inr True \<Rightarrow> do { res \<leftarrow> commitAssignmentsTx cq as;
          Some (committed (cqCommit cq) (and_then res (\<lambda>succeeded. Inr (True, succeeded)))) }) = Some (Inr (granted, succeeded))"
    using assms unfolding ReserveAndCommitBatchRun_def if_not_P[OF False] by (auto simp: bind_eq_Some_conv)
  then have "succeeded = [] \<and> \<not> granted \<or> commitAssignmentsTx cq as = Some (Inr succeeded) \<and> granted"
    by (cases "?res u" rule: sum.exhaust; cases "\<exists>y. ?res u = Inr y \<and> y")
      (auto simp: bind_eq_Some_conv and_then_Inr split: bool.splits)
  then show ?thesis using commitAssignmentsTx_succeeded filter_none by blast
qed

end
