(* ===== verification/Batch_Scheduler.thy ===== *)
theory Batch_Scheduler
  imports Batch_Repository
begin

text \<open>
  The batch scheduler of one step (\<open>src/pkg/scheduling/v1/batch_scheduler.go\<close>): it buffers the
  queued items of the step by batch key, takes one slot for a whole batch when a batch is full, old
  or large enough, and commits the batch. The loop \<open>run\<close> is modelled by its ticks. The rows the
  queries return are not nil, and the test hook \<open>assignOverride\<close> is not set. Times are in nanoseconds
  since Go's zero time; telemetry and logging are left out.
\<close>

section \<open>Model\<close>

subsection \<open>State\<close>

definition batchFetchLimit :: int where
  "batchFetchLimit = 20000"

definition defaultBatchIdleTTL :: int where
  "defaultBatchIdleTTL = 30 * 1000000000"

definition maxBufferedPayloadBytes :: "32 word" where
  "maxBufferedPayloadBytes = 4000000"

record batchedQueueItem =
  tbId :: int
  tbQueue :: string
  tbTaskId :: int
  tbTaskInsertedAt :: "int option"
  tbActionId :: string
  tbStepId :: uuid
  tbScheduleTimeoutAt :: "int option"
  tbStepTimeout :: string
  tbPriority :: int
  tbSticky :: V1StickyStrategy
  tbDesiredWorkerId :: "uuid option"
  tbRetryCount :: int
  tbBatchKey :: string
  tbInsertedAt :: "int option"
  tbPayloadSize :: "32 word"

record bufferedItem =
  biScheduleTimeoutAt :: "int option"
  biQueue :: string
  biId :: int
  biPayloadSize :: "32 word"

definition toBufferedItem :: "batchedQueueItem \<Rightarrow> bufferedItem" where
  "toBufferedItem item =
     \<lparr>biScheduleTimeoutAt = tbScheduleTimeoutAt item, biQueue = tbQueue item, biId = tbId item,
      biPayloadSize = tbPayloadSize item\<rparr>"

text \<open>A missing timeout has the zero time. The batch key is read from the item where it is used.\<close>

definition toV1QueueItem :: "batchedQueueItem \<Rightarrow> queueItem" where
  "toV1QueueItem item =
     \<lparr>qiId = tbId item, qiTaskId = tbTaskId item, qiTaskInsertedAt = tbTaskInsertedAt item,
      qiRetryCount = tbRetryCount item, qiQueue = tbQueue item, qiActionId = tbActionId item,
      qiStepId = tbStepId item, qiPriority = tbPriority item, qiStepTimeout = tbStepTimeout item,
      qiDesiredWorkerLabel = [], qiSticky = tbSticky item, qiDesiredWorkerId = tbDesiredWorkerId item,
      qiScheduleTimeoutAt = (case tbScheduleTimeoutAt item of None \<Rightarrow> 0 | Some t \<Rightarrow> t)\<rparr>"

record batchGroup =
  bgLastActiveAt :: "int option"
  bgFlushDeadline :: "int option"
  bgFlushInterval :: "int option"
  bgBatchKey :: string
  bgBuffer :: "bufferedItem list"

definition getBufferedIds :: "batchGroup \<Rightarrow> int list" where
  "getBufferedIds g = map biId (bgBuffer g)"

definition expired :: "int \<Rightarrow> int option \<Rightarrow> bool" where
  "expired now t = (case t of None \<Rightarrow> False | Some t \<Rightarrow> t < now)"

definition bg_popTimedOut :: "int \<Rightarrow> batchGroup \<Rightarrow> bufferedItem list \<times> batchGroup" where
  "bg_popTimedOut now g =
     (filter (\<lambda>x. expired now (biScheduleTimeoutAt x)) (bgBuffer g),
      g\<lparr>bgBuffer := filter (\<lambda>x. \<not> expired now (biScheduleTimeoutAt x)) (bgBuffer g)\<rparr>)"

text \<open>Slicing beyond the length of the buffer panics.\<close>

definition popN :: "nat \<Rightarrow> batchGroup \<Rightarrow> (bufferedItem list \<times> batchGroup) option" where
  "popN n g =
     (if n \<le> length (bgBuffer g) then Some (take n (bgBuffer g), g\<lparr>bgBuffer := drop n (bgBuffer g)\<rparr>) else None)"

definition resetFlushDeadline :: "int \<Rightarrow> batchGroup \<Rightarrow> batchGroup" where
  "resetFlushDeadline now g =
     (case bgFlushInterval g of None \<Rightarrow> g | Some d \<Rightarrow> g\<lparr>bgFlushDeadline := Some (now + d)\<rparr>)"

text \<open>
  The four booleans tell whether the scheduler, the queue factory, the emitter and the task
  repository are there; \<open>bsStarted\<close> whether \<open>Start\<close> has set the context and \<open>bsCancelled\<close> whether it
  is cancelled.
\<close>

record batchScheduler =
  bsStepId :: uuid
  bsMaxRuns :: int
  bsBatchSize :: int
  bsFlushInterval :: "int option"
  bsIdleTTL :: int
  bsLastActiveAt :: int
  bsGroups :: "(string \<times> batchGroup) list"
  bsHasScheduler :: bool
  bsHasQueueFactory :: bool
  bsHasEmitter :: bool
  bsHasTaskRepo :: bool
  bsStarted :: bool
  bsCancelled :: bool

record batchResource =
  brStepId :: uuid
  brBatchMaxSize :: int
  brBatchMaxInterval :: "int option"
  brBatchGroupMaxRuns :: "int option"

definition newBatchScheduler :: "int \<Rightarrow> bool \<Rightarrow> bool \<Rightarrow> bool \<Rightarrow> bool \<Rightarrow> batchResource option \<Rightarrow> batchScheduler option" where
  "newBatchScheduler now hasTaskRepo hasQueueFactory hasScheduler hasEmitter resource =
     (case resource of
        None \<Rightarrow> None
      | Some r \<Rightarrow>
          Some \<lparr>bsStepId = brStepId r,
                bsMaxRuns = (case brBatchGroupMaxRuns r of None \<Rightarrow> 0 | Some n \<Rightarrow> n),
                bsBatchSize = (if brBatchMaxSize r \<le> 0 then 1 else brBatchMaxSize r),
                bsFlushInterval = map_option (\<lambda>ms. ms * 1000000) (brBatchMaxInterval r),
                bsIdleTTL = defaultBatchIdleTTL, bsLastActiveAt = now, bsGroups = [],
                bsHasScheduler = hasScheduler, bsHasQueueFactory = hasQueueFactory, bsHasEmitter = hasEmitter,
                bsHasTaskRepo = hasTaskRepo, bsStarted = False, bsCancelled = False\<rparr>)"

definition bs_touch :: "int \<Rightarrow> batchScheduler \<Rightarrow> batchScheduler" where
  "bs_touch now b = b\<lparr>bsLastActiveAt := now\<rparr>"

definition bs_Start :: "int \<Rightarrow> batchScheduler \<Rightarrow> batchScheduler" where
  "bs_Start now b = (if bsStarted b then b else bs_touch now (b\<lparr>bsStarted := True\<rparr>))"

text \<open>The cancellation of \<open>Cleanup\<close>, without the wait for the loop to end.\<close>

definition bs_Cleanup :: "batchScheduler \<Rightarrow> batchScheduler" where
  "bs_Cleanup b = (if bsStarted b then b\<lparr>bsCancelled := True\<rparr> else b)"

definition allBufferedIds :: "batchScheduler \<Rightarrow> int list" where
  "allBufferedIds b = concat (map (\<lambda>(_, g). getBufferedIds g) (bsGroups b))"

subsection \<open>What is emitted\<close>

datatype flushReason =
    BatchSizeReached | WorkerChanged | DispatcherChanged | IntervalElapsed | BufferDrained | BufferMemorySizeReached

record batchMetadata =
  mdState :: string
  mdReason :: "flushReason option"
  mdTriggeredAt :: int
  mdMaxSize :: int
  mdMaxIntervalMs :: int
  mdMaxRuns :: int
  mdPending :: int
  mdNextFlushAt :: "int option"
  mdBatchId :: string
  mdStepId :: uuid
  mdActionId :: string
  mdGroupKey :: string

record batchAssigned =
  bxWorkerId :: uuid
  bxItem :: queueItem
  bxBatch :: batchMetadata

text \<open>A \<open>QueueResults\<close> with the field that is set.\<close>

datatype batchEvent =
    EvAssigned "batchAssigned list"
  | EvBuffered "batchAssigned list"
  | EvTimedOut "queueItem list"

text \<open>What a tick works on; \<open>xsFlush\<close> numbers its flushes.\<close>

record batchState =
  xsBatch :: batchScheduler
  xsLimiter :: rateLimiter
  xsSched :: scheduler
  xsEvents :: "batchEvent list"
  xsFlush :: nat

definition batchMaxIntervalMs :: "batchScheduler \<Rightarrow> int" where
  "batchMaxIntervalMs b =
     (case bsFlushInterval b of
        None \<Rightarrow> 0
      | Some d \<Rightarrow> if d \<le> 0 then 0 else int32 (d div 1000000))"

definition waiting_event :: "int \<Rightarrow> batchScheduler \<Rightarrow> batchGroup \<Rightarrow> batchedQueueItem \<Rightarrow> batchAssigned" where
  "waiting_event now b g item =
     \<lparr>bxWorkerId = 0, bxItem = toV1QueueItem item,
      bxBatch =
        \<lparr>mdState = ''waiting'', mdReason = None,
         mdTriggeredAt = (case tbInsertedAt item of None \<Rightarrow> now | Some t \<Rightarrow> t),
         mdMaxSize = int32 (bsBatchSize b), mdMaxIntervalMs = batchMaxIntervalMs b, mdMaxRuns = int32 (bsMaxRuns b),
         mdPending = int32 (int (length (bgBuffer g))), mdNextFlushAt = bgFlushDeadline g, mdBatchId = [],
         mdStepId = tbStepId item, mdActionId = tbActionId item,
         mdGroupKey = (if TrimSpace (tbBatchKey item) \<noteq> [] then TrimSpace (tbBatchKey item) else [])\<rparr>\<rparr>"

definition emitWaitingEvents ::
  "int \<Rightarrow> batchScheduler \<Rightarrow> batchGroup \<Rightarrow> batchedQueueItem list \<Rightarrow> batchEvent list \<Rightarrow> batchEvent list" where
  "emitWaitingEvents now b g newItems events =
     (if \<not> bsHasEmitter b \<or> newItems = [] then events
      else events @ [EvBuffered (map (waiting_event now b g) newItems)])"

subsection \<open>Assigning and committing a batch\<close>

datatype 'e batchError = MissingScheduler | MissingQueueFactory | MissingResults | DbError 'e

text \<open>
  The answers for the items of one queue: whether there is a queue repository, the labels of the
  step, the error of the context, whether the run loop of the scheduler takes the op, the count of
  active runs, a new uuid and \<open>ReserveAndCommitBatchRun\<close>, with the readings of the clock.
\<close>

record 'e queueEnv =
  qeRepo :: bool
  qeLabels :: "'e + (uuid \<times> desiredLabel list) list"
  qeCtxErr :: "'e option"
  qeRunning :: bool
  qeNow :: int
  qeCount :: "uuid \<Rightarrow> string \<Rightarrow> 'e + int"
  qeBatchId :: string
  qeTriggeredAt :: int
  qeReserve :: "uuid \<Rightarrow> string \<Rightarrow> string \<Rightarrow> string \<Rightarrow> int \<Rightarrow> batchAssignment list \<Rightarrow> ('e + bool \<times> batchAssignment list) option"
  qeWaitNow :: int
  qeResetNow :: int

record 'e flushEnv =
  feHydrate :: "int list \<Rightarrow> 'e + batchedQueueItem list"
  feOrder :: "(string \<times> batchedQueueItem list) list \<Rightarrow> (string \<times> batchedQueueItem list) list"
  feQueue :: "string \<Rightarrow> 'e queueEnv"
  feResetNow :: int
  feActiveNow :: int

text \<open>One slot is taken for the whole batch. The result is the assignments and the failed items.\<close>

definition assignQueueItems ::
  "'e queueEnv \<Rightarrow> queueItem list \<Rightarrow> (uuid \<Rightarrow> desiredLabel list) \<Rightarrow> scheduler \<Rightarrow>
    (('e + assignedQueueItem list \<times> queueItem list) \<times> scheduler) option" where
  "assignQueueItems qe items labels s =
     (case items of
        [] \<Rightarrow> Some (Inr ([], []), s)
      | schedulingItem # _ \<Rightarrow>
          do {
            ((_, res), s') \<leftarrow> tryAssignBatchQueueItem (qeCtxErr qe \<noteq> None) (qeRunning qe) (qeNow qe)
                              (Some schedulingItem) (labels (qiStepId schedulingItem)) s;
            Some (case qeCtxErr qe of
                    Some e \<Rightarrow> Inl e
                  | None \<Rightarrow>
                      (case res of
                         None \<Rightarrow> Inr ([], [schedulingItem])
                       | Some r \<Rightarrow>
                           if arSucceeded r
                           then Inr ([\<lparr>aqAckId = arAckId r, aqWorkerId = arWorkerId r, aqItem = schedulingItem\<rparr>], [])
                           else Inr ([], [schedulingItem])), s')
          })"

text \<open>The state of the loop of \<open>assignAndDispatch\<close> over the queues.\<close>

record dispatchState =
  dsRemaining :: "batchedQueueItem list"
  dsAssigned :: "batchAssigned list"
  dsAckIds :: "int list"
  dsGroup :: batchGroup
  dsLimiter :: rateLimiter
  dsSched :: scheduler
  dsEvents :: "batchEvent list"

definition nack_ids :: "int list \<Rightarrow> dispatchState \<Rightarrow> dispatchState" where
  "nack_ids ackIds d =
     (if ackIds = [] then d
      else (case sched_nack ackIds (dsLimiter d, dsSched d) of
              (rl, s) \<Rightarrow> d\<lparr>dsLimiter := rl, dsSched := s\<rparr>))"

definition requeueGroup ::
  "'e queueEnv \<Rightarrow> batchScheduler \<Rightarrow> batchedQueueItem list \<Rightarrow> int list \<Rightarrow> dispatchState \<Rightarrow> dispatchState" where
  "requeueGroup qe b itemGroup ackIds d =
     (let d1 = nack_ids ackIds d
      in d1\<lparr>dsRemaining := dsRemaining d1 @ itemGroup,
            dsEvents := emitWaitingEvents (qeWaitNow qe) b (dsGroup d1) itemGroup (dsEvents d1),
            dsGroup := resetFlushDeadline (qeResetNow qe) (dsGroup d1)\<rparr>)"

definition queueItemsByID :: "batchedQueueItem list \<Rightarrow> (int \<times> queueItem) list" where
  "queueItemsByID items = foldl (\<lambda>m x. AList.update (tbId x) (toV1QueueItem x) m) [] items"

definition batch_assignments ::
  "(int \<times> queueItem) list \<Rightarrow> uuid \<Rightarrow> string \<Rightarrow> uuid \<Rightarrow> string \<Rightarrow> string \<Rightarrow> batchedQueueItem list \<Rightarrow> batchAssignment list" where
  "batch_assignments byId workerID batchID stepID actionID batchKey items =
     map (\<lambda>x. \<lparr>btItemId = tbId x, btTaskId = tbTaskId x, btTaskInsertedAt = tbTaskInsertedAt x,
               btRetryCount = tbRetryCount x, btWorkerId = workerID, btBatchId = batchID, btStepId = stepID,
               btActionId = actionID, btBatchKey = batchKey\<rparr>)
       (filter (\<lambda>x. map_of byId (tbId x) \<noteq> None) items)"

definition queueResultsByTaskID ::
  "(int \<times> queueItem) list \<Rightarrow> uuid \<Rightarrow> batchMetadata \<Rightarrow> batchedQueueItem list \<Rightarrow> (int \<times> batchAssigned) list" where
  "queueResultsByTaskID byId workerID md items =
     foldl (\<lambda>m x. case map_of byId (tbId x) of
                    None \<Rightarrow> m
                  | Some qi \<Rightarrow> AList.update (qiTaskId qi) \<lparr>bxWorkerId = workerID, bxItem = qi, bxBatch = md\<rparr> m) [] items"

definition flushed_metadata ::
  "batchScheduler \<Rightarrow> flushReason \<Rightarrow> int \<Rightarrow> string \<Rightarrow> uuid \<Rightarrow> string \<Rightarrow> string \<Rightarrow> batchMetadata" where
  "flushed_metadata b reason now batchID stepID actionID batchKey =
     \<lparr>mdState = ''flushed'', mdReason = Some reason, mdTriggeredAt = now, mdMaxSize = int32 (bsBatchSize b),
      mdMaxIntervalMs = batchMaxIntervalMs b, mdMaxRuns = int32 (bsMaxRuns b), mdPending = 0, mdNextFlushAt = None,
      mdBatchId = batchID, mdStepId = stepID, mdActionId = actionID, mdGroupKey = batchKey\<rparr>"

text \<open>Whether the count of active runs lets a new run start.\<close>

definition under_max_runs :: "'e queueEnv \<Rightarrow> batchScheduler \<Rightarrow> uuid \<Rightarrow> string \<Rightarrow> bool" where
  "under_max_runs qe b stepID batchKey \<longleftrightarrow>
     (if bsMaxRuns b > 0 \<and> batchKey \<noteq> [] \<and> bsHasTaskRepo b
      then (case qeCount qe stepID batchKey of Inl e \<Rightarrow> False | Inr n \<Rightarrow> n < bsMaxRuns b)
      else True)"

text \<open>The items of a queue once a slot is taken for them.\<close>

definition commit_queue ::
  "'e queueEnv \<Rightarrow> batchScheduler \<Rightarrow> flushReason \<Rightarrow> uuid \<Rightarrow> string \<Rightarrow> string \<Rightarrow> uuid \<Rightarrow> int list \<Rightarrow> batchedQueueItem list \<Rightarrow>
    dispatchState \<Rightarrow> ('e batchError option \<times> dispatchState) option" where
  "commit_queue qe b reason stepID actionID batchKey workerID ackIds itemGroup d =
     (let batchID = qeBatchId qe; byId = queueItemsByID itemGroup;
          batchAssignments = batch_assignments byId workerID batchID stepID actionID batchKey itemGroup;
          results = queueResultsByTaskID byId workerID
            (flushed_metadata b reason (qeTriggeredAt qe) batchID stepID actionID batchKey) itemGroup
      in if batchAssignments = [] then Some (None, nack_ids ackIds d)
         else
           do {
             res \<leftarrow> qeReserve qe stepID actionID batchKey batchID (bsMaxRuns b) batchAssignments;
             (case res of
                Inl e \<Rightarrow> Some (Some (DbError e), nack_ids ackIds d)
              | Inr (granted, succeeded) \<Rightarrow>
                  if \<not> granted then Some (None, requeueGroup qe b itemGroup ackIds d)
                  else
                    let queueResults = List.map_filter (\<lambda>a. map_of results (btTaskId a)) succeeded
                    in if queueResults = [] then Some (None, nack_ids ackIds d)
                       else Some (None, d\<lparr>dsAssigned := dsAssigned d @ queueResults, dsAckIds := dsAckIds d @ ackIds\<rparr>))
           })"

definition dispatch_queue ::
  "'e queueEnv \<Rightarrow> batchScheduler \<Rightarrow> flushReason \<Rightarrow> batchedQueueItem list \<Rightarrow> dispatchState \<Rightarrow>
    ('e batchError option \<times> dispatchState) option" where
  "dispatch_queue qe b reason itemGroup d =
     (if \<not> qeRepo qe then Some (None, d\<lparr>dsRemaining := dsRemaining d @ itemGroup\<rparr>)
      else
        (case itemGroup of
           [] \<Rightarrow> Some (None, d)
         | first # _ \<Rightarrow>
             let stepID = (if tbStepId first \<noteq> 0 then tbStepId first else bsStepId b);
                 actionID = tbActionId first;
                 batchKey = (if TrimSpace (tbBatchKey first) \<noteq> [] then TrimSpace (tbBatchKey first)
                             else TrimSpace (bgBatchKey (dsGroup d)))
             in case qeLabels qe of
                  Inl e \<Rightarrow> Some (Some (DbError e), d)
                | Inr rows \<Rightarrow>
                    do {
                      (res, s) \<leftarrow> assignQueueItems qe [toV1QueueItem first]
                         (\<lambda>step. if step = bsStepId b then mapList rows (bsStepId b) else []) (dsSched d);
                      let d1 = d\<lparr>dsSched := s\<rparr>;
                      (case res of
                         Inl e \<Rightarrow> Some (Some (DbError e), d1)
                       | Inr (assigned, failed) \<Rightarrow>
                           (case assigned of
                              [] \<Rightarrow> Some (None, requeueGroup qe b itemGroup [] d1)
                            | a # _ \<Rightarrow>
                                if failed \<noteq> [] \<or> aqWorkerId a = 0
                                then Some (None, requeueGroup qe b itemGroup [] d1)
                                else
                                  let ackIds = (if aqAckId a > 0 then [aqAckId a] else []);
                                      key = TrimSpace batchKey
                                  in if under_max_runs qe b stepID key
                                     then commit_queue qe b reason stepID actionID key (aqWorkerId a) ackIds itemGroup d1
                                     else Some (None, requeueGroup qe b itemGroup ackIds d1)))
                    }))"

fun dispatch_queues ::
  "(string \<Rightarrow> 'e queueEnv) \<Rightarrow> batchScheduler \<Rightarrow> flushReason \<Rightarrow> (string \<times> batchedQueueItem list) list \<Rightarrow>
    dispatchState \<Rightarrow> ('e batchError option \<times> dispatchState) option" where
  "dispatch_queues qes b reason [] d = Some (None, d)"
| "dispatch_queues qes b reason ((queueName, itemGroup) # qs) d =
     do { (err, d1) \<leftarrow> dispatch_queue (qes queueName) b reason itemGroup d;
          (case err of
             Some e \<Rightarrow> Some (Some e, d1)
           | None \<Rightarrow> dispatch_queues qes b reason qs d1) }"

definition queueToItems :: "batchedQueueItem list \<Rightarrow> (string \<times> batchedQueueItem list) list" where
  "queueToItems items = foldl (\<lambda>m x. AList.update (tbQueue x) (mapList m (tbQueue x) @ [x]) m) [] items"

text \<open>The remaining items or the error, with the group and the state after the call.\<close>

definition assignAndDispatch ::
  "'e flushEnv \<Rightarrow> flushReason \<Rightarrow> batchedQueueItem list \<Rightarrow> batchGroup \<times> batchState \<Rightarrow>
    (('e batchError + batchedQueueItem list) \<times> batchGroup \<times> batchState) option" where
  "assignAndDispatch env reason items gst =
     (case gst of (g, st) \<Rightarrow>
        let b = xsBatch st
        in if \<not> bsHasScheduler b then Some (Inl MissingScheduler, g, st)
           else if \<not> bsHasQueueFactory b then Some (Inl MissingQueueFactory, g, st)
           else if \<not> bsHasEmitter b then Some (Inl MissingResults, g, st)
           else if items = [] then Some (Inr [], g, st)
           else
             do {
               (err, d) \<leftarrow> dispatch_queues (feQueue env) b reason (feOrder env (queueToItems items))
                 \<lparr>dsRemaining = [], dsAssigned = [], dsAckIds = [], dsGroup = g, dsLimiter = xsLimiter st,
                  dsSched = xsSched st, dsEvents = xsEvents st\<rparr>;
               (case err of
                  Some e \<Rightarrow>
                    Some (Inl e, dsGroup d, st\<lparr>xsLimiter := dsLimiter d, xsSched := dsSched d, xsEvents := dsEvents d\<rparr>)
                | None \<Rightarrow>
                    do {
                      (rl, s) \<leftarrow> (if dsAckIds d = [] then Some (dsLimiter d, dsSched d)
                                  else sched_ack (dsAckIds d) (dsLimiter d, dsSched d));
                      Some (Inr (dsRemaining d), dsGroup d,
                            st\<lparr>xsLimiter := rl, xsSched := s,
                               xsEvents := (if dsAssigned d = [] then dsEvents d
                                            else dsEvents d @ [EvAssigned (dsAssigned d)])\<rparr>)
                    })
             })"

subsection \<open>Flushing a group\<close>

definition hydrateItems ::
  "(int list \<Rightarrow> 'e + batchedQueueItem list) \<Rightarrow> bufferedItem list \<Rightarrow> 'e batchError + batchedQueueItem list" where
  "hydrateItems byIds refs =
     (if refs = [] then Inr []
      else (case byIds (map biId refs) of Inl e \<Rightarrow> Inl (DbError e) | Inr items \<Rightarrow> Inr items))"

definition bs_flush ::
  "'e flushEnv \<Rightarrow> nat \<Rightarrow> flushReason \<Rightarrow> batchGroup \<times> batchState \<Rightarrow>
    ('e batchError option \<times> batchGroup \<times> batchState) option" where
  "bs_flush env n reason gst =
     (case gst of (g, st0) \<Rightarrow>
        if bgBuffer g = [] \<or> n = 0 then Some (None, g, st0)
        else
          let st = st0\<lparr>xsFlush := Suc (xsFlush st0)\<rparr>;
              n = (if n > length (bgBuffer g) then length (bgBuffer g) else n)
          in do {
               (popped, g1) \<leftarrow> popN n g;
               (case hydrateItems (feHydrate env) popped of
                  Inl e \<Rightarrow> Some (Some e, g1, st)
                | Inr toFlush \<Rightarrow>
                    do {
                      (res, g2, st2) \<leftarrow> assignAndDispatch env reason toFlush (g1, st);
                      Some (case res of
                              Inl e \<Rightarrow> (Some e, g2, st2)
                            | Inr remaining \<Rightarrow>
                                (let g3 = g2\<lparr>bgBuffer := map toBufferedItem remaining @ bgBuffer g2\<rparr>;
                                     g4 = (resetFlushDeadline (feResetNow env) g3)\<lparr>bgLastActiveAt := Some (feActiveNow env)\<rparr>
                                 in (None, g4, st2\<lparr>xsBatch := bs_touch (feActiveNow env) (xsBatch st2)\<rparr>)))
                    })
             })"

text \<open>The sum of the payload sizes is kept in 32 bits.\<close>

fun memory_scan :: "nat \<Rightarrow> 32 word \<Rightarrow> bufferedItem list \<Rightarrow> bool \<times> nat" where
  "memory_scan i totalPayloadSize [] = (False, 0)"
| "memory_scan i totalPayloadSize (x # xs) =
     (let totalPayloadSize = totalPayloadSize + biPayloadSize x
      in if sint maxBufferedPayloadBytes < sint totalPayloadSize then (if i = 0 then (True, 1) else (True, i))
         else memory_scan (Suc i) totalPayloadSize xs)"

definition shouldMemoryLimitFlush :: "batchGroup \<Rightarrow> bool \<times> nat" where
  "shouldMemoryLimitFlush g = memory_scan 0 0 (bgBuffer g)"

subsection \<open>A tick\<close>

text \<open>
  The loop that flushes while the payloads are over the limit has no bound: \<open>None\<close> when it does not
  end.
\<close>

partial_function (option) memory_flush ::
  "(nat \<Rightarrow> 'e flushEnv) \<Rightarrow> batchGroup \<times> batchState \<Rightarrow> ('e batchError option \<times> batchGroup \<times> batchState) option" where
  "memory_flush envs gst =
     (if \<not> fst (shouldMemoryLimitFlush (fst gst)) then Some (None, gst)
      else
        Option.bind (bs_flush (envs (xsFlush (snd gst))) (snd (shouldMemoryLimitFlush (fst gst))) BufferMemorySizeReached gst)
          (\<lambda>res. if fst res \<noteq> None then Some res else memory_flush envs (snd res)))"

text \<open>The loop that flushes full batches stops when a flush makes no progress.\<close>

function size_flush ::
  "(nat \<Rightarrow> 'e flushEnv) \<Rightarrow> batchGroup \<times> batchState \<Rightarrow> ('e batchError option \<times> batchGroup \<times> batchState) option" where
  "size_flush envs (g, st) =
     (let n = bsBatchSize (xsBatch st)
      in if 0 < n \<and> n \<le> int (length (bgBuffer g))
         then (case bs_flush (envs (xsFlush st)) (nat n) BatchSizeReached (g, st) of
                 None \<Rightarrow> None
               | Some (Some e, g1, st1) \<Rightarrow> Some (Some e, g1, st1)
               | Some (None, g1, st1) \<Rightarrow>
                   if length (bgBuffer g) \<le> length (bgBuffer g1) then Some (None, g1, st1)
                   else size_flush envs (g1, st1))
         else Some (None, g, st))"
  by pat_completeness auto
termination
  by (relation "measure (\<lambda>(envs, g, st). length (bgBuffer g))") auto

record 'e batchTickEnv =
  xeCtxErr :: "'e option"
  xeList :: "int list \<Rightarrow> int \<Rightarrow> 'e + batchedQueueItem list"
  xeTouchNow :: int
  xeFetchNow :: int
  xeGroupNow :: "string \<Rightarrow> int"
  xeWaitNow :: "string \<Rightarrow> int"
  xeFetchOrder :: "(string \<times> batchedQueueItem list) list \<Rightarrow> (string \<times> batchedQueueItem list) list"
  xeReconcileCtxErr :: bool
  xeExisting :: "int list \<Rightarrow> 'e + int set"
  xePopNow :: "string \<Rightarrow> int"
  xeHydrate :: "int list \<Rightarrow> 'e + batchedQueueItem list"
  xeDelete :: "int list \<Rightarrow> 'e option"
  xeOrder :: "string list \<Rightarrow> string list"
  xeFlush :: "nat \<Rightarrow> 'e flushEnv"
  xeDeadlineNow :: "string \<Rightarrow> int"
  xeIdleNow :: "string \<Rightarrow> int"
  xeActiveRuns :: "string \<Rightarrow> 'e + int"
  xeIdleTouch :: "string \<Rightarrow> int"
  xeStopNow :: int
  xeStopList :: "'e + batchedQueueItem list"
  xeStopTouch :: int

definition itemsByGroup :: "batchedQueueItem list \<Rightarrow> (string \<times> batchedQueueItem list) list" where
  "itemsByGroup items = foldl (\<lambda>m x. AList.update (tbBatchKey x) (mapList m (tbBatchKey x) @ [x]) m) [] items"

text \<open>The rows of one batch key: the first component collects those that have timed out.\<close>

definition fetch_group ::
  "'e batchTickEnv \<Rightarrow> string \<times> batchedQueueItem list \<Rightarrow> batchedQueueItem list \<times> batchState \<Rightarrow>
    batchedQueueItem list \<times> batchState" where
  "fetch_group env kv tst =
     (case (kv, tst) of ((batchKey, groupItems), (timedOut, st)) \<Rightarrow>
        let b = xsBatch st;
            g = (case map_of (bsGroups b) batchKey of
                   Some g \<Rightarrow> g
                 | None \<Rightarrow>
                     resetFlushDeadline (xeGroupNow env batchKey)
                       \<lparr>bgLastActiveAt = Some (xeFetchNow env), bgFlushDeadline = None,
                        bgFlushInterval = bsFlushInterval b, bgBatchKey = batchKey, bgBuffer = []\<rparr>);
            newItems = filter (\<lambda>x. \<not> expired (xeFetchNow env) (tbScheduleTimeoutAt x)) groupItems;
            g1 = g\<lparr>bgBuffer := bgBuffer g @ map toBufferedItem newItems\<rparr>;
            g2 = (if newItems = [] then g1 else g1\<lparr>bgLastActiveAt := Some (xeFetchNow env)\<rparr>)
        in (timedOut @ filter (\<lambda>x. expired (xeFetchNow env) (tbScheduleTimeoutAt x)) groupItems,
            st\<lparr>xsBatch := b\<lparr>bsGroups := AList.update batchKey g2 (bsGroups b)\<rparr>,
               xsEvents := emitWaitingEvents (xeWaitNow env batchKey) b g1 newItems (xsEvents st)\<rparr>))"

definition fetchNewItems ::
  "'e batchTickEnv \<Rightarrow> batchState \<Rightarrow> ('e batchError + batchedQueueItem list) \<times> batchState" where
  "fetchNewItems env st =
     (case xeCtxErr env of
        Some e \<Rightarrow> (Inl (DbError e), st)
      | None \<Rightarrow>
          (case xeList env (allBufferedIds (xsBatch st)) batchFetchLimit of
             Inl e \<Rightarrow> (Inl (DbError e), st)
           | Inr items \<Rightarrow>
               if items = [] then (Inr [], st)
               else
                 (case foldl (\<lambda>tst kv. fetch_group env kv tst)
                         ([], st\<lparr>xsBatch := bs_touch (xeTouchNow env) (xsBatch st)\<rparr>)
                         (xeFetchOrder env (itemsByGroup items)) of
                    (timedOut, st1) \<Rightarrow> (Inr timedOut, st1))))"

definition map_groups :: "(string \<Rightarrow> batchGroup \<Rightarrow> batchGroup) \<Rightarrow> batchScheduler \<Rightarrow> batchScheduler" where
  "map_groups f b = b\<lparr>bsGroups := map (\<lambda>(k, g). (k, f k g)) (bsGroups b)\<rparr>"

definition reconcileBuffers :: "'e batchTickEnv \<Rightarrow> batchScheduler \<Rightarrow> batchScheduler" where
  "reconcileBuffers env b =
     (let ids = allBufferedIds b
      in if xeReconcileCtxErr env \<or> ids = [] then b
         else (case xeExisting env ids of
                 Inl e \<Rightarrow> b
               | Inr existing \<Rightarrow>
                   if card existing = length ids then b
                   else map_groups (\<lambda>_ g. g\<lparr>bgBuffer := filter (\<lambda>x. biId x \<in> existing) (bgBuffer g)\<rparr>) b))"

definition popAllTimedOut :: "'e batchTickEnv \<Rightarrow> batchScheduler \<Rightarrow> bufferedItem list \<times> batchScheduler" where
  "popAllTimedOut env b =
     (concat (map (\<lambda>(k, g). fst (bg_popTimedOut (xePopNow env k) g)) (bsGroups b)),
      map_groups (\<lambda>k g. snd (bg_popTimedOut (xePopNow env k) g)) b)"

definition handleScheduleTimeouts ::
  "'e batchTickEnv \<Rightarrow> batchedQueueItem list \<Rightarrow> batchState \<Rightarrow> 'e batchError option \<times> batchState" where
  "handleScheduleTimeouts env items st =
     (if items = [] then (None, st)
      else (case xeDelete env (map tbId items) of
              Some e \<Rightarrow> (Some (DbError e), st)
            | None \<Rightarrow>
                (None, if bsHasEmitter (xsBatch st)
                       then st\<lparr>xsEvents := xsEvents st @ [EvTimedOut (map toV1QueueItem items)]\<rparr> else st)))"

definition groupIsIdle :: "'e batchTickEnv \<Rightarrow> string \<Rightarrow> batchScheduler \<Rightarrow> batchGroup \<Rightarrow> bool \<times> batchGroup" where
  "groupIsIdle env key b g =
     (if bgBuffer g \<noteq> [] \<or> bgFlushDeadline g \<noteq> None then (False, g)
      else if bsIdleTTL b \<le> 0 then (False, g)
      else
        (case bgLastActiveAt g of
           None \<Rightarrow> (False, g)
         | Some t \<Rightarrow>
             if xeIdleNow env key - t < bsIdleTTL b then (False, g)
             else if bsMaxRuns b > 0 \<and> bsHasTaskRepo b \<and> TrimSpace (bgBatchKey g) \<noteq> []
             then (case xeActiveRuns env (TrimSpace (bgBatchKey g)) of
                     Inl e \<Rightarrow> (False, g)
                   | Inr cnt \<Rightarrow>
                       if cnt > 0 then (False, g\<lparr>bgLastActiveAt := Some (xeIdleTouch env key)\<rparr>) else (True, g))
             else (True, g)))"

definition maybeStopIfIdle :: "'e batchTickEnv \<Rightarrow> batchScheduler \<Rightarrow> batchScheduler" where
  "maybeStopIfIdle env b =
     (if \<not> bsStarted b \<or> bsCancelled b \<or> bsGroups b \<noteq> [] \<or> bsIdleTTL b \<le> 0 \<or>
         xeStopNow env - bsLastActiveAt b < bsIdleTTL b
      then b
      else (case xeStopList env of
              Inl e \<Rightarrow> b
            | Inr rows \<Rightarrow> if rows \<noteq> [] then bs_touch (xeStopTouch env) b else b\<lparr>bsCancelled := True\<rparr>))"

text \<open>The three flushes of one group; the last only when its deadline has passed.\<close>

definition flush_group ::
  "'e batchTickEnv \<Rightarrow> string \<Rightarrow> batchGroup \<times> batchState \<Rightarrow> ('e batchError option \<times> batchGroup \<times> batchState) option" where
  "flush_group env key gst =
     do {
       (err1, gst1) \<leftarrow> memory_flush (xeFlush env) gst;
       (case err1 of
          Some e \<Rightarrow> Some (Some e, gst1)
        | None \<Rightarrow>
            do {
              (err2, g2, st2) \<leftarrow> size_flush (xeFlush env) gst1;
              (case err2 of
                 Some e \<Rightarrow> Some (Some e, g2, st2)
               | None \<Rightarrow>
                   if (case bgFlushDeadline g2 of None \<Rightarrow> False | Some t \<Rightarrow> t < xeDeadlineNow env key) \<and> bgBuffer g2 \<noteq> []
                   then bs_flush (xeFlush env (xsFlush st2)) (length (bgBuffer g2)) IntervalElapsed (g2, st2)
                   else Some (None, g2, st2))
            })
     }"

definition put_group :: "string \<Rightarrow> batchGroup \<Rightarrow> batchState \<Rightarrow> batchState" where
  "put_group key g st = st\<lparr>xsBatch := (xsBatch st)\<lparr>bsGroups := AList.update key g (bsGroups (xsBatch st))\<rparr>\<rparr>"

definition drop_group :: "string \<Rightarrow> batchState \<Rightarrow> batchState" where
  "drop_group key st = st\<lparr>xsBatch := (xsBatch st)\<lparr>bsGroups := AList.delete key (bsGroups (xsBatch st))\<rparr>\<rparr>"

fun tick_groups :: "'e batchTickEnv \<Rightarrow> string list \<Rightarrow> batchState \<Rightarrow> ('e batchError option \<times> batchState) option" where
  "tick_groups env [] st = Some (None, st)"
| "tick_groups env (key # keys) st =
     (case map_of (bsGroups (xsBatch st)) key of
        None \<Rightarrow> tick_groups env keys st
      | Some g \<Rightarrow>
          do {
            (err, g1, st1) \<leftarrow> flush_group env key (g, st);
            (case err of
               Some e \<Rightarrow> Some (Some e, put_group key g1 st1)
             | None \<Rightarrow>
                 (case groupIsIdle env key (xsBatch st1) g1 of
                    (idle, g2) \<Rightarrow>
                      tick_groups env keys (if idle then drop_group key st1 else put_group key g2 st1)))
          })"

definition bs_tick :: "'e batchTickEnv \<Rightarrow> batchState \<Rightarrow> ('e batchError option \<times> batchState) option" where
  "bs_tick env st0 =
     (case fetchNewItems env st0 of
        (Inl e, st1) \<Rightarrow> Some (Some e, st1)
      | (Inr timedOut, st1) \<Rightarrow>
          (case popAllTimedOut env (reconcileBuffers env (xsBatch st1)) of
             (popped, b) \<Rightarrow>
               (let st2 = st1\<lparr>xsBatch := b\<rparr>
                in case hydrateItems (xeHydrate env) popped of
                     Inl e \<Rightarrow> Some (Some e, st2)
                   | Inr hydrated \<Rightarrow>
                       (case handleScheduleTimeouts env (timedOut @ hydrated) st2 of
                          (Some e, st3) \<Rightarrow> Some (Some e, st3)
                        | (None, st3) \<Rightarrow>
                            do {
                              (err, st4) \<leftarrow> tick_groups env (xeOrder env (map fst (bsGroups (xsBatch st3)))) st3;
                              Some (case err of
                                      Some e \<Rightarrow> (Some e, st4)
                                    | None \<Rightarrow> (None, st4\<lparr>xsBatch := maybeStopIfIdle env (xsBatch st4)\<rparr>))
                            }))))"

end
