(* ===== verification/Batch_Flush.thy ===== *)
theory Batch_Flush
  imports Batch_Scheduler
begin

text \<open>
  One flush of the batch scheduler: it settles every slot it takes, the items of a queue are either
  all kept or all handed to the repository, and exactly the tasks that were committed are emitted.
  The repository is the interface \<open>batch_committer\<close>, interpreted on \<open>ReserveAndCommitBatchRun\<close>.
\<close>

section \<open>One slot for a batch\<close>

text \<open>No worker has the nil uuid, and ack ids are positive.\<close>

definition batch_ready :: "scheduler \<Rightarrow> bool" where
  "batch_ready s \<longleftrightarrow> sched_inv s \<and> 0 \<le> assignedCount s \<and> (\<forall>t. map_of (pools s) (0, t) = None)"

lemma grants_ready: "grants s s' \<Longrightarrow> batch_ready s \<Longrightarrow> batch_ready s'"
  using grantsD(1,2,9)[of s s'] by (auto simp: batch_ready_def)

lemma fits_not_nil:
  assumes "batch_ready s" "fits (mem s) (poolsByWorker s) [(SlotTypeDefault, 1)] now w"
  shows "w \<noteq> 0"
proof
  assume "w = 0"
  then have "map_of (typesOf w (poolsByWorker s)) SlotTypeDefault = None"
    using assms(1) sched_invD(5)[of s] by (metis batch_ready_def pools_index_def)
  then show False using assms(2) by (simp add: fits_def freeCountAt_def split: if_splits)
qed

lemma assignQueueItems_ok:
  assumes "batch_ready s"
  obtains (miss) res s' where "assignQueueItems qe [qi] labels s = Some (res, s')" "batch_ready s'"
      "unackedSlots s' = unackedSlots s" "(\<exists>e. res = Inl e) \<or> res = Inr ([], [qi])"
    | (hit) w sls s' where "assignQueueItems qe [qi] labels s =
        Some (Inr ([\<lparr>aqAckId = assignedCount s + 1, aqWorkerId = w, aqItem = qi\<rparr>], []), s')" "batch_ready s'" "w \<noteq> 0"
      "unackedSlots s' = unackedSlots s @ [(assignedCount s + 1, \<lparr>asSlots = sls, asReservation = None\<rparr>)]"
proof (cases "qeCtxErr qe")
  case (Some e)
  then show ?thesis using assms by (intro miss[of "Inl e" s]) (auto simp: assignQueueItems_def tryAssignBatchQueueItem_def)
next
  case None
  note ctx = None
  have inv: "sched_inv s" using assms by (simp add: batch_ready_def)
  have d: "request_ok [(SlotTypeDefault, 1)]" by (simp add: request_ok_def)
  let ?l = "labels (qiStepId qi)" and ?r = "newSingleResult qi"
  show ?thesis
  proof (cases "isTimedOut (qeNow qe) qi \<or> \<not> qeRunning qe")
    case True
    then show ?thesis using assms ctx
      by (intro miss[of "Inr ([], [qi])" s]) (auto simp: assignQueueItems_def tryAssignBatchQueueItem_def Let_def newSingleResult_def)
  next
    case False
    note on = False
    show ?thesis
    proof (cases "\<exists>a. map_of (actions s) (qiActionId qi) = Some a \<and> workerIds a \<noteq> []")
      case False
      let ?s = "lookupActionAndMarkStarved (qiActionId qi) (qiQueue qi) [(SlotTypeDefault, 1)] s"
      have "unackedSlots ?s = unackedSlots s"
        by (simp add: lookupActionAndMarkStarved_def markActionStarved_eq split: option.split)
      moreover have "tryAssignBatchQueueItem False (qeRunning qe) (qeNow qe) (Some qi) ?l s =
          Some ((False, Some (?r\<lparr>arNoSlots := True\<rparr>)), ?s)"
        using on False by (auto simp: tryAssignBatchQueueItem_def Let_def split: option.split)
      ultimately show ?thesis
        using ctx grants_ready[OF lookupActionAndMarkStarved_grants[OF inv] assms]
        by (intro miss[of "Inr ([], [qi])" ?s]) (simp_all add: assignQueueItems_def newSingleResult_def)
    next
      case True
      then obtain a where a: "map_of (actions s) (qiActionId qi) = Some a" "workerIds a \<noteq> []" by blast
      have t: "tryAssignBatchQueueItem False (qeRunning qe) (qeNow qe) (Some qi) ?l s =
          do { (r, s') \<leftarrow> assignSingleton (qiActionId qi) a ?r ?l [(SlotTypeDefault, 1)] (qeNow qe) s; Some ((False, Some r), s') }"
        using on a by (simp add: tryAssignBatchQueueItem_def Let_def)
      show ?thesis
      proof (cases "find (fits (mem s) (poolsByWorker s) [(SlotTypeDefault, 1)] (qeNow qe)) (tryOrder (arItem ?r) ?l a s)")
        case None
        then have "\<forall>w\<in>set (tryOrder (arItem ?r) ?l a s). \<not> fits (mem s) (poolsByWorker s) [(SlotTypeDefault, 1)] (qeNow qe) w"
          by (simp add: find_None_iff)
        then obtain s' where "assignSingleton (qiActionId qi) a ?r ?l [(SlotTypeDefault, 1)] (qeNow qe) s =
            Some (?r\<lparr>arNoSlots := True\<rparr>, s')" "grants s s'" "unackedSlots s' = unackedSlots s"
          using assignSingleton_miss[OF inv, of ?r ?l a "[(SlotTypeDefault, 1)]" "qeNow qe" "qiActionId qi"] by metis
        then show ?thesis using ctx t grants_ready[OF _ assms]
          by (intro miss[of "Inr ([], [qi])" s']) (simp_all add: assignQueueItems_def newSingleResult_def)
      next
        case (Some w)
        obtain s' sls where h: "assignSingleton (qiActionId qi) a ?r ?l [(SlotTypeDefault, 1)] (qeNow qe) s =
            Some (?r\<lparr>arAckId := assignedCount s + 1, arWorkerId := w, arSucceeded := True\<rparr>, s')" "grants s s'"
          "unackedSlots s' = unackedSlots s @ [(assignedCount s + 1, \<lparr>asSlots = sls, asReservation = arReservation ?r\<rparr>)]"
          using assignSingleton_hit[OF inv d Some, of "qiActionId qi"] by metis
        have "w \<noteq> 0" using Some fits_not_nil[OF assms] by (auto simp: find_Some_iff)
        then show ?thesis using ctx t h grants_ready[OF h(2) assms]
          by (intro hit[of w s' sls]) (simp_all add: assignQueueItems_def newSingleResult_def)
      qed
    qed
  qed
qed

lemma sched_nack_ready:
  assumes "batch_ready s"
  obtains rl' s' where "sched_nack ids (rl, s) = (rl', s')" "batch_ready s'"
    "unackedSlots s' = settled (set ids) (unackedSlots s)"
  using handleNack_ok[of s ids] assms by (auto simp: sched_nack_def batch_ready_def)

lemma sched_ack_ready:
  assumes "batch_ready s"
  obtains rl' s' where "sched_ack ids (rl, s) = Some (rl', s')" "batch_ready s'"
    "unackedSlots s' = settled (set ids) (unackedSlots s)"
  using handleAck_ok[of s ids] assms by (auto simp: sched_ack_def batch_ready_def)

lemma settled_suffix:
  assumes "distinct_keys (U @ P)"
  shows "settled (fst ` set P) (U @ P) = U"
proof -
  have "filter (\<lambda>(i, _). i \<notin> fst ` set P) U = U" "filter (\<lambda>(i, _). i \<notin> fst ` set P) P = []"
    using assms by (force simp: distinct_keys_def filter_id_conv, force simp: filter_empty_conv)
  then show ?thesis by simp
qed

section \<open>The outcome of one queue\<close>

text \<open>
  The assignments a dispatch holds on top of \<open>U\<close> are those it will ack.
\<close>

definition holding :: "(int \<times> assignedSlots) list \<Rightarrow> dispatchState \<Rightarrow> bool" where
  "holding U d \<longleftrightarrow> batch_ready (dsSched d) \<and> (\<exists>P. unackedSlots (dsSched d) = U @ P \<and> map fst P = dsAckIds d)"

definition same_group :: "batchGroup \<Rightarrow> batchGroup \<Rightarrow> bool" where
  "same_group g g' \<longleftrightarrow> g' = g\<lparr>bgFlushDeadline := bgFlushDeadline g'\<rparr> \<and> (bgFlushDeadline g \<noteq> None \<longrightarrow> bgFlushDeadline g' \<noteq> None)"

definition only_waits :: "batchEvent list \<Rightarrow> batchEvent list \<Rightarrow> bool" where
  "only_waits evs evs' \<longleftrightarrow> (\<exists>ws. evs' = evs @ map EvBuffered ws)"

definition kept :: "dispatchState \<Rightarrow> batchedQueueItem list \<Rightarrow> dispatchState \<Rightarrow> bool" where
  "kept d items d' \<longleftrightarrow> dsRemaining d' = dsRemaining d @ items \<and> dsAssigned d' = dsAssigned d \<and> dsAckIds d' = dsAckIds d"

text \<open>The tasks emitted are a selection of the items, on one slot.\<close>

definition sent :: "dispatchState \<Rightarrow> batchedQueueItem list \<Rightarrow> dispatchState \<Rightarrow> bool" where
  "sent d items d' \<longleftrightarrow> dsRemaining d' = dsRemaining d \<and>
     (\<exists>new acks P. dsAssigned d' = dsAssigned d @ new \<and> dsAckIds d' = dsAckIds d @ acks \<and>
        length acks = (if new = [] then 0 else 1) \<and> map (qiTaskId \<circ> bxItem) new = map tbTaskId (filter P items))"

definition dispatched ::
  "(int \<times> assignedSlots) list \<Rightarrow> dispatchState \<Rightarrow> batchedQueueItem list \<Rightarrow> 'e batchError option \<Rightarrow> dispatchState \<Rightarrow> bool" where
  "dispatched U d items err d' \<longleftrightarrow>
     holding U d' \<and> same_group (dsGroup d) (dsGroup d') \<and> only_waits (dsEvents d) (dsEvents d') \<and>
     (if err = None then kept d items d' \<or> sent d items d' else dsAckIds d' = dsAckIds d)"

lemma same_group_refl [simp]: "same_group g g" by (simp add: same_group_def)

lemma same_group_trans: "same_group g g' \<Longrightarrow> same_group g' g'' \<Longrightarrow> same_group g g''"
  unfolding same_group_def by (cases g; cases g'; cases g'') auto

lemma same_group_reset: "same_group g (resetFlushDeadline now g)"
  by (simp add: same_group_def resetFlushDeadline_def split: option.split)

lemma only_waits_refl [simp]: "only_waits evs evs"
  unfolding only_waits_def by (rule exI[of _ "[]"]) simp

lemma only_waits_trans: "only_waits a b \<Longrightarrow> only_waits b c \<Longrightarrow> only_waits a c"
  unfolding only_waits_def by (metis append.assoc map_append)

lemma only_waits_emit: "only_waits evs (emitWaitingEvents now b g items evs)"
proof (cases "\<not> bsHasEmitter b \<or> items = []")
  case False
  then show ?thesis unfolding only_waits_def emitWaitingEvents_def
    by (intro exI[of _ "[map (waiting_event now b g) items]"]) simp
qed (simp add: emitWaitingEvents_def)

lemma nack_ids_ok:
  assumes "batch_ready (dsSched d)" "unackedSlots (dsSched d) = U @ P @ [(i, a)]"
  obtains rl s where "nack_ids [i] d = d\<lparr>dsLimiter := rl, dsSched := s\<rparr>" "batch_ready s" "unackedSlots s = U @ P"
proof -
  obtain rl s where n: "sched_nack [i] (dsLimiter d, dsSched d) = (rl, s)" "batch_ready s"
    "unackedSlots s = settled (set [i]) (unackedSlots (dsSched d))"
    using sched_nack_ready[OF assms(1)] by metis
  have "distinct_keys ((U @ P) @ [(i, a)])"
    using assms sched_invD(3)[of "dsSched d"] by (simp add: batch_ready_def)
  from settled_suffix[OF this] have "unackedSlots s = U @ P" using n(3) assms(2) by simp
  then show thesis using that n(1,2) by (simp add: nack_ids_def)
qed

lemma dispatched_nack:
  assumes "batch_ready (dsSched d)" "unackedSlots (dsSched d) = U @ P @ [(i, a)]" "map fst P = dsAckIds d"
  shows "dispatched U d items (Some e) (nack_ids [i] d)" "dispatched U d items None (nack_ids [i] d)"
proof -
  obtain rl s where n: "nack_ids [i] d = d\<lparr>dsLimiter := rl, dsSched := s\<rparr>" "batch_ready s" "unackedSlots s = U @ P"
    by (rule nack_ids_ok[OF assms(1,2)])
  have "sent d items (d\<lparr>dsLimiter := rl, dsSched := s\<rparr>)"
    unfolding sent_def by (simp add: exI[of _ "\<lambda>_. False"])
  then show "dispatched U d items (Some e) (nack_ids [i] d)" "dispatched U d items None (nack_ids [i] d)"
    using n assms(3) by (simp_all add: dispatched_def holding_def)
qed

lemma dispatched_requeue_nothing:
  assumes "holding U d"
  shows "dispatched U d items None (requeueGroup qe b items [] d)"
  using assms same_group_reset only_waits_emit
  by (simp add: dispatched_def holding_def kept_def requeueGroup_def nack_ids_def Let_def)

lemma dispatched_requeue:
  assumes "batch_ready (dsSched d)" "unackedSlots (dsSched d) = U @ P @ [(i, a)]" "map fst P = dsAckIds d"
  shows "dispatched U d items None (requeueGroup qe b items [i] d)"
proof -
  obtain rl s where n: "nack_ids [i] d = d\<lparr>dsLimiter := rl, dsSched := s\<rparr>" "batch_ready s" "unackedSlots s = U @ P"
    by (rule nack_ids_ok[OF assms(1,2)])
  then show ?thesis using assms(3) same_group_reset only_waits_emit
    by (simp add: dispatched_def holding_def kept_def requeueGroup_def Let_def)
qed

section \<open>Emitting what was committed\<close>

lemma foldl_update_map:
  "map_of (foldl (\<lambda>m x. AList.update (f x) (h x) m) m xs) = map_of m ++ map_of (rev (map (\<lambda>x. (f x, h x)) xs))"
  by (induction xs arbitrary: m) (simp_all add: update_conv')

lemma queueItemsByID_lookup:
  assumes "distinct (map tbId items)" "x \<in> set items"
  shows "map_of (queueItemsByID items) (tbId x) = Some (toV1QueueItem x)"
  using assms
  by (simp add: queueItemsByID_def foldl_update_map) (intro map_of_is_SomeI, auto simp: rev_map[symmetric] comp_def)

lemma batch_assignments_eq:
  assumes "distinct (map tbId items)"
  shows "\<exists>mk. batch_assignments (queueItemsByID items) w batchID stepID actionID key items = map mk items \<and>
    (\<forall>x. btTaskId (mk x) = tbTaskId x \<and> btBatchId (mk x) = batchID)"
proof -
  have "filter (\<lambda>x. map_of (queueItemsByID items) (tbId x) \<noteq> None) items = items"
    using queueItemsByID_lookup[OF assms] by (simp add: filter_id_conv)
  then show ?thesis unfolding batch_assignments_def by (auto simp del: not_None_eq)
qed

lemma queueResultsByTaskID_lookup:
  assumes "distinct (map tbId items)" "x \<in> set items"
  obtains r where "map_of (queueResultsByTaskID (queueItemsByID items) w md items) (tbTaskId x) = Some r"
    "qiTaskId (bxItem r) = tbTaskId x"
proof -
  let ?h = "\<lambda>x. \<lparr>bxWorkerId = w, bxItem = toV1QueueItem x, bxBatch = md\<rparr>"
  have t: "qiTaskId (toV1QueueItem y) = tbTaskId y" for y by (simp add: toV1QueueItem_def)
  have "queueResultsByTaskID (queueItemsByID items) w md items = foldl (\<lambda>m y. AList.update (tbTaskId y) (?h y) m) [] items"
    unfolding queueResultsByTaskID_def
    by (rule foldl_cong[OF refl refl]) (simp add: queueItemsByID_lookup[OF assms(1)] t)
  then have "map_of (queueResultsByTaskID (queueItemsByID items) w md items) = map_of (rev (map (\<lambda>y. (tbTaskId y, ?h y)) items))"
    by (simp add: foldl_update_map)
  moreover obtain r where r: "map_of (rev (map (\<lambda>y. (tbTaskId y, ?h y)) items)) (tbTaskId x) = Some r"
  proof (cases "map_of (rev (map (\<lambda>y. (tbTaskId y, ?h y)) items)) (tbTaskId x)")
    case None
    then show thesis using assms(2) by (force simp: map_of_eq_None_iff)
  qed
  moreover from map_of_SomeD[OF r] have "qiTaskId (bxItem r) = tbTaskId x" using t by auto
  ultimately show thesis using that by simp
qed

lemma map_filter_total:
  assumes "\<And>a. a \<in> set xs \<Longrightarrow> \<exists>y. f a = Some y \<and> g y = h a"
  shows "map g (List.map_filter f xs) = map h xs"
  using assms by (induction xs) (fastforce simp: List.map_filter_def)+

text \<open>
  What the batch scheduler relies on: the call that reserves and commits a run returns when the id
  of the run is one it can parse, and the assignments it reports are a selection of those it got.
\<close>

locale batch_committer =
  fixes reserve :: "uuid \<Rightarrow> string \<Rightarrow> string \<Rightarrow> string \<Rightarrow> int \<Rightarrow> batchAssignment list \<Rightarrow> ('e + bool \<times> batchAssignment list) option"
    and parses :: "string \<Rightarrow> bool"
  assumes returns: "parses batchId \<Longrightarrow> (\<And>a. a \<in> set as \<Longrightarrow> btBatchId a = batchId) \<Longrightarrow>
      reserve stepId actionId batchKey batchId maxRuns as \<noteq> None"
    and selects: "reserve stepId actionId batchKey batchId maxRuns as = Some (Inr (granted, succeeded)) \<Longrightarrow>
      \<exists>P. succeeded = filter P as"
begin

lemma commit_queue_ok:
  assumes "qeReserve qe = reserve" "parses (qeBatchId qe)" "distinct (map tbId items)" "items \<noteq> []"
    and d: "batch_ready (dsSched d)" "unackedSlots (dsSched d) = U @ P @ [(i, a)]" "map fst P = dsAckIds d"
  shows "\<exists>err d'. commit_queue qe b reason stepID actionID key w [i] items d = Some (err, d') \<and> dispatched U d items err d'"
proof -
  let ?byId = "queueItemsByID items"
  obtain mk where mk: "batch_assignments ?byId w (qeBatchId qe) stepID actionID key items = map mk items"
    "\<And>x. btTaskId (mk x) = tbTaskId x \<and> btBatchId (mk x) = qeBatchId qe"
    using batch_assignments_eq[OF assms(3)] by metis
  obtain res where r: "reserve stepID actionID key (qeBatchId qe) (bsMaxRuns b) (map mk items) = Some res"
    using returns[OF assms(2), of "map mk items"] mk(2) by fastforce
  show ?thesis
  proof (cases "\<exists>succeeded. res = Inr (True, succeeded)")
    case False
    then show ?thesis
      using r mk(1) assms(1,4) dispatched_nack(1)[OF d] dispatched_requeue[OF d]
      by (cases res) (auto simp: commit_queue_def Let_def)
  next
    case True
    then obtain succeeded where s: "res = Inr (True, succeeded)" by blast
    let ?md = "flushed_metadata b reason (qeTriggeredAt qe) (qeBatchId qe) stepID actionID key"
    let ?results = "queueResultsByTaskID ?byId w ?md items"
    let ?new = "List.map_filter (\<lambda>a. map_of ?results (btTaskId a)) succeeded"
    obtain Q where q: "succeeded = map mk (filter Q items)"
      using selects[OF r[unfolded s]] by (auto simp: filter_map)
    have "map (qiTaskId \<circ> bxItem) ?new = map btTaskId succeeded"
    proof (rule map_filter_total)
      fix a assume "a \<in> set succeeded"
      then obtain x where "x \<in> set items" "a = mk x" using q by auto
      then show "\<exists>y. map_of ?results (btTaskId a) = Some y \<and> (qiTaskId \<circ> bxItem) y = btTaskId a"
        using queueResultsByTaskID_lookup[OF assms(3), of x w ?md] mk(2) by (metis comp_apply)
    qed
    then have new: "map (qiTaskId \<circ> bxItem) ?new = map tbTaskId (filter Q items)"
      using q mk(2) by (simp add: comp_def)
    show ?thesis
    proof (cases "?new = []")
      case True
      then show ?thesis
        using r mk(1) assms(1,4) s dispatched_nack(2)[OF d] by (auto simp: commit_queue_def Let_def)
    next
      case False
      let ?d = "d\<lparr>dsAssigned := dsAssigned d @ ?new, dsAckIds := dsAckIds d @ [i]\<rparr>"
      have "sent d items ?d" unfolding sent_def using False new
        by (intro conjI exI[of _ ?new] exI[of _ "[i]"] exI[of _ Q]) simp_all
      then have "dispatched U d items None ?d" using d by (auto simp: dispatched_def holding_def)
      then show ?thesis
        using r mk(1) assms(1,4) s False by (auto simp: commit_queue_def Let_def)
    qed
  qed
qed

lemma dispatch_queue_ok:
  assumes "qeReserve qe = reserve" "parses (qeBatchId qe)" "distinct (map tbId items)" "holding U d"
  shows "\<exists>err d'. dispatch_queue qe b reason items d = Some (err, d') \<and> dispatched U d items err d'"
proof (cases "qeRepo qe \<and> items \<noteq> [] \<and> (\<exists>rows. qeLabels qe = Inr rows)")
  case False
  have "dispatched U d items None (d\<lparr>dsRemaining := dsRemaining d @ items\<rparr>)" "dispatched U d [] None d"
    "dispatched U d items (Some e) d" for e :: "'a batchError"
    using assms(4) by (simp_all add: dispatched_def holding_def kept_def)
  then show ?thesis using False
    by (cases items; cases "qeLabels qe") (auto simp: dispatch_queue_def Let_def)
next
  case True
  then obtain first rest rows where t: "items = first # rest" "qeLabels qe = Inr rows" "qeRepo qe" by (metis list.exhaust)
  let ?l = "\<lambda>step. if step = bsStepId b then mapList rows (bsStepId b) else []"
  have ready: "batch_ready (dsSched d)" using assms(4) by (simp add: holding_def)
  show ?thesis
    using ready
  proof (cases rule: assignQueueItems_ok[where qe = qe and qi = "toV1QueueItem first" and labels = ?l])
    case (miss res s')
    have h: "holding U (d\<lparr>dsSched := s'\<rparr>)" using miss(2,3) assms(4) by (auto simp: holding_def)
    have "dispatched U d items (Some e) (d\<lparr>dsSched := s'\<rparr>)" for e :: "'a batchError"
      using h by (simp add: dispatched_def)
    moreover have "dispatched U d items None (requeueGroup qe b items [] (d\<lparr>dsSched := s'\<rparr>))"
      using dispatched_requeue_nothing[OF h, of items qe b] by (simp add: dispatched_def kept_def sent_def)
    ultimately show ?thesis using t miss(1,4) by (auto simp: dispatch_queue_def Let_def)
  next
    case (hit w sls s')
    let ?i = "assignedCount (dsSched d) + 1" and ?d = "d\<lparr>dsSched := s'\<rparr>"
    obtain P where p: "unackedSlots (dsSched d) = U @ P" "map fst P = dsAckIds d" using assms(4) by (auto simp: holding_def)
    have d: "batch_ready (dsSched ?d)" "unackedSlots (dsSched ?d) = U @ P @ [(?i, \<lparr>asSlots = sls, asReservation = None\<rparr>)]"
      "map fst P = dsAckIds ?d" using hit(2,4) p by simp_all
    have i: "0 < ?i" using ready by (simp add: batch_ready_def)
    have same: "dispatched U d items err d' \<longleftrightarrow> dispatched U ?d items err d'" for err :: "'a batchError option" and d'
      by (simp add: dispatched_def kept_def sent_def)
    have n: "items \<noteq> []" using t by simp
    let ?step = "if tbStepId first \<noteq> 0 then tbStepId first else bsStepId b"
    let ?key = "TrimSpace (if TrimSpace (tbBatchKey first) \<noteq> [] then TrimSpace (tbBatchKey first)
      else TrimSpace (bgBatchKey (dsGroup d)))"
    have eq: "dispatch_queue qe b reason items d =
        (if under_max_runs qe b ?step ?key
         then commit_queue qe b reason ?step (tbActionId first) ?key w [?i] items ?d
         else Some (None, requeueGroup qe b items [?i] ?d))"
      using t hit(1,3) i by (simp add: dispatch_queue_def Let_def)
    show ?thesis
    proof (cases "under_max_runs qe b ?step ?key")
      case True
      show ?thesis unfolding same eq if_P[OF True] by (rule commit_queue_ok[OF assms(1-3) n d])
    next
      case False
      show ?thesis unfolding same eq if_not_P[OF False] by (intro exI conjI, rule refl, rule dispatched_requeue[OF d])
    qed
  qed
qed

end

interpretation repository_committer: batch_committer "ReserveAndCommitBatchRun cq" "\<lambda>batchId. cqParseUuid cq batchId \<noteq> None"
  using ReserveAndCommitBatchRun_returns ReserveAndCommitBatchRun_succeeded by unfold_locales blast+

definition queue_env_ok :: "'e queueEnv \<Rightarrow> bool" where
  "queue_env_ok qe \<longleftrightarrow> (\<exists>cq. qeReserve qe = ReserveAndCommitBatchRun cq \<and> cqParseUuid cq (qeBatchId qe) \<noteq> None)"

lemma dispatch_queue_dispatched:
  assumes "queue_env_ok qe" "distinct (map tbId items)" "holding U d"
  obtains err d' where "dispatch_queue qe b reason items d = Some (err, d')" "dispatched U d items err d'"
  using assms repository_committer.dispatch_queue_ok unfolding queue_env_ok_def by blast

section \<open>All queues of a flush\<close>

text \<open>The items of the queues in \<open>K\<close> are kept.\<close>

definition of_queues :: "string set \<Rightarrow> (string \<times> batchedQueueItem list) list \<Rightarrow> batchedQueueItem list" where
  "of_queues K qs = concat (map snd (filter (\<lambda>(q, _). q \<in> K) qs))"

lemma of_queues_simps [simp]:
  "of_queues K [] = []" "of_queues K ((q, items) # qs) = (if q \<in> K then items else []) @ of_queues K qs"
  by (simp_all add: of_queues_def)

lemma of_queues_cong: "(\<And>q items. (q, items) \<in> set qs \<Longrightarrow> q \<in> K \<longleftrightarrow> q \<in> L) \<Longrightarrow> of_queues K qs = of_queues L qs"
  unfolding of_queues_def by (rule arg_cong[where f = "\<lambda>x. concat (map snd x)"], rule filter_cong) auto

lemma of_queues_insert: "q \<notin> fst ` set qs \<Longrightarrow> of_queues (insert q K) qs = of_queues K qs" "q \<notin> fst ` set qs \<Longrightarrow> of_queues (K - {q}) qs = of_queues K qs"
  by (rule of_queues_cong; force)+

definition all_dispatched ::
  "(int \<times> assignedSlots) list \<Rightarrow> dispatchState \<Rightarrow> (string \<times> batchedQueueItem list) list \<Rightarrow> 'e batchError option \<Rightarrow> dispatchState \<Rightarrow> bool" where
  "all_dispatched U d qs err d' \<longleftrightarrow>
     holding U d' \<and> same_group (dsGroup d) (dsGroup d') \<and> only_waits (dsEvents d) (dsEvents d') \<and>
     (err = None \<longrightarrow>
       (\<exists>K new P. dsRemaining d' = dsRemaining d @ of_queues K qs \<and> dsAssigned d' = dsAssigned d @ new \<and>
          map (qiTaskId \<circ> bxItem) new = map tbTaskId (filter P (of_queues (- K) qs)))) \<and>
     (err \<noteq> None \<longrightarrow> length qs \<le> 1 \<longrightarrow> dsAckIds d' = dsAckIds d)"

lemma filter_either:
  assumes "set xs \<inter> set ys = {}"
  shows "\<exists>R. filter P xs @ filter Q ys = filter R (xs @ ys)"
proof -
  have "filter (\<lambda>x. if x \<in> set xs then P x else Q x) xs = filter P xs"
    "filter (\<lambda>x. if x \<in> set xs then P x else Q x) ys = filter Q ys"
    using assms by (auto intro!: filter_cong)
  then show ?thesis by (intro exI[of _ "\<lambda>x. if x \<in> set xs then P x else Q x"]) simp
qed

lemma dispatch_queues_ok:
  assumes "\<And>q. queue_env_ok (qes q)"
  shows "distinct (map tbId (concat (map snd qs))) \<Longrightarrow> distinct_keys qs \<Longrightarrow> holding U d \<Longrightarrow>
    \<exists>err d'. dispatch_queues qes b reason qs d = Some (err, d') \<and> all_dispatched U d qs err d'"
proof (induction qs arbitrary: d)
  case Nil
  have "\<exists>K new P. dsRemaining d = dsRemaining d @ of_queues K [] \<and> dsAssigned d = dsAssigned d @ new \<and>
      map (qiTaskId \<circ> bxItem) new = map tbTaskId (filter P (of_queues (- K) []))"
    by (intro exI[of _ "{}"] exI[of _ "[]"]) simp
  then show ?case using Nil.prems(3) by (simp add: all_dispatched_def)
next
  case (Cons x qs)
  obtain q items where x: "x = (q, items)" by (cases x)
  have di: "distinct (map tbId items)" "distinct (map tbId (concat (map snd qs)))" "distinct_keys qs" "q \<notin> fst ` set qs"
    using Cons.prems(1,2) x by auto
  have disj: "set items \<inter> set (of_queues K qs) = {}" for K
    using Cons.prems(1) x by (auto simp: of_queues_def)
  obtain err d1 where d1: "dispatch_queue (qes q) b reason items d = Some (err, d1)" "dispatched U d items err d1"
    using dispatch_queue_dispatched[OF assms di(1) Cons.prems(3)] by metis
  show ?case
  proof (cases err)
    case (Some e)
    then show ?thesis using d1 x by (auto simp: dispatched_def all_dispatched_def)
  next
    case None
    obtain err2 d2 where d2: "dispatch_queues qes b reason qs d1 = Some (err2, d2)" "all_dispatched U d1 qs err2 d2"
      using Cons.IH[OF di(2,3), of d1] d1(2) unfolding dispatched_def by blast
    have base: "holding U d2" "same_group (dsGroup d) (dsGroup d2)" "only_waits (dsEvents d) (dsEvents d2)"
      using d1(2) d2(2) same_group_trans only_waits_trans unfolding dispatched_def all_dispatched_def by blast+
    have one: "dsAckIds d2 = dsAckIds d1" if "err2 \<noteq> None" "qs = []"
      using that d2 by simp
    have "\<exists>K new P. dsRemaining d2 = dsRemaining d @ of_queues K (x # qs) \<and> dsAssigned d2 = dsAssigned d @ new \<and>
        map (qiTaskId \<circ> bxItem) new = map tbTaskId (filter P (of_queues (- K) (x # qs)))" if none: "err2 = None"
    proof -
      obtain K new P where k: "dsRemaining d2 = dsRemaining d1 @ of_queues K qs" "dsAssigned d2 = dsAssigned d1 @ new"
        "map (qiTaskId \<circ> bxItem) new = map tbTaskId (filter P (of_queues (- K) qs))"
        using d2(2) none by (auto simp: all_dispatched_def)
      consider "kept d items d1" | "sent d items d1" using d1(2) None by (auto simp: dispatched_def)
      then show ?thesis
      proof cases
        case 1
        have "of_queues (- insert q K) qs = of_queues (- K) qs" by (rule of_queues_cong) (use di(4) in force)
        then show ?thesis using 1 k x of_queues_insert(1)[OF di(4), of K]
          by (intro exI[of _ "insert q K"] exI[of _ new] exI[of _ P]) (simp add: kept_def)
      next
        case 2
        then obtain new1 P1 where n: "dsRemaining d1 = dsRemaining d" "dsAssigned d1 = dsAssigned d @ new1"
          "map (qiTaskId \<circ> bxItem) new1 = map tbTaskId (filter P1 items)" unfolding sent_def by blast
        obtain R where r: "filter P1 items @ filter P (of_queues (- K) qs) = filter R (items @ of_queues (- K) qs)"
          using filter_either[OF disj] by blast
        have m: "map (qiTaskId \<circ> bxItem) (new1 @ new) = map tbTaskId (filter R (items @ of_queues (- K) qs))"
          using n(3) k(3) r by (metis map_append)
        have c: "of_queues (- (K - {q})) qs = of_queues (- K) qs" by (rule of_queues_cong) (use di(4) in force)
        show ?thesis
        proof (intro exI conjI)
          show "dsRemaining d2 = dsRemaining d @ of_queues (K - {q}) (x # qs)"
            using n(1) k(1) x of_queues_insert(2)[OF di(4), of K] by simp
          show "dsAssigned d2 = dsAssigned d @ new1 @ new" using n(2) k(2) by simp
          show "map (qiTaskId \<circ> bxItem) (new1 @ new) = map tbTaskId (filter R (of_queues (- (K - {q})) (x # qs)))"
            unfolding m x using c by simp
        qed
      qed
    qed
    moreover have "dsAckIds d2 = dsAckIds d" if "err2 \<noteq> None" "length (x # qs) \<le> 1"
      using that d2(1) by simp
    ultimately show ?thesis using d1(1) d2(1) None x base by (simp add: all_dispatched_def)
  qed
qed

section \<open>Grouping\<close>

abbreviation grouped :: "('a \<Rightarrow> 'k) \<Rightarrow> 'a list \<Rightarrow> ('k \<times> 'a list) list" where
  "grouped f xs \<equiv> foldl (\<lambda>m x. AList.update (f x) (mapList m (f x) @ [x]) m) [] xs"

lemma grouped_distinct: "distinct_keys (grouped f xs)"
  by (induction xs rule: rev_induct) simp_all

lemma grouped_keys: "(k, g) \<in> set (grouped f xs) \<Longrightarrow> \<forall>x\<in>set g. f x = k"
proof (induction xs arbitrary: k g rule: rev_induct)
  case (snoc x xs)
  show ?case
  proof (cases "(k, g) \<in> set (grouped f xs)")
    case True
    then show ?thesis by (rule snoc.IH)
  next
    case False
    have "(k, g) \<in> set (AList.update (f x) (mapList (grouped f xs) (f x) @ [x]) (grouped f xs))"
      using snoc.prems by simp
    from set_AList_update[OF this] False have g: "k = f x" "g = mapList (grouped f xs) (f x) @ [x]" by blast+
    have "\<forall>y\<in>set (mapList (grouped f xs) (f x)). f y = f x"
    proof (cases "map_of (grouped f xs) (f x)")
      case (Some g')
      then have "mapList (grouped f xs) (f x) = g'" by (simp add: mapList_def)
      then show ?thesis using snoc.IH[OF map_of_SomeD[OF Some]] by (simp only:)
    qed (simp add: mapList_def)
    then show ?thesis unfolding g set_append list.set by blast
  qed
qed simp

lemma mset_group_add:
  "mset (concat (map snd (AList.update k (mapList m k @ [x]) m))) = add_mset x (mset (concat (map snd m)))"
proof (induction m)
  case (Cons p m)
  then show ?case by (cases p) (simp add: mapList_def)
qed (simp add: mapList_def)

lemma grouped_mset: "mset (concat (map snd (grouped f xs))) = mset xs"
  by (induction xs rule: rev_induct) (simp_all add: mset_group_add del: mset_concat)

lemma mset_concat_perm: "mset qs = mset ps \<Longrightarrow> mset (concat (map snd qs)) = mset (concat (map snd ps))"
  by (simp add: mset_concat) (metis image_mset.compositionality mset_map sum_mset_sum_list)

lemma of_queues_filter:
  "\<forall>(q, items)\<in>set qs. \<forall>x\<in>set items. tbQueue x = q \<Longrightarrow> of_queues K qs = filter (\<lambda>x. tbQueue x \<in> K) (concat (map snd qs))"
  by (induction qs) (auto simp: filter_empty_conv filter_id_conv)

section \<open>A whole flush\<close>

definition hydrates_ok :: "(int list \<Rightarrow> 'e + batchedQueueItem list) \<Rightarrow> bool" where
  "hydrates_ok byIds \<longleftrightarrow>
     (\<forall>ids items. byIds ids = Inr items \<longrightarrow> distinct (map tbId items) \<and> set (map tbId items) \<subseteq> set ids)"

definition flush_env_ok :: "'e flushEnv \<Rightarrow> bool" where
  "flush_env_ok env \<longleftrightarrow>
     hydrates_ok (feHydrate env) \<and> (\<forall>qs. mset (feOrder env qs) = mset qs) \<and> (\<forall>q. queue_env_ok (feQueue env q))"

definition batch_wired :: "batchScheduler \<Rightarrow> bool" where
  "batch_wired b \<longleftrightarrow> bsHasScheduler b \<and> bsHasQueueFactory b \<and> bsHasEmitter b"

fun assigned_of :: "batchEvent \<Rightarrow> batchAssigned list" where
  "assigned_of (EvAssigned xs) = xs"
| "assigned_of (EvBuffered _) = []"
| "assigned_of (EvTimedOut _) = []"

abbreviation emitted :: "batchState \<Rightarrow> batchAssigned list" where
  "emitted st \<equiv> concat (map assigned_of (xsEvents st))"

abbreviation task_ids :: "batchAssigned list \<Rightarrow> int multiset" where
  "task_ids xs \<equiv> image_mset (qiTaskId \<circ> bxItem) (mset xs)"

lemma only_waits_emitted: "only_waits evs evs' \<Longrightarrow> concat (map assigned_of evs') = concat (map assigned_of evs)"
  by (auto simp: only_waits_def)

lemma task_ids_selected: "map (qiTaskId \<circ> bxItem) new = map tbTaskId (filter P xs) \<Longrightarrow> task_ids new \<subseteq># image_mset tbTaskId (mset xs)"
  by (metis image_mset_subseteq_mono mset_filter mset_map multiset_filter_subset)

text \<open>What a call of \<open>assignAndDispatch\<close> does to the group and the state, whether it fails or not.\<close>

definition dispatch_frame :: "batchGroup \<times> batchState \<Rightarrow> batchGroup \<times> batchState \<Rightarrow> bool" where
  "dispatch_frame gst gst' \<longleftrightarrow>
     same_group (fst gst) (fst gst') \<and> xsBatch (snd gst') = xsBatch (snd gst) \<and> xsFlush (snd gst') = xsFlush (snd gst) \<and>
     batch_ready (xsSched (snd gst'))"

lemma assignAndDispatch_ok:
  assumes ready: "batch_ready (xsSched st)" "batch_wired (xsBatch st)" and env: "flush_env_ok env"
    and items: "distinct (map tbId items)"
  obtains res g' st' where "assignAndDispatch env reason items (g, st) = Some (res, g', st')"
    "dispatch_frame (g, st) (g', st')"
    "\<And>remaining. res = Inr remaining \<Longrightarrow>
       unackedSlots (xsSched st') = unackedSlots (xsSched st) \<and>
       (\<exists>K new. mset remaining = filter_mset (\<lambda>x. tbQueue x \<in> K) (mset items) \<and> emitted st' = emitted st @ new \<and>
          task_ids new \<subseteq># image_mset tbTaskId (filter_mset (\<lambda>x. tbQueue x \<notin> K) (mset items)))"
    "\<And>e q. res = Inl e \<Longrightarrow> \<forall>x\<in>set items. tbQueue x = q \<Longrightarrow> unackedSlots (xsSched st') = unackedSlots (xsSched st)"
proof (cases "items = []")
  case True
  show thesis
    by (rule that[of "Inr []" g st]) (use True ready in \<open>auto simp: assignAndDispatch_def Let_def batch_wired_def dispatch_frame_def\<close>)
next
  case False
  let ?qs = "feOrder env (queueToItems items)" and ?U = "unackedSlots (xsSched st)"
  let ?d = "\<lparr>dsRemaining = [], dsAssigned = [], dsAckIds = [], dsGroup = g, dsLimiter = xsLimiter st,
                  dsSched = xsSched st, dsEvents = xsEvents st\<rparr>"
  have perm: "mset ?qs = mset (queueToItems items)" using env by (simp add: flush_env_ok_def)
  have all: "mset (concat (map snd ?qs)) = mset items"
    using mset_concat_perm[OF perm] grouped_mset[of tbQueue items] by (simp add: queueToItems_def)
  have keys: "distinct_keys ?qs" using distinct_map_mset[OF perm, of fst] grouped_distinct[of tbQueue items]
    by (simp add: distinct_keys_def queueToItems_def)
  have "\<forall>(q, its)\<in>set ?qs. \<forall>x\<in>set its. tbQueue x = q"
  proof (clarify)
    fix q its x assume "(q, its) \<in> set ?qs" "x \<in> set its"
    then show "tbQueue x = q"
      using grouped_keys[of q its tbQueue items] mset_eq_setD[OF perm] unfolding queueToItems_def by blast
  qed
  from of_queues_filter[OF this] have of_q: "mset (of_queues K ?qs) = filter_mset (\<lambda>x. tbQueue x \<in> K) (mset items)" for K
    using all by (metis mset_filter)
  have dist: "distinct (map tbId (concat (map snd ?qs)))" using distinct_map_mset[OF all, of tbId] items by simp
  have hold: "holding ?U ?d" using ready(1) by (simp add: holding_def)
  obtain err d where d: "dispatch_queues (feQueue env) (xsBatch st) reason ?qs ?d = Some (err, d)" "all_dispatched ?U ?d ?qs err d"
    using dispatch_queues_ok[OF _ dist keys hold, of "feQueue env"] env unfolding flush_env_ok_def by blast
  note a = d(2)[unfolded all_dispatched_def]
  have eq: "assignAndDispatch env reason items (g, st) =
      (case err of
         Some e \<Rightarrow> Some (Inl e, dsGroup d, st\<lparr>xsLimiter := dsLimiter d, xsSched := dsSched d, xsEvents := dsEvents d\<rparr>)
       | None \<Rightarrow>
           do { (rl, s) \<leftarrow> (if dsAckIds d = [] then Some (dsLimiter d, dsSched d)
                            else sched_ack (dsAckIds d) (dsLimiter d, dsSched d));
                Some (Inr (dsRemaining d), dsGroup d,
                      st\<lparr>xsLimiter := rl, xsSched := s,
                         xsEvents := (if dsAssigned d = [] then dsEvents d else dsEvents d @ [EvAssigned (dsAssigned d)])\<rparr>) })"
    using False ready(2) d(1) by (simp add: assignAndDispatch_def Let_def batch_wired_def)
  obtain P where p: "batch_ready (dsSched d)" "unackedSlots (dsSched d) = ?U @ P" "map fst P = dsAckIds d"
    using a by (auto simp: holding_def)
  have waits: "concat (map assigned_of (dsEvents d)) = emitted st" using a only_waits_emitted by fastforce
  show thesis
  proof (cases err)
    case (Some e)
    show thesis
    proof (rule that)
      show "assignAndDispatch env reason items (g, st) =
          Some (Inl e, dsGroup d, st\<lparr>xsLimiter := dsLimiter d, xsSched := dsSched d, xsEvents := dsEvents d\<rparr>)"
        using eq Some by simp
      show "dispatch_frame (g, st) (dsGroup d, st\<lparr>xsLimiter := dsLimiter d, xsSched := dsSched d, xsEvents := dsEvents d\<rparr>)"
        using a p(1) by (simp add: dispatch_frame_def)
      fix q assume "\<forall>x\<in>set items. tbQueue x = q"
      then have "grouped tbQueue items = [(q, items)]" using False
      proof (induction items rule: rev_induct)
        case (snoc x xs)
        then show ?case by (cases "xs = []") (simp_all add: mapList_def)
      qed simp
      then have "length ?qs \<le> 1" using perm by (metis One_nat_def length_Cons list.size(3) mset_eq_length queueToItems_def order_refl)
      then have "dsAckIds d = []" using a Some by simp
      then show "unackedSlots (xsSched (st\<lparr>xsLimiter := dsLimiter d, xsSched := dsSched d, xsEvents := dsEvents d\<rparr>)) = ?U"
        using p by simp
    qed simp
  next
    case None
    obtain K new Q where k: "dsRemaining d = of_queues K ?qs" "dsAssigned d = new"
      "map (qiTaskId \<circ> bxItem) new = map tbTaskId (filter Q (of_queues (- K) ?qs))"
      using a None by auto
    have "distinct_keys (?U @ P)" using p(1,2) sched_invD(3)[of "dsSched d"] by (simp add: batch_ready_def)
    from settled_suffix[OF this] p(3) have set: "settled (set (dsAckIds d)) (unackedSlots (dsSched d)) = ?U"
      unfolding p(2) by (metis list.set_map)
    obtain rl1 s1 where ack: "sched_ack (dsAckIds d) (dsLimiter d, dsSched d) = Some (rl1, s1)" "batch_ready s1" "unackedSlots s1 = ?U"
      using sched_ack_ready[OF p(1)] set by metis
    have "dsAckIds d = [] \<Longrightarrow> unackedSlots (dsSched d) = ?U" using p(2,3) by simp
    then obtain rl s where s: "(if dsAckIds d = [] then Some (dsLimiter d, dsSched d)
        else sched_ack (dsAckIds d) (dsLimiter d, dsSched d)) = Some (rl, s)" "batch_ready s" "unackedSlots s = ?U"
      using ack p(1) by (metis (full_types))
    let ?st = "st\<lparr>xsLimiter := rl, xsSched := s,
        xsEvents := (if dsAssigned d = [] then dsEvents d else dsEvents d @ [EvAssigned (dsAssigned d)])\<rparr>"
    have task: "task_ids new \<subseteq># image_mset tbTaskId (filter_mset (\<lambda>x. tbQueue x \<notin> K) (mset items))"
      using task_ids_selected[OF k(3)] of_q[of "- K"] by simp
    show thesis
    proof (rule that)
      show "assignAndDispatch env reason items (g, st) = Some (Inr (dsRemaining d), dsGroup d, ?st)"
        using eq None s(1) by simp
      show "dispatch_frame (g, st) (dsGroup d, ?st)" using a s(2) by (simp add: dispatch_frame_def)
      fix remaining assume "Inr (dsRemaining d) = (Inr remaining :: 'a batchError + batchedQueueItem list)"
      moreover have "emitted ?st = emitted st @ new" using waits k(2) by simp
      ultimately show "unackedSlots (xsSched ?st) = ?U \<and> (\<exists>K new. mset remaining = filter_mset (\<lambda>x. tbQueue x \<in> K) (mset items) \<and>
          emitted ?st = emitted st @ new \<and>
          task_ids new \<subseteq># image_mset tbTaskId (filter_mset (\<lambda>x. tbQueue x \<notin> K) (mset items)))"
        using s(3) k(1) of_q[of K] task by auto
    qed simp
  qed
qed

text \<open>What a flush does to the group and the state, whether it fails or not.\<close>

definition flush_frame :: "batchGroup \<times> batchState \<Rightarrow> batchGroup \<times> batchState \<Rightarrow> bool" where
  "flush_frame gst gst' \<longleftrightarrow>
     (case (gst, gst') of ((g, st), (g', st')) \<Rightarrow>
        set (getBufferedIds g') \<subseteq> set (getBufferedIds g) \<and> (distinct (getBufferedIds g) \<longrightarrow> distinct (getBufferedIds g')) \<and>
        bgBatchKey g' = bgBatchKey g \<and> bgFlushInterval g' = bgFlushInterval g \<and>
        (bgFlushDeadline g \<noteq> None \<longrightarrow> bgFlushDeadline g' \<noteq> None) \<and>
        (\<exists>t. xsBatch st' = (xsBatch st)\<lparr>bsLastActiveAt := t\<rparr>) \<and> batch_ready (xsSched st'))"

lemma flush_frame_refl: "batch_ready (xsSched (snd gst)) \<Longrightarrow> flush_frame gst gst"
  by (cases gst) (auto simp: flush_frame_def intro!: exI[of _ "bsLastActiveAt (xsBatch (snd gst))"])

lemma flush_frame_trans: "flush_frame a b \<Longrightarrow> flush_frame b c \<Longrightarrow> flush_frame a c"
  by (cases a; cases b; cases c) (auto simp: flush_frame_def)

lemma same_group_sel:
  "same_group g g' \<Longrightarrow> bgBuffer g' = bgBuffer g \<and> bgBatchKey g' = bgBatchKey g \<and> bgFlushInterval g' = bgFlushInterval g"
  unfolding same_group_def by (metis batchGroup.select_convs(3-5) batchGroup.surjective batchGroup.update_convs(2))

lemma flush_frame_pop:
  assumes "g1 = g\<lparr>bgBuffer := drop n (bgBuffer g)\<rparr>" "dispatch_frame (g1, st1) (g2, st2)" "xsBatch st1 = xsBatch st"
  shows "flush_frame (g, st) (g2, st2)"
proof -
  have g: "bgBuffer g2 = drop n (bgBuffer g)" "bgBatchKey g2 = bgBatchKey g" "bgFlushInterval g2 = bgFlushInterval g"
    "bgFlushDeadline g \<noteq> None \<Longrightarrow> bgFlushDeadline g2 \<noteq> None"
    using assms(1,2) same_group_sel[of g1 g2] by (auto simp: dispatch_frame_def same_group_def)
  then have "getBufferedIds g2 = drop n (getBufferedIds g)" by (simp add: getBufferedIds_def drop_map)
  then show ?thesis
    using g assms(2,3) set_drop_subset[of n "getBufferedIds g"]
    by (auto simp: flush_frame_def dispatch_frame_def intro!: exI[of _ "bsLastActiveAt (xsBatch st)"])
qed

lemma flush_frame_requeue:
  assumes "flush_frame (g, st) (g2, st2)" "bgBuffer g2 = drop n (bgBuffer g)"
    and "distinct (map tbId remaining)" "tbId ` set remaining \<subseteq> biId ` set (take n (bgBuffer g))"
    and "bgBuffer g4 = map toBufferedItem remaining @ bgBuffer g2" "bgBatchKey g4 = bgBatchKey g2"
      "bgFlushInterval g4 = bgFlushInterval g2" "bgFlushDeadline g2 \<noteq> None \<longrightarrow> bgFlushDeadline g4 \<noteq> None"
  shows "flush_frame (g, st) (g4, st2\<lparr>xsBatch := bs_touch t (xsBatch st2)\<rparr>)"
proof -
  have ids: "getBufferedIds g4 = map tbId remaining @ drop n (getBufferedIds g)"
    using assms(2,5) by (simp add: getBufferedIds_def toBufferedItem_def comp_def drop_map)
  have split: "getBufferedIds g = take n (getBufferedIds g) @ drop n (getBufferedIds g)" by simp
  have sub: "tbId ` set remaining \<subseteq> set (take n (getBufferedIds g))" using assms(4) by (simp add: getBufferedIds_def take_map)
  have "distinct (getBufferedIds g4)" if d: "distinct (getBufferedIds g)"
  proof -
    have "set (take n (getBufferedIds g)) \<inter> set (drop n (getBufferedIds g)) = {}"
      using d split by (metis distinct_append)
    then show ?thesis using ids d sub assms(3) by auto
  qed
  moreover have "set (getBufferedIds g4) \<subseteq> set (getBufferedIds g)"
    using ids sub set_take_subset[of n "getBufferedIds g"] set_drop_subset[of n "getBufferedIds g"] by auto
  ultimately show ?thesis using assms(1,6-8) by (auto simp: flush_frame_def bs_touch_def)
qed

lemma resetFlushDeadline_sel [simp]:
  "bgBuffer (resetFlushDeadline now g) = bgBuffer g" "bgBatchKey (resetFlushDeadline now g) = bgBatchKey g"
  "bgFlushInterval (resetFlushDeadline now g) = bgFlushInterval g"
  "bgFlushDeadline g \<noteq> None \<Longrightarrow> bgFlushDeadline (resetFlushDeadline now g) \<noteq> None"
  by (simp_all add: resetFlushDeadline_def split: option.split)

definition flush_outcome :: "'e flushEnv \<Rightarrow> nat \<Rightarrow> batchGroup \<times> batchState \<Rightarrow> batchGroup \<times> batchState \<Rightarrow> bool" where
  "flush_outcome env n gst gst' \<longleftrightarrow>
     (case (gst, gst') of ((g, st), (g', st')) \<Rightarrow>
        unackedSlots (xsSched st') = unackedSlots (xsSched st) \<and>
        (\<exists>items remaining new K. feHydrate env (map biId (take n (bgBuffer g))) = Inr items \<and>
           bgBuffer g' = map toBufferedItem remaining @ drop n (bgBuffer g) \<and>
           mset remaining = filter_mset (\<lambda>x. tbQueue x \<in> K) (mset items) \<and> emitted st' = emitted st @ new \<and>
           task_ids new \<subseteq># image_mset tbTaskId (filter_mset (\<lambda>x. tbQueue x \<notin> K) (mset items))))"

lemma bs_flush_ok:
  assumes ready: "batch_ready (xsSched st)" "batch_wired (xsBatch st)" and env: "flush_env_ok env"
    and n: "0 < n" "bgBuffer g \<noteq> []"
  obtains err g' st' where "bs_flush env n reason (g, st) = Some (err, g', st')" "flush_frame (g, st) (g', st')"
    "err = None \<Longrightarrow> flush_outcome env n (g, st) (g', st')"
    "\<And>items q. feHydrate env (map biId (take n (bgBuffer g))) = Inr items \<Longrightarrow> \<forall>x\<in>set items. tbQueue x = q \<Longrightarrow>
       unackedSlots (xsSched st') = unackedSlots (xsSched st)"
proof -
  let ?st = "st\<lparr>xsFlush := Suc (xsFlush st)\<rparr>" and ?g = "g\<lparr>bgBuffer := drop n (bgBuffer g)\<rparr>"
  let ?m = "if n > length (bgBuffer g) then length (bgBuffer g) else n"
  have pop: "popN ?m g = Some (take n (bgBuffer g), ?g)" by (simp add: popN_def)
  have ne: "take n (bgBuffer g) \<noteq> []" using n by simp
  have eq: "bs_flush env n reason (g, st) =
      (case feHydrate env (map biId (take n (bgBuffer g))) of
         Inl e \<Rightarrow> Some (Some (DbError e), ?g, ?st)
       | Inr toFlush \<Rightarrow>
           do { (res, g2, st2) \<leftarrow> assignAndDispatch env reason toFlush (?g, ?st);
                Some (case res of
                        Inl e \<Rightarrow> (Some e, g2, st2)
                      | Inr remaining \<Rightarrow>
                          (None, (resetFlushDeadline (feResetNow env) (g2\<lparr>bgBuffer := map toBufferedItem remaining @ bgBuffer g2\<rparr>))
                             \<lparr>bgLastActiveAt := Some (feActiveNow env)\<rparr>,
                           st2\<lparr>xsBatch := bs_touch (feActiveNow env) (xsBatch st2)\<rparr>)) })"
    unfolding bs_flush_def prod.case Let_def pop hydrateItems_def using n ne
    by (simp split: sum.split)
  show thesis
  proof (cases "feHydrate env (map biId (take n (bgBuffer g)))")
    case (Inl e)
    have "dispatch_frame (?g, ?st) (?g, ?st)" using ready(1) by (simp add: dispatch_frame_def)
    from flush_frame_pop[OF refl this] show thesis using eq Inl ready(1)
      by (intro that[of "Some (DbError e)" ?g ?st]) simp_all
  next
    case (Inr items)
    have it: "distinct (map tbId items)" "tbId ` set items \<subseteq> biId ` set (take n (bgBuffer g))"
      using env Inr unfolding flush_env_ok_def hydrates_ok_def by (metis, metis list.set_map)
    have r: "batch_ready (xsSched ?st)" "batch_wired (xsBatch ?st)" using ready by simp_all
    obtain res g2 st2 where a: "assignAndDispatch env reason items (?g, ?st) = Some (res, g2, st2)"
      "dispatch_frame (?g, ?st) (g2, st2)"
      "\<And>remaining. res = Inr remaining \<Longrightarrow>
         unackedSlots (xsSched st2) = unackedSlots (xsSched ?st) \<and>
         (\<exists>K new. mset remaining = filter_mset (\<lambda>x. tbQueue x \<in> K) (mset items) \<and> emitted st2 = emitted ?st @ new \<and>
            task_ids new \<subseteq># image_mset tbTaskId (filter_mset (\<lambda>x. tbQueue x \<notin> K) (mset items)))"
      "\<And>e q. res = Inl e \<Longrightarrow> \<forall>x\<in>set items. tbQueue x = q \<Longrightarrow> unackedSlots (xsSched st2) = unackedSlots (xsSched ?st)"
      by (rule assignAndDispatch_ok[OF r env it(1), of reason ?g]) (rule that)
    have f: "flush_frame (g, st) (g2, st2)" by (rule flush_frame_pop[OF refl a(2)]) simp
    show thesis
    proof (cases res)
      case (Inl e)
      note h = \<open>feHydrate env (map biId (take n (bgBuffer g))) = Inr items\<close>
      show thesis
      proof (rule that)
        show "bs_flush env n reason (g, st) = Some (Some e, g2, st2)" using eq h a(1) Inl by simp
        show "unackedSlots (xsSched st2) = unackedSlots (xsSched st)"
          if "feHydrate env (map biId (take n (bgBuffer g))) = Inr items'" "\<forall>x\<in>set items'. tbQueue x = q" for items' q
          using a(4)[OF Inl, of q] h that by simp
      qed (use f in simp_all)
    next
      case (Inr remaining)
      let ?g4 = "(resetFlushDeadline (feResetNow env) (g2\<lparr>bgBuffer := map toBufferedItem remaining @ bgBuffer g2\<rparr>))
          \<lparr>bgLastActiveAt := Some (feActiveNow env)\<rparr>"
      let ?st4 = "st2\<lparr>xsBatch := bs_touch (feActiveNow env) (xsBatch st2)\<rparr>"
      obtain K new where k: "mset remaining = filter_mset (\<lambda>x. tbQueue x \<in> K) (mset items)" "emitted st2 = emitted st @ new"
        "task_ids new \<subseteq># image_mset tbTaskId (filter_mset (\<lambda>x. tbQueue x \<notin> K) (mset items))"
        "unackedSlots (xsSched st2) = unackedSlots (xsSched st)"
        using a(3)[OF Inr] by auto
      have g2: "bgBuffer g2 = drop n (bgBuffer g)" using a(2) same_group_sel[of ?g g2] by (simp add: dispatch_frame_def)
      have m: "mset remaining = mset (filter (\<lambda>x. tbQueue x \<in> K) items)" using k(1) by simp
      have rem: "distinct (map tbId remaining)" "set remaining \<subseteq> set items"
        using distinct_map_mset[OF m, of tbId] distinct_map_filter[OF it(1)] mset_eq_setD[OF m] by (simp, auto)
      have "flush_frame (g, st) (?g4, ?st4)"
        by (rule flush_frame_requeue[OF f g2 rem(1)]) (use rem(2) it(2) in auto)
      moreover have "flush_outcome env n (g, st) (?g4, ?st4)"
        using k g2 \<open>feHydrate env (map biId (take n (bgBuffer g))) = Inr items\<close> by (auto simp: flush_outcome_def)
      ultimately show thesis
        using eq \<open>feHydrate env (map biId (take n (bgBuffer g))) = Inr items\<close> a(1) Inr k(4)
        by (intro that[of None ?g4 ?st4]) simp_all
    qed
  qed
qed

section \<open>Properties\<close>

text \<open>A step with two queues, and a database that accepts everything, for the witnesses.\<close>

definition batch_row :: "int \<Rightarrow> string \<Rightarrow> batchedQueueItem" where
  "batch_row i queue = \<lparr>tbId = i, tbQueue = queue, tbTaskId = i, tbTaskInsertedAt = Some 0, tbActionId = ''a'', tbStepId = 1,
     tbScheduleTimeoutAt = None, tbStepTimeout = [], tbPriority = 1, tbSticky = STICKY_NONE, tbDesiredWorkerId = None,
     tbRetryCount = 0, tbBatchKey = ''k'', tbInsertedAt = None, tbPayloadSize = 100\<rparr>"

definition accept_runs :: "string batchQueries" where
  "accept_runs = \<lparr>cqParseUuid = (\<lambda>_. Some 7), cqBegin = None, cqCommit = None, cqLock = None,
     cqReserve = (\<lambda>_ _ _ _ _. Inr True), cqDelete = (\<lambda>_. None),
     cqUpdate = (\<lambda>tasks _. Inr (map (\<lambda>((t, _, rc), _). (t, rc)) tasks)), cqMetadata = (\<lambda>_. None)\<rparr>"

definition batch_queue_env :: "string queueEnv" where
  "batch_queue_env = \<lparr>qeRepo = True, qeLabels = Inr [], qeCtxErr = None, qeRunning = True, qeNow = 0,
     qeCount = (\<lambda>_ _. Inr 0), qeBatchId = ''run'', qeTriggeredAt = 0, qeReserve = ReserveAndCommitBatchRun accept_runs,
     qeWaitNow = 0, qeResetNow = 0\<rparr>"

definition batch_flush_env :: "batchedQueueItem list \<Rightarrow> string flushEnv" where
  "batch_flush_env rows = \<lparr>feHydrate = (\<lambda>ids. Inr (filter (\<lambda>x. tbId x \<in> set ids) rows)), feOrder = id,
     feQueue = (\<lambda>_. batch_queue_env), feResetNow = 5, feActiveNow = 6\<rparr>"

definition batch_config :: batchScheduler where
  "batch_config = \<lparr>bsStepId = 1, bsMaxRuns = 3, bsBatchSize = 2, bsFlushInterval = Some 1000, bsIdleTTL = defaultBatchIdleTTL,
     bsLastActiveAt = 0, bsGroups = [], bsHasScheduler = True, bsHasQueueFactory = True, bsHasEmitter = True,
     bsHasTaskRepo = True, bsStarted = True, bsCancelled = False\<rparr>"

definition batch_group_of :: "batchedQueueItem list \<Rightarrow> batchGroup" where
  "batch_group_of rows = \<lparr>bgLastActiveAt = Some 0, bgFlushDeadline = Some 1000, bgFlushInterval = Some 1000,
     bgBatchKey = ''k'', bgBuffer = map toBufferedItem rows\<rparr>"

definition batch_start :: batchState where
  "batch_start = \<lparr>xsBatch = batch_config, xsLimiter = example_limiter, xsSched = clSched sys_ready, xsEvents = [], xsFlush = 0\<rparr>"

lemma batch_start_ok: "batch_ready (xsSched batch_start)" "batch_wired (xsBatch batch_start)"
proof -
  have "assignedCount (clSched sys_ready) = 0" by (simp add: sys_ready_def sys_sched_def)
  moreover have "map_of (pools (clSched sys_ready)) (0, t) = None" for t by (simp add: sys_ready_def sys_key_def)
  ultimately show "batch_ready (xsSched batch_start)"
    using cl_reach_sched_inv[OF sys_ready_reach] by (simp add: batch_ready_def batch_start_def)
qed (simp add: batch_wired_def batch_start_def batch_config_def)

lemma batch_flush_env_fits: "distinct (map tbId rows) \<Longrightarrow> flush_env_ok (batch_flush_env rows)"
  by (auto simp: flush_env_ok_def hydrates_ok_def batch_flush_env_def queue_env_ok_def batch_queue_env_def accept_runs_def
      distinct_map_filter)

text \<open>
  C12. A flush of the batch scheduler returns without a panic, and when it reports no error it
  decides queue by queue: the items of a queue either all go back to the front of the buffer, or
  none does and the tasks emitted as assigned are among them. No item is both kept in the buffer
  and emitted, items whose row is gone leave the buffer, and the rest of the buffer stays as it is.
\<close>

theorem batch_flush_all_or_nothing:
  assumes "batch_ready (xsSched st)" "batch_wired (xsBatch st)" "flush_env_ok env" "0 < n" "bgBuffer g \<noteq> []"
  shows "\<exists>err g' st'. bs_flush env n reason (g, st) = Some (err, g', st') \<and>
    (err = None \<longrightarrow>
      (\<exists>items remaining new K. feHydrate env (map biId (take n (bgBuffer g))) = Inr items \<and>
         bgBuffer g' = map toBufferedItem remaining @ drop n (bgBuffer g) \<and>
         mset remaining = filter_mset (\<lambda>x. tbQueue x \<in> K) (mset items) \<and> emitted st' = emitted st @ new \<and>
         task_ids new \<subseteq># image_mset tbTaskId (filter_mset (\<lambda>x. tbQueue x \<notin> K) (mset items))))"
proof -
  obtain err g' st' where "bs_flush env n reason (g, st) = Some (err, g', st')" "flush_frame (g, st) (g', st')"
    "err = None \<Longrightarrow> flush_outcome env n (g, st) (g', st')"
    by (rule bs_flush_ok[OF assms, of reason]) (rule that)
  then show ?thesis unfolding flush_outcome_def prod.case by blast
qed

theorem batch_flush_all_or_nothing_witness:
  "\<exists>g' st' remaining. bs_flush (batch_flush_env [batch_row 1 ''q'', batch_row 2 ''p'']) 2 BatchSizeReached
      (batch_group_of [batch_row 1 ''q'', batch_row 2 ''p''], batch_start) = Some (None, g', st') \<and>
    bgBuffer g' = map toBufferedItem remaining \<and> mset remaining \<subseteq># {#batch_row 1 ''q'', batch_row 2 ''p''#}"
proof -
  let ?rows = "[batch_row 1 ''q'', batch_row 2 ''p'']"
  have env: "flush_env_ok (batch_flush_env ?rows)" by (rule batch_flush_env_fits) (simp add: batch_row_def)
  have n: "0 < (2 :: nat)" "bgBuffer (batch_group_of ?rows) \<noteq> []" by (simp_all add: batch_group_of_def)
  have h: "feHydrate (batch_flush_env ?rows) (map biId (take 2 (bgBuffer (batch_group_of ?rows)))) = Inr ?rows"
    "drop 2 (bgBuffer (batch_group_of ?rows)) = []"
    by (simp_all add: batch_flush_env_def batch_group_of_def toBufferedItem_def)
  have "(case bs_flush (batch_flush_env ?rows) 2 BatchSizeReached (batch_group_of ?rows, batch_start) of
      Some (None, _) \<Rightarrow> True | _ \<Rightarrow> False)" by code_simp
  then obtain g' st' where
    r: "bs_flush (batch_flush_env ?rows) 2 BatchSizeReached (batch_group_of ?rows, batch_start) = Some (None, g', st')"
    by (auto split: option.splits)
  then obtain items remaining K where
    "feHydrate (batch_flush_env ?rows) (map biId (take 2 (bgBuffer (batch_group_of ?rows)))) = Inr items"
    "bgBuffer g' = map toBufferedItem remaining @ drop 2 (bgBuffer (batch_group_of ?rows))"
    "mset remaining = filter_mset (\<lambda>x. tbQueue x \<in> K) (mset items)"
    using batch_flush_all_or_nothing[OF batch_start_ok env n, of BatchSizeReached] by auto
  then have "bgBuffer g' = map toBufferedItem remaining" "mset remaining \<subseteq># mset ?rows" unfolding h by (simp_all del: mset.simps)
  with r show ?thesis by auto
qed

text \<open>
  C11. A flush settles every slot it takes: when it reports no error, and also when it fails while
  all its items are of one queue, the unacked assignments of the scheduler are what they were
  before: each slot it took was acked or released.
\<close>

theorem batch_flush_settles_slots:
  assumes "batch_ready (xsSched st)" "batch_wired (xsBatch st)" "flush_env_ok env" "0 < n" "bgBuffer g \<noteq> []"
  shows "\<exists>err g' st'. bs_flush env n reason (g, st) = Some (err, g', st') \<and> sched_inv (xsSched st') \<and>
    (err = None \<or> (\<exists>items q. feHydrate env (map biId (take n (bgBuffer g))) = Inr items \<and> (\<forall>x\<in>set items. tbQueue x = q)) \<longrightarrow>
      unackedSlots (xsSched st') = unackedSlots (xsSched st))"
proof -
  obtain err g' st' where f: "bs_flush env n reason (g, st) = Some (err, g', st')" "flush_frame (g, st) (g', st')"
    "err = None \<Longrightarrow> flush_outcome env n (g, st) (g', st')"
    "\<And>items q. feHydrate env (map biId (take n (bgBuffer g))) = Inr items \<Longrightarrow> \<forall>x\<in>set items. tbQueue x = q \<Longrightarrow>
       unackedSlots (xsSched st') = unackedSlots (xsSched st)"
    by (rule bs_flush_ok[OF assms, of reason]) (rule that)
  have "sched_inv (xsSched st')" using f(2) by (simp add: flush_frame_def batch_ready_def)
  moreover have "err = None \<Longrightarrow> unackedSlots (xsSched st') = unackedSlots (xsSched st)"
    using f(3) unfolding flush_outcome_def prod.case by blast
  ultimately show ?thesis using f(1,4) by blast
qed

theorem batch_flush_settles_slots_witness:
  "\<exists>err g' st'. bs_flush (batch_flush_env [batch_row 1 ''q'', batch_row 2 ''q'']) 2 BatchSizeReached
      (batch_group_of [batch_row 1 ''q'', batch_row 2 ''q''], batch_start) = Some (err, g', st') \<and>
    unackedSlots (xsSched st') = []"
proof -
  let ?rows = "[batch_row 1 ''q'', batch_row 2 ''q'']"
  have env: "flush_env_ok (batch_flush_env ?rows)" by (rule batch_flush_env_fits) (simp add: batch_row_def)
  have n: "0 < (2 :: nat)" "bgBuffer (batch_group_of ?rows) \<noteq> []" by (simp_all add: batch_group_of_def)
  have "feHydrate (batch_flush_env ?rows) (map biId (take 2 (bgBuffer (batch_group_of ?rows)))) = Inr ?rows"
    "\<forall>x\<in>set ?rows. tbQueue x = ''q''"
    by (simp_all add: batch_flush_env_def batch_group_of_def toBufferedItem_def batch_row_def)
  moreover have "unackedSlots (xsSched batch_start) = []" by (simp add: batch_start_def sys_ready_def)
  ultimately show ?thesis using batch_flush_settles_slots[OF batch_start_ok env n, of BatchSizeReached] by metis
qed

text \<open>
  C33. A failure strands the queues a flush has already committed. When the items of a flush are of
  two queues, the run of the first is committed and the labels of the second cannot be read, the
  flush returns with the error: the slot of the first run is neither acked nor released, and its
  tasks, which the database holds as assigned, are not emitted.
\<close>

theorem failed_flush_strands_batch:
  assumes "batch_ready (xsSched st)" "batch_wired (xsBatch st)" "queue_env_ok (feQueue env q1)"
    and "feOrder env (queueToItems items) = [(q1, xs), (q2, ys)]" "items \<noteq> []" "distinct (map tbId xs)"
    and "dispatch_queue (feQueue env q1) (xsBatch st) reason xs
           \<lparr>dsRemaining = [], dsAssigned = [], dsAckIds = [], dsGroup = g, dsLimiter = xsLimiter st,
            dsSched = xsSched st, dsEvents = xsEvents st\<rparr> = Some (None, d1)" "i \<in> set (dsAckIds d1)"
    and "qeRepo (feQueue env q2)" "ys \<noteq> []" "qeLabels (feQueue env q2) = Inl e"
  shows "\<exists>g' st'. assignAndDispatch env reason items (g, st) = Some (Inl (DbError e), g', st') \<and>
    map_of (unackedSlots (xsSched st')) i \<noteq> None \<and> emitted st' = emitted st"
proof -
  let ?d = "\<lparr>dsRemaining = [], dsAssigned = [], dsAckIds = [], dsGroup = g, dsLimiter = xsLimiter st,
            dsSched = xsSched st, dsEvents = xsEvents st\<rparr>"
  have "holding (unackedSlots (xsSched st)) ?d" using assms(1) by (simp add: holding_def)
  then have "dispatched (unackedSlots (xsSched st)) ?d xs (None :: 'a batchError option) d1"
    using dispatch_queue_dispatched[OF assms(3,6), of _ ?d "xsBatch st" reason] assms(7) by (metis option.inject prod.inject)
  then have d: "holding (unackedSlots (xsSched st)) d1" "concat (map assigned_of (dsEvents d1)) = emitted st"
    using only_waits_emitted[of "xsEvents st" "dsEvents d1"] by (auto simp: dispatched_def)
  obtain y ys' where y: "ys = y # ys'" using assms(10) by (cases ys) auto
  have "dispatch_queues (feQueue env) (xsBatch st) reason [(q1, xs), (q2, ys)] ?d = Some (Some (DbError e), d1)"
    using assms(7,9,11) y by (simp add: dispatch_queue_def Let_def)
  then have "assignAndDispatch env reason items (g, st) =
      Some (Inl (DbError e), dsGroup d1, st\<lparr>xsLimiter := dsLimiter d1, xsSched := dsSched d1, xsEvents := dsEvents d1\<rparr>)"
    using assms(2,4,5) by (simp add: assignAndDispatch_def Let_def batch_wired_def)
  moreover have "i \<in> fst ` set (unackedSlots (dsSched d1))"
    using d(1) assms(8) by (auto simp: holding_def) (metis image_eqI list.set_map UnI2 image_Un)
  ultimately show ?thesis using d(2) by (auto simp: map_of_eq_None_iff)
qed

definition failing_env :: "batchedQueueItem list \<Rightarrow> string flushEnv" where
  "failing_env rows = (batch_flush_env rows)\<lparr>feQueue :=
     (\<lambda>q. if q = ''p'' then batch_queue_env\<lparr>qeLabels := Inl ''labels''\<rparr> else batch_queue_env)\<rparr>"

theorem failed_flush_strands_batch_witness:
  "\<exists>g' st'. assignAndDispatch (failing_env [batch_row 1 ''q'', batch_row 2 ''p'']) BatchSizeReached
      [batch_row 1 ''q'', batch_row 2 ''p''] (batch_group_of [], batch_start) = Some (Inl (DbError ''labels''), g', st') \<and>
    map_of (unackedSlots (xsSched st')) 1 \<noteq> None \<and> emitted st' = []"
proof -
  let ?rows = "[batch_row 1 ''q'', batch_row 2 ''p'']"
  let ?d = "\<lparr>dsRemaining = [], dsAssigned = [], dsAckIds = [], dsGroup = batch_group_of [], dsLimiter = xsLimiter batch_start,
            dsSched = xsSched batch_start, dsEvents = xsEvents batch_start\<rparr>"
  let ?r = "dispatch_queue (feQueue (failing_env ?rows) ''q'') (xsBatch batch_start) BatchSizeReached [batch_row 1 ''q''] ?d"
  have c: "case ?r of Some (None, d1) \<Rightarrow> dsAckIds d1 = [1] | _ \<Rightarrow> False" by code_simp
  then obtain d1 where d1: "?r = Some (None, d1)" "dsAckIds d1 = [1]"
    by (cases ?r) (auto split: option.splits prod.splits)
  have q: "queue_env_ok (feQueue (failing_env ?rows) ''q'')"
    by (auto simp: queue_env_ok_def failing_env_def batch_queue_env_def accept_runs_def)
  have qs: "feOrder (failing_env ?rows) (queueToItems ?rows) = [(''q'', [batch_row 1 ''q'']), (''p'', [batch_row 2 ''p''])]"
    by (simp add: failing_env_def batch_flush_env_def queueToItems_def batch_row_def mapList_def)
  from failed_flush_strands_batch[OF batch_start_ok q qs _ _ d1(1), of 1 "''labels''"] d1(2) show ?thesis
    by (simp add: failing_env_def batch_queue_env_def) (simp add: batch_start_def)
qed

end
