(* ===== verification/Batch_Tick.thy ===== *)
theory Batch_Tick
  imports Batch_Flush
begin

text \<open>
  Ticks of the batch scheduler: the payload limit, when the loops of a tick end and when one does
  not, and the invariant of the buffers over any number of ticks.
\<close>

section \<open>The payload limit\<close>

abbreviation payload :: "bufferedItem list \<Rightarrow> int" where
  "payload xs \<equiv> sum_list (map (\<lambda>x. sint (biPayloadSize x)) xs)"

text \<open>Sizes whose running sum cannot wrap around before it is compared with the limit.\<close>

definition small_payloads :: "bufferedItem list \<Rightarrow> bool" where
  "small_payloads xs \<longleftrightarrow> (\<forall>x\<in>set xs. 0 \<le> sint (biPayloadSize x) \<and> sint (biPayloadSize x) < 2 ^ 31 - 4000000)"

lemma sint_limit: "sint maxBufferedPayloadBytes = 4000000"
  by (simp add: maxBufferedPayloadBytes_def)

lemma sint_add_small:
  fixes a b :: "32 word"
  assumes "- (2 ^ 31) \<le> sint a + sint b" "sint a + sint b < 2 ^ 31"
  shows "sint (a + b) = sint a + sint b"
  using assms by (simp add: sint_word_ariths(1) signed_take_bit_int_eq_self)

lemma payload_nonneg: "small_payloads xs \<Longrightarrow> 0 \<le> payload xs"
  by (induction xs) (auto simp: small_payloads_def)

lemma memory_scan_under:
  assumes "small_payloads xs" "0 \<le> sint t" "sint t + payload xs \<le> 4000000"
  shows "memory_scan i t xs = (False, 0)"
  using assms
proof (induction xs arbitrary: i t)
  case (Cons x xs)
  have s: "small_payloads xs" "0 \<le> sint (biPayloadSize x)" "sint (biPayloadSize x) < 2 ^ 31 - 4000000"
    using Cons.prems(1) by (auto simp: small_payloads_def)
  have le: "sint t + sint (biPayloadSize x) \<le> 4000000" using Cons.prems(3) payload_nonneg[OF s(1)] by simp
  have "sint (t + biPayloadSize x) = sint t + sint (biPayloadSize x)"
    by (rule sint_add_small) (use s Cons.prems(2) le in simp_all)
  then show ?case using Cons.IH[OF s(1), of "t + biPayloadSize x" "Suc i"] Cons.prems s le by (simp add: Let_def sint_limit)
qed simp

lemma memory_scan_over:
  assumes "small_payloads xs" "0 \<le> sint t" "sint t \<le> 4000000" "4000000 < sint t + payload xs"
  shows "\<exists>k<length xs. memory_scan i t xs = (True, if i + k = 0 then 1 else i + k) \<and>
    sint t + payload (take k xs) \<le> 4000000 \<and> 4000000 < sint t + payload (take (Suc k) xs)"
  using assms
proof (induction xs arbitrary: i t)
  case (Cons x xs)
  have s: "small_payloads xs" "0 \<le> sint (biPayloadSize x)" "sint (biPayloadSize x) < 2 ^ 31 - 4000000"
    using Cons.prems(1) by (auto simp: small_payloads_def)
  have eq: "sint (t + biPayloadSize x) = sint t + sint (biPayloadSize x)"
    by (rule sint_add_small) (use s Cons.prems(2,3) in simp_all)
  show ?case
  proof (cases "4000000 < sint t + sint (biPayloadSize x)")
    case True
    then show ?thesis using Cons.prems(3) eq by (intro exI[of _ 0]) (simp add: Let_def sint_limit)
  next
    case False
    obtain k where k: "k < length xs" "memory_scan (Suc i) (t + biPayloadSize x) xs = (True, if Suc i + k = 0 then 1 else Suc i + k)"
      "sint (t + biPayloadSize x) + payload (take k xs) \<le> 4000000"
      "4000000 < sint (t + biPayloadSize x) + payload (take (Suc k) xs)"
      using Cons.IH[OF s(1), of "t + biPayloadSize x" "Suc i"] Cons.prems s eq False by auto
    show ?thesis using k False eq by (intro exI[of _ "Suc k"]) (simp add: Let_def sint_limit algebra_simps)
  qed
qed simp

section \<open>The loops of a group\<close>

declare size_flush.simps [simp del]

lemma flush_frame_ready:
  "flush_frame (g, st) (g', st') \<Longrightarrow> batch_ready (xsSched st')"
  "flush_frame (g, st) (g', st') \<Longrightarrow> batch_wired (xsBatch st) \<Longrightarrow> batch_wired (xsBatch st')"
  by (auto simp: flush_frame_def batch_wired_def)

lemma bs_flush_frame:
  assumes "batch_ready (xsSched st)" "batch_wired (xsBatch st)" "flush_env_ok env"
  obtains err g' st' where "bs_flush env n reason (g, st) = Some (err, g', st')" "flush_frame (g, st) (g', st')"
proof (cases "0 < n \<and> bgBuffer g \<noteq> []")
  case True
  then have n: "0 < n" "bgBuffer g \<noteq> []" by simp_all
  show thesis by (rule bs_flush_ok[OF assms n, of reason]) (rule that)
next
  case False
  show thesis
    by (rule that[of None g st]) (use False flush_frame_refl[of "(g, st)"] assms(1) in \<open>auto simp: bs_flush_def\<close>)
qed

lemma size_flush_ok:
  assumes "\<And>i. flush_env_ok (envs i)"
  shows "batch_ready (xsSched st) \<Longrightarrow> batch_wired (xsBatch st) \<Longrightarrow>
    \<exists>err g' st'. size_flush envs (g, st) = Some (err, g', st') \<and> flush_frame (g, st) (g', st')"
proof (induction "length (bgBuffer g)" arbitrary: g st rule: less_induct)
  case less
  let ?n = "bsBatchSize (xsBatch st)"
  show ?case
  proof (cases "0 < ?n \<and> ?n \<le> int (length (bgBuffer g))")
    case False
    then show ?thesis using flush_frame_refl[of "(g, st)"] less.prems(1) by (auto simp: size_flush.simps Let_def)
  next
    case True
    obtain err g1 st1 where f: "bs_flush (envs (xsFlush st)) (nat ?n) BatchSizeReached (g, st) = Some (err, g1, st1)"
      "flush_frame (g, st) (g1, st1)"
      using bs_flush_frame[OF less.prems assms] by metis
    show ?thesis
    proof (cases "err = None \<and> length (bgBuffer g1) < length (bgBuffer g)")
      case False
      then show ?thesis using f True by (cases err) (simp_all add: size_flush.simps Let_def)
    next
      case shrinks: True
      obtain err2 g2 st2 where "size_flush envs (g1, st1) = Some (err2, g2, st2)" "flush_frame (g1, st1) (g2, st2)"
        using less.hyps[of g1 st1] shrinks flush_frame_ready(1)[OF f(2)] flush_frame_ready(2)[OF f(2) less.prems(2)] by blast
      then show ?thesis using f True shrinks flush_frame_trans[OF f(2)] by (auto simp: size_flush.simps[of envs g] Let_def)
    qed
  qed
qed

text \<open>Induction over the flushes of a loop that ends.\<close>

lemma memory_flush_induct [consumes 1, case_names under failed again]:
  assumes "memory_flush envs gst = Some r"
    and "\<And>gst. \<not> fst (shouldMemoryLimitFlush (fst gst)) \<Longrightarrow> P gst (None, gst)"
    and "\<And>gst e gst'. fst (shouldMemoryLimitFlush (fst gst)) \<Longrightarrow>
      bs_flush (envs (xsFlush (snd gst))) (snd (shouldMemoryLimitFlush (fst gst))) BufferMemorySizeReached gst = Some (Some e, gst') \<Longrightarrow>
      P gst (Some e, gst')"
    and "\<And>gst gst' r. fst (shouldMemoryLimitFlush (fst gst)) \<Longrightarrow>
      bs_flush (envs (xsFlush (snd gst))) (snd (shouldMemoryLimitFlush (fst gst))) BufferMemorySizeReached gst = Some (None, gst') \<Longrightarrow>
      P gst' r \<Longrightarrow> P gst r"
  shows "P gst r"
proof -
  have "envs = envs \<longrightarrow> P gst r"
  proof (rule memory_flush.raw_induct[of "\<lambda>es gst r. es = envs \<longrightarrow> P gst r", OF _ assms(1)], rule impI)
    fix rec es gst r
    assume ih: "\<And>es gst r. rec es gst = Some r \<Longrightarrow> es = envs \<longrightarrow> P gst r" and es: "es = envs"
      and body: "(if \<not> fst (shouldMemoryLimitFlush (fst gst)) then Some (None, gst)
        else bs_flush (es (xsFlush (snd gst))) (snd (shouldMemoryLimitFlush (fst gst))) BufferMemorySizeReached gst \<bind>
          (\<lambda>res. if fst res \<noteq> None then Some res else rec es (snd res))) = Some r"
    show "P gst r"
    proof (cases "fst (shouldMemoryLimitFlush (fst gst))")
      case False
      then show ?thesis using body assms(2)[of gst] by simp
    next
      case True
      then obtain res where res: "bs_flush (envs (xsFlush (snd gst))) (snd (shouldMemoryLimitFlush (fst gst)))
          BufferMemorySizeReached gst = Some res" "(if fst res \<noteq> None then Some res else rec envs (snd res)) = Some r"
        using body es unfolding bind_eq_Some_conv by (simp only: if_False not_True_eq_False bind_eq_Some_conv) blast
      obtain err gst1 where p: "res = (err, gst1)" by (cases res)
      have f: "bs_flush (envs (xsFlush (snd gst))) (snd (shouldMemoryLimitFlush (fst gst)))
          BufferMemorySizeReached gst = Some (err, gst1)" "(if err \<noteq> None then Some (err, gst1) else rec envs gst1) = Some r"
        using res unfolding p fst_conv snd_conv by blast+
      show ?thesis
      proof (cases err)
        case (Some e)
        then show ?thesis using f assms(3)[OF True, of e gst1] by simp
      next
        case None
        then show ?thesis using f assms(4)[OF True, of gst1 r] ih[of envs gst1 r] by simp
      qed
    qed
  qed
  then show ?thesis by simp
qed

lemma memory_flush_frame:
  assumes "\<And>i. flush_env_ok (envs i)"
  shows "memory_flush envs gst = Some r \<Longrightarrow> batch_ready (xsSched (snd gst)) \<Longrightarrow> batch_wired (xsBatch (snd gst)) \<Longrightarrow>
    flush_frame gst (snd r)"
proof (induction rule: memory_flush_induct)
  case (under gst)
  then show ?case by (simp add: flush_frame_refl)
next
  case (failed gst e gst')
  obtain err g' st' where "bs_flush (envs (xsFlush (snd gst))) (snd (shouldMemoryLimitFlush (fst gst))) BufferMemorySizeReached
      (fst gst, snd gst) = Some (err, g', st')" "flush_frame (fst gst, snd gst) (g', st')"
    using bs_flush_frame[OF failed(3,4) assms] by metis
  then show ?case using failed(2) by simp
next
  case (again gst gst' r)
  obtain err g' st' where "bs_flush (envs (xsFlush (snd gst))) (snd (shouldMemoryLimitFlush (fst gst))) BufferMemorySizeReached
      (fst gst, snd gst) = Some (err, g', st')" "flush_frame (fst gst, snd gst) (g', st')"
    using bs_flush_frame[OF again(4,5) assms] by metis
  then have f: "flush_frame (fst gst, snd gst) (fst gst', snd gst')" using again(2) by simp
  show ?case
    using flush_frame_trans[OF f] again(3)[OF flush_frame_ready(1)[OF f] flush_frame_ready(2)[OF f again(5)]] by simp
qed

lemma flush_group_frame:
  assumes "\<And>i. flush_env_ok (xeFlush env i)" "batch_ready (xsSched st)" "batch_wired (xsBatch st)"
    and "flush_group env key (g, st) = Some (err, g', st')"
  shows "flush_frame (g, st) (g', st')"
proof -
  obtain err1 g1 st1 where m: "memory_flush (xeFlush env) (g, st) = Some (err1, g1, st1)"
    using assms(4) by (auto simp: flush_group_def bind_eq_Some_conv)
  have f1: "flush_frame (g, st) (g1, st1)" using memory_flush_frame[OF assms(1) m] assms(2,3) by simp
  note r1 = flush_frame_ready(1)[OF f1] flush_frame_ready(2)[OF f1 assms(3)]
  show ?thesis
  proof (cases err1)
    case (Some e)
    then show ?thesis using assms(4) m f1 by (simp add: flush_group_def)
  next
    case None
    obtain err2 g2 st2 where s: "size_flush (xeFlush env) (g1, st1) = Some (err2, g2, st2)" "flush_frame (g1, st1) (g2, st2)"
      using size_flush_ok[of "xeFlush env", OF assms(1) r1] by blast
    have f2: "flush_frame (g, st) (g2, st2)" by (rule flush_frame_trans[OF f1 s(2)])
    obtain err3 g3 st3 where d: "bs_flush (xeFlush env (xsFlush st2)) (length (bgBuffer g2)) IntervalElapsed (g2, st2) = Some (err3, g3, st3)"
      "flush_frame (g2, st2) (g3, st3)"
      using bs_flush_frame[OF flush_frame_ready(1)[OF f2] flush_frame_ready(2)[OF f2 assms(3)] assms(1)] by metis
    have f3: "flush_frame (g, st) (g3, st3)" by (rule flush_frame_trans[OF f2 d(2)])
    have "(g', st') = (g2, st2) \<or> (g', st') = (g3, st3)"
      using assms(4) None by (cases err2) (auto simp: flush_group_def m s(1) d(1) split: if_splits)
    then show ?thesis using f2 f3 by blast
  qed
qed

section \<open>The buffers\<close>

text \<open>
  No item is buffered twice, a group is filed under its key, and with a flush interval every group
  has a deadline.
\<close>

definition group_ok :: "batchScheduler \<Rightarrow> string \<Rightarrow> batchGroup \<Rightarrow> bool" where
  "group_ok b k g \<longleftrightarrow> bgBatchKey g = k \<and> bgFlushInterval g = bsFlushInterval b \<and>
     (bsFlushInterval b \<noteq> None \<longrightarrow> bgFlushDeadline g \<noteq> None)"

definition buffers_ok :: "batchScheduler \<Rightarrow> bool" where
  "buffers_ok b \<longleftrightarrow> distinct_keys (bsGroups b) \<and> distinct (allBufferedIds b) \<and>
     (\<forall>(k, g)\<in>set (bsGroups b). group_ok b k g)"

lemma buffers_okD:
  assumes "buffers_ok b"
  shows "distinct_keys (bsGroups b)" "distinct (allBufferedIds b)" "(k, g) \<in> set (bsGroups b) \<Longrightarrow> group_ok b k g"
  using assms by (auto simp: buffers_ok_def)

lemma allBufferedIds_eq: "allBufferedIds b = concat (map (\<lambda>x. getBufferedIds (snd x)) (bsGroups b))"
  by (simp add: allBufferedIds_def case_prod_beta')

lemma distinct_concat_update:
  assumes "distinct_keys xs" "distinct (concat (map (\<lambda>x. f (snd x)) xs))" "distinct (f v)"
    and "\<And>j u. (j, u) \<in> set xs \<Longrightarrow> j \<noteq> k \<Longrightarrow> set (f u) \<inter> set (f v) = {}"
  shows "distinct (concat (map (\<lambda>x. f (snd x)) (AList.update k v xs)))"
  using assms
proof (induction xs)
  case (Cons p xs)
  obtain j u where p: "p = (j, u)" by (cases p)
  have d: "distinct_keys xs" "j \<notin> fst ` set xs" "distinct (f u)" "distinct (concat (map (\<lambda>x. f (snd x)) xs))"
    "set (f u) \<inter> set (concat (map (\<lambda>x. f (snd x)) xs)) = {}"
    using Cons.prems(1,2) p by auto
  show ?case
  proof (cases "j = k")
    case True
    have "set (f v) \<inter> set (concat (map (\<lambda>x. f (snd x)) xs)) = {}"
    proof -
      have "set (f (snd x)) \<inter> set (f v) = {}" if "x \<in> set xs" for x
        using Cons.prems(4)[of "fst x" "snd x"] that d(2) True by auto
      then show ?thesis by auto
    qed
    then show ?thesis using True p d(4) Cons.prems(3) by simp
  next
    case False
    have "distinct (concat (map (\<lambda>x. f (snd x)) (AList.update k v xs)))"
      by (rule Cons.IH[OF d(1,4) Cons.prems(3)]) (use Cons.prems(4) in auto)
    moreover have "set (f u) \<inter> set (concat (map (\<lambda>x. f (snd x)) (AList.update k v xs))) = {}"
      using d(5) Cons.prems(4)[of j u] False p by (auto dest!: set_AList_update)
    ultimately show ?thesis using False p d(3) by simp
  qed
qed simp

lemma concat_split:
  assumes "distinct_keys xs" "map_of xs k = Some g" "(j, u) \<in> set xs" "j \<noteq> k" "distinct (concat (map (\<lambda>x. f (snd x)) xs))"
  shows "set (f u) \<inter> set (f g) = {}"
proof -
  have g: "(k, g) \<in> set xs" by (rule map_of_SomeD[OF assms(2)])
  then obtain ys zs where "xs = ys @ (k, g) # zs" by (meson split_list)
  then show ?thesis using assms(3-5) by fastforce
qed

lemma distinct_concat_filter: "distinct (concat (map f xs)) \<Longrightarrow> distinct (concat (map f (filter P xs)))"
  by (induction xs) auto

lemma buffers_ok_put:
  assumes "buffers_ok b" "group_ok b k g'" "distinct (getBufferedIds g')"
    and "\<And>j u. (j, u) \<in> set (bsGroups b) \<Longrightarrow> j \<noteq> k \<Longrightarrow> set (getBufferedIds u) \<inter> set (getBufferedIds g') = {}"
  shows "buffers_ok (b\<lparr>bsGroups := AList.update k g' (bsGroups b)\<rparr>)"
  unfolding buffers_ok_def
proof (intro conjI)
  show "distinct (allBufferedIds (b\<lparr>bsGroups := AList.update k g' (bsGroups b)\<rparr>))"
    using distinct_concat_update[where f = getBufferedIds, OF buffers_okD(1)[OF assms(1)] _ assms(3,4)] buffers_okD(2)[OF assms(1)]
    by (simp add: allBufferedIds_eq)
  show "\<forall>(j, u)\<in>set (bsGroups (b\<lparr>bsGroups := AList.update k g' (bsGroups b)\<rparr>)).
      group_ok (b\<lparr>bsGroups := AList.update k g' (bsGroups b)\<rparr>) j u"
    using assms(2) buffers_okD(3)[OF assms(1)] by (auto simp: group_ok_def dest!: set_AList_update)
qed (use buffers_okD(1)[OF assms(1)] in simp)

lemma buffers_ok_shrink:
  assumes "buffers_ok b" "map_of (bsGroups b) k = Some g" "group_ok b k g'" "distinct (getBufferedIds g')"
    "set (getBufferedIds g') \<subseteq> set (getBufferedIds g)"
  shows "buffers_ok (b\<lparr>bsGroups := AList.update k g' (bsGroups b)\<rparr>)"
proof (rule buffers_ok_put[OF assms(1,3,4)])
  fix j u assume "(j, u) \<in> set (bsGroups b)" "j \<noteq> k"
  from concat_split[OF buffers_okD(1)[OF assms(1)] assms(2) this, of getBufferedIds] buffers_okD(2)[OF assms(1)]
  show "set (getBufferedIds u) \<inter> set (getBufferedIds g') = {}" using assms(5) by (auto simp: allBufferedIds_eq)
qed

lemma buffers_ok_delete:
  assumes "buffers_ok b"
  shows "buffers_ok (b\<lparr>bsGroups := AList.delete k (bsGroups b)\<rparr>)"
proof -
  have "distinct (concat (map (\<lambda>x. getBufferedIds (snd x)) (filter P (bsGroups b))))" for P
    using buffers_okD(2)[OF assms] unfolding allBufferedIds_eq by (rule distinct_concat_filter)
  then show ?thesis using buffers_okD[OF assms]
    by (auto simp: buffers_ok_def allBufferedIds_eq AList_delete_filter group_ok_def distinct_keys_def distinct_map_filter)
qed

lemma buffers_ok_map:
  assumes "buffers_ok b" "\<And>k g. \<exists>P. f k g = g\<lparr>bgBuffer := filter P (bgBuffer g)\<rparr>"
  shows "buffers_ok (map_groups f b)" "fst ` set (bsGroups (map_groups f b)) = fst ` set (bsGroups b)"
proof -
  have g: "group_ok c k (f k g) \<longleftrightarrow> group_ok c k g" for c k g using assms(2)[of k g] by (auto simp: group_ok_def)
  have ids: "\<exists>P. getBufferedIds (f k g) = filter P (getBufferedIds g)" if "distinct (getBufferedIds g)" for k g
  proof -
    obtain P where p: "f k g = g\<lparr>bgBuffer := filter P (bgBuffer g)\<rparr>" using assms(2) by blast
    have inj: "inj_on biId (set (bgBuffer g))" using that by (simp add: getBufferedIds_def distinct_map)
    have "filter P (bgBuffer g) = filter (\<lambda>x. biId x \<in> biId ` {y\<in>set (bgBuffer g). P y}) (bgBuffer g)"
      using inj by (auto intro!: filter_cong dest: inj_onD)
    then have "getBufferedIds (f k g) = filter (\<lambda>i. i \<in> biId ` {y\<in>set (bgBuffer g). P y}) (getBufferedIds g)"
      by (simp add: p getBufferedIds_def filter_map comp_def)
    then show ?thesis by blast
  qed
  have "distinct (concat (map (\<lambda>(k, g). getBufferedIds (f k g)) xs)) \<and>
      set (concat (map (\<lambda>(k, g). getBufferedIds (f k g)) xs)) \<subseteq> set (concat (map (\<lambda>x. getBufferedIds (snd x)) xs))"
    if "distinct (concat (map (\<lambda>x. getBufferedIds (snd x)) xs))" for xs
    using that
  proof (induction xs)
    case (Cons p xs)
    obtain k g where p: "p = (k, g)" by (cases p)
    have d: "distinct (getBufferedIds g)" using Cons.prems p by simp
    obtain P where "getBufferedIds (f k g) = filter P (getBufferedIds g)" using ids[OF d, of k] by blast
    then show ?case using Cons p by auto
  qed simp
  from this[of "bsGroups b"] buffers_okD(2)[OF assms(1)] have "distinct (concat (map (\<lambda>(k, g). getBufferedIds (f k g)) (bsGroups b)))"
    by (simp add: allBufferedIds_eq)
  moreover have "allBufferedIds (map_groups f b) = concat (map (\<lambda>(k, g). getBufferedIds (f k g)) (bsGroups b))"
    by (simp add: allBufferedIds_eq map_groups_def case_prod_beta' comp_def)
  ultimately have ids_ok: "distinct (allBufferedIds (map_groups f b))" by simp
  have keys: "map fst (bsGroups (map_groups f b)) = map fst (bsGroups b)"
    by (simp add: map_groups_def case_prod_beta' comp_def)
  then show "fst ` set (bsGroups (map_groups f b)) = fst ` set (bsGroups b)" by (metis list.set_map)
  have "group_ok (map_groups f b) k g'" if m: "(k, g') \<in> set (bsGroups (map_groups f b))" for k g'
  proof -
    obtain h where h: "(k, h) \<in> set (bsGroups b)" "g' = f k h" using m by (auto simp: map_groups_def)
    have "group_ok b k (f k h)" using g buffers_okD(3)[OF assms(1) h(1)] by blast
    then show ?thesis by (simp add: group_ok_def map_groups_def h(2))
  qed
  then show "buffers_ok (map_groups f b)"
    unfolding buffers_ok_def distinct_keys_def keys using ids_ok buffers_okD(1)[OF assms(1)] by (auto simp: distinct_keys_def)
qed

section \<open>A tick keeps the invariant\<close>

definition lists_new :: "(int list \<Rightarrow> int \<Rightarrow> 'e + batchedQueueItem list) \<Rightarrow> bool" where
  "lists_new list \<longleftrightarrow>
     (\<forall>ids n items. list ids n = Inr items \<longrightarrow> distinct (map tbId items) \<and> set (map tbId items) \<inter> set ids = {})"

definition batch_tick_ok :: "'e batchTickEnv \<Rightarrow> bool" where
  "batch_tick_ok env \<longleftrightarrow>
     lists_new (xeList env) \<and> (\<forall>m. mset (xeFetchOrder env m) = mset m) \<and> (\<forall>i. flush_env_ok (xeFlush env i))"

text \<open>What a tick keeps: the configuration, the invariant and the keys, unless a group is evicted.\<close>

definition tick_inv :: "batchState \<Rightarrow> bool" where
  "tick_inv st \<longleftrightarrow> buffers_ok (xsBatch st) \<and> batch_wired (xsBatch st) \<and> batch_ready (xsSched st)"

definition keeps_groups :: "batchState \<Rightarrow> batchState \<Rightarrow> bool" where
  "keeps_groups st st' \<longleftrightarrow> bsFlushInterval (xsBatch st') = bsFlushInterval (xsBatch st) \<and>
     (bsFlushInterval (xsBatch st) \<noteq> None \<longrightarrow>
        fst ` set (bsGroups (xsBatch st)) \<subseteq> fst ` set (bsGroups (xsBatch st')) \<and>
        (bsGroups (xsBatch st) \<noteq> [] \<longrightarrow> bsCancelled (xsBatch st') = bsCancelled (xsBatch st)))"

lemma keeps_groups_refl [simp]: "keeps_groups st st" by (simp add: keeps_groups_def)

lemma keeps_groups_trans: "keeps_groups a b \<Longrightarrow> keeps_groups b c \<Longrightarrow> keeps_groups a c"
  by (auto simp: keeps_groups_def)

lemma fetch_group_ok:
  assumes inv: "tick_inv st" and rows: "distinct (map tbId rows)" "set (map tbId rows) \<inter> set (allBufferedIds (xsBatch st)) = {}"
  obtains timed' st' where "fetch_group env (k, rows) (timed, st) = (timed', st')" "tick_inv st'" "keeps_groups st st'"
    "set (allBufferedIds (xsBatch st')) \<subseteq> set (allBufferedIds (xsBatch st)) \<union> set (map tbId rows)"
proof -
  let ?b = "xsBatch st"
  define g where "g = (case map_of (bsGroups ?b) k of Some g \<Rightarrow> g
     | None \<Rightarrow> resetFlushDeadline (xeGroupNow env k) \<lparr>bgLastActiveAt = Some (xeFetchNow env), bgFlushDeadline = None,
                        bgFlushInterval = bsFlushInterval ?b, bgBatchKey = k, bgBuffer = []\<rparr>)"
  define new where "new = filter (\<lambda>x. \<not> expired (xeFetchNow env) (tbScheduleTimeoutAt x)) rows"
  define g1 where "g1 = g\<lparr>bgBuffer := bgBuffer g @ map toBufferedItem new\<rparr>"
  define g2 where "g2 = (if new = [] then g1 else g1\<lparr>bgLastActiveAt := Some (xeFetchNow env)\<rparr>)"
  obtain timed' st' where f: "fetch_group env (k, rows) (timed, st) = (timed', st')"
    "xsBatch st' = ?b\<lparr>bsGroups := AList.update k g2 (bsGroups ?b)\<rparr>" "xsSched st' = xsSched st"
    by (simp add: fetch_group_def Let_def g_def new_def g1_def g2_def)
  have b: "buffers_ok ?b" using inv by (simp add: tick_inv_def)
  have ids: "getBufferedIds g2 = getBufferedIds g @ map tbId new"
    by (simp add: g2_def g1_def getBufferedIds_def toBufferedItem_def comp_def)
  have old: "set (getBufferedIds g) \<subseteq> set (allBufferedIds ?b)" "distinct (getBufferedIds g)"
    "\<And>j u. (j, u) \<in> set (bsGroups ?b) \<Longrightarrow> j \<noteq> k \<Longrightarrow> set (getBufferedIds u) \<inter> set (getBufferedIds g) = {}"
  proof -
    have "(set (getBufferedIds g) \<subseteq> set (allBufferedIds ?b) \<and> distinct (getBufferedIds g)) \<and>
      (\<forall>j u. (j, u) \<in> set (bsGroups ?b) \<longrightarrow> j \<noteq> k \<longrightarrow> set (getBufferedIds u) \<inter> set (getBufferedIds g) = {})"
    proof (cases "map_of (bsGroups ?b) k")
      case None
      then show ?thesis by (simp add: g_def getBufferedIds_def)
    next
      case (Some u)
      then have s: "map_of (bsGroups ?b) k = Some g" by (simp add: g_def)
      have m: "(k, g) \<in> set (bsGroups ?b)" by (rule map_of_SomeD[OF s])
      have "distinct (getBufferedIds g)"
        using buffers_okD(2)[OF b] split_list[OF m] by (auto simp: allBufferedIds_eq)
      moreover have "set (getBufferedIds g) \<subseteq> set (allBufferedIds ?b)" using m by (force simp: allBufferedIds_eq)
      ultimately show ?thesis
        using concat_split[OF buffers_okD(1)[OF b] s, of _ _ getBufferedIds] buffers_okD(2)[OF b]
        by (simp add: allBufferedIds_eq)
    qed
    then show "set (getBufferedIds g) \<subseteq> set (allBufferedIds ?b)" "distinct (getBufferedIds g)"
      "\<And>j u. (j, u) \<in> set (bsGroups ?b) \<Longrightarrow> j \<noteq> k \<Longrightarrow> set (getBufferedIds u) \<inter> set (getBufferedIds g) = {}" by blast+
  qed
  have others: "set (getBufferedIds u) \<subseteq> set (allBufferedIds ?b)" if "(j, u) \<in> set (bsGroups ?b)" for j u
    using that by (force simp: allBufferedIds_eq)
  have "group_ok ?b k g"
    using buffers_okD(3)[OF b map_of_SomeD, of k] by (auto simp: g_def group_ok_def resetFlushDeadline_def split: option.split)
  then have gok: "group_ok ?b k g2" by (simp add: group_ok_def g2_def g1_def)
  have new: "set (map tbId new) \<subseteq> set (map tbId rows)" "distinct (map tbId new)"
    using rows(1) by (auto simp: new_def distinct_map_filter)
  have dist: "distinct (getBufferedIds g2)"
    unfolding ids distinct_append using old(1,2) rows new by blast
  have disj: "set (getBufferedIds u) \<inter> set (getBufferedIds g2) = {}" if "(j, u) \<in> set (bsGroups ?b)" "j \<noteq> k" for j u
    unfolding ids set_append using old(3)[OF that] others[OF that(1)] rows(2) new(1) by blast
  have "buffers_ok (xsBatch st')" unfolding f(2) by (rule buffers_ok_put[OF b gok dist disj])
  then have "tick_inv st'" using inv f(2,3) by (simp add: tick_inv_def batch_wired_def)
  moreover have "keeps_groups st st'" using f(2) by (auto simp: keeps_groups_def AList_update_keys)
  moreover have "set (allBufferedIds (xsBatch st')) \<subseteq> set (allBufferedIds ?b) \<union> set (map tbId rows)"
  proof
    fix i assume "i \<in> set (allBufferedIds (xsBatch st'))"
    then obtain j u where u: "(j, u) \<in> set (AList.update k g2 (bsGroups ?b))" "i \<in> set (getBufferedIds u)"
      unfolding f(2) by (auto simp: allBufferedIds_eq)
    from set_AList_update[OF u(1)] show "i \<in> set (allBufferedIds ?b) \<union> set (map tbId rows)"
    proof
      assume "(j, u) = (k, g2)"
      then have "i \<in> set (getBufferedIds g @ map tbId new)" using u(2) ids by simp
      then show ?thesis using old(1) new(1) unfolding set_append by blast
    next
      assume "(j, u) \<in> set (bsGroups ?b)"
      then show ?thesis using others u(2) by blast
    qed
  qed
  ultimately show thesis using that f(1) by blast
qed

lemma fetch_fold_ok:
  assumes "tick_inv st" "distinct (map tbId (concat (map snd kvs)))"
    and "set (map tbId (concat (map snd kvs))) \<inter> set (allBufferedIds (xsBatch st)) = {}"
  obtains timed' st' where "foldl (\<lambda>tst kv. fetch_group env kv tst) (timed, st) kvs = (timed', st')"
    "tick_inv st'" "keeps_groups st st'"
proof -
  have "\<exists>timed' st'. foldl (\<lambda>tst kv. fetch_group env kv tst) (timed, st) kvs = (timed', st') \<and> tick_inv st' \<and> keeps_groups st st'"
    using assms
  proof (induction kvs arbitrary: timed st)
    case (Cons kv kvs)
    obtain k rows where kv: "kv = (k, rows)" by (cases kv)
    have r: "distinct (map tbId rows)" "set (map tbId rows) \<inter> set (allBufferedIds (xsBatch st)) = {}"
      using Cons.prems(2,3) kv by auto
    obtain timed1 st1 where f: "fetch_group env (k, rows) (timed, st) = (timed1, st1)" "tick_inv st1" "keeps_groups st st1"
      "set (allBufferedIds (xsBatch st1)) \<subseteq> set (allBufferedIds (xsBatch st)) \<union> set (map tbId rows)"
      by (rule fetch_group_ok[OF Cons.prems(1) r]) (rule that)
    have d: "distinct (map tbId (concat (map snd kvs)))" "set (map tbId rows) \<inter> set (map tbId (concat (map snd kvs))) = {}"
      using Cons.prems(2) kv by auto
    have "set (map tbId (concat (map snd kvs))) \<inter> set (allBufferedIds (xsBatch st)) = {}"
      using Cons.prems(3) by auto
    then have "set (map tbId (concat (map snd kvs))) \<inter> set (allBufferedIds (xsBatch st1)) = {}" using f(4) d(2) by blast
    from Cons.IH[OF f(2) d(1) this, of timed1] obtain timed2 st2 where
      "foldl (\<lambda>tst kv. fetch_group env kv tst) (timed1, st1) kvs = (timed2, st2)" "tick_inv st2" "keeps_groups st1 st2" by blast
    then show ?case using f(1) kv keeps_groups_trans[OF f(3)] by auto
  qed simp
  then show thesis using that by blast
qed

lemma fetchNewItems_ok:
  assumes inv: "tick_inv st" and env: "batch_tick_ok env"
  obtains res st' where "fetchNewItems env st = (res, st')" "tick_inv st'" "keeps_groups st st'"
proof (cases "xeCtxErr env = None \<and> (\<exists>items. xeList env (allBufferedIds (xsBatch st)) batchFetchLimit = Inr items \<and> items \<noteq> [])")
  case False
  then have "\<exists>res. fetchNewItems env st = (res, st)"
    by (auto simp: fetchNewItems_def split: option.split sum.split)
  then show thesis using that inv by (metis keeps_groups_refl)
next
  case True
  then obtain items where i: "xeCtxErr env = None" "xeList env (allBufferedIds (xsBatch st)) batchFetchLimit = Inr items" "items \<noteq> []"
    by blast
  let ?st = "st\<lparr>xsBatch := bs_touch (xeTouchNow env) (xsBatch st)\<rparr>" and ?kvs = "xeFetchOrder env (itemsByGroup items)"
  have new: "distinct (map tbId items)" "set (map tbId items) \<inter> set (allBufferedIds (xsBatch st)) = {}"
    using env i(2) unfolding batch_tick_ok_def lists_new_def by blast+
  have "mset ?kvs = mset (itemsByGroup items)" using env by (simp add: batch_tick_ok_def)
  from mset_concat_perm[OF this] have m: "mset (concat (map snd ?kvs)) = mset items"
    using grouped_mset[of tbBatchKey items] by (simp add: itemsByGroup_def)
  have inv1: "tick_inv ?st" "keeps_groups st ?st" "allBufferedIds (xsBatch ?st) = allBufferedIds (xsBatch st)"
    using inv by (auto simp: tick_inv_def buffers_ok_def group_ok_def allBufferedIds_def batch_wired_def bs_touch_def keeps_groups_def)
  have d: "distinct (map tbId (concat (map snd ?kvs)))" using distinct_map_mset[OF m, of tbId] new(1) by simp
  have "set (map tbId (concat (map snd ?kvs))) = set (map tbId items)" using mset_eq_setD[OF m] by (metis set_map)
  then have "set (map tbId (concat (map snd ?kvs))) \<inter> set (allBufferedIds (xsBatch ?st)) = {}" using new(2) inv1(3) by metis
  then obtain timed' st' where "foldl (\<lambda>tst kv. fetch_group env kv tst) ([], ?st) ?kvs = (timed', st')" "tick_inv st'" "keeps_groups ?st st'"
    by (rule fetch_fold_ok[OF inv1(1) d]) (rule that)
  then show thesis using i keeps_groups_trans[OF inv1(2)] by (intro that[of "Inr timed'" st']) (simp_all add: fetchNewItems_def)
qed

lemma tick_inv_batch:
  "tick_inv st \<Longrightarrow> buffers_ok b \<Longrightarrow> batch_wired b \<Longrightarrow> tick_inv (st\<lparr>xsBatch := b\<rparr>)"
  by (simp add: tick_inv_def)

lemma map_groups_cfg [simp]:
  "bsFlushInterval (map_groups f b) = bsFlushInterval b" "bsCancelled (map_groups f b) = bsCancelled b" "batch_wired (map_groups f b) = batch_wired b"
  by (simp_all add: map_groups_def batch_wired_def)

lemma reconcile_ok:
  assumes "buffers_ok b"
  shows "buffers_ok (reconcileBuffers env b) \<and> batch_wired (reconcileBuffers env b) = batch_wired b \<and>
    bsFlushInterval (reconcileBuffers env b) = bsFlushInterval b \<and> bsCancelled (reconcileBuffers env b) = bsCancelled b \<and>
    fst ` set (bsGroups (reconcileBuffers env b)) = fst ` set (bsGroups b)"
proof -
  have "reconcileBuffers env b = b \<or> (\<exists>E. reconcileBuffers env b = map_groups (\<lambda>_ g. g\<lparr>bgBuffer := filter (\<lambda>x. biId x \<in> E) (bgBuffer g)\<rparr>) b)"
    by (auto simp: reconcileBuffers_def Let_def split: sum.split)
  then show ?thesis
  proof
    assume "\<exists>E. reconcileBuffers env b = map_groups (\<lambda>_ g. g\<lparr>bgBuffer := filter (\<lambda>x. biId x \<in> E) (bgBuffer g)\<rparr>) b"
    then obtain E where e: "reconcileBuffers env b = map_groups (\<lambda>_ g. g\<lparr>bgBuffer := filter (\<lambda>x. biId x \<in> E) (bgBuffer g)\<rparr>) b" by blast
    show ?thesis unfolding e map_groups_cfg
      using buffers_ok_map[OF assms, of "\<lambda>_ g. g\<lparr>bgBuffer := filter (\<lambda>x. biId x \<in> E) (bgBuffer g)\<rparr>"] by blast
  qed (use assms in simp)
qed

lemma popAll_ok:
  assumes "buffers_ok b"
  shows "buffers_ok (snd (popAllTimedOut env b)) \<and> batch_wired (snd (popAllTimedOut env b)) = batch_wired b \<and>
    bsFlushInterval (snd (popAllTimedOut env b)) = bsFlushInterval b \<and>
    bsCancelled (snd (popAllTimedOut env b)) = bsCancelled b \<and>
    fst ` set (bsGroups (snd (popAllTimedOut env b))) = fst ` set (bsGroups b)"
proof -
  have p: "snd (popAllTimedOut env b) = map_groups (\<lambda>k g. snd (bg_popTimedOut (xePopNow env k) g)) b"
    by (simp add: popAllTimedOut_def)
  show ?thesis unfolding p map_groups_cfg
    using buffers_ok_map[OF assms, of "\<lambda>k g. snd (bg_popTimedOut (xePopNow env k) g)"] by (auto simp: bg_popTimedOut_def)
qed

lemma groupIsIdle_sel:
  assumes "groupIsIdle env key b g = (idle, g')"
  shows "getBufferedIds g' = getBufferedIds g" "group_ok c k g' \<longleftrightarrow> group_ok c k g" "idle \<Longrightarrow> bgFlushDeadline g = None"
  using assms
  by (auto simp: groupIsIdle_def getBufferedIds_def group_ok_def split: if_splits option.splits sum.splits)

lemma put_group_ok:
  assumes "tick_inv st" "flush_frame (g, st) (g1, st1)" "map_of (bsGroups (xsBatch st)) key = Some g"
    and "getBufferedIds g2 = getBufferedIds g1" "\<And>c k. group_ok c k g2 \<longleftrightarrow> group_ok c k g1"
  shows "tick_inv (put_group key g2 st1)" "keeps_groups st (put_group key g2 st1)"
    "tick_inv (drop_group key st1)" "bsFlushInterval (xsBatch st) = None \<Longrightarrow> keeps_groups st (drop_group key st1)"
    "group_ok (xsBatch st) key g1"
proof -
  let ?b = "xsBatch st" and ?b1 = "xsBatch st1"
  note fr = assms(2)[unfolded flush_frame_def prod.case]
  have b: "buffers_ok ?b" using assms(1) by (simp add: tick_inv_def)
  obtain t where t: "?b1 = ?b\<lparr>bsLastActiveAt := t\<rparr>" using fr by blast
  have b1: "buffers_ok ?b1" using b by (simp add: t buffers_ok_def group_ok_def allBufferedIds_def)
  have m: "(key, g) \<in> set (bsGroups ?b)" by (rule map_of_SomeD[OF assms(3)])
  show g1: "group_ok (xsBatch st) key g1" using buffers_okD(3)[OF b m] fr by (auto simp: group_ok_def)
  have ok: "group_ok ?b1 key g2" using g1 unfolding assms(5) by (simp add: group_ok_def t)
  have "distinct (getBufferedIds g)" using buffers_okD(2)[OF b] split_list[OF m] by (auto simp: allBufferedIds_eq)
  then have "distinct (getBufferedIds g2)" "set (getBufferedIds g2) \<subseteq> set (getBufferedIds g)" using fr assms(4) by auto
  moreover have "map_of (bsGroups ?b1) key = Some g" using assms(3) t by simp
  ultimately have "buffers_ok (?b1\<lparr>bsGroups := AList.update key g2 (bsGroups ?b1)\<rparr>)"
    using buffers_ok_shrink[OF b1 _ ok] by blast
  moreover have w: "batch_wired ?b" "batch_ready (xsSched st1)" using assms(1) fr by (simp_all add: tick_inv_def)
  ultimately show "tick_inv (put_group key g2 st1)" by (simp add: tick_inv_def put_group_def batch_wired_def t)
  show "tick_inv (drop_group key st1)"
    using buffers_ok_delete[OF b1] w by (simp add: tick_inv_def drop_group_def batch_wired_def t)
  show "keeps_groups st (put_group key g2 st1)" by (auto simp: keeps_groups_def put_group_def t AList_update_keys)
  show "bsFlushInterval (xsBatch st) = None \<Longrightarrow> keeps_groups st (drop_group key st1)"
    by (simp add: keeps_groups_def drop_group_def t)
qed

lemma tick_groups_ok:
  assumes env: "\<And>i. flush_env_ok (xeFlush env i)"
  shows "tick_groups env keys st = Some (err, st') \<Longrightarrow> tick_inv st \<Longrightarrow> tick_inv st' \<and> keeps_groups st st'"
proof (induction keys arbitrary: st)
  case (Cons key keys)
  show ?case
  proof (cases "map_of (bsGroups (xsBatch st)) key")
    case None
    then show ?thesis using Cons by simp
  next
    case (Some g)
    obtain err1 g1 st1 where f: "flush_group env key (g, st) = Some (err1, g1, st1)"
      using Cons.prems(1) Some by (auto simp: bind_eq_Some_conv)
    have fr: "flush_frame (g, st) (g1, st1)"
      using flush_group_frame[OF env _ _ f] Cons.prems(2) by (simp add: tick_inv_def)
    show ?thesis
    proof (cases err1)
      case (Some e)
      then have "st' = put_group key g1 st1" using Cons.prems(1) f \<open>map_of (bsGroups (xsBatch st)) key = Some g\<close> by simp
      then show ?thesis using put_group_ok(1,2)[OF Cons.prems(2) fr \<open>map_of (bsGroups (xsBatch st)) key = Some g\<close> refl refl] by simp
    next
      case None
      obtain idle g2 where idle: "groupIsIdle env key (xsBatch st1) g1 = (idle, g2)" by (cases "groupIsIdle env key (xsBatch st1) g1")
      let ?st = "if idle then drop_group key st1 else put_group key g2 st1"
      note p = put_group_ok[OF Cons.prems(2) fr Some groupIsIdle_sel(1,2)[OF idle]]
      have "keeps_groups st ?st"
      proof (cases idle)
        case True
        then have "bsFlushInterval (xsBatch st) = None" using p(5) groupIsIdle_sel(3)[OF idle] by (auto simp: group_ok_def)
        then show ?thesis using p(4) True by simp
      qed (use p(2) in simp)
      moreover have "tick_inv ?st" using p(1,3) by simp
      moreover have "tick_groups env keys ?st = Some (err, st')" using Cons.prems(1) Some f None idle by simp
      ultimately show ?thesis using Cons.IH[of ?st] keeps_groups_trans by blast
    qed
  qed
qed simp

lemma maybeStop_sel [simp]:
  "bsGroups (maybeStopIfIdle env b) = bsGroups b" "bsFlushInterval (maybeStopIfIdle env b) = bsFlushInterval b"
  "batch_wired (maybeStopIfIdle env b) = batch_wired b"
  "bsGroups b \<noteq> [] \<Longrightarrow> bsCancelled (maybeStopIfIdle env b) = bsCancelled b"
  by (simp_all add: maybeStopIfIdle_def bs_touch_def batch_wired_def split: sum.split)

lemma buffers_ok_cong:
  "bsGroups b' = bsGroups b \<Longrightarrow> bsFlushInterval b' = bsFlushInterval b \<Longrightarrow> buffers_ok b' \<longleftrightarrow> buffers_ok b"
  by (simp add: buffers_ok_def allBufferedIds_def group_ok_def)

lemma bs_tick_ok:
  assumes inv: "tick_inv st" and env: "batch_tick_ok env" and tick: "bs_tick env st = Some (err, st')"
  shows "tick_inv st'" "keeps_groups st st'"
proof -
  obtain res st1 where f: "fetchNewItems env st = (res, st1)" "tick_inv st1" "keeps_groups st st1"
    by (rule fetchNewItems_ok[OF inv env]) (rule that)
  let ?b = "snd (popAllTimedOut env (reconcileBuffers env (xsBatch st1)))" and ?popped = "fst (popAllTimedOut env (reconcileBuffers env (xsBatch st1)))"
  let ?st2 = "st1\<lparr>xsBatch := ?b\<rparr>"
  have b1: "buffers_ok (xsBatch st1)" "batch_wired (xsBatch st1)" using f(2) by (simp_all add: tick_inv_def)
  note b2 = popAll_ok[of "reconcileBuffers env (xsBatch st1)" env] reconcile_ok[OF b1(1), of env]
  have s2: "tick_inv ?st2" using tick_inv_batch[OF f(2)] b1(2) b2 by simp
  have k2: "keeps_groups st ?st2" using keeps_groups_trans[OF f(3), of ?st2] b2 by (simp add: keeps_groups_def)
  have "tick_inv st' \<and> keeps_groups st st'"
  proof (cases "\<exists>timedOut hydrated st3. res = Inr timedOut \<and> hydrateItems (xeHydrate env) ?popped = Inr hydrated \<and>
      handleScheduleTimeouts env (timedOut @ hydrated) ?st2 = (None, st3)")
    case False
    have sel: "xsBatch (snd (handleScheduleTimeouts env xs ?st2)) = ?b" "xsSched (snd (handleScheduleTimeouts env xs ?st2)) = xsSched st1" for xs
      by (simp_all add: handleScheduleTimeouts_def split: option.split)
    have "st' = st1 \<or> xsBatch st' = ?b \<and> xsSched st' = xsSched st1"
    proof (cases res)
      case (Inl e)
      then show ?thesis using tick f(1) by (simp add: bs_tick_def)
    next
      case (Inr timedOut)
      show ?thesis
      proof (cases "hydrateItems (xeHydrate env) ?popped")
        case (Inl e)
        then show ?thesis using tick f(1) Inr by (auto simp: bs_tick_def Let_def case_prod_beta')
      next
        case hyd: (Inr hydrated)
        obtain e st3 where "handleScheduleTimeouts env (timedOut @ hydrated) ?st2 = (Some e, st3)"
          using False Inr hyd by (metis option.exhaust prod.exhaust)
        then show ?thesis using tick f(1) Inr hyd sel[of "timedOut @ hydrated"] by (auto simp: bs_tick_def Let_def case_prod_beta')
      qed
    qed
    then show ?thesis
    proof
      assume "xsBatch st' = ?b \<and> xsSched st' = xsSched st1"
      then show ?thesis using s2 k2 by (simp add: tick_inv_def keeps_groups_def)
    qed (use f in simp)
  next
    case True
    then obtain timedOut hydrated st3 where h: "res = Inr timedOut" "hydrateItems (xeHydrate env) ?popped = Inr hydrated"
      "handleScheduleTimeouts env (timedOut @ hydrated) ?st2 = (None, st3)" by blast
    have x3: "xsBatch st3 = ?b" "xsSched st3 = xsSched st1"
      using h(3) by (auto simp: handleScheduleTimeouts_def split: if_splits option.splits)
    have s3: "tick_inv st3" "keeps_groups st st3" using s2 k2 x3 by (simp_all add: tick_inv_def keeps_groups_def)
    obtain err4 st4 where g: "tick_groups env (xeOrder env (map fst (bsGroups (xsBatch st3)))) st3 = Some (err4, st4)"
      "st' = st4 \<or> st' = st4\<lparr>xsBatch := maybeStopIfIdle env (xsBatch st4)\<rparr>"
      using tick f(1) h x3 by (auto simp: bs_tick_def Let_def case_prod_beta' bind_eq_Some_conv split: option.splits)
    have fe: "\<And>i. flush_env_ok (xeFlush env i)" using env by (simp add: batch_tick_ok_def)
    have s4: "tick_inv st4" "keeps_groups st st4"
      using tick_groups_ok[OF fe g(1) s3(1)] keeps_groups_trans[OF s3(2)] by blast+
    have "tick_inv (st4\<lparr>xsBatch := maybeStopIfIdle env (xsBatch st4)\<rparr>)"
      using s4(1) buffers_ok_cong[of "maybeStopIfIdle env (xsBatch st4)" "xsBatch st4"] by (simp add: tick_inv_def)
    moreover have "keeps_groups st (st4\<lparr>xsBatch := maybeStopIfIdle env (xsBatch st4)\<rparr>)"
    proof -
      have "bsGroups (xsBatch st4) \<noteq> []" if "bsFlushInterval (xsBatch st) \<noteq> None" "bsGroups (xsBatch st) \<noteq> []"
        using s4(2) that by (cases "bsGroups (xsBatch st4)") (auto simp: keeps_groups_def)
      then show ?thesis using s4(2) by (simp add: keeps_groups_def)
    qed
    ultimately show ?thesis using g(2) s4 by blast
  qed
  then show "tick_inv st'" "keeps_groups st st'" by blast+
qed

section \<open>Reachable states\<close>

text \<open>
  A started batch scheduler, its ticks in any environment the queries allow, what other users of the
  scheduler do between two ticks, and \<open>Cleanup\<close>.
\<close>

inductive bs_reach :: "batchState \<Rightarrow> bool" where
  start: "newBatchScheduler now hasTaskRepo True True True (Some r) = Some b \<Longrightarrow> batch_ready s \<Longrightarrow>
    bs_reach \<lparr>xsBatch = bs_Start now' b, xsLimiter = rl, xsSched = s, xsEvents = [], xsFlush = 0\<rparr>"
| tick: "bs_reach st \<Longrightarrow> batch_tick_ok (env :: string batchTickEnv) \<Longrightarrow> bs_tick env st = Some (err, st') \<Longrightarrow> bs_reach st'"
| others: "bs_reach st \<Longrightarrow> batch_ready s \<Longrightarrow> bs_reach (st\<lparr>xsLimiter := rl, xsSched := s\<rparr>)"
| cleanup: "bs_reach st \<Longrightarrow> bs_reach (st\<lparr>xsBatch := bs_Cleanup (xsBatch st)\<rparr>)"

lemma bs_reach_inv: "bs_reach st \<Longrightarrow> tick_inv st"
proof (induction rule: bs_reach.induct)
  case (start now hasTaskRepo r b s now' rl)
  then show ?case
    by (auto simp: tick_inv_def newBatchScheduler_def bs_Start_def bs_touch_def batch_wired_def buffers_ok_def allBufferedIds_def)
next
  case (tick st env err st')
  then show ?case using bs_tick_ok(1) by blast
next
  case (cleanup st)
  then show ?case by (simp add: tick_inv_def bs_Cleanup_def buffers_ok_def allBufferedIds_def group_ok_def batch_wired_def)
qed (simp add: tick_inv_def)

section \<open>A flush that finds no worker\<close>

definition no_worker :: "string \<Rightarrow> scheduler \<Rightarrow> bool" where
  "no_worker actionId s \<longleftrightarrow> (\<forall>a. map_of (actions s) actionId = Some a \<longrightarrow> workerIds a = [])"

lemma MarkStarved_workers: "workerIds (snd (MarkStarved queue req a)) = workerIds a"
  by (simp add: MarkStarved_def Let_def split: option.split)

lemma no_worker_starved: "no_worker actionId s \<Longrightarrow> no_worker actionId (lookupActionAndMarkStarved actionId queue req s)"
  by (auto simp: no_worker_def lookupActionAndMarkStarved_def markActionStarved_eq MarkStarved_workers newAction_def split: option.split)

lemma assign_no_worker:
  assumes "no_worker (qiActionId qi) s" "qeCtxErr qe = None"
  obtains s' where "assignQueueItems qe [qi] labels s = Some (Inr ([], [qi]), s')" "no_worker (qiActionId qi) s'"
proof (cases "isTimedOut (qeNow qe) qi \<or> \<not> qeRunning qe")
  case True
  then show ?thesis using assms
    by (intro that[of s]) (auto simp: assignQueueItems_def tryAssignBatchQueueItem_def Let_def newSingleResult_def)
next
  case False
  let ?s = "lookupActionAndMarkStarved (qiActionId qi) (qiQueue qi) [(SlotTypeDefault, 1)] s"
  have "tryAssignBatchQueueItem False (qeRunning qe) (qeNow qe) (Some qi) (labels (qiStepId qi)) s =
      Some ((False, Some ((newSingleResult qi)\<lparr>arNoSlots := True\<rparr>)), ?s)"
    using False assms(1) by (auto simp: tryAssignBatchQueueItem_def Let_def no_worker_def split: option.split)
  then show ?thesis using assms(2) no_worker_starved[OF assms(1)]
    by (intro that[of ?s]) (simp_all add: assignQueueItems_def newSingleResult_def)
qed

lemma dispatch_no_worker:
  assumes "qeRepo qe" "qeLabels qe = Inr labels" "qeCtxErr qe = None" "no_worker (tbActionId r) (dsSched d)"
  obtains s where "dispatch_queue qe b reason (r # rs) d = Some (None, requeueGroup qe b (r # rs) [] (d\<lparr>dsSched := s\<rparr>))"
    "no_worker (tbActionId r) s"
proof -
  have act: "qiActionId (toV1QueueItem r) = tbActionId r" by (simp add: toV1QueueItem_def)
  obtain s where "assignQueueItems qe [toV1QueueItem r]
      (\<lambda>step. if step = bsStepId b then mapList labels (bsStepId b) else []) (dsSched d) =
      Some (Inr ([], [toV1QueueItem r]), s)" "no_worker (tbActionId r) s"
    using assign_no_worker[of "toV1QueueItem r" "dsSched d" qe] assms(3,4) unfolding act by metis
  then show thesis using assms(1,2) by (intro that[of s]) (simp_all add: dispatch_queue_def Let_def)
qed

text \<open>The answers of a database that still holds the rows, for a queue whose labels can be read.\<close>

definition rows_stay :: "'e flushEnv \<Rightarrow> bufferedItem list \<Rightarrow> batchedQueueItem list \<Rightarrow> string \<Rightarrow> bool" where
  "rows_stay env refs rows q \<longleftrightarrow>
     feHydrate env (map biId refs) = Inr rows \<and> map toBufferedItem rows = refs \<and> (\<forall>x\<in>set rows. tbQueue x = q) \<and>
     (\<forall>qs. mset (feOrder env qs) = mset qs) \<and> qeRepo (feQueue env q) \<and> (\<exists>labels. qeLabels (feQueue env q) = Inr labels) \<and>
     qeCtxErr (feQueue env q) = None"

lemma queueToItems_single: "rows \<noteq> [] \<Longrightarrow> \<forall>x\<in>set rows. tbQueue x = q \<Longrightarrow> queueToItems rows = [(q, rows)]"
  unfolding queueToItems_def
proof (induction rows rule: rev_induct)
  case (snoc x xs)
  then show ?case by (cases "xs = []") (simp_all add: mapList_def)
qed simp

lemma flush_no_worker:
  assumes stay: "rows_stay env (take n (bgBuffer g)) rows q" and rows: "rows = r # rs"
    and st: "batch_wired (xsBatch st)" "no_worker (tbActionId r) (xsSched st)"
  obtains g' st' where "bs_flush env n reason (g, st) = Some (None, g', st')" "bgBuffer g' = bgBuffer g"
    "batch_wired (xsBatch st')" "no_worker (tbActionId r) (xsSched st')" 
proof -
  note s = stay[unfolded rows_stay_def]
  have "map toBufferedItem rows = take n (bgBuffer g)" using s by blast
  then have "take n (bgBuffer g) \<noteq> []" using rows by (metis list.distinct(1) list.map_disc_iff)
  then have n: "\<not> (bgBuffer g = [] \<or> n = 0)" by auto
  let ?st = "st\<lparr>xsFlush := Suc (xsFlush st)\<rparr>" and ?g = "g\<lparr>bgBuffer := drop n (bgBuffer g)\<rparr>"
  let ?d = "\<lparr>dsRemaining = [], dsAssigned = [], dsAckIds = [], dsGroup = ?g, dsLimiter = xsLimiter ?st,
      dsSched = xsSched ?st, dsEvents = xsEvents ?st\<rparr>"
  obtain labels where l: "qeRepo (feQueue env q)" "qeLabels (feQueue env q) = Inr labels" "qeCtxErr (feQueue env q) = None"
    using s by blast
  have w: "no_worker (tbActionId r) (dsSched ?d)" using st(2) by simp
  obtain s1 where a: "dispatch_queue (feQueue env q) (xsBatch ?st) reason (r # rs) ?d =
      Some (None, requeueGroup (feQueue env q) (xsBatch ?st) (r # rs) [] (?d\<lparr>dsSched := s1\<rparr>))" "no_worker (tbActionId r) s1"
    by (rule dispatch_no_worker[OF l w]) (rule that)
  let ?d1 = "requeueGroup (feQueue env q) (xsBatch ?st) rows [] (?d\<lparr>dsSched := s1\<rparr>)"
  have "dispatch_queue (feQueue env q) (xsBatch ?st) reason rows ?d = Some (None, ?d1)" unfolding rows by (rule a(1))
  moreover have "mset (feOrder env [(q, rows)]) = mset [(q, rows)]" using s by blast
  then have "feOrder env [(q, rows)] = [(q, rows)]" by (simp only: mset_single_iff mset.simps)
  then have "feOrder env (queueToItems rows) = [(q, rows)]"
    using queueToItems_single[of rows q] s rows by simp
  ultimately have "assignAndDispatch env reason rows (?g, ?st) =
      Some (Inr (dsRemaining ?d1), dsGroup ?d1, ?st\<lparr>xsLimiter := dsLimiter ?d1, xsSched := dsSched ?d1, xsEvents := dsEvents ?d1\<rparr>)"
    using st(1) rows by (simp add: assignAndDispatch_def Let_def batch_wired_def requeueGroup_def nack_ids_def)
  moreover have "popN (if n > length (bgBuffer g) then length (bgBuffer g) else n) g = Some (take n (bgBuffer g), ?g)"
    by (simp add: popN_def)
  moreover have "hydrateItems (feHydrate env) (take n (bgBuffer g)) = Inr rows" using s n by (simp add: hydrateItems_def)
  ultimately obtain g' st' where f: "bs_flush env n reason (g, st) = Some (None, g', st')"
    "bgBuffer g' = map toBufferedItem (dsRemaining ?d1) @ bgBuffer (dsGroup ?d1)" "xsSched st' = dsSched ?d1"
    "xsBatch st' = bs_touch (feActiveNow env) (xsBatch st)"
    unfolding bs_flush_def prod.case if_not_P[OF n] Let_def by simp
  have "bgBuffer g' = bgBuffer g"
    using f(2) s by (simp add: requeueGroup_def nack_ids_def Let_def)
  moreover have "no_worker (tbActionId r) (xsSched st')" using f(3) a(2) by (simp add: requeueGroup_def nack_ids_def Let_def)
  moreover have "batch_wired (xsBatch st')" using st(1) f(4) by (simp add: batch_wired_def bs_touch_def)
  ultimately show thesis using that f(1) by blast
qed

lemma memory_flush_diverges:
  assumes stay: "\<And>i. rows_stay (envs i) (take n B) (r # rs) q" and over: "memory_scan 0 0 B = (True, n)"
  shows "memory_flush envs gst = Some res \<Longrightarrow> bgBuffer (fst gst) = B \<Longrightarrow> batch_wired (xsBatch (snd gst)) \<Longrightarrow>
    no_worker (tbActionId r) (xsSched (snd gst)) \<Longrightarrow> False"
proof (induction rule: memory_flush_induct)
  case (under gst)
  then show ?case using over by (simp add: shouldMemoryLimitFlush_def)
next
  case (failed gst e gst')
  have "rows_stay (envs (xsFlush (snd gst))) (take n (bgBuffer (fst gst))) (r # rs) q" using stay failed(3) by simp
  from flush_no_worker[OF this refl failed(4,5), of BufferMemorySizeReached] failed(2,3) over
  show ?case by (metis Pair_inject option.distinct(1) option.inject prod.collapse shouldMemoryLimitFlush_def snd_conv)
next
  case (again gst gst' res)
  have "rows_stay (envs (xsFlush (snd gst))) (take n (bgBuffer (fst gst))) (r # rs) q" using stay again(4) by simp
  then obtain g1 st1 where "bs_flush (envs (xsFlush (snd gst))) n BufferMemorySizeReached (fst gst, snd gst) = Some (None, g1, st1)"
    "bgBuffer g1 = bgBuffer (fst gst)" "batch_wired (xsBatch st1)" "no_worker (tbActionId r) (xsSched st1)"
    by (rule flush_no_worker[OF _ refl again(5,6)]) (rule that)
  moreover have "snd (shouldMemoryLimitFlush (fst gst)) = n" using over again(4) by (simp add: shouldMemoryLimitFlush_def)
  ultimately show ?case using again(2,3,4) by auto
qed

section \<open>Properties\<close>

text \<open>A tick that fetches two rows, for the witnesses.\<close>

definition batch_rows :: "batchedQueueItem list" where
  "batch_rows = [batch_row 1 ''q'', batch_row 2 ''q'']"

definition batch_tick_env :: "string batchTickEnv" where
  "batch_tick_env = \<lparr>xeCtxErr = None, xeList = (\<lambda>ids _. Inr (filter (\<lambda>x. tbId x \<notin> set ids) batch_rows)),
     xeTouchNow = 1, xeFetchNow = 1, xeGroupNow = (\<lambda>_. 1), xeWaitNow = (\<lambda>_. 1), xeFetchOrder = id,
     xeReconcileCtxErr = False, xeExisting = (\<lambda>ids. Inr (set ids)), xePopNow = (\<lambda>_. 1), xeHydrate = (\<lambda>_. Inr []),
     xeDelete = (\<lambda>_. None), xeOrder = id, xeFlush = (\<lambda>_. batch_flush_env batch_rows), xeDeadlineNow = (\<lambda>_. 1),
     xeIdleNow = (\<lambda>_. 1), xeActiveRuns = (\<lambda>_. Inr 0), xeIdleTouch = (\<lambda>_. 1), xeStopNow = 1, xeStopList = Inr [],
     xeStopTouch = 1\<rparr>"

definition batch_resource :: batchResource where
  "batch_resource = \<lparr>brStepId = 1, brBatchMaxSize = 3, brBatchMaxInterval = Some 1, brBatchGroupMaxRuns = None\<rparr>"

definition batch_fresh :: batchState where
  "batch_fresh = \<lparr>xsBatch = bs_Start 0 (the (newBatchScheduler 0 True True True True (Some batch_resource))),
     xsLimiter = example_limiter, xsSched = clSched sys_ready, xsEvents = [], xsFlush = 0\<rparr>"

definition batch_filled :: batchState where
  "batch_filled = snd (the (bs_tick batch_tick_env batch_fresh))"

lemma batch_tick_env_fits: "batch_tick_ok batch_tick_env"
proof -
  have "flush_env_ok (batch_flush_env batch_rows)" by (rule batch_flush_env_fits) (simp add: batch_rows_def batch_row_def)
  then show ?thesis
    by (auto simp: batch_tick_ok_def batch_tick_env_def lists_new_def batch_rows_def batch_row_def)
qed

lemma batch_fresh_reach: "bs_reach batch_fresh"
  unfolding batch_fresh_def
  by (rule bs_reach.start[where r = batch_resource and now = 0 and hasTaskRepo = True])
    (use batch_start_ok(1) in \<open>simp_all add: newBatchScheduler_def batch_start_def\<close>)

declare memory_flush.simps [code]

lemma batch_filled_groups:
  "\<exists>err. bs_tick batch_tick_env batch_fresh = Some (err, batch_filled)" "allBufferedIds (xsBatch batch_filled) = [1, 2]"
  "bsFlushInterval (xsBatch batch_filled) = Some 1000000" "map fst (bsGroups (xsBatch batch_filled)) = [''k'']"
proof -
  have "(case bs_tick batch_tick_env batch_fresh of None \<Rightarrow> False | Some _ \<Rightarrow> True) \<and>
      allBufferedIds (xsBatch batch_filled) = [1, 2] \<and> bsFlushInterval (xsBatch batch_filled) = Some 1000000 \<and>
      map fst (bsGroups (xsBatch batch_filled)) = [''k'']"
    by code_simp
  then show "\<exists>err. bs_tick batch_tick_env batch_fresh = Some (err, batch_filled)" "allBufferedIds (xsBatch batch_filled) = [1, 2]"
    "bsFlushInterval (xsBatch batch_filled) = Some 1000000" "map fst (bsGroups (xsBatch batch_filled)) = [''k'']"
    by (auto simp: batch_filled_def split: option.splits)
qed

lemma batch_filled_reach: "bs_reach batch_filled"
  using batch_filled_groups(1) bs_reach.tick[OF batch_fresh_reach batch_tick_env_fits] by blast

text \<open>
  C13. After any number of ticks, whatever the database answers, whichever of its calls fail and
  whatever other users of the scheduler do in between, no item is buffered twice: the ids in the
  buffers of all batch keys of the step are pairwise different, and each group is filed under its
  own key.
\<close>

theorem items_buffered_once:
  assumes "bs_reach st"
  shows "distinct (allBufferedIds (xsBatch st)) \<and> distinct_keys (bsGroups (xsBatch st)) \<and>
    (\<forall>k g. map_of (bsGroups (xsBatch st)) k = Some g \<longrightarrow> bgBatchKey g = k)"
proof -
  have b: "buffers_ok (xsBatch st)" using bs_reach_inv[OF assms] by (simp add: tick_inv_def)
  have "bgBatchKey g = k" if "map_of (bsGroups (xsBatch st)) k = Some g" for k g
    using buffers_okD(3)[OF b map_of_SomeD[OF that]] by (simp add: group_ok_def)
  then show ?thesis using buffers_okD(1,2)[OF b] by blast
qed

theorem items_buffered_once_witness:
  "allBufferedIds (xsBatch batch_filled) = [1, 2] \<and> distinct (allBufferedIds (xsBatch batch_filled))"
  using items_buffered_once[OF batch_filled_reach] batch_filled_groups(2) by blast

text \<open>
  C34. A group of a step with a flush interval is never evicted. Its deadline is set when the group
  is made and only ever moved, and an idle group must have none, so a tick never removes a batch key
  of such a step: every key ever seen stays in memory, and since the scheduler stops only when it
  has no group, it does not stop by itself after its first item.
\<close>

theorem interval_groups_never_evicted:
  assumes "bs_reach st" "bsFlushInterval (xsBatch st) \<noteq> None" "batch_tick_ok (env :: string batchTickEnv)"
    and "bs_tick env st = Some (err, st')"
  shows "fst ` set (bsGroups (xsBatch st)) \<subseteq> fst ` set (bsGroups (xsBatch st')) \<and>
    (bsGroups (xsBatch st) \<noteq> [] \<longrightarrow> bsCancelled (xsBatch st') = bsCancelled (xsBatch st))"
  using bs_tick_ok(2)[OF bs_reach_inv[OF assms(1)] assms(3,4)] assms(2) by (simp add: keeps_groups_def)

theorem interval_groups_never_evicted_witness:
  "\<exists>err st'. bs_tick batch_tick_env batch_filled = Some (err, st') \<and> ''k'' \<in> fst ` set (bsGroups (xsBatch st'))"
proof -
  have "(case bs_tick batch_tick_env batch_filled of None \<Rightarrow> False | Some _ \<Rightarrow> True)" by code_simp
  then obtain err st' where t: "bs_tick batch_tick_env batch_filled = Some (err, st')" by (auto split: option.splits)
  have "bsFlushInterval (xsBatch batch_filled) \<noteq> None" using batch_filled_groups(3) by simp
  from interval_groups_never_evicted[OF batch_filled_reach this batch_tick_env_fits t]
  have "set (map fst (bsGroups (xsBatch batch_filled))) \<subseteq> fst ` set (bsGroups (xsBatch st'))" by simp
  then have "''k'' \<in> fst ` set (bsGroups (xsBatch st'))" unfolding batch_filled_groups(4) by simp
  with t show ?thesis by blast
qed

text \<open>
  C29. The payload limit, on sizes whose 32-bit sum cannot wrap: a group is flushed for memory
  exactly when its payloads exceed four megabytes, and then the flush takes the longest prefix of
  the buffer that is within the limit, or the first item when that alone is over it.
\<close>

theorem memory_limit_exact:
  assumes "small_payloads (bgBuffer g)"
  shows "(payload (bgBuffer g) \<le> 4000000 \<longrightarrow> shouldMemoryLimitFlush g = (False, 0)) \<and>
    (4000000 < payload (bgBuffer g) \<longrightarrow>
      (\<exists>k<length (bgBuffer g). shouldMemoryLimitFlush g = (True, max 1 k) \<and>
         payload (take k (bgBuffer g)) \<le> 4000000 \<and> 4000000 < payload (take (Suc k) (bgBuffer g))))"
proof (intro conjI impI)
  assume "payload (bgBuffer g) \<le> 4000000"
  then show "shouldMemoryLimitFlush g = (False, 0)"
    using memory_scan_under[OF assms, of 0] by (simp add: shouldMemoryLimitFlush_def)
next
  assume "4000000 < payload (bgBuffer g)"
  then obtain k where k: "k < length (bgBuffer g)" "memory_scan 0 0 (bgBuffer g) = (True, if 0 + k = 0 then 1 else 0 + k)"
    "payload (take k (bgBuffer g)) \<le> 4000000" "4000000 < payload (take (Suc k) (bgBuffer g))"
    using memory_scan_over[OF assms, of 0 0] by auto
  have "(if 0 + k = 0 then 1 else 0 + k) = max 1 k" by auto
  then have "shouldMemoryLimitFlush g = (True, max 1 k)" using k(2) by (simp only: shouldMemoryLimitFlush_def)
  then show "\<exists>k<length (bgBuffer g). shouldMemoryLimitFlush g = (True, max 1 k) \<and>
      payload (take k (bgBuffer g)) \<le> 4000000 \<and> 4000000 < payload (take (Suc k) (bgBuffer g))"
    using k(1,3,4) by blast
qed

definition big_row :: "int \<Rightarrow> batchedQueueItem" where
  "big_row i = (batch_row i ''q'')\<lparr>tbPayloadSize := 3000000\<rparr>"

theorem memory_limit_exact_witness:
  "\<exists>k. shouldMemoryLimitFlush (batch_group_of [big_row 1, big_row 2]) = (True, max 1 k) \<and> k < 2"
proof -
  let ?g = "batch_group_of [big_row 1, big_row 2]"
  have g: "small_payloads (bgBuffer ?g)" "4000000 < payload (bgBuffer ?g)" "length (bgBuffer ?g) = 2"
    by (simp_all add: small_payloads_def batch_group_of_def toBufferedItem_def big_row_def)
  from memory_limit_exact[OF g(1)] g(2) obtain k where "k < length (bgBuffer ?g)" "shouldMemoryLimitFlush ?g = (True, max 1 k)"
    by blast
  then show ?thesis unfolding g(3) by blast
qed

text \<open>The sum is not checked against wrapping: a payload near two gigabytes hides itself.\<close>

lemma payload_sum_wraps:
  "shouldMemoryLimitFlush (batch_group_of [(big_row 1), (big_row 2)\<lparr>tbPayloadSize := 2147483647\<rparr>]) = (False, 0)"
  by (simp add: shouldMemoryLimitFlush_def batch_group_of_def toBufferedItem_def big_row_def sint_limit Let_def)

text \<open>
  C30. The loop that flushes a group over the payload limit does not end while its action has no
  worker: each flush finds no slot, puts its items back and returns without an error, so the loop
  flushes the same prefix again at once, with no wait and no other way out of the tick. The loop
  for full batches, which stops when a flush makes no progress, ends on the same group.
\<close>

theorem memory_flush_spins:
  assumes "shouldMemoryLimitFlush g = (True, n)" "\<And>i. rows_stay (envs i) (take n (bgBuffer g)) (r # rs) q"
    and "batch_wired (xsBatch st)" "no_worker (tbActionId r) (xsSched st)"
    and "batch_ready (xsSched st)" "\<And>i. flush_env_ok (envs i)"
  shows "memory_flush envs (g, st) = None \<and>
    (\<forall>i. \<exists>g' st'. bs_flush (envs i) n BufferMemorySizeReached (g, st) = Some (None, g', st') \<and> bgBuffer g' = bgBuffer g) \<and>
    size_flush envs (g, st) \<noteq> None"
proof (intro conjI allI)
  have "memory_scan 0 0 (bgBuffer g) = (True, n)" using assms(1) by (simp add: shouldMemoryLimitFlush_def)
  from memory_flush_diverges[where envs = envs and gst = "(g, st)", OF assms(2) this] assms(3,4) show "memory_flush envs (g, st) = None"
    by (cases "memory_flush envs (g, st)") auto
  show "\<exists>g' st'. bs_flush (envs i) n BufferMemorySizeReached (g, st) = Some (None, g', st') \<and> bgBuffer g' = bgBuffer g" for i
    by (rule flush_no_worker[OF assms(2) refl assms(3,4)]) blast
  show "size_flush envs (g, st) \<noteq> None" using size_flush_ok[of envs, OF assms(6,5,3), of g] by blast
qed

definition idle_state :: batchState where
  "idle_state = batch_start\<lparr>xsSched := newScheduler\<rparr>"

theorem memory_flush_spins_witness:
  "memory_flush (\<lambda>_. batch_flush_env [big_row 1, big_row 2]) (batch_group_of [big_row 1, big_row 2], idle_state) = None"
proof -
  let ?g = "batch_group_of [big_row 1, big_row 2]" and ?env = "batch_flush_env [big_row 1, big_row 2]"
  have over: "shouldMemoryLimitFlush ?g = (True, 1)"
    by (simp add: shouldMemoryLimitFlush_def batch_group_of_def toBufferedItem_def big_row_def sint_limit Let_def)
  have stay: "rows_stay ?env (take 1 (bgBuffer ?g)) (big_row 1 # []) ''q''"
    by (simp add: rows_stay_def batch_flush_env_def batch_queue_env_def batch_group_of_def toBufferedItem_def big_row_def batch_row_def)
  have st: "batch_wired (xsBatch idle_state)" "no_worker (tbActionId (big_row 1)) (xsSched idle_state)" "batch_ready (xsSched idle_state)"
    using batch_start_ok(2) newScheduler_inv
    by (simp_all add: idle_state_def no_worker_def batch_ready_def newScheduler_def)
  have "flush_env_ok ?env" by (rule batch_flush_env_fits) (simp add: big_row_def batch_row_def)
  from memory_flush_spins[where envs = "\<lambda>_. ?env", OF over stay st this] show ?thesis by blast
qed

text \<open>
  The flushes of a group end when its payloads are within the limit: the memory loop does
  nothing, the loop for full batches returns, and so does the flush at the deadline. No item enters
  the buffer, and the scheduler is left in a valid state.
\<close>

theorem group_flush_returns:
  assumes "\<not> fst (shouldMemoryLimitFlush g)" "\<And>i. flush_env_ok (xeFlush env i)"
    and "batch_ready (xsSched st)" "batch_wired (xsBatch st)"
  shows "\<exists>err g' st'. flush_group env key (g, st) = Some (err, g', st') \<and> sched_inv (xsSched st') \<and>
    set (getBufferedIds g') \<subseteq> set (getBufferedIds g)"
proof -
  have m: "memory_flush (xeFlush env) (g, st) = Some (None, g, st)" using assms(1) by (subst memory_flush.simps) simp
  obtain err2 g2 st2 where s: "size_flush (xeFlush env) (g, st) = Some (err2, g2, st2)" "flush_frame (g, st) (g2, st2)"
    using size_flush_ok[of "xeFlush env", OF assms(2-4)] by blast
  obtain err3 g3 st3 where "bs_flush (xeFlush env (xsFlush st2)) (length (bgBuffer g2)) IntervalElapsed (g2, st2) = Some (err3, g3, st3)"
    using bs_flush_frame[OF flush_frame_ready(1)[OF s(2)] flush_frame_ready(2)[OF s(2) assms(4)] assms(2)] by metis
  then have "flush_group env key (g, st) \<noteq> None"
    by (cases err2) (simp_all add: flush_group_def m s(1) del: not_None_eq)
  then obtain err g' st' where f: "flush_group env key (g, st) = Some (err, g', st')" by auto
  from flush_group_frame[OF assms(2-4) f] show ?thesis using f by (auto simp: flush_frame_def batch_ready_def)
qed

theorem group_flush_returns_witness:
  "\<exists>err g' st'. flush_group batch_tick_env ''k'' (batch_group_of batch_rows, batch_start) = Some (err, g', st') \<and>
     set (getBufferedIds g') \<subseteq> {1, 2}"
proof -
  let ?g = "batch_group_of batch_rows"
  have under: "\<not> fst (shouldMemoryLimitFlush ?g)"
    by (simp add: shouldMemoryLimitFlush_def batch_group_of_def batch_rows_def toBufferedItem_def batch_row_def sint_limit Let_def)
  have env: "\<And>i. flush_env_ok (xeFlush batch_tick_env i)" using batch_tick_env_fits by (simp add: batch_tick_ok_def)
  have "set (getBufferedIds ?g) = {1, 2}"
    by (simp add: getBufferedIds_def batch_group_of_def batch_rows_def toBufferedItem_def batch_row_def)
  then show ?thesis using group_flush_returns[OF under env batch_start_ok, of "''k''"] by metis
qed

end
