(* ===== verification/Spec2Isabelle.thy ===== *)
theory Spec2Isabelle
  imports Strategy Queuer_Tick Batch_Tick
begin

text \<open>
  A verification development of the scheduling engine of Hatchet (\<open>src/pkg/scheduling/v1\<close>, with the
  parts of \<open>src/pkg/repository\<close> and \<open>src/internal\<close> it rests on).

  \<^bold>\<open>The program.\<close> A task that is ready to run becomes a row of a queue in the database. Three parts of
  the engine decide when it runs.

  \<^item> A \<^emph>\<open>concurrency strategy\<close> limits how many tasks of one key run at once. It keeps an index of the
    slots of every key in memory, replays the messages of an outbox into it, decides which slots are
    filled and which are cancelled, and writes this in the transaction that deletes the messages.
  \<^item> A \<^emph>\<open>queuer\<close> polls one queue, asks the \<^emph>\<open>scheduler\<close> of the tenant for a worker with free slots for
    each item (the \<^emph>\<open>rate limiter\<close> may refuse), writes the outcome to the database and then acks or
    nacks the slots that were taken.
  \<^item> A \<^emph>\<open>batch scheduler\<close> buffers the items of one step by batch key and takes one slot for a whole
    batch when the batch is full, old or large enough.

  The scheduler learns the free slots from the database in replenish cycles that run while items are
  being assigned.

  \<^bold>\<open>Conventions.\<close> The definitions keep the names of the source, with a prefix where a name is used
  twice (\<open>q_\<close> for the queuer, \<open>rl_\<close> for the rate limiter, \<open>bs_\<close> for the batch scheduler, \<open>sub_\<close>,
  \<open>index_\<close>, \<open>heap_\<close>, \<open>running_\<close>). A struct is a record, an enum a datatype. An operation takes the
  state and returns the new one; a panic and a loop that does not end are \<open>None\<close>; an error is \<open>Inl\<close> or
  an \<open>option\<close>. Maps that are iterated are association lists, and the order of an iteration is a
  parameter. Times are nanoseconds since Go's zero time. The clock, the random numbers, the answers
  of the database and the outbox, the decoder of payloads and the parser of uuids are arguments or
  fields of a record of parameters (the records called \<open>...Env\<close>, \<open>...Queries\<close>, \<open>...Call\<close>). Integers
  are bounded where the source depends on it: \<open>int32\<close> writes out the conversion, and the payload sum
  of a batch is a 32-bit word. What runs under one lock, or as one op of the scheduler's run loop, is
  one step; interleavings are the steps of an inductive relation.

  \<^bold>\<open>Concurrency strategies\<close> (\<open>src/pkg/scheduling/v1/concurrency\<close>).

  \<^item> \<open>Undo_Heap\<close> (\<open>heap.go\<close>): the binary heap with a position index kept outside and an undo journal.
    The locale \<open>indexed_heap\<close> holds the laws of the comparator and of the index; inside it every write
    keeps the heap order, the index and the journal, and a rollback restores the elements.
  \<^item> \<open>Slot_Index\<close> (\<open>slot.go\<close>, \<open>index.go\<close>): two heaps that share one map of positions, with the three
    orders of the strategies. It is a map from task ids to slots; a pop returns the smallest, and
    \<open>popTimedOut\<close> exactly the slots whose timeout has passed (C24).
  \<^item> \<open>Running_Slots\<close> (\<open>running_slots.go\<close>): both representations of the running slots implement the same
    set (C25).
  \<^item> \<open>Sub_Queue\<close> (\<open>sub_queue.go\<close>, \<open>metrics.go\<close>): one key with its limit, its undo scope and its size.
  \<^item> \<open>Decide\<close> (\<open>strategy.go\<close>): the five decision functions (C2, C14, C22, C23) and the replay of messages,
    which refines a table of slot rows (C4). The two loops of \<open>decideCancelInProgress\<close> are partial
    functions, and C2 includes that they end.
  \<^item> \<open>Strategy\<close> (\<open>strategy.go\<close>): \<open>Run\<close>, \<open>Flush\<close>, the build of the index, the first pass over a
    built index and \<open>UpdateStrategy\<close>. A batch that fails leaves every key as it was (C3), a
    committed one settles (C20), a batch deals every row of the replayed table to one outcome (C19),
    \<open>Run\<close> returns once it sees the topic drained (C21), and a rollback may bring back an old limit
    (C39). The goroutines of a batch work on disjoint sub-queues and are modelled one after another,
    in any order.

  \<^bold>\<open>Scheduler\<close> (\<open>scheduler.go\<close>, \<open>action.go\<close>, \<open>slot.go\<close>, \<open>slot_pool.go\<close>, \<open>worker.go\<close>).

  \<^item> \<open>Slot_Pool\<close>: slots and pools as a store of objects, since actions and workers share them.
  \<^item> \<open>Worker_Ranking\<close>: label affinity and the order in which workers are tried (C28).
  \<^item> \<open>Starvation\<close>: the worker index of an action and its starvation entries.
  \<^item> \<open>Scheduler\<close>: the ops of the run loop: assigning a batch or one item, ack, nack, workers that come and
    go, and the phases of a replenish cycle.
  \<^item> \<open>Scheduler_Capacity\<close>, \<open>Scheduler_Replenish\<close>: the invariant \<open>sched_inv\<close>, and for every op how it
    moves slots between free, unacked and acked.
  \<^item> \<open>Cluster\<close>: the scheduler beside the database, as a step relation over all interleavings of reads,
    commits, acks and replenish phases. Committed and free slots never exceed what a worker has (C1),
    no slot is held twice (C15), every op returns (C16); the ack of an optimistic transaction before
    its commit breaks the first (C31).
  \<^item> \<open>Scheduler_Assign\<close>: the first worker that fits is chosen (C8), a replenish computes the capacity
    exactly (C17), and a cycle that finds an action saturated forgets its starvation (C40).
  \<^item> \<open>Try_Assign\<close> (\<open>tryAssign\<close>, \<open>src/internal/queueutils/batch.go\<close>): the assignment of a list of items
    in groups, proved once in the locale \<open>batch_runner\<close>. Every item gets exactly one outcome (C6), and
    the reservations of units follow it (C18, C35).

  \<^bold>\<open>Rate limiter\<close> (\<open>rate_limit.go\<close>). \<open>Rate_Limiter\<close>: reservations, flushes, refills and pauses. In any
  sequence of calls a granted use stays within the value last read, and so does every state for a key
  whose limit the database does not lower (C7); a use is granted exactly when its flushes succeed and
  every key with a row has the units left (C26); a flush calls the database when it is due and charges
  once (C27); two uses that both read before they reserve can overspend (C38). Clients use it through the locale \<open>reservations\<close>.

  \<^bold>\<open>Queuer\<close> (\<open>queuer.go\<close>, \<open>src/pkg/repository/scheduler_queue.go\<close>). \<open>Queue_Repository\<close> models the transaction
  that marks items processed, \<open>Queuer\<close> the loop with its timers, refill, ack and flush, and
  \<open>Queuer_Tick\<close> has the properties, over the interface \<open>queue_marker\<close> of the repository: a flush
  settles every assignment (C9), a tick gives every item back (C5), no item is handed out twice
  (C10), and what goes wrong with two copies of a task or in an optimistic transaction (C32, C36,
  C37).

  \<^bold>\<open>Batch scheduler\<close> (\<open>batch_scheduler.go\<close>, \<open>src/pkg/repository/scheduler_queue.go\<close>). \<open>Batch_Repository\<close>
  models the reservation and the commit of a batch run, \<open>Batch_Scheduler\<close> the buffers, the flush and
  the tick. \<open>Batch_Flush\<close> shows, over the interface \<open>batch_committer\<close> of the repository, that a flush
  settles the slots it takes (C11) and keeps or hands over the items of a queue as a whole (C12), and
  what an error in the middle of it strands (C33). \<open>Batch_Tick\<close> shows that no item is buffered twice
  (C13), that the payload limit is exact while the 32-bit sum cannot wrap (C29), that the loop
  behind it does not end without a free worker while the loop for full batches does (C30), and that
  a step with a flush interval is never evicted (C34).

  \<^bold>\<open>Shared.\<close> \<open>Hatchet_Prelude\<close> has the conversions, the comparator locale and lemmas on lists, multisets
  and association lists; \<open>Enumerables\<close> models \<open>src/internal/enumerables\<close>.

  \<^bold>\<open>Bounds.\<close> There is no fuel. Loops that may not end are partial functions in the option monad
  (\<open>trim_loop\<close>, \<open>merge_loop\<close>, \<open>memory_flush\<close>); every other loop is structural or has a termination
  proof. Heaps hold fewer than \<open>2 ^ 31 - 1\<close> slots where positions are stored as \<open>int32\<close>, and limits fit
  their \<open>int32\<close>; both are hypotheses where they are needed. Strings hold code points up to 255.

  \<^bold>\<open>Not modelled.\<close> Telemetry, logging and metrics, which change no state. The lease manager, the tenant
  manager, the pool and the concurrency manager (\<open>lease_manager.go\<close>, \<open>tenant_manager.go\<close>, \<open>pool.go\<close>,
  \<open>concurrency.go\<close>), which start and stop the modelled parts and pass lists between goroutines:
  they consist of channels, contexts and SQL. The SQL statements, the outbox library and the JSON
  decoder are not Go code of the package and appear as parameters. The test hook \<open>assignOverride\<close> of
  the batch scheduler. The other services, the API, the command line programs, the clients and the
  frontend, which take no part in scheduling decisions.
\<close>

end
